(* ===== verification/Kernel_Prelude.thy ===== *)
theory Kernel_Prelude
  imports Main "HOL-Library.Word" "HOL-Library.Monad_Syntax"
begin

text \<open>
  What the components of the development share: the names of the machine types of
  \<^verbatim>\<open>include/type.h\<close>, the collections of simplification rules, bounded loops, byte buffers
  and the generic facts about them.

  A C function whose behaviour is undefined on some input (a null pointer dereference, an
  access outside an array, a value-returning function that falls off its end) or that does
  not return is modelled by a function into \<^typ>\<open>'a option\<close>; \<^const>\<open>None\<close> is
  "no defined outcome".
\<close>

unbundle bit_operations_syntax

type_synonym u8 = "8 word"
type_synonym u32 = "32 word"

text \<open>
  A byte buffer (a \<open>char\<close> array or the bytes behind a \<open>char *\<close>) is a function from the
  offset to the byte. Where an access may leave the C object, the definitions that make the
  access check the bound.
\<close>

type_synonym buffer = "nat \<Rightarrow> u8"

named_theorems kqueue_simps \<open>unfolding the operations of kernel/sched/queue.c\<close>
named_theorems sched_frame \<open>what an operation leaves unchanged\<close>
named_theorems sched_unfold \<open>unfolding the small operations of kernel/sched/sched.c\<close>
named_theorems fs_unfold \<open>unfolding the small operations of kernel/fs/fs.c\<close>

subsection \<open>Characters and literals\<close>

text \<open>The bytes of a string literal, and a value as the C string in a zero-filled buffer.\<close>

definition cs :: "string \<Rightarrow> u8 list" where
  "cs t = map (\<lambda>c. word_of_nat (of_char c)) t"

definition buf_of :: "u8 list \<Rightarrow> buffer" where
  "buf_of xs = (\<lambda>i. if i < length xs then xs ! i else 0)"

text \<open>The bytes \<open>[0, n)\<close> of a buffer.\<close>

definition bytes :: "buffer \<Rightarrow> nat \<Rightarrow> u8 list" where
  "bytes b n = map b [0..<n]"

lemma cs_Nil [simp]: "cs [] = []"
  by (simp add: cs_def)

lemma cs_Cons [simp]: "cs (c # t) = word_of_nat (of_char c) # cs t"
  by (simp add: cs_def)

lemma length_cs [simp]: "length (cs t) = length t"
  by (simp add: cs_def)

lemma buf_of_end [simp]: "length xs \<le> i \<Longrightarrow> buf_of xs i = 0"
  by (simp add: buf_of_def)

lemma buf_of_nth [simp]: "i < length xs \<Longrightarrow> buf_of xs i = xs ! i"
  by (simp add: buf_of_def)

lemma length_bytes [simp]: "length (bytes b n) = n"
  by (simp add: bytes_def)

lemma nth_bytes [simp]: "i < n \<Longrightarrow> bytes b n ! i = b i"
  by (simp add: bytes_def)

subsection \<open>Counting loops\<close>

text \<open>
  \<open>for_upto i n f s\<close> is \<open>for (k = i; k < n; ++k) s = f k s\<close>; \<open>for_upto_opt\<close> is the
  same loop with a body that may have no defined outcome.
\<close>

definition for_upto :: "nat \<Rightarrow> nat \<Rightarrow> (nat \<Rightarrow> 's \<Rightarrow> 's) \<Rightarrow> 's \<Rightarrow> 's" where
  "for_upto i n f s = fold f [i..<n] s"

fun fold_opt :: "('a \<Rightarrow> 's \<Rightarrow> 's option) \<Rightarrow> 'a list \<Rightarrow> 's \<Rightarrow> 's option" where
  "fold_opt f [] s = Some s"
| "fold_opt f (x # xs) s = (case f x s of None \<Rightarrow> None | Some s' \<Rightarrow> fold_opt f xs s')"

definition for_upto_opt :: "nat \<Rightarrow> nat \<Rightarrow> (nat \<Rightarrow> 's \<Rightarrow> 's option) \<Rightarrow> 's \<Rightarrow> 's option" where
  "for_upto_opt i n f s = fold_opt f [i..<n] s"

text \<open>\<open>first_index i n P\<close>: the loop \<open>for (k = i; k < n; ++k) if (P k) break;\<close>, as the index it
  stops at.\<close>

definition first_index :: "nat \<Rightarrow> nat \<Rightarrow> (nat \<Rightarrow> bool) \<Rightarrow> nat option" where
  "first_index i n P = List.find P [i..<n]"

lemma for_upto_empty [simp]: "n \<le> i \<Longrightarrow> for_upto i n f s = s"
  by (simp add: for_upto_def)

lemma for_upto_Suc: "i \<le> n \<Longrightarrow> for_upto i (Suc n) f s = f n (for_upto i n f s)"
  by (simp add: for_upto_def)

lemma for_upto_first: "i < n \<Longrightarrow> for_upto i n f s = for_upto (Suc i) n f (f i s)"
  by (simp add: for_upto_def upt_conv_Cons)

lemma for_upto_cong:
  "(\<And>k t. a \<le> k \<Longrightarrow> k < b \<Longrightarrow> f k t = g k t) \<Longrightarrow> for_upto a b f s = for_upto a b g s"
  unfolding for_upto_def by (rule fold_cong) auto

text \<open>The invariant rule of the counting loop.\<close>

lemma for_upto_inv:
  assumes "I i s"
    and "\<And>k s. i \<le> k \<Longrightarrow> k < n \<Longrightarrow> I k s \<Longrightarrow> I (Suc k) (f k s)"
    and "i \<le> n"
  shows "I n (for_upto i n f s)"
proof -
  have "i \<le> m \<Longrightarrow> m \<le> n \<Longrightarrow> I m (for_upto i m f s)" for m
  proof (induction m)
    case 0
    then show ?case using assms(1) by simp
  next
    case (Suc m)
    show ?case
    proof (cases "i = Suc m")
      case True
      then show ?thesis using assms(1) by simp
    next
      case False
      with Suc have "I m (for_upto i m f s)" by simp
      with Suc.prems False show ?thesis
        using assms(2) [of m "for_upto i m f s"] by (simp add: for_upto_Suc)
    qed
  qed
  then show ?thesis using assms(3) by simp
qed

text \<open>A loop that stores a computed value at consecutive indices.\<close>

lemma for_upto_store:
  "for_upto 0 n (\<lambda>k b. b(o' + k := v k)) b =
     (\<lambda>i. if o' \<le> i \<and> i < o' + n then v (i - o') else b i)"
  by (induction n) (auto simp: for_upto_Suc fun_eq_iff less_Suc_eq)

lemma fold_opt_append:
  "fold_opt f (xs @ ys) s = (case fold_opt f xs s of None \<Rightarrow> None | Some s' \<Rightarrow> fold_opt f ys s')"
  by (induction xs arbitrary: s) (auto split: option.splits)

lemma fold_opt_Some: "fold_opt (\<lambda>x s. Some (f x s)) xs s = Some (fold f xs s)"
  by (induction xs arbitrary: s) auto

lemma concat_replicate_Suc: "concat (replicate (Suc m) xs) = concat (replicate m xs) @ xs"
  by (induction m) simp_all

lemma for_upto_opt_empty [simp]: "n \<le> i \<Longrightarrow> for_upto_opt i n f s = Some s"
  by (simp add: for_upto_opt_def)

lemma for_upto_opt_Suc:
  "i \<le> n \<Longrightarrow> for_upto_opt i (Suc n) f s =
     (case for_upto_opt i n f s of None \<Rightarrow> None | Some s' \<Rightarrow> f n s')"
  by (auto simp: for_upto_opt_def fold_opt_append split: option.splits)

lemma for_upto_opt_inv:
  assumes "I i s"
    and "\<And>k s. i \<le> k \<Longrightarrow> k < n \<Longrightarrow> I k s \<Longrightarrow> \<exists>s'. f k s = Some s' \<and> I (Suc k) s'"
    and "i \<le> n"
  shows "\<exists>s'. for_upto_opt i n f s = Some s' \<and> I n s'"
proof -
  have "i \<le> m \<Longrightarrow> m \<le> n \<Longrightarrow> \<exists>s'. for_upto_opt i m f s = Some s' \<and> I m s'" for m
  proof (induction m)
    case 0
    then show ?case using assms(1) by simp
  next
    case (Suc m)
    show ?case
    proof (cases "i = Suc m")
      case True
      then show ?thesis using assms(1) by simp
    next
      case False
      with Suc obtain s1 where "for_upto_opt i m f s = Some s1" "I m s1" by auto
      with Suc.prems False show ?thesis
        using assms(2) [of m s1] by (auto simp: for_upto_opt_Suc)
    qed
  qed
  then show ?thesis using assms(3) by simp
qed

lemma first_index_Some:
  "first_index i n P = Some k \<longleftrightarrow> i \<le> k \<and> k < n \<and> P k \<and> (\<forall>j. i \<le> j \<and> j < k \<longrightarrow> \<not> P j)"
proof -
  have "List.find P [i..<n] = Some k \<longleftrightarrow>
      (\<exists>m < length [i..<n]. P ([i..<n] ! m) \<and> k = [i..<n] ! m \<and> (\<forall>j<m. \<not> P ([i..<n] ! j)))"
    by (auto simp: find_Some_iff)
  also have "\<dots> \<longleftrightarrow> i \<le> k \<and> k < n \<and> P k \<and> (\<forall>j. i \<le> j \<and> j < k \<longrightarrow> \<not> P j)" (is "?L = ?R")
  proof
    assume ?L
    then obtain m where m: "m < n - i" "P (i + m)" "k = i + m"
      and before: "\<And>j. j < m \<Longrightarrow> \<not> P ([i..<n] ! j)" by auto
    have "\<not> P j" if "i \<le> j" "j < k" for j
      using before [of "j - i"] that m by simp
    with m show ?R by auto
  next
    assume ?R
    then show ?L by (intro exI [of _ "k - i"]) auto
  qed
  finally show ?thesis by (simp add: first_index_def)
qed

lemma first_index_None: "first_index i n P = None \<longleftrightarrow> (\<forall>k. i \<le> k \<and> k < n \<longrightarrow> \<not> P k)"
  by (auto simp: first_index_def find_None_iff)

subsection \<open>Words\<close>

lemma unat_u32_less [simp]: "unat (x :: u32) < 4294967296"
  using unsigned_less [of x] by simp

lemma word_of_nat_unat [simp]: "(word_of_nat (unat x) :: 'a::len word) = x"
  by (simp add: word_unat_eq_iff unsigned_of_nat take_bit_nat_eq_self)

lemma unat_add_u32: "unat (a :: u32) + unat b < 4294967296 \<Longrightarrow> unat (a + b) = unat a + unat b"
  by (simp add: unat_word_ariths)

lemma unat_of_nat_u32: "n < 4294967296 \<Longrightarrow> unat (word_of_nat n :: u32) = n"
  by (simp add: unat_of_nat)

subsection \<open>Chains of pointers\<close>

text \<open>
  \<open>chain f p xs e\<close>: following the pointer field \<open>f\<close> from \<open>p\<close> visits exactly the nodes
  \<open>xs\<close> and ends in \<open>e\<close>. A pointer is \<^typ>\<open>nat option\<close>, \<^const>\<open>None\<close> being NULL.
\<close>

primrec chain :: "(nat \<Rightarrow> nat option) \<Rightarrow> nat option \<Rightarrow> nat list \<Rightarrow> nat option \<Rightarrow> bool" where
  "chain f p [] e \<longleftrightarrow> p = e"
| "chain f p (x # xs) e \<longleftrightarrow> p = Some x \<and> chain f (f x) xs e"

lemma chain_append: "chain f p (xs @ ys) e \<longleftrightarrow> (\<exists>m. chain f p xs m \<and> chain f m ys e)"
  by (induction xs arbitrary: p) auto

lemma chain_upd_other: "x \<notin> set xs \<Longrightarrow> chain (f(x := v)) p xs e = chain f p xs e"
  by (induction xs arbitrary: p) auto

lemma chain_cong: "(\<And>x. x \<in> set xs \<Longrightarrow> f x = g x) \<Longrightarrow> chain f p xs e = chain g p xs e"
  by (induction xs arbitrary: p) auto

lemma chain_None_Nil: "chain f None xs None \<longleftrightarrow> xs = []"
  by (cases xs) auto

lemma chain_det: "chain f p xs None \<Longrightarrow> chain f p ys None \<Longrightarrow> xs = ys"
proof (induction xs arbitrary: p ys)
  case Nil
  then show ?case by (simp add: chain_None_Nil)
next
  case (Cons x xs)
  then show ?case by (cases ys) auto
qed

lemma chain_hd_notin: "chain f (f x) xs None \<Longrightarrow> x \<notin> set xs"
proof
  assume c: "chain f (f x) xs None" and "x \<in> set xs"
  then obtain us vs where xs: "xs = us @ x # vs" by (auto dest: split_list)
  with c have "chain f (f x) vs None" by (auto simp: chain_append)
  with c xs have "us @ x # vs = vs" by (auto dest: chain_det)
  then have "length (us @ x # vs) = length vs" by simp
  then show False by simp
qed

lemma chain_distinct: "chain f p xs None \<Longrightarrow> distinct xs"
  by (induction xs arbitrary: p) (auto dest: chain_hd_notin)

lemma chain_snoc_upd:
  "chain f p xs e \<Longrightarrow> xs \<noteq> [] \<Longrightarrow> distinct xs \<Longrightarrow>
     chain (f(last xs := Some y)) p (xs @ [y]) ((f(last xs := Some y)) y)"
  by (induction xs arbitrary: p) (auto simp: chain_upd_other split: if_splits)

subsection \<open>Allocators\<close>

text \<open>
  What the clients of an allocator rely on. The kernel has two kinds, the stack of page frames and the bit
  maps of the file system; both are instances. \<open>inv m A\<close> says that the items \<open>A\<close> are allocated in the
  state \<open>m\<close>; the client frees only what is allocated.
\<close>

locale allocator =
  fixes alloc :: "'m \<Rightarrow> ('a \<times> 'm) option"
    and free :: "'a \<Rightarrow> 'm \<Rightarrow> 'm"
    and inv :: "'m \<Rightarrow> 'a set \<Rightarrow> bool"
    and cap :: nat
  assumes alloc_fresh: "inv m A \<Longrightarrow> card A < cap \<Longrightarrow>
      \<exists>a m'. alloc m = Some (a, m') \<and> a \<notin> A \<and> inv m' (insert a A)"
    and alloc_full: "inv m A \<Longrightarrow> cap \<le> card A \<Longrightarrow> alloc m = None"
    and free_inv: "inv m A \<Longrightarrow> a \<in> A \<Longrightarrow> inv (free a m) (A - {a})"
    and inv_finite: "inv m A \<Longrightarrow> finite A"

text \<open>A client that allocates several items in a row.\<close>

primrec alloc_many :: "('m \<Rightarrow> ('a \<times> 'm) option) \<Rightarrow> nat \<Rightarrow> 'm \<Rightarrow> ('a list \<times> 'm) option" where
  "alloc_many alloc 0 m = Some ([], m)"
| "alloc_many alloc (Suc n) m =
     (case alloc m of None \<Rightarrow> None
      | Some (a, m1) \<Rightarrow>
         (case alloc_many alloc n m1 of None \<Rightarrow> None | Some (as, m2) \<Rightarrow> Some (a # as, m2)))"

context allocator
begin

lemma alloc_many_distinct:
  "inv m A \<Longrightarrow> card A + n \<le> cap \<Longrightarrow>
     \<exists>as m'. alloc_many alloc n m = Some (as, m') \<and> length as = n \<and> distinct as \<and>
       set as \<inter> A = {} \<and> inv m' (A \<union> set as)"
proof (induction n arbitrary: m A)
  case 0
  then show ?case by simp
next
  case (Suc n)
  then obtain a m1 where a: "alloc m = Some (a, m1)" "a \<notin> A" "inv m1 (insert a A)"
    using alloc_fresh [of m A] by auto
  have "card (insert a A) + n \<le> cap"
    using Suc.prems a(2) inv_finite by simp
  with Suc.IH [OF a(3)] obtain as m2 where
    "alloc_many alloc n m1 = Some (as, m2)" "length as = n" "distinct as"
    "set as \<inter> insert a A = {}" "inv m2 (insert a A \<union> set as)" by blast
  with a show ?case by (intro exI [of _ "a # as"] exI [of _ m2]) auto
qed

lemma alloc_many_exhausts:
  "inv m A \<Longrightarrow> card A \<le> cap \<Longrightarrow> cap < card A + n \<Longrightarrow> alloc_many alloc n m = None"
proof (induction n arbitrary: m A)
  case 0
  then show ?case by simp
next
  case (Suc n)
  show ?case
  proof (cases "card A < cap")
    case True
    then obtain a m1 where a: "alloc m = Some (a, m1)" "a \<notin> A" "inv m1 (insert a A)"
      using alloc_fresh [of m A] Suc.prems by auto
    have "card (insert a A) \<le> cap" "cap < card (insert a A) + n"
      using True Suc.prems a(2) inv_finite by simp_all
    with Suc.IH [OF a(3)] a(1) show ?thesis by simp
  next
    case False
    then show ?thesis using alloc_full [of m A] Suc.prems by simp
  qed
qed

end

end
