(* ===== verification/Kqueue.thy ===== *)
theory Kqueue
  imports Kernel_Prelude
begin

text \<open>
  \<^verbatim>\<open>kernel/sched/queue.c\<close>: the intrusive doubly linked queues of process control blocks.

  The items of every queue are PCBs, numbered by their index in the array \<open>pcb\<close>; a pointer
  to a PCB is \<^typ>\<open>nat option\<close>. The fields \<open>next\<close> and \<open>prev\<close> of all PCBs are the record
  \<open>links\<close>, so that an operation on one queue is seen to write the fields of the PCBs it
  touches, which all queues share. Functions whose C code dereferences a pointer that may be
  NULL return an option.
\<close>

subsection \<open>Data\<close>

record links =
  next_of :: "nat \<Rightarrow> nat option"
  prev_of :: "nat \<Rightarrow> nat option"

record queue_t =
  q_head :: "nat option"
  q_tail :: "nat option"

definition set_next :: "nat \<Rightarrow> nat option \<Rightarrow> links \<Rightarrow> links" where
  "set_next i v h = h\<lparr>next_of := (next_of h)(i := v)\<rparr>"

definition set_prev :: "nat \<Rightarrow> nat option \<Rightarrow> links \<Rightarrow> links" where
  "set_prev i v h = h\<lparr>prev_of := (prev_of h)(i := v)\<rparr>"

subsection \<open>Operations\<close>

definition queue_init :: "queue_t \<Rightarrow> queue_t" where
  "queue_init q = q\<lparr>q_head := None, q_tail := None\<rparr>"

definition queue_is_empty :: "queue_t \<Rightarrow> bool" where
  "queue_is_empty q \<longleftrightarrow> q_head q = None"

definition queue_push :: "nat \<Rightarrow> links \<Rightarrow> queue_t \<Rightarrow> (links \<times> queue_t) option" where
  "queue_push item h q =
     (if q_head q = None
      then Some (set_prev item None (set_next item None h),
                 q\<lparr>q_head := Some item, q_tail := Some item\<rparr>)
      else do {
        t \<leftarrow> q_tail q;
        Some (set_prev item (Some t) (set_next item None (set_next t (Some item) h)),
              q\<lparr>q_tail := Some item\<rparr>) })"

text \<open>The walk of \<open>queue_push_if_not_exist\<close> along the \<open>next\<close> fields: whether the item is met.\<close>

partial_function (option) queue_walk :: "(nat \<Rightarrow> nat option) \<Rightarrow> nat \<Rightarrow> nat option \<Rightarrow> bool option" where
  "queue_walk nx item p =
     (case p of
        None \<Rightarrow> Some False
      | Some i \<Rightarrow> if i = item then Some True else queue_walk nx item (nx i))"

definition queue_push_if_not_exist :: "nat \<Rightarrow> links \<Rightarrow> queue_t \<Rightarrow> (links \<times> queue_t) option" where
  "queue_push_if_not_exist item h q = do {
     found \<leftarrow> queue_walk (next_of h) item (q_head q);
     if found then Some (h, q) else queue_push item h q }"

definition queue_dequeue :: "links \<Rightarrow> queue_t \<Rightarrow> nat option \<times> links \<times> queue_t" where
  "queue_dequeue h q =
     (case q_head q of
        None \<Rightarrow> (None, h, q)
      | Some temp \<Rightarrow>
          (let (h', q') =
             (case next_of h temp of
                None \<Rightarrow> (h, q\<lparr>q_head := None, q_tail := None\<rparr>)
              | Some n \<Rightarrow> (set_prev n None h, q\<lparr>q_head := Some n\<rparr>))
           in (Some temp, set_next temp None (set_prev temp None h'), q')))"

text \<open>
  In the last case of \<open>queue_remove\<close> the C code writes through \<open>pcb->next\<close>, where \<open>pcb\<close> is
  the global array, that is through \<open>pcb[0].next\<close>.
\<close>

definition queue_remove :: "nat \<Rightarrow> links \<Rightarrow> queue_t \<Rightarrow> (nat option \<times> links \<times> queue_t) option" where
  "queue_remove item h q =
     (let nx = next_of h item; pv = prev_of h item in do {
        (h', q') \<leftarrow>
          (if q_head q = Some item \<and> q_tail q = Some item
           then Some (h, q\<lparr>q_head := None, q_tail := None\<rparr>)
           else if q_head q = Some item
           then do { n \<leftarrow> nx; Some (set_prev n None h, q\<lparr>q_head := Some n\<rparr>) }
           else if q_tail q = Some item
           then do { p \<leftarrow> pv; Some (set_next p None h, q\<lparr>q_tail := Some p\<rparr>) }
           else do {
             p \<leftarrow> pv;
             let h1 = set_next p nx h;
             z \<leftarrow> next_of h1 0;
             Some (set_prev z (prev_of h1 item) h1, q) });
        Some (nx, set_next item None (set_prev item None h'), q') })"

definition queue_top :: "queue_t \<Rightarrow> nat option" where
  "queue_top q = q_head q"

definition queue_insert_at_head :: "nat \<Rightarrow> links \<Rightarrow> queue_t \<Rightarrow> links \<times> queue_t" where
  "queue_insert_at_head item h q =
     (case q_head q of
        None \<Rightarrow> (h, q\<lparr>q_head := Some item\<rparr>)
      | Some old_hd \<Rightarrow> (set_next item (Some old_hd) h, q\<lparr>q_head := Some item\<rparr>))"

declare queue_walk.simps [code]

subsection \<open>The abstraction: a queue is a list\<close>

text \<open>
  \<open>queue_rep h q xs\<close>: the \<open>next\<close> fields lead from the head through \<open>xs\<close> to NULL and the
  \<open>prev\<close> fields lead from the tail back through \<open>xs\<close> to NULL. \<open>links_agree A h h'\<close>: the
  fields of PCBs outside \<open>A\<close> are the same in both states.
\<close>

definition queue_rep :: "links \<Rightarrow> queue_t \<Rightarrow> nat list \<Rightarrow> bool" where
  "queue_rep h q xs \<longleftrightarrow>
     chain (next_of h) (q_head q) xs None \<and> chain (prev_of h) (q_tail q) (rev xs) None"

definition links_agree :: "nat set \<Rightarrow> links \<Rightarrow> links \<Rightarrow> bool" where
  "links_agree A h h' \<longleftrightarrow>
     (\<forall>i. i \<notin> A \<longrightarrow> next_of h' i = next_of h i \<and> prev_of h' i = prev_of h i)"

lemma set_next_simps [simp]:
  "next_of (set_next i v h) = (next_of h)(i := v)"
  "prev_of (set_next i v h) = prev_of h"
  by (simp_all add: set_next_def)

lemma set_prev_simps [simp]:
  "prev_of (set_prev i v h) = (prev_of h)(i := v)"
  "next_of (set_prev i v h) = next_of h"
  by (simp_all add: set_prev_def)

lemma links_agree_refl [simp]: "links_agree A h h"
  by (simp add: links_agree_def)

lemma links_agree_trans:
  "links_agree A h h' \<Longrightarrow> links_agree B h' h'' \<Longrightarrow> links_agree (A \<union> B) h h''"
  by (simp add: links_agree_def)

lemma links_agree_mono: "links_agree A h h' \<Longrightarrow> A \<subseteq> B \<Longrightarrow> links_agree B h h'"
  by (auto simp: links_agree_def)

lemma queue_rep_distinct: "queue_rep h q xs \<Longrightarrow> distinct xs"
  by (auto simp: queue_rep_def dest: chain_distinct)

lemma queue_rep_agree:
  assumes "queue_rep h q xs" "links_agree A h h'" "set xs \<inter> A = {}"
  shows "queue_rep h' q xs"
proof -
  have "chain (next_of h') p xs e = chain (next_of h) p xs e"
    "chain (prev_of h') p (rev xs) e = chain (prev_of h) p (rev xs) e" for p e
    using assms(2,3) by (auto simp: links_agree_def intro!: chain_cong)
  with assms(1) show ?thesis by (simp add: queue_rep_def)
qed

lemma queue_rep_Nil [simp]: "queue_rep h q [] \<longleftrightarrow> q_head q = None \<and> q_tail q = None"
  by (auto simp: queue_rep_def)

lemma queue_rep_init [simp]: "queue_rep h (queue_init q) []"
  by (simp add: queue_init_def)

lemma queue_rep_head: "queue_rep h q xs \<Longrightarrow> q_head q = (case xs of [] \<Rightarrow> None | x # _ \<Rightarrow> Some x)"
  by (cases xs) (auto simp: queue_rep_def)

lemma queue_rep_tail: "queue_rep h q xs \<Longrightarrow> xs \<noteq> [] \<Longrightarrow> q_tail q = Some (last xs)"
  by (cases xs rule: rev_cases) (auto simp: queue_rep_def)

lemma queue_rep_unique: "queue_rep h q xs \<Longrightarrow> queue_rep h q ys \<Longrightarrow> xs = ys"
  by (auto simp: queue_rep_def dest: chain_det)

subsection \<open>Each operation on the abstraction\<close>

lemma queue_push_rep:
  assumes rep: "queue_rep h q xs" and new: "x \<notin> set xs"
  shows "\<exists>h' q'. queue_push x h q = Some (h', q') \<and> queue_rep h' q' (xs @ [x]) \<and>
    links_agree (insert x (set xs)) h h'"
proof (cases "xs = []")
  case True
  with rep show ?thesis by (auto simp: queue_push_def queue_rep_def links_agree_def)
next
  case False
  let ?t = "last xs"
  from False rep have hd: "q_head q \<noteq> None" and tl: "q_tail q = Some ?t"
    by (auto simp: queue_rep_head queue_rep_tail split: list.splits)
  let ?h = "set_prev x (Some ?t) (set_next x None (set_next ?t (Some x) h))"
  let ?q = "q\<lparr>q_tail := Some x\<rparr>"
  have push: "queue_push x h q = Some (?h, ?q)" using hd tl by (auto simp: queue_push_def)
  have nx: "chain (next_of ?h) (q_head ?q) (xs @ [x]) None"
  proof -
    have "chain ((next_of h)(?t := Some x)) (q_head q) (xs @ [x]) (((next_of h)(?t := Some x)) x)"
      using rep False by (intro chain_snoc_upd) (auto simp: queue_rep_def dest: chain_distinct)
    then have "chain ((next_of h)(?t := Some x)) (q_head q) xs (Some x)"
      by (auto simp: chain_append)
    then show ?thesis using new by (auto simp: chain_append chain_upd_other)
  qed
  have pv: "chain (prev_of ?h) (q_tail ?q) (rev (xs @ [x])) None"
    using rep new tl by (simp add: queue_rep_def chain_upd_other)
  have "?t \<in> set xs" using False by simp
  then have "links_agree (insert x (set xs)) h ?h" by (auto simp: links_agree_def)
  with push nx pv show ?thesis by (auto simp: queue_rep_def)
qed

lemma queue_walk_chain:
  "chain nx p xs None \<Longrightarrow> queue_walk nx item p = Some (item \<in> set xs)"
proof (induction xs arbitrary: p)
  case Nil
  then show ?case by (simp add: queue_walk.simps)
next
  case (Cons x xs)
  then show ?case by (subst queue_walk.simps) auto
qed

lemma queue_push_if_not_exist_rep:
  assumes "queue_rep h q xs"
  shows "\<exists>h' q'. queue_push_if_not_exist x h q = Some (h', q') \<and>
    queue_rep h' q' (if x \<in> set xs then xs else xs @ [x]) \<and>
    links_agree (insert x (set xs)) h h'"
proof (cases "x \<in> set xs")
  case True
  with assms show ?thesis
    by (auto simp: queue_push_if_not_exist_def queue_rep_def queue_walk_chain)
next
  case False
  with assms queue_push_rep [OF assms False] show ?thesis
    by (auto simp: queue_push_if_not_exist_def queue_walk_chain queue_rep_def)
qed

lemma queue_dequeue_Nil: "queue_rep h q [] \<Longrightarrow> queue_dequeue h q = (None, h, q)"
  by (simp add: queue_dequeue_def)

lemma queue_dequeue_Cons:
  assumes rep: "queue_rep h q (x # xs)"
  shows "\<exists>h' q'. queue_dequeue h q = (Some x, h', q') \<and> queue_rep h' q' xs \<and>
    links_agree (insert x (set xs)) h h' \<and> next_of h' x = None \<and> prev_of h' x = None"
proof -
  from rep have hd: "q_head q = Some x" and ch: "chain (next_of h) (next_of h x) xs None"
    and pv: "chain (prev_of h) (q_tail q) (rev xs @ [x]) None"
    by (auto simp: queue_rep_def)
  from ch have nin: "x \<notin> set xs" by (rule chain_hd_notin)
  show ?thesis
  proof (cases xs)
    case Nil
    with hd ch show ?thesis by (auto simp: queue_dequeue_def links_agree_def)
  next
    case (Cons y ys)
    with ch have nx: "next_of h x = Some y" and ch': "chain (next_of h) (next_of h y) ys None" by auto
    from ch have dist: "distinct xs" by (rule chain_distinct)
    let ?h = "set_next x None (set_prev x None (set_prev y None h))"
    have deq: "queue_dequeue h q = (Some x, ?h, q\<lparr>q_head := Some y\<rparr>)"
      using hd nx by (simp add: queue_dequeue_def)
    have "chain (prev_of h) (q_tail q) (rev ys) (Some y)"
      using pv Cons by (auto simp: chain_append)
    then have "chain (prev_of ?h) (q_tail q) (rev xs) None"
      using Cons dist nin by (auto simp: chain_append chain_upd_other)
    moreover have "chain (next_of ?h) (Some y) xs None"
      using Cons ch' nin by (simp add: chain_upd_other)
    ultimately have "queue_rep ?h (q\<lparr>q_head := Some y\<rparr>) xs" by (simp add: queue_rep_def)
    moreover have "links_agree (insert x (set xs)) h ?h" using Cons by (auto simp: links_agree_def)
    ultimately show ?thesis using deq by auto
  qed
qed

text \<open>Removing the only, the first and the last item; the interior case is below.\<close>

lemma queue_remove_head:
  assumes "queue_rep h q (x # xs)"
  shows "queue_remove x h q =
    (case queue_dequeue h q of (_, h', q') \<Rightarrow> Some (next_of h x, h', q'))"
proof -
  from assms have hd: "q_head q = Some x" and ch: "chain (next_of h) (next_of h x) xs None"
    by (auto simp: queue_rep_def)
  show ?thesis
  proof (cases xs)
    case Nil
    with assms hd ch show ?thesis
      by (simp add: queue_remove_def queue_dequeue_def queue_rep_tail)
  next
    case (Cons y ys)
    with ch have nx: "next_of h x = Some y" by simp
    have "last xs \<noteq> x"
      using Cons queue_rep_distinct [OF assms] last_in_set [of xs] by auto
    then have "q_tail q \<noteq> Some x" using assms Cons by (simp add: queue_rep_tail)
    with hd nx show ?thesis by (simp add: queue_remove_def queue_dequeue_def Let_def)
  qed
qed

lemma queue_remove_tail:
  assumes rep: "queue_rep h q (xs @ [x])" and ne: "xs \<noteq> []"
  shows "\<exists>h' q'. queue_remove x h q = Some (None, h', q') \<and> queue_rep h' q' xs \<and>
    links_agree (insert x (set xs)) h h'"
proof -
  let ?p = "last xs"
  have dist: "distinct (xs @ [x])" using rep by (rule queue_rep_distinct)
  from rep have nx: "next_of h x = None" and ch: "chain (next_of h) (q_head q) xs (Some x)"
    and tl: "q_tail q = Some x" and pv: "chain (prev_of h) (prev_of h x) (rev xs) None"
    by (auto simp: queue_rep_def chain_append)
  obtain zs where xs: "xs = zs @ [?p]" using ne by (metis append_butlast_last_id)
  have px: "prev_of h x = Some ?p" using pv xs by (metis chain.simps(2) rev_eq_Cons_iff rev_rev_ident)
  have hd: "q_head q \<noteq> Some x" using rep ne dist by (cases xs) (auto simp: queue_rep_def)
  let ?h = "set_next x None (set_prev x None (set_next ?p None h))"
  have rem: "queue_remove x h q = Some (None, ?h, q\<lparr>q_tail := Some ?p\<rparr>)"
    using nx tl px hd by (simp add: queue_remove_def)
  have "chain (next_of h) (q_head q) zs (Some ?p)"
    using ch by (subst (asm) xs) (auto simp: chain_append)
  moreover have "distinct (zs @ [?p, x])" using dist by (subst (asm) xs) simp
  ultimately have "chain (next_of ?h) (q_head q) (zs @ [?p]) None"
    by (auto simp: chain_append chain_upd_other)
  then have "chain (next_of ?h) (q_head q) xs None" using xs by simp
  moreover have "chain (prev_of ?h) (Some ?p) (rev xs) None"
    using pv px dist by (simp add: chain_upd_other)
  ultimately have "queue_rep ?h (q\<lparr>q_tail := Some ?p\<rparr>) xs" by (simp add: queue_rep_def)
  moreover have "links_agree (insert x (set xs)) h ?h"
    using ne by (auto simp: links_agree_def)
  ultimately show ?thesis using rem by blast
qed

subsection \<open>The interface of a queue and what its clients use\<close>

text \<open>
  A client of the queue module sees the abstraction relation \<open>rep\<close>, the two operations and
  the frame relation \<open>agree\<close>. The laws say that a push appends, a pop removes the first item,
  and that neither touches the links of items outside the queue.
\<close>

locale fifo_queue =
  fixes rep :: "'h \<Rightarrow> 'q \<Rightarrow> 'a list \<Rightarrow> bool"
    and push :: "'a \<Rightarrow> 'h \<Rightarrow> 'q \<Rightarrow> ('h \<times> 'q) option"
    and pop :: "'h \<Rightarrow> 'q \<Rightarrow> 'a option \<times> 'h \<times> 'q"
    and agree :: "'a set \<Rightarrow> 'h \<Rightarrow> 'h \<Rightarrow> bool"
  assumes push_rep: "rep h q xs \<Longrightarrow> x \<notin> set xs \<Longrightarrow>
      \<exists>h' q'. push x h q = Some (h', q') \<and> rep h' q' (xs @ [x]) \<and> agree (insert x (set xs)) h h'"
    and pop_Nil: "rep h q [] \<Longrightarrow> pop h q = (None, h, q)"
    and pop_Cons: "rep h q (x # xs) \<Longrightarrow>
      \<exists>h' q'. pop h q = (Some x, h', q') \<and> rep h' q' xs \<and> agree (insert x (set xs)) h h'"
    and rep_agree: "rep h q xs \<Longrightarrow> agree A h h' \<Longrightarrow> set xs \<inter> A = {} \<Longrightarrow> rep h' q xs"
begin

lemma push_other:
  assumes "rep h q xs" "x \<notin> set xs" "rep h r ys" "set ys \<inter> insert x (set xs) = {}"
    "push x h q = Some (h', q')"
  shows "rep h' q' (xs @ [x]) \<and> rep h' r ys"
  using push_rep [OF assms(1,2)] assms(3,4,5) by (auto intro: rep_agree)

lemma pop_other:
  assumes "rep h q (x # xs)" "rep h r ys" "set ys \<inter> set (x # xs) = {}" "pop h q = (z, h', q')"
  shows "z = Some x \<and> rep h' q' xs \<and> rep h' r ys"
  using pop_Cons [OF assms(1)] assms(2,3,4) by (auto intro: rep_agree)

lemma push_fold:
  "rep h q xs \<Longrightarrow> distinct ys \<Longrightarrow> set ys \<inter> set xs = {} \<Longrightarrow>
     \<exists>h' q'. fold_opt (\<lambda>y (h, q). push y h q) ys (h, q) = Some (h', q') \<and> rep h' q' (xs @ ys)"
proof (induction ys arbitrary: h q xs)
  case Nil
  then show ?case by auto
next
  case (Cons y ys)
  then obtain h1 q1 where "push y h q = Some (h1, q1)" "rep h1 q1 (xs @ [y])"
    using push_rep [of h q xs y] by auto
  with Cons.IH [of h1 q1 "xs @ [y]"] Cons.prems show ?case by auto
qed

lemma pop_rep: "rep h q xs \<Longrightarrow>
  \<exists>h' q'. pop h q = ((case xs of [] \<Rightarrow> None | x # _ \<Rightarrow> Some x), h', q') \<and> rep h' q' (tl xs)"
  using pop_Nil [of h q] pop_Cons [of h q] by (cases xs) fastforce+

end

interpretation kq: fifo_queue queue_rep queue_push queue_dequeue links_agree
proof
  show "queue_rep h q xs \<Longrightarrow> x \<notin> set xs \<Longrightarrow>
      \<exists>h' q'. queue_push x h q = Some (h', q') \<and> queue_rep h' q' (xs @ [x]) \<and>
        links_agree (insert x (set xs)) h h'" for h q xs x
    by (rule queue_push_rep)
  show "queue_rep h q (x # xs) \<Longrightarrow>
      \<exists>h' q'. queue_dequeue h q = (Some x, h', q') \<and> queue_rep h' q' xs \<and>
        links_agree (insert x (set xs)) h h'" for h q x xs
    using queue_dequeue_Cons by blast
qed (auto intro: queue_dequeue_Nil queue_rep_agree)

subsection \<open>Properties\<close>

text \<open>The items a sequence of dequeues returns.\<close>

fun dequeue_n :: "nat \<Rightarrow> links \<Rightarrow> queue_t \<Rightarrow> nat option list" where
  "dequeue_n 0 h q = []"
| "dequeue_n (Suc n) h q = (case queue_dequeue h q of (x, h', q') \<Rightarrow> x # dequeue_n n h' q')"

lemma dequeue_n_rep: "queue_rep h q xs \<Longrightarrow> dequeue_n (Suc (length xs)) h q = map Some xs @ [None]"
proof (induction xs arbitrary: h q)
  case Nil
  then show ?case by (simp add: queue_dequeue_Nil)
next
  case (Cons x xs)
  then obtain h' q' where "queue_dequeue h q = (Some x, h', q')" "queue_rep h' q' xs"
    using queue_dequeue_Cons by blast
  with Cons.IH show ?case by simp
qed

text \<open>
  First in, first out. From a queue that holds \<open>xs\<close>, pushing the new, distinct items
  \<open>ys\<close> one after the other is defined at every step, and dequeuing then returns the items of
  \<open>xs\<close>, then those of \<open>ys\<close>, in order, and then NULL.
\<close>

theorem queue_fifo:
  assumes "queue_rep h q xs" "distinct ys" "set ys \<inter> set xs = {}"
  shows "\<exists>h' q'. fold_opt (\<lambda>y (h, q). queue_push y h q) ys (h, q) = Some (h', q') \<and>
    dequeue_n (Suc (length xs + length ys)) h' q' = map Some (xs @ ys) @ [None]"
proof -
  obtain h' q' where "fold_opt (\<lambda>y (h, q). queue_push y h q) ys (h, q) = Some (h', q')"
    and "queue_rep h' q' (xs @ ys)"
    using kq.push_fold [OF assms] by blast
  then show ?thesis using dequeue_n_rep [of h' q' "xs @ ys"] by auto
qed

theorem queue_fifo_witness:
  "\<exists>h' q'. fold_opt (\<lambda>y (h, q). queue_push y h q) [3, 1, 7]
      (\<lparr>next_of = \<lambda>_. None, prev_of = \<lambda>_. None\<rparr>, \<lparr>q_head = None, q_tail = None\<rparr>) = Some (h', q') \<and>
    dequeue_n 4 h' q' = [Some 3, Some 1, Some 7, None]"
  using queue_fifo [of "\<lparr>next_of = \<lambda>_. None, prev_of = \<lambda>_. None\<rparr>"
    "\<lparr>q_head = None, q_tail = None\<rparr>" "[]" "[3, 1, 7]"]
  by (simp add: numeral_eq_Suc)

text \<open>
  Queues do not interfere. Pushing an item onto one queue and dequeuing from another, when
  the two queues share no item and the new item is on neither, changes each queue as a list
  and leaves the other alone, although all queues thread the same \<open>next\<close> and \<open>prev\<close> fields.
\<close>

theorem queue_ops_frame:
  assumes "queue_rep h q xs" "queue_rep h r (y # ys)" "x \<notin> set (xs @ y # ys)"
    "set xs \<inter> set (y # ys) = {}"
  shows "\<exists>h1 q1 h2 r2. queue_push x h q = Some (h1, q1) \<and> queue_dequeue h1 r = (Some y, h2, r2) \<and>
    queue_rep h2 q1 (xs @ [x]) \<and> queue_rep h2 r2 ys"
proof -
  have "x \<notin> set xs" using assms(3) by simp
  then obtain h1 q1 where push: "queue_push x h q = Some (h1, q1)"
    using queue_push_rep [OF assms(1)] by blast
  have "queue_rep h1 q1 (xs @ [x]) \<and> queue_rep h1 r (y # ys)"
    by (rule kq.push_other [OF assms(1) _ assms(2) _ push]) (use assms(3,4) in auto)
  then have q1: "queue_rep h1 q1 (xs @ [x])" and r: "queue_rep h1 r (y # ys)" by auto
  obtain z h2 r2 where deq: "queue_dequeue h1 r = (z, h2, r2)" by (metis prod_cases3)
  have "z = Some y \<and> queue_rep h2 r2 ys \<and> queue_rep h2 q1 (xs @ [x])"
    by (rule kq.pop_other [OF r q1 _ deq]) (use assms(3,4) in auto)
  with push deq show ?thesis by blast
qed

theorem queue_ops_frame_witness:
  "\<exists>h1 q1 h2 r2.
     queue_push 5 \<lparr>next_of = \<lambda>_. None, prev_of = \<lambda>_. None\<rparr> \<lparr>q_head = Some 1, q_tail = Some 1\<rparr> = Some (h1, q1) \<and>
     queue_dequeue h1 \<lparr>q_head = Some 2, q_tail = Some 2\<rparr> = (Some 2, h2, r2) \<and>
     queue_rep h2 q1 [1, 5] \<and> queue_rep h2 r2 []"
  using queue_ops_frame [of "\<lparr>next_of = \<lambda>_. None, prev_of = \<lambda>_. None\<rparr>"
    "\<lparr>q_head = Some 1, q_tail = Some 1\<rparr>" "[1]" "\<lparr>q_head = Some 2, q_tail = Some 2\<rparr>" 2 "[]" 5]
  by (simp add: queue_rep_def)

text \<open>
  \<open>queue_push_if_not_exist\<close> always returns on a well-formed queue, appends the item when it
  is not on the queue and changes nothing when it is, so that it never enters an item twice.
\<close>

theorem queue_push_if_not_exist_spec:
  assumes "queue_rep h q xs"
  shows "if x \<in> set xs then queue_push_if_not_exist x h q = Some (h, q)
    else \<exists>h' q'. queue_push_if_not_exist x h q = Some (h', q') \<and> queue_rep h' q' (xs @ [x])"
  using assms queue_push_if_not_exist_rep [OF assms, of x]
  by (auto simp: queue_push_if_not_exist_def queue_walk_chain queue_rep_def)

theorem queue_push_if_not_exist_spec_witness:
  "queue_push_if_not_exist 2 \<lparr>next_of = (\<lambda>_. None)(1 := Some 2), prev_of = (\<lambda>_. None)(2 := Some 1)\<rparr>
      \<lparr>q_head = Some 1, q_tail = Some 2\<rparr> =
    Some (\<lparr>next_of = (\<lambda>_. None)(1 := Some 2), prev_of = (\<lambda>_. None)(2 := Some 1)\<rparr>,
      \<lparr>q_head = Some 1, q_tail = Some 2\<rparr>)"
  using queue_push_if_not_exist_spec [of
    "\<lparr>next_of = (\<lambda>_. None)(1 := Some 2), prev_of = (\<lambda>_. None)(2 := Some 1)\<rparr>"
    "\<lparr>q_head = Some 1, q_tail = Some 2\<rparr>" "[1, 2]" 2]
  by (simp add: queue_rep_def)

text \<open>
  Pushing an item that is already on the queue, not in last place, loses items: afterwards
  the \<open>next\<close> fields lead from the head to the item and stop there, and everything that was
  queued behind it is no longer reached. (\<open>do_spawn_with_priority\<close> pushes a reused PCB this
  way when the process it belonged to was killed while ready.)
\<close>

theorem queue_push_again_truncates:
  assumes "queue_rep h q (us @ x # vs)" "vs \<noteq> []"
  shows "\<exists>h' q'. queue_push x h q = Some (h', q') \<and> chain (next_of h') (q_head q') (us @ [x]) None"
proof -
  have dist: "distinct (us @ x # vs)" using assms(1) by (rule queue_rep_distinct)
  have hd: "q_head q \<noteq> None"
    using assms(1) by (auto simp: queue_rep_head split: list.splits)
  have tl: "q_tail q = Some (last vs)" using queue_rep_tail [OF assms(1)] assms(2) by simp
  have "last vs \<in> set vs" using assms(2) by simp
  with dist have "last vs \<notin> set us" by auto
  moreover have "chain (next_of h) (q_head q) us (Some x)"
    using assms(1) by (auto simp: queue_rep_def chain_append)
  ultimately have "chain ((next_of h)(last vs := Some x, x := None)) (q_head q) (us @ [x]) None"
    using dist by (auto simp: chain_append chain_upd_other)
  with hd tl show ?thesis by (auto simp: queue_push_def)
qed

theorem queue_push_again_truncates_witness:
  "\<exists>h' q'. queue_push 1 \<lparr>next_of = (\<lambda>_. None)(1 := Some 2, 2 := Some 3),
        prev_of = (\<lambda>_. None)(3 := Some 2, 2 := Some 1)\<rparr> \<lparr>q_head = Some 1, q_tail = Some 3\<rparr> = Some (h', q') \<and>
    chain (next_of h') (q_head q') [1] None"
  using queue_push_again_truncates [of
    "\<lparr>next_of = (\<lambda>_. None)(1 := Some 2, 2 := Some 3), prev_of = (\<lambda>_. None)(3 := Some 2, 2 := Some 1)\<rparr>"
    "\<lparr>q_head = Some 1, q_tail = Some 3\<rparr>" "[]" 1 "[2, 3]"]
  by (simp add: queue_rep_def)

text \<open>
  Removing an item from the interior of a queue does not unlink it. The code meant to fix
  the \<open>prev\<close> field of the item's successor writes through \<open>pcb->next\<close>, the successor of
  \<open>pcb[0]\<close>; unless \<open>pcb[0]\<close> happens to precede the item or its successor, the successor still
  points back to the removed item, so the result is not the queue without it.
\<close>

theorem queue_remove_interior_stale:
  assumes rep: "queue_rep h q (us @ x # y # vs)" and ne: "us \<noteq> []"
    and zero: "next_of h 0 = Some z" "z \<noteq> y" "last us \<noteq> 0"
  shows "\<exists>h' q'. queue_remove x h q = Some (Some y, h', q') \<and> prev_of h' y = Some x \<and>
    \<not> queue_rep h' q' (us @ y # vs)"
proof -
  let ?p = "last us"
  have dist: "distinct (us @ x # y # vs)" using rep by (rule queue_rep_distinct)
  have px: "prev_of h x = Some ?p" and py: "prev_of h y = Some x"
    using rep ne by (auto simp: queue_rep_def chain_append) (cases us rule: rev_cases; simp)
  have nx: "next_of h x = Some y" using rep by (auto simp: queue_rep_def chain_append)
  have hd: "q_head q \<noteq> Some x" using rep ne dist by (cases us) (auto simp: queue_rep_def)
  have "last (y # vs) \<in> set (y # vs)" by (rule last_in_set) simp
  then have tl: "q_tail q \<noteq> Some x" using queue_rep_tail [OF rep] dist by (auto split: if_splits)
  let ?h = "set_next x None (set_prev x None (set_prev z (Some ?p) (set_next ?p (Some y) h)))"
  have rem: "queue_remove x h q = Some (Some y, ?h, q)"
    using hd tl px nx zero by (simp add: queue_remove_def Let_def)
  have yx: "prev_of ?h y = Some x" using py dist zero(2) by simp
  have "\<not> queue_rep ?h q (us @ y # vs)"
  proof
    assume "queue_rep ?h q (us @ y # vs)"
    then have "chain (prev_of ?h) (prev_of ?h y) (rev us) None"
      by (auto simp: queue_rep_def chain_append)
    with yx ne have "x \<in> set us" by (cases us rule: rev_cases) auto
    with dist show False by simp
  qed
  with rem yx show ?thesis by blast
qed

theorem queue_remove_interior_stale_witness:
  "\<exists>h' q'. queue_remove 2 \<lparr>next_of = (\<lambda>_. None)(1 := Some 2, 2 := Some 3, 0 := Some 9),
        prev_of = (\<lambda>_. None)(3 := Some 2, 2 := Some 1)\<rparr> \<lparr>q_head = Some 1, q_tail = Some 3\<rparr> =
      Some (Some 3, h', q') \<and> prev_of h' 3 = Some 2 \<and> \<not> queue_rep h' q' [1, 3]"
  using queue_remove_interior_stale [of
    "\<lparr>next_of = (\<lambda>_. None)(1 := Some 2, 2 := Some 3, 0 := Some 9),
      prev_of = (\<lambda>_. None)(3 := Some 2, 2 := Some 1)\<rparr>"
    "\<lparr>q_head = Some 1, q_tail = Some 3\<rparr>" "[1]" 2 3 "[]" 9]
  by (simp add: queue_rep_def)

end
