(* ===== verification/Kstring.thy ===== *)
theory Kstring
  imports Kernel_Prelude
begin

text \<open>
  \<^verbatim>\<open>libs/string.c\<close>: the string and memory routines the rest of the kernel calls. A
  \<open>char *\<close> argument is a buffer and an offset into it; destination and source are different
  buffers, as they are in every call the kernel makes. The loops that run to a terminating
  NUL are partial functions, so that a missing terminator is a call that does not return.
\<close>

subsection \<open>Operations\<close>

partial_function (option) strlen_loop :: "buffer \<Rightarrow> nat \<Rightarrow> nat \<Rightarrow> nat option" where
  "strlen_loop src j i = (if src (j + i) \<noteq> 0 then strlen_loop src j (Suc i) else Some i)"

definition strlen :: "buffer \<Rightarrow> nat \<Rightarrow> nat option" where
  "strlen src j = strlen_loop src j 0"

definition memcpy :: "buffer \<Rightarrow> nat \<Rightarrow> buffer \<Rightarrow> nat \<Rightarrow> nat \<Rightarrow> buffer" where
  "memcpy dest i src j len = for_upto 0 len (\<lambda>k d. d(i + k := src (j + k))) dest"

definition memset :: "buffer \<Rightarrow> nat \<Rightarrow> u8 \<Rightarrow> nat \<Rightarrow> buffer" where
  "memset dest i val len = for_upto 0 len (\<lambda>k d. d(i + k := val)) dest"

definition bzero :: "buffer \<Rightarrow> nat \<Rightarrow> nat \<Rightarrow> buffer" where
  "bzero dest i len = memset dest i 0 len"

text \<open>\<open>char\<close> is signed on this target, so the difference is one of signed bytes.\<close>

partial_function (option) strcmp :: "buffer \<Rightarrow> nat \<Rightarrow> buffer \<Rightarrow> nat \<Rightarrow> int option" where
  "strcmp s1 i s2 j =
     (if s1 i \<noteq> 0 \<and> s2 j \<noteq> 0 \<and> s1 i = s2 j then strcmp s1 (Suc i) s2 (Suc j)
      else Some (sint (s1 i) - sint (s2 j)))"

partial_function (option) strcpy :: "buffer \<Rightarrow> nat \<Rightarrow> buffer \<Rightarrow> nat \<Rightarrow> buffer option" where
  "strcpy dest i src j =
     (if src j \<noteq> 0 then strcpy (dest(i := src j)) (Suc i) src (Suc j)
      else Some (dest(i := 0)))"

text \<open>The three loops of \<open>atoi\<close>; its accumulator is a 32-bit int.\<close>

partial_function (option) skip_blanks :: "buffer \<Rightarrow> nat \<Rightarrow> nat option" where
  "skip_blanks s j = (if s j = 32 then skip_blanks s (Suc j) else Some j)"

partial_function (option) atoi_loop :: "u32 \<Rightarrow> buffer \<Rightarrow> nat \<Rightarrow> u32 \<Rightarrow> u32 option" where
  "atoi_loop base s i acc =
     (if s i = 0 then Some acc
      else if s i = 32 then atoi_loop base s (Suc i) acc
      else atoi_loop base s (Suc i) (acc * base + scast (s i) - 48))"

definition atoi :: "buffer \<Rightarrow> nat \<Rightarrow> int option" where
  "atoi s j = do {
     j1 \<leftarrow> skip_blanks s j;
     let (sign, j2) = (if s j1 = 45 then (- 1, Suc j1) else (1, j1));
     let (base, j3) =
       (if s j2 = 48 \<and> s (Suc j2) = 120 then (16, j2 + 2)
        else if s j2 = 48 \<and> s (Suc j2) = 98 then (2, j2 + 2)
        else (10, j2));
     n \<leftarrow> atoi_loop base s j3 0;
     Some (sint (sign * n)) }"

declare strlen_loop.simps [code] strcmp.simps [code] strcpy.simps [code]
  skip_blanks.simps [code] atoi_loop.simps [code]

subsection \<open>C strings\<close>

text \<open>\<open>cstr s j xs\<close>: at offset \<open>j\<close> of \<open>s\<close> stands the NUL-terminated string with the bytes \<open>xs\<close>.\<close>

fun cstr :: "buffer \<Rightarrow> nat \<Rightarrow> u8 list \<Rightarrow> bool" where
  "cstr s j [] \<longleftrightarrow> s j = 0"
| "cstr s j (x # xs) \<longleftrightarrow> x \<noteq> 0 \<and> s j = x \<and> cstr s (Suc j) xs"

lemma cstr_nz: "cstr s j xs \<Longrightarrow> 0 \<notin> set xs"
  by (induction xs arbitrary: j) auto

lemma cstr_nth: "cstr s j xs \<Longrightarrow> i < length xs \<Longrightarrow> s (j + i) = xs ! i"
proof (induction xs arbitrary: j i)
  case Nil
  then show ?case by simp
next
  case (Cons x xs)
  then show ?case using Cons.IH [of "Suc j" "i - 1"] by (cases i) auto
qed

lemma cstr_end: "cstr s j xs \<Longrightarrow> s (j + length xs) = 0"
  by (induction xs arbitrary: j) fastforce+

lemma cstrI:
  "0 \<notin> set xs \<Longrightarrow> (\<And>i. i < length xs \<Longrightarrow> s (j + i) = xs ! i) \<Longrightarrow> s (j + length xs) = 0 \<Longrightarrow>
     cstr s j xs"
proof (induction xs arbitrary: j)
  case Nil
  then show ?case by simp
next
  case (Cons x xs)
  have "cstr s (Suc j) xs"
  proof (rule Cons.IH)
    show "s (Suc j + i) = xs ! i" if "i < length xs" for i
      using Cons.prems(2) [of "Suc i"] that by simp
  qed (use Cons.prems in auto)
  then show ?case using Cons.prems(1) Cons.prems(2) [of 0] by simp
qed

lemma cstr_cong: "(\<And>i. i \<le> length xs \<Longrightarrow> s (j + i) = t (j + i)) \<Longrightarrow> cstr s j xs = cstr t j xs"
proof (induction xs arbitrary: j)
  case Nil
  then show ?case using Nil [of 0] by simp
next
  case (Cons x xs)
  have "s j = t j" using Cons.prems [of 0] by simp
  moreover have "cstr s (Suc j) xs = cstr t (Suc j) xs"
  proof (rule Cons.IH)
    show "s (Suc j + i) = t (Suc j + i)" if "i \<le> length xs" for i
      using Cons.prems [of "Suc i"] that by simp
  qed
  ultimately show ?case by simp
qed

lemma cstr_buf_of [simp]: "0 \<notin> set xs \<Longrightarrow> cstr (buf_of xs) 0 xs"
  by (rule cstrI) auto

lemma cstr_unique: "cstr s j xs \<Longrightarrow> cstr s j ys \<Longrightarrow> xs = ys"
proof (induction xs arbitrary: j ys)
  case Nil
  then show ?case by (cases ys) auto
next
  case (Cons x xs)
  then show ?case by (cases ys) auto
qed

subsection \<open>What the routines compute\<close>

lemma strlen_loop_cstr: "cstr s (j + i) xs \<Longrightarrow> strlen_loop s j i = Some (i + length xs)"
proof (induction xs arbitrary: i)
  case Nil
  then show ?case by (simp add: strlen_loop.simps)
next
  case (Cons x xs)
  then show ?case by (subst strlen_loop.simps) auto
qed

lemma strlen_cstr [simp]: "cstr s j xs \<Longrightarrow> strlen s j = Some (length xs)"
  using strlen_loop_cstr [of s j 0 xs] by (simp add: strlen_def)

lemma memcpy_eq: "memcpy dest i src j len =
  (\<lambda>k. if i \<le> k \<and> k < i + len then src (j + (k - i)) else dest k)"
  by (simp add: memcpy_def for_upto_store)

lemma memset_eq: "memset dest i val len = (\<lambda>k. if i \<le> k \<and> k < i + len then val else dest k)"
  by (simp add: memset_def for_upto_store [where v = "\<lambda>_. val"])

lemma strcpy_cstr:
  "cstr s j xs \<Longrightarrow> strcpy d i s j =
     Some (\<lambda>k. if i \<le> k \<and> k < i + length xs then xs ! (k - i) else if k = i + length xs then 0 else d k)"
proof (induction xs arbitrary: d i j)
  case Nil
  then show ?case by (auto simp: strcpy.simps fun_eq_iff)
next
  case (Cons x xs)
  then have "strcpy d i s j = strcpy (d(i := x)) (Suc i) s (Suc j)"
    by (subst strcpy.simps) simp
  also have "\<dots> = Some (\<lambda>k. if Suc i \<le> k \<and> k < Suc i + length xs then xs ! (k - Suc i)
      else if k = Suc i + length xs then 0 else (d(i := x)) k)"
    by (rule Cons.IH) (use Cons.prems in simp)
  also have "\<dots> = Some (\<lambda>k. if i \<le> k \<and> k < i + length (x # xs) then (x # xs) ! (k - i)
      else if k = i + length (x # xs) then 0 else d k)"
    by (auto simp: fun_eq_iff nth_Cons' Suc_diff_le le_less_Suc_eq)
  finally show ?case .
qed

lemma sint_u8_inject [simp]: "sint (x :: u8) = sint y \<longleftrightarrow> x = y"
  by (auto intro: signed_word_eqI)

lemma sint_u8_zero [simp]: "sint (x :: u8) = 0 \<longleftrightarrow> x = 0" "0 = sint (x :: u8) \<longleftrightarrow> x = 0"
  using sint_u8_inject [of x 0] by (auto simp del: sint_u8_inject)

lemma strcmp_cstr:
  "cstr s i xs \<Longrightarrow> cstr t j ys \<Longrightarrow>
     \<exists>d. strcmp s i t j = Some d \<and> (d = 0 \<longleftrightarrow> xs = ys)"
proof (induction xs arbitrary: i j ys)
  case Nil
  then show ?case by (cases ys) (auto simp: strcmp.simps)
next
  case (Cons x xs)
  show ?case
  proof (cases ys)
    case Nil
    with Cons.prems show ?thesis by (auto simp: strcmp.simps)
  next
    case (Cons y zs)
    then show ?thesis
    proof (cases "x = y")
      case True
      with Cons.IH [of "Suc i" "Suc j" zs] Cons.prems Cons show ?thesis
        by (subst strcmp.simps) auto
    next
      case False
      with Cons.prems Cons show ?thesis by (subst strcmp.simps) auto
    qed
  qed
qed

lemma strcmp_eq_0 [simp]:
  "cstr s i xs \<Longrightarrow> cstr t j ys \<Longrightarrow> strcmp s i t j = Some 0 \<longleftrightarrow> xs = ys"
  using strcmp_cstr [of s i xs t j ys] by auto

text \<open>The decimal digits of a number, most significant first, and their value.\<close>

definition digit_char :: "nat \<Rightarrow> u8" where
  "digit_char d = word_of_nat (d + 48)"

definition digit_str :: "nat list \<Rightarrow> u8 list" where
  "digit_str ds = map digit_char ds"

definition digit_val :: "nat list \<Rightarrow> nat" where
  "digit_val ds = foldl (\<lambda>a d. a * 10 + d) 0 ds"

lemma digit_byte:
  assumes "d < 10"
  shows "digit_char d \<noteq> 0" "digit_char d \<noteq> 32" "digit_char d \<noteq> 45" "digit_char d \<noteq> 120"
    "digit_char d \<noteq> 98" "scast (digit_char d) - (48 :: u32) = word_of_nat d"
proof -
  from assms have "d \<in> {0, 1, 2, 3, 4, 5, 6, 7, 8, 9}" by auto
  then show "digit_char d \<noteq> 0" "digit_char d \<noteq> 32" "digit_char d \<noteq> 45" "digit_char d \<noteq> 120"
    "digit_char d \<noteq> 98" "scast (digit_char d) - (48 :: u32) = word_of_nat d"
    by (auto simp: digit_char_def)
qed

lemma atoi_loop_digits:
  assumes "cstr s j (digit_str ds)" "\<forall>d \<in> set ds. d < 10"
  shows "atoi_loop 10 s j (word_of_nat n) = Some (word_of_nat (foldl (\<lambda>a d. a * 10 + d) n ds))"
  using assms
proof (induction ds arbitrary: j n)
  case Nil
  then show ?case by (simp add: atoi_loop.simps digit_str_def)
next
  case (Cons d ds)
  have sj: "s j = digit_char d" and rest: "cstr s (Suc j) (digit_str ds)" and d: "d < 10"
    using Cons.prems by (auto simp: digit_str_def)
  have "atoi_loop 10 s j (word_of_nat n) =
      atoi_loop 10 s (Suc j) (word_of_nat n * 10 + (scast (digit_char d) - 48))"
    using sj digit_byte(1,2) [OF d] by (subst atoi_loop.simps) (simp add: algebra_simps)
  also have "word_of_nat n * 10 + (scast (digit_char d) - 48) =
      (word_of_nat (n * 10 + d) :: u32)"
    by (simp only: digit_byte(6) [OF d]) simp
  also have "atoi_loop 10 s (Suc j) (word_of_nat (n * 10 + d)) =
      Some (word_of_nat (foldl (\<lambda>a d. a * 10 + d) (n * 10 + d) ds))"
    by (rule Cons.IH [OF rest]) (use Cons.prems in simp)
  finally show ?case by simp
qed

lemma atoi_digits_word:
  assumes c: "cstr s j (digit_str ds)" and d: "\<forall>d \<in> set ds. d < 10"
  shows "(if s j = 48 \<and> s (Suc j) = 120 then (16 :: u32, j + 2)
      else if s j = 48 \<and> s (Suc j) = 98 then (2, j + 2) else (10, j)) = (10, j)"
    and "atoi_loop 10 s j 0 = Some (word_of_nat (digit_val ds))"
    and "s j \<noteq> 32" "s j \<noteq> 45"
proof -
  have nxt: "s (Suc j) \<noteq> 120 \<and> s (Suc j) \<noteq> 98" if "s j = 48"
  proof (cases ds)
    case Nil
    with c that show ?thesis by (simp add: digit_str_def)
  next
    case (Cons a es)
    with c d show ?thesis by (cases es) (auto simp: digit_str_def digit_byte)
  qed
  show "(if s j = 48 \<and> s (Suc j) = 120 then (16 :: u32, j + 2)
      else if s j = 48 \<and> s (Suc j) = 98 then (2, j + 2) else (10, j)) = (10, j)"
    using nxt by auto
  show "atoi_loop 10 s j 0 = Some (word_of_nat (digit_val ds))"
    using atoi_loop_digits [OF c d, of 0] by (simp add: digit_val_def)
  show "s j \<noteq> 32" "s j \<noteq> 45"
    using c d by (cases ds; auto simp: digit_str_def digit_byte)+
qed

lemma sint_of_nat_small: "n < 2 ^ 31 \<Longrightarrow> sint (word_of_nat n :: u32) = int n"
  by (simp add: signed_of_nat signed_take_bit_int_eq_self)

lemma sint_minus_of_nat_small: "n \<le> 2 ^ 31 \<Longrightarrow> sint (- (word_of_nat n :: u32)) = - int n"
proof -
  assume n: "n \<le> 2 ^ 31"
  have "sint (word_of_int (- int n) :: u32) = - int n"
    using n by (subst signed_of_int) (simp add: signed_take_bit_int_eq_self)
  then show ?thesis by simp
qed

lemma atoi_nonneg:
  assumes c: "cstr s j (digit_str ds)" and d: "\<forall>d \<in> set ds. d < 10" and v: "digit_val ds < 2 ^ 31"
  shows "atoi s j = Some (int (digit_val ds))"
proof -
  note facts = atoi_digits_word [OF c d]
  have skip: "skip_blanks s j = Some j" using facts(3) by (simp add: skip_blanks.simps)
  show ?thesis
    unfolding atoi_def skip using facts(1,2,4) v
    by (simp only: bind.bind_lunit Let_def if_False case_prod_conv) (simp add: sint_of_nat_small)
qed

lemma atoi_neg:
  assumes c: "cstr s j (45 # digit_str ds)" and d: "\<forall>d \<in> set ds. d < 10" and v: "digit_val ds \<le> 2 ^ 31"
  shows "atoi s j = Some (- int (digit_val ds))"
proof -
  from c have sj: "s j = 45" and c': "cstr s (Suc j) (digit_str ds)" by auto
  note facts = atoi_digits_word [OF c' d]
  have skip: "skip_blanks s j = Some j" using sj by (simp add: skip_blanks.simps)
  show ?thesis
    unfolding atoi_def skip using facts(1,2,4) v sj
    by (simp only: bind.bind_lunit Let_def if_True case_prod_conv) (simp add: sint_minus_of_nat_small)
qed

subsection \<open>Properties\<close>

text \<open>
  On NUL-terminated strings \<open>strcmp\<close> returns, and it returns 0 exactly when the strings are
  equal: the name comparisons of the file system, the shell and the mailboxes decide equality.
\<close>

theorem strcmp_decides_equality:
  assumes "cstr s i xs" "cstr t j ys"
  shows "\<exists>d. strcmp s i t j = Some d \<and> (d = 0 \<longleftrightarrow> xs = ys)"
  by (rule strcmp_cstr [OF assms])

theorem strcmp_decides_equality_witness:
  "\<exists>d. strcmp (buf_of (cs ''abc'')) 0 (buf_of (cs ''abd'')) 0 = Some d \<and> d \<noteq> 0"
  using strcmp_decides_equality [of "buf_of (cs ''abc'')" 0 "cs ''abc''" "buf_of (cs ''abd'')" 0 "cs ''abd''"]
  by auto

text \<open>
  \<open>strcpy\<close> of a NUL-terminated string returns, the destination then holds that string, and
  exactly the string's bytes and its terminator have been written.
\<close>

theorem strcpy_copies:
  assumes "cstr s j xs"
  shows "\<exists>d'. strcpy d i s j = Some d' \<and> cstr d' i xs \<and>
    (\<forall>k. k < i \<or> i + length xs < k \<longrightarrow> d' k = d k)"
proof -
  obtain d' where eq: "strcpy d i s j = Some d'" and
    d': "d' = (\<lambda>k. if i \<le> k \<and> k < i + length xs then xs ! (k - i)
      else if k = i + length xs then 0 else d k)"
    using strcpy_cstr [OF assms] by blast
  have "cstr d' i xs" using cstr_nz [OF assms] by (intro cstrI) (auto simp: d')
  moreover have "\<forall>k. k < i \<or> i + length xs < k \<longrightarrow> d' k = d k" by (auto simp: d')
  ultimately show ?thesis using eq by blast
qed

theorem strcpy_copies_witness:
  "\<exists>d'. strcpy (\<lambda>_. 7) 4 (buf_of (cs ''ls'')) 0 = Some d' \<and> cstr d' 4 (cs ''ls'') \<and> d' 7 = 7"
  using strcpy_copies [of "buf_of (cs ''ls'')" 0 "cs ''ls''" "\<lambda>_. 7" 4] by auto

text \<open>
  \<open>atoi\<close> of a decimal numeral below \<open>2^31\<close> returns its value, and of the numeral after a
  minus sign its negation.
\<close>

theorem atoi_decimal:
  assumes "\<forall>d \<in> set ds. d < 10" "digit_val ds < 2 ^ 31"
  shows "(cstr s j (digit_str ds) \<longrightarrow> atoi s j = Some (int (digit_val ds))) \<and>
    (cstr s j (45 # digit_str ds) \<longrightarrow> atoi s j = Some (- int (digit_val ds)))"
  using assms atoi_nonneg atoi_neg by simp

theorem atoi_decimal_witness:
  "atoi (buf_of (cs ''407'')) 0 = Some 407 \<and> atoi (buf_of (cs ''-16'')) 0 = Some (- 16)"
  using atoi_decimal [of "[4, 0, 7]" "buf_of (cs ''407'')" 0]
    atoi_decimal [of "[1, 6]" "buf_of (cs ''-16'')" 0]
  by (simp add: digit_str_def digit_char_def digit_val_def)

text \<open>
  The hexadecimal branch of \<open>atoi\<close> subtracts the code of the digit zero from letters too:
  \<open>0x1f\<close> is read as 70, not as 31.
\<close>

theorem atoi_hex_letters: "atoi (buf_of (cs ''0x1f'')) 0 = Some 70"
  by (simp add: atoi_def skip_blanks.simps atoi_loop.simps buf_of_def)

end
