(* ===== verification/Kprintf.thy ===== *)
theory Kprintf
  imports Kstring
begin

text \<open>
  The formatting half of \<^verbatim>\<open>libs/printk.c\<close>: \<open>mini_itoa\<close>, the bounded output buffer
  (\<open>struct mini_buff\<close>, \<open>_putc\<close>, \<open>_puts\<close>) and \<open>mini_vsnprintf\<close>. A format string is the list
  of its bytes before the NUL; a variadic argument is an integer or a string. The output
  buffer is the list of the bytes written so far; the NUL the code keeps after them is not
  stored. What \<open>printk\<close>, \<open>printf\<close> and \<open>printks\<close> do with the result is in the theory of the
  screen.
\<close>

subsection \<open>Data\<close>

datatype va_arg = VInt u32 | VStr "u8 list"

record mini_buff =
  mb_out :: "u8 list"
  mb_len :: nat

subsection \<open>mini_itoa\<close>

text \<open>\<open>value % radix\<close> and \<open>value / radix\<close> are unsigned operations, since \<open>radix\<close> is unsigned; the
  loop condition \<open>value > 0\<close> is signed.\<close>

definition digit_ascii :: "u32 \<Rightarrow> bool \<Rightarrow> u8" where
  "digit_ascii digit uppercase =
     (if digit < 10 then 48 + ucast digit
      else (if uppercase then 65 else 97) + ucast digit - 10)"

partial_function (option) itoa_loop :: "u32 \<Rightarrow> bool \<Rightarrow> u32 \<Rightarrow> u8 list \<Rightarrow> u8 list option" where
  "itoa_loop radix uppercase value pbuffer =
     (if radix = 0 then None
      else if 0 < sint (value div radix)
      then itoa_loop radix uppercase (value div radix) (pbuffer @ [digit_ascii (value mod radix) uppercase])
      else Some (pbuffer @ [digit_ascii (value mod radix) uppercase]))"

definition itoa_reverse :: "u8 list \<Rightarrow> u8 list" where
  "itoa_reverse buffer =
     (let len = length buffer in
      for_upto 0 (len div 2)
        (\<lambda>i b. (b[i := b ! (len - i - 1)])[len - i - 1 := b ! i]) buffer)"

definition mini_itoa :: "u32 \<Rightarrow> u32 \<Rightarrow> bool \<Rightarrow> bool \<Rightarrow> nat \<Rightarrow> u8 list option" where
  "mini_itoa value radix uppercase unsig zero_pad =
     (if 16 < radix then Some []
      else do {
        let negative = (sint value < 0 \<and> \<not> unsig);
        ds \<leftarrow> itoa_loop radix uppercase (if negative then - value else value) [];
        let padded = ds @ replicate (zero_pad - length ds) 48;
        Some (itoa_reverse (if negative then padded @ [45] else padded)) })"

subsection \<open>The output buffer\<close>

definition putc :: "u8 \<Rightarrow> mini_buff \<Rightarrow> mini_buff" where
  "putc ch b =
     (if mb_len b \<le> length (mb_out b) + 1 then b else b\<lparr>mb_out := mb_out b @ [ch]\<rparr>)"

definition puts :: "u8 list \<Rightarrow> nat \<Rightarrow> mini_buff \<Rightarrow> mini_buff" where
  "puts s len b =
     (let len' = (if mb_len b - length (mb_out b) - 1 < len
                  then mb_len b - length (mb_out b) - 1 else len)
      in b\<lparr>mb_out := mb_out b @ take len' s\<rparr>)"

subsection \<open>mini_vsnprintf\<close>

text \<open>One conversion: the buffer and the arguments left after it. \<open>None\<close> when the argument is
  missing or of the wrong kind.\<close>

definition convert :: "u8 \<Rightarrow> nat \<Rightarrow> va_arg list \<Rightarrow> mini_buff \<Rightarrow> (va_arg list \<times> mini_buff) option" where
  "convert ch zero_pad va b =
     (if ch = 117 \<or> ch = 100 then
        (case va of VInt n # va' \<Rightarrow> do {
             bf \<leftarrow> mini_itoa n 10 False (ch = 117) zero_pad;
             Some (va', puts bf (length bf) b) }
         | _ \<Rightarrow> None)
      else if ch = 120 \<or> ch = 88 then
        (case va of VInt n # va' \<Rightarrow> do {
             bf \<leftarrow> mini_itoa n 16 (ch = 88) True zero_pad;
             Some (va', puts bf (length bf) b) }
         | _ \<Rightarrow> None)
      else if ch = 99 then
        (case va of VInt n # va' \<Rightarrow> Some (va', putc (ucast n) b) | _ \<Rightarrow> None)
      else if ch = 115 then
        (case va of VStr s # va' \<Rightarrow> Some (va', puts s (length s) b) | _ \<Rightarrow> None)
      else Some (va, putc ch b))"

text \<open>What follows a percent sign: an optional \<open>0\<close> and pad digit, then the conversion
  character; \<open>None\<close> at the end of the format, where the code leaves the loop.\<close>

fun directive :: "u8 list \<Rightarrow> (u8 \<times> nat \<times> u8 list) option" where
  "directive [] = None"
| "directive (ch # fmt) =
     (if ch = 48 then
        (case fmt of
           [] \<Rightarrow> None
         | d # [] \<Rightarrow> None
         | d # ch' # fmt' \<Rightarrow>
             Some (ch', (if 48 \<le> d \<and> d \<le> 57 then unat (d - 48) else 0), fmt'))
      else Some (ch, 0, fmt))"

lemma directive_length: "directive fmt = Some (ch, z, fmt') \<Longrightarrow> length fmt' < length fmt"
  by (cases fmt) (auto split: if_splits list.splits)

function vsnprintf_loop :: "u8 list \<Rightarrow> va_arg list \<Rightarrow> mini_buff \<Rightarrow> mini_buff option" where
  "vsnprintf_loop [] va b = Some b"
| "vsnprintf_loop (ch # fmt) va b =
     (if mb_len b \<le> length (mb_out b) + 1 then Some b
      else if ch \<noteq> 37 then vsnprintf_loop fmt va (putc ch b)
      else (case directive fmt of
              None \<Rightarrow> Some b
            | Some (ch', zero_pad, fmt') \<Rightarrow>
                (case convert ch' zero_pad va b of
                   None \<Rightarrow> None
                 | Some (va', b') \<Rightarrow> vsnprintf_loop fmt' va' b')))"
  by pat_completeness auto
termination
  by (relation "measure (\<lambda>(fmt, va, b). length fmt)") (auto dest: directive_length)

definition mini_vsnprintf :: "nat \<Rightarrow> u8 list \<Rightarrow> va_arg list \<Rightarrow> u8 list option" where
  "mini_vsnprintf buffer_len fmt va =
     map_option mb_out (vsnprintf_loop fmt va \<lparr>mb_out = [], mb_len = buffer_len\<rparr>)"

declare itoa_loop.simps [code]

subsection \<open>The digits are those of the value\<close>

lemma itoa_reverse_rev: "itoa_reverse xs = rev xs"
proof -
  let ?n = "length xs"
  let ?f = "\<lambda>i b. (b[i := b ! (?n - i - 1)])[?n - i - 1 := b ! i]"
  let ?I = "\<lambda>k b. length b = ?n \<and>
    (\<forall>j < ?n. b ! j = (if j < k \<or> ?n - 1 - j < k then xs ! (?n - 1 - j) else xs ! j))"
  have step: "?I (Suc k) (?f k b)" if "k < ?n div 2" "?I k b" for k b
  proof -
    have len: "length b = ?n"
      and val: "\<And>j. j < ?n \<Longrightarrow> b ! j = (if j < k \<or> ?n - 1 - j < k then xs ! (?n - 1 - j) else xs ! j)"
      using that(2) by auto
    have "?f k b ! j = (if j < Suc k \<or> ?n - 1 - j < Suc k then xs ! (?n - 1 - j) else xs ! j)"
      if j: "j < ?n" for j
    proof -
      have k: "k < ?n" "?n - k - 1 < ?n" "k \<noteq> ?n - k - 1" using \<open>k < ?n div 2\<close> by linarith+
      have fj: "?f k b ! j = (if j = ?n - k - 1 then b ! k else if j = k then b ! (?n - k - 1) else b ! j)"
        using k j len by (auto simp: nth_list_update)
      have bk: "b ! k = xs ! k" "b ! (?n - k - 1) = xs ! (?n - k - 1)"
        using val [of k] val [of "?n - k - 1"] k \<open>k < ?n div 2\<close> by (auto split: if_splits)
      consider "j = k" | "j = ?n - k - 1" | "j \<noteq> k" "j \<noteq> ?n - k - 1" by blast
      then show ?thesis
      proof cases
        case 1
        with fj bk k show ?thesis by simp
      next
        case 2
        then have "?n - 1 - j = k" using k by linarith
        with 2 fj bk show ?thesis by simp
      next
        case 3
        then have "(j < Suc k) = (j < k)" "(?n - 1 - j < Suc k) = (?n - 1 - j < k)" using j by linarith+
        with 3 fj val [OF j] show ?thesis by simp
      qed
    qed
    with len show ?thesis by simp
  qed
  have fin: "?I (?n div 2) (for_upto 0 (?n div 2) ?f xs)"
    by (rule for_upto_inv [where I = ?I]) (use step in auto)
  have "for_upto 0 (?n div 2) ?f xs = rev xs"
  proof (rule nth_equalityI)
    show "length (for_upto 0 (?n div 2) ?f xs) = length (rev xs)" using fin by simp
    fix j assume "j < length (for_upto 0 (?n div 2) ?f xs)"
    then have j: "j < ?n" using fin by simp
    have mid: "xs ! j = xs ! (?n - 1 - j)" if "\<not> (j < ?n div 2 \<or> ?n - 1 - j < ?n div 2)"
    proof -
      have "j = ?n - 1 - j" using that j by linarith
      then show ?thesis by simp
    qed
    show "for_upto 0 (?n div 2) ?f xs ! j = rev xs ! j"
      using fin j mid by (auto simp: rev_nth)
  qed
  then show ?thesis by (simp add: itoa_reverse_def Let_def)
qed

text \<open>The digits of a number in a radix, least significant first.\<close>

function nat_digits :: "nat \<Rightarrow> nat \<Rightarrow> nat list" where
  "nat_digits r n = (if r < 2 \<or> n < r then [n mod r] else n mod r # nat_digits r (n div r))"
  by pat_completeness auto
termination
  by (relation "measure snd") (auto simp: div_less_dividend)

declare nat_digits.simps [simp del]

lemma nat_digits_bound: "2 \<le> r \<Longrightarrow> d \<in> set (nat_digits r n) \<Longrightarrow> d < r"
proof (induction r n rule: nat_digits.induct)
  case (1 r n)
  then show ?case by (subst (asm) (2) nat_digits.simps) (auto split: if_splits)
qed

lemma digit_val_snoc: "digit_val (ds @ [d]) = digit_val ds * 10 + d"
  by (simp add: digit_val_def)

lemma digit_val_zeros: "digit_val (replicate k 0 @ ds) = digit_val ds"
  by (induction k) (simp_all add: digit_val_def)

lemma digit_val_nat_digits: "digit_val (rev (nat_digits 10 n)) = n"
proof (induction "10 :: nat" n rule: nat_digits.induct)
  case (1 n)
  show ?case
  proof (cases "n < 10")
    case True
    then show ?thesis by (subst nat_digits.simps) (simp add: digit_val_def)
  next
    case False
    with 1 show ?thesis by (subst nat_digits.simps) (simp add: digit_val_snoc)
  qed
qed

lemma sint_div_pos:
  assumes "2 \<le> unat radix"
  shows "0 < sint ((v :: u32) div radix) \<longleftrightarrow> unat radix \<le> unat v"
proof -
  have "unat (v div radix) = unat v div unat radix" by (simp add: unat_div)
  moreover have "unat v div unat radix \<le> unat v div 2" using assms by (intro div_le_mono2) auto
  moreover have "unat v div 2 < 2 ^ 31" by (rule less_mult_imp_div_less) simp
  ultimately have small: "unat (v div radix) < 2 ^ 31" by linarith
  have "sint (v div radix) = int (unat (v div radix))"
    using sint_of_nat_small [OF small] by simp
  then show ?thesis using assms by (simp add: unat_div div_greater_zero_iff)
qed

lemma itoa_loop_digits:
  assumes "2 \<le> unat radix"
  shows "itoa_loop radix up v acc =
    Some (acc @ map (\<lambda>d. digit_ascii (word_of_nat d) up) (nat_digits (unat radix) (unat v)))"
proof (induction "unat v" arbitrary: v acc rule: less_induct)
  case less
  have nz: "radix \<noteq> 0" using assms by auto
  have md: "word_of_nat (unat v mod unat radix) = v mod radix"
    by (simp flip: unat_mod)
  show ?case
  proof (cases "unat radix \<le> unat v")
    case True
    have "unat (v div radix) < unat v" using True assms by (simp add: unat_div div_less_dividend)
    from less [OF this] show ?thesis
      using True nz assms sint_div_pos [OF assms, of v] md
      by (subst itoa_loop.simps, subst nat_digits.simps) (simp add: unat_div)
  next
    case False
    then show ?thesis
      using nz assms sint_div_pos [OF assms, of v] md
      by (subst itoa_loop.simps, subst nat_digits.simps) simp
  qed
qed

lemma digit_ascii_decimal: "d < 10 \<Longrightarrow> digit_ascii (word_of_nat d) up = digit_char d"
proof -
  assume "d < 10"
  then have "d \<in> {0, 1, 2, 3, 4, 5, 6, 7, 8, 9}" by auto
  then show ?thesis by (auto simp: digit_ascii_def digit_char_def)
qed

lemma itoa_decimal_digits:
  "itoa_loop 10 up v [] = Some (map digit_char (nat_digits 10 (unat v)))"
  using itoa_loop_digits [of 10 up v "[]"]
  by (auto simp: digit_ascii_decimal dest: nat_digits_bound [rotated] intro!: map_cong)

lemma zero_pad_digits: "replicate k 48 = map digit_char (replicate k 0)"
  by (simp add: digit_char_def)

lemma mini_itoa_decimal:
  "mini_itoa v 10 False False z = Some
     (if sint v < 0
      then 45 # digit_str (replicate (z - length (nat_digits 10 (unat (- v)))) 0 @ rev (nat_digits 10 (unat (- v))))
      else digit_str (replicate (z - length (nat_digits 10 (unat v))) 0 @ rev (nat_digits 10 (unat v))))"
  by (auto simp: mini_itoa_def itoa_decimal_digits itoa_reverse_rev digit_str_def zero_pad_digits
      rev_map Let_def simp del: map_replicate)

lemma sint_neg_unat:
  assumes "sint (v :: u32) < 0"
  shows "int (unat (- v)) = - sint v" "unat (- v) \<le> 2 ^ 31"
proof -
  have lo: "- (2 ^ 31) \<le> sint v" using sint_ge [of v] by simp
  have "uint (- v) = uint (word_of_int (- sint v) :: u32)" by simp
  also have "\<dots> = - sint v" using assms lo by (subst uint_word_of_int_eq) (simp add: take_bit_int_eq_self)
  finally show "int (unat (- v)) = - sint v" by simp
  with lo have "int (unat (- v)) \<le> int (2 ^ 31)" by simp
  then show "unat (- v) \<le> 2 ^ 31" by (simp only: of_nat_le_iff)
qed

lemma sint_nonneg_unat:
  assumes "0 \<le> sint (v :: u32)"
  shows "int (unat v) = sint v" "unat v < 2 ^ 31"
proof -
  have hi: "sint v < 2 ^ 31" using sint_lt [of v] by simp
  have "uint v = uint (word_of_int (sint v) :: u32)" by simp
  also have "\<dots> = sint v" using assms hi by (subst uint_word_of_int_eq) (simp add: take_bit_int_eq_self)
  finally show "int (unat v) = sint v" by simp
  with hi have "int (unat v) < int (2 ^ 31)" by simp
  then show "unat v < 2 ^ 31" by (simp only: of_nat_less_iff)
qed

subsection \<open>Properties\<close>



lemma length_putc: "length (mb_out b) < mb_len b \<Longrightarrow> length (mb_out (putc ch b)) < mb_len (putc ch b)"
  by (simp add: putc_def)

lemma length_puts: "length (mb_out b) < mb_len b \<Longrightarrow> length (mb_out (puts s n b)) < mb_len (puts s n b)"
  by (auto simp: puts_def Let_def)

lemma mb_len_ops [simp]: "mb_len (putc ch b) = mb_len b" "mb_len (puts s n b) = mb_len b"
  by (simp_all add: putc_def puts_def Let_def)

lemma convert_bounded:
  assumes "length (mb_out b) < mb_len b" "convert ch z va b = Some (va', b')"
  shows "length (mb_out b') < mb_len b' \<and> mb_len b' = mb_len b"
  using assms length_putc [OF assms(1)] length_puts [OF assms(1)]
  by (auto simp: convert_def Option.bind_eq_Some_conv split: if_splits list.splits va_arg.splits)

lemma vsnprintf_loop_bounded:
  "length (mb_out b) < mb_len b \<Longrightarrow> vsnprintf_loop fmt va b = Some b' \<Longrightarrow>
     length (mb_out b') < mb_len b' \<and> mb_len b' = mb_len b"
proof (induction fmt va b rule: vsnprintf_loop.induct)
  case (1 va b)
  then show ?case by simp
next
  case (2 ch fmt va b)
  show ?case
  proof (cases "mb_len b \<le> length (mb_out b) + 1 \<or> ch \<noteq> 37")
    case True
    with 2 length_putc [OF 2(3)] show ?thesis by (auto split: if_splits)
  next
    case False
    show ?thesis
    proof (cases "directive fmt")
      case None
      with False 2 show ?thesis by simp
    next
      case (Some t)
      obtain ch' z fmt' where t: "t = (ch', z, fmt')" by (cases t)
      with Some False "2.prems"(2) obtain va' b1 where c: "convert ch' z va b = Some (va', b1)"
        and rest: "vsnprintf_loop fmt' va' b1 = Some b'"
        by (auto split: option.splits prod.splits)
      have b1: "length (mb_out b1) < mb_len b1" "mb_len b1 = mb_len b"
        using convert_bounded [OF "2.prems"(1) c] by auto
      show ?thesis
        using "2.IH"(2) [OF _ _ Some [unfolded t] refl refl c refl b1(1) rest] False b1(2) by simp
    qed
  qed
qed

text \<open>The arguments a format needs: one integer for each \<open>u\<close>, \<open>d\<close>, \<open>x\<close>, \<open>X\<close> and \<open>c\<close> conversion,
  one string for each \<open>s\<close>.\<close>

fun takes_arg :: "u8 \<Rightarrow> va_arg list \<Rightarrow> va_arg list option" where
  "takes_arg ch va =
     (if ch \<in> {117, 100, 120, 88, 99} then (case va of VInt _ # va' \<Rightarrow> Some va' | _ \<Rightarrow> None)
      else if ch = 115 then (case va of VStr _ # va' \<Rightarrow> Some va' | _ \<Rightarrow> None)
      else Some va)"

function args_ok :: "u8 list \<Rightarrow> va_arg list \<Rightarrow> bool" where
  "args_ok [] va = True"
| "args_ok (ch # fmt) va =
     (if ch \<noteq> 37 then args_ok fmt va
      else (case directive fmt of
              None \<Rightarrow> True
            | Some (ch', _, fmt') \<Rightarrow>
                (case takes_arg ch' va of None \<Rightarrow> False | Some va' \<Rightarrow> args_ok fmt' va')))"
  by pat_completeness auto
termination
  by (relation "measure (\<lambda>(fmt, va). length fmt)") (auto dest: directive_length)

lemma mini_itoa_total: "radix = 10 \<or> radix = 16 \<Longrightarrow> mini_itoa v radix up unsig z \<noteq> None"
  using itoa_loop_digits [of 10] itoa_loop_digits [of 16] by (auto simp: mini_itoa_def Let_def)

lemma convert_total:
  "takes_arg ch va = Some va' \<Longrightarrow> \<exists>b'. convert ch z va b = Some (va', b')"
  using mini_itoa_total
  by (auto simp: convert_def Option.bind_eq_Some_conv split: if_splits list.splits va_arg.splits)

lemma vsnprintf_loop_total: "args_ok fmt va \<Longrightarrow> \<exists>b'. vsnprintf_loop fmt va b = Some b'"
proof (induction fmt va arbitrary: b rule: args_ok.induct)
  case (1 va)
  then show ?case by simp
next
  case (2 ch fmt va)
  show ?case
  proof (cases "ch \<noteq> 37 \<or> directive fmt = None")
    case True
    with 2 show ?thesis by (cases "directive fmt") auto
  next
    case False
    then obtain ch' z fmt' where d: "directive fmt = Some (ch', z, fmt')"
      by (metis not_None_eq prod_cases3)
    with False "2.prems" obtain va' where t: "takes_arg ch' va = Some va'" and ok: "args_ok fmt' va'"
      by (auto simp del: takes_arg.simps split: option.splits)
    obtain b1 where "convert ch' z va b = Some (va', b1)" using convert_total [OF t] by blast
    with False d "2.IH"(2) [OF _ d refl refl t ok] show ?thesis by auto
  qed
qed

lemma mini_vsnprintf_total: "args_ok fmt va \<Longrightarrow> \<exists>out. mini_vsnprintf n fmt va = Some out"
  using vsnprintf_loop_total [of fmt va] by (auto simp: mini_vsnprintf_def)

text \<open>
  C31: \<open>mini_vsnprintf\<close> never writes outside its buffer: with a buffer of \<open>n > 0\<close> bytes, whatever
  the format and the arguments, at most \<open>n - 1\<close> characters are written, so that the final NUL
  fits (\<open>printk\<close>, \<open>printf\<close> and \<open>printks\<close> all pass 256).
\<close>

theorem mini_vsnprintf_bounded:
  assumes "0 < n" "mini_vsnprintf n fmt va = Some out"
  shows "length out < n"
  using assms vsnprintf_loop_bounded [of "\<lparr>mb_out = [], mb_len = n\<rparr>" fmt va]
  by (auto simp: mini_vsnprintf_def)

theorem mini_vsnprintf_bounded_witness:
  "mini_vsnprintf 4 (cs ''a%sb'') [VStr (cs ''hello'')] = Some (cs ''ahe'') \<and> length (cs ''ahe'') < 4"
proof -
  have ok: "mini_vsnprintf 4 (cs ''a%sb'') [VStr (cs ''hello'')] = Some (cs ''ahe'')"
    by (simp add: mini_vsnprintf_def putc_def puts_def convert_def)
  show ?thesis using ok mini_vsnprintf_bounded [OF _ ok] by simp
qed

end
