(* ===== verification/Screen.thy ===== *)
theory Screen
  imports Kprintf
begin

text \<open>
  \<^verbatim>\<open>drivers/screen.c\<close>, the output half of \<^verbatim>\<open>libs/printk.c\<close> and
  \<^verbatim>\<open>arch/mips/pmon/common.c\<close>: the 80 by 30 screen buffer, the cursor, the incremental
  refresh over the serial port, \<open>printk\<close> and \<open>printks\<close>.

  The serial port is written by routines of the PMON firmware at fixed addresses; a call of
  one of them is recorded by appending its argument to the output trace \<open>port\<close>. An access to
  a screen array outside its 2400 cells has no defined outcome.
\<close>

subsection \<open>Data\<close>

abbreviation "SCREEN_WIDTH \<equiv> (80 :: nat)"
abbreviation "SCREEN_HEIGHT \<equiv> (30 :: nat)"

record screen_t =
  new_screen :: "nat \<Rightarrow> u8"
  old_screen :: "nat \<Rightarrow> u8"
  screen_cursor_x :: int
  screen_cursor_y :: int
  port :: "u8 list"

subsection \<open>The port and printk\<close>

definition port_write_ch :: "u8 \<Rightarrow> screen_t \<Rightarrow> screen_t" where
  "port_write_ch ch s = s\<lparr>port := port s @ [ch]\<rparr>"

definition port_write :: "u8 list \<Rightarrow> screen_t \<Rightarrow> screen_t" where
  "port_write str s = s\<lparr>port := port s @ str\<rparr>"

definition printk :: "u8 list \<Rightarrow> va_arg list \<Rightarrow> screen_t \<Rightarrow> screen_t option" where
  "printk fmt va s = do { buff \<leftarrow> mini_vsnprintf 256 fmt va; Some (port_write buff s) }"

subsection \<open>screen.c\<close>

definition vt100_move_cursor :: "int \<Rightarrow> int \<Rightarrow> screen_t \<Rightarrow> screen_t option" where
  "vt100_move_cursor x y s =
     printk (cs ''%c[%d;%dH'') [VInt 27, VInt (word_of_int y), VInt (word_of_int x)] s"

definition vt100_clear :: "screen_t \<Rightarrow> screen_t option" where
  "vt100_clear s = printk (cs ''%c[2J'') [VInt 27] s"

definition vt100_hidden_cursor :: "screen_t \<Rightarrow> screen_t option" where
  "vt100_hidden_cursor s = printk (cs ''%c[?25l'') [VInt 27] s"

definition screen_scroll :: "nat \<Rightarrow> nat \<Rightarrow> screen_t \<Rightarrow> screen_t option" where
  "screen_scroll line1 line2 s =
     (if SCREEN_HEIGHT \<le> line2 then None
      else
        (let s1 = for_upto line1 (Suc line2) (\<lambda>i. for_upto 0 SCREEN_WIDTH
               (\<lambda>j s. s\<lparr>old_screen := (old_screen s)(i * SCREEN_WIDTH + j := 0)\<rparr>)) s;
             s2 = for_upto line1 (Suc line2) (\<lambda>i. for_upto 0 SCREEN_WIDTH
               (\<lambda>j s. s\<lparr>new_screen := (new_screen s)(i * SCREEN_WIDTH + j :=
                  if i = line2 then 32 else new_screen s ((i + 1) * SCREEN_WIDTH + j))\<rparr>)) s1
         in Some s2))"

text \<open>A store to \<open>new_screen[screen_cursor_y * SCREEN_WIDTH + screen_cursor_x]\<close>.\<close>

definition put_at_cursor :: "u8 \<Rightarrow> screen_t \<Rightarrow> screen_t option" where
  "put_at_cursor ch s =
     (let k = screen_cursor_y s * int SCREEN_WIDTH + screen_cursor_x s in
      if 0 \<le> k \<and> k < int (SCREEN_HEIGHT * SCREEN_WIDTH)
      then Some (s\<lparr>new_screen := (new_screen s)(nat k := ch)\<rparr>) else None)"

definition screen_write_ch :: "u8 \<Rightarrow> screen_t \<Rightarrow> screen_t option" where
  "screen_write_ch ch s = do {
     s1 \<leftarrow> (if ch = 10 then Some (s\<lparr>screen_cursor_x := 0, screen_cursor_y := screen_cursor_y s + 1\<rparr>)
           else if ch = 8 then
             (if 0 < screen_cursor_x s
              then put_at_cursor 32 (s\<lparr>screen_cursor_x := screen_cursor_x s - 1\<rparr>) else Some s)
           else if ch = 13 then Some (s\<lparr>screen_cursor_x := 0, screen_cursor_y := screen_cursor_y s + 1\<rparr>)
           else do { s' \<leftarrow> put_at_cursor ch s; Some (s'\<lparr>screen_cursor_x := screen_cursor_x s' + 1\<rparr>) });
     let s2 = (if screen_cursor_x s1 < 0 then s1\<lparr>screen_cursor_x := 0\<rparr> else s1);
     let s3 = (if int SCREEN_WIDTH \<le> screen_cursor_x s2
               then s2\<lparr>screen_cursor_y := screen_cursor_y s2 + 1, screen_cursor_x := 0\<rparr> else s2);
     let s4 = (if screen_cursor_y s3 < 0 then s3\<lparr>screen_cursor_y := 0\<rparr> else s3);
     if int SCREEN_HEIGHT \<le> screen_cursor_y s4
     then do {
       s5 \<leftarrow> screen_scroll (SCREEN_HEIGHT div 2 + 1) (SCREEN_HEIGHT - 1) s4;
       Some (s5\<lparr>screen_cursor_x := 0, screen_cursor_y := int (SCREEN_HEIGHT - 1)\<rparr>) }
     else Some s4 }"

text \<open>One cell of \<open>screen_reflush\<close>: only the modified location is sent.\<close>

definition reflush_cell :: "nat \<Rightarrow> nat \<Rightarrow> screen_t \<Rightarrow> screen_t option" where
  "reflush_cell i j s =
     (let k = i * SCREEN_WIDTH + j in
      if new_screen s k \<noteq> old_screen s k
      then do {
        s1 \<leftarrow> vt100_move_cursor (int j + 1) (int i + 1) s;
        let s2 = port_write_ch (new_screen s1 k) s1;
        Some (s2\<lparr>old_screen := (old_screen s2)(k := new_screen s2 k)\<rparr>) }
      else Some s)"

definition screen_reflush :: "screen_t \<Rightarrow> screen_t option" where
  "screen_reflush s = do {
     s1 \<leftarrow> for_upto_opt 0 SCREEN_HEIGHT (\<lambda>i. for_upto_opt 0 SCREEN_WIDTH (reflush_cell i)) s;
     vt100_move_cursor (screen_cursor_x s1) (screen_cursor_y s1) s1 }"

definition screen_clear :: "nat \<Rightarrow> nat \<Rightarrow> screen_t \<Rightarrow> screen_t option" where
  "screen_clear line1 line2 s =
     (if SCREEN_HEIGHT < line2 then None
      else
        (let s1 = for_upto line1 line2 (\<lambda>i. for_upto 0 SCREEN_WIDTH
               (\<lambda>j s. s\<lparr>new_screen := (new_screen s)(i * SCREEN_WIDTH + j := 32),
                        old_screen := (old_screen s)(i * SCREEN_WIDTH + j := 0)\<rparr>)) s
         in screen_reflush (s1\<lparr>screen_cursor_x := 0, screen_cursor_y := 0\<rparr>)))"

definition init_screen :: "screen_t \<Rightarrow> screen_t option" where
  "init_screen s = do {
     s1 \<leftarrow> vt100_hidden_cursor s;
     s2 \<leftarrow> vt100_clear s1;
     screen_clear 0 (SCREEN_HEIGHT - 1) s2 }"

definition screen_move_cursor :: "int \<Rightarrow> int \<Rightarrow> screen_t \<Rightarrow> screen_t" where
  "screen_move_cursor x y s = s\<lparr>screen_cursor_x := x, screen_cursor_y := y\<rparr>"

definition screen_write :: "u8 list \<Rightarrow> screen_t \<Rightarrow> screen_t option" where
  "screen_write buff s = fold_opt screen_write_ch buff s"

definition printks :: "u8 list \<Rightarrow> va_arg list \<Rightarrow> screen_t \<Rightarrow> screen_t option" where
  "printks fmt va s = do { buff \<leftarrow> mini_vsnprintf 256 fmt va; screen_write buff s }"

subsection \<open>Scrolling and clearing\<close>

text \<open>A double loop over lines and columns visits the cells of the lines in order.\<close>

lemma for_upto_nested:
  "for_upto a b (\<lambda>i. for_upto 0 w (\<lambda>j. f (i * w + j))) s = for_upto (a * w) (b * w) f s"
proof (cases "a \<le> b")
  case True
  have inner: "for_upto 0 w (\<lambda>j. f (i * w + j)) t = fold f [i * w..<i * w + w] t" for i t
  proof -
    have "[i * w..<i * w + w] = map (\<lambda>j. i * w + j) [0..<w]"
      by (metis add.left_neutral map_add_upt map_cong add.commute)
    then show ?thesis by (simp add: for_upto_def fold_map comp_def)
  qed
  have "for_upto a (a + d) (\<lambda>i. for_upto 0 w (\<lambda>j. f (i * w + j))) s =
      for_upto (a * w) ((a + d) * w) f s" for d
  proof (induction d)
    case 0
    then show ?case by simp
  next
    case (Suc d)
    have "[a * w..<Suc (a + d) * w] = [a * w..<(a + d) * w] @ [(a + d) * w..<(a + d) * w + w]"
      by (metis add.commute le_add1 mult_Suc mult_le_mono1 upt_add_eq_append)
    with Suc show ?case by (simp add: for_upto_Suc inner) (simp add: for_upto_def add.commute)
  qed
  from this [of "b - a"] True show ?thesis by simp
next
  case False
  then show ?thesis by (simp add: mult_le_mono1)
qed

text \<open>The region \<open>[lo, hi)\<close> of a screen array replaced by \<open>v\<close>.\<close>

definition region :: "nat \<Rightarrow> nat \<Rightarrow> (nat \<Rightarrow> u8) \<Rightarrow> (nat \<Rightarrow> u8) \<Rightarrow> nat \<Rightarrow> u8" where
  "region lo hi v f k = (if lo \<le> k \<and> k < hi then v k else f k)"

lemma region_empty: "hi \<le> lo \<Longrightarrow> region lo hi v f = f"
  by (auto simp: region_def fun_eq_iff)

lemma region_step: "lo \<le> k \<Longrightarrow> (region lo k v f)(k := v k) = region lo (Suc k) v f"
  by (auto simp: region_def fun_eq_iff)

lemma loop_old_zero:
  "lo \<le> hi \<Longrightarrow> for_upto lo hi (\<lambda>k s. s\<lparr>old_screen := (old_screen s)(k := 0)\<rparr>) s =
     s\<lparr>old_screen := region lo hi (\<lambda>_. 0) (old_screen s)\<rparr>"
  by (rule for_upto_inv [where I = "\<lambda>m t. t = s\<lparr>old_screen := region lo m (\<lambda>_. 0) (old_screen s)\<rparr>"])
    (auto simp: region_empty region_step [where v = "\<lambda>_. 0"])

lemma loop_scroll_new:
  assumes "line1 \<le> line2"
  shows "for_upto line1 (Suc line2) (\<lambda>i. for_upto 0 w
      (\<lambda>j s. s\<lparr>new_screen := (new_screen s)(i * w + j :=
         if i = line2 then 32 else new_screen s ((i + 1) * w + j))\<rparr>)) s =
    s\<lparr>new_screen := region (line1 * w) (Suc line2 * w)
       (\<lambda>k. if line2 * w \<le> k then 32 else new_screen s (k + w)) (new_screen s)\<rparr>"
proof -
  let ?f = "\<lambda>k s. s\<lparr>new_screen := (new_screen s)(k := if line2 * w \<le> k then 32 else new_screen s (k + w))\<rparr>"
  let ?v = "\<lambda>k. if line2 * w \<le> k then 32 else new_screen s (k + w)"
  have cell: "t\<lparr>new_screen := (new_screen t)(i * w + j :=
      if i = line2 then 32 else new_screen t ((i + 1) * w + j))\<rparr> = ?f (i * w + j) t"
    if "i < Suc line2" "j < w" for i j t
  proof (cases "i = line2")
    case True
    then show ?thesis by simp
  next
    case False
    with that have "Suc i * w \<le> line2 * w" by (intro mult_le_mono1) simp
    with that have "\<not> line2 * w \<le> i * w + j" by simp
    with False show ?thesis by (simp add: algebra_simps)
  qed
  have flat: "for_upto line1 (Suc line2) (\<lambda>i. for_upto 0 w
      (\<lambda>j s. s\<lparr>new_screen := (new_screen s)(i * w + j :=
         if i = line2 then 32 else new_screen s ((i + 1) * w + j))\<rparr>)) s =
      for_upto (line1 * w) (Suc line2 * w) ?f s"
    unfolding for_upto_nested [symmetric]
    by (intro for_upto_cong) (rule cell, assumption+)
  have "for_upto (line1 * w) (Suc line2 * w) ?f s =
      s\<lparr>new_screen := region (line1 * w) (Suc line2 * w) ?v (new_screen s)\<rparr>"
  proof (rule for_upto_inv [where
      I = "\<lambda>m t. t = s\<lparr>new_screen := region (line1 * w) m ?v (new_screen s)\<rparr>"])
    fix k t
    assume k: "line1 * w \<le> k" and t: "t = s\<lparr>new_screen := region (line1 * w) k ?v (new_screen s)\<rparr>"
    have "region (line1 * w) k ?v (new_screen s) (k + w) = new_screen s (k + w)"
      by (simp add: region_def)
    then show "?f k t = s\<lparr>new_screen := region (line1 * w) (Suc k) ?v (new_screen s)\<rparr>"
      using region_step [OF k, of ?v "new_screen s"]
      by (simp add: t split del: if_split cong: if_cong)
  qed (use assms in \<open>auto simp: region_empty intro!: trans_le_add2 mult_le_mono1\<close>)
  with flat show ?thesis by simp
qed

lemma screen_scroll_eq:
  assumes "line1 \<le> line2" "line2 < SCREEN_HEIGHT"
  shows "screen_scroll line1 line2 s = Some (s
    \<lparr>new_screen := region (line1 * SCREEN_WIDTH) (Suc line2 * SCREEN_WIDTH)
       (\<lambda>k. if line2 * SCREEN_WIDTH \<le> k then 32 else new_screen s (k + SCREEN_WIDTH)) (new_screen s),
     old_screen := region (line1 * SCREEN_WIDTH) (Suc line2 * SCREEN_WIDTH) (\<lambda>_. 0) (old_screen s)\<rparr>)"
proof -
  let ?t = "s\<lparr>old_screen := region (line1 * SCREEN_WIDTH) (Suc line2 * SCREEN_WIDTH) (\<lambda>_. 0) (old_screen s)\<rparr>"
  have "for_upto line1 (Suc line2) (\<lambda>i. for_upto 0 SCREEN_WIDTH
      (\<lambda>j s. s\<lparr>old_screen := (old_screen s)(i * SCREEN_WIDTH + j := 0)\<rparr>)) s = ?t"
    unfolding for_upto_nested [where f = "\<lambda>k s. s\<lparr>old_screen := (old_screen s)(k := 0)\<rparr>"]
    by (rule loop_old_zero) (use assms in simp)
  then show ?thesis
    using assms loop_scroll_new [OF assms(1), of SCREEN_WIDTH ?t]
    by (simp only: screen_scroll_def Let_def) (simp cong: if_cong)
qed

subsection \<open>Writing keeps the cursor on the screen\<close>

definition cursor_ok :: "screen_t \<Rightarrow> bool" where
  "cursor_ok s \<longleftrightarrow> 0 \<le> screen_cursor_x s \<and> screen_cursor_x s < int SCREEN_WIDTH \<and>
     0 \<le> screen_cursor_y s \<and> screen_cursor_y s < int SCREEN_HEIGHT"

definition cursor_cell :: "screen_t \<Rightarrow> nat" where
  "cursor_cell s = nat (screen_cursor_y s * int SCREEN_WIDTH + screen_cursor_x s)"

lemma put_at_cursor_ok:
  "cursor_ok s \<Longrightarrow> put_at_cursor ch s = Some (s\<lparr>new_screen := (new_screen s)(cursor_cell s := ch)\<rparr>)"
  by (auto simp: put_at_cursor_def cursor_ok_def cursor_cell_def Let_def)

lemma put_before_cursor_ok:
  assumes "cursor_ok s" "0 < screen_cursor_x s"
  shows "put_at_cursor ch (s\<lparr>screen_cursor_x := screen_cursor_x s - 1\<rparr>) =
    Some (s\<lparr>screen_cursor_x := screen_cursor_x s - 1,
      new_screen := (new_screen s)(cursor_cell (s\<lparr>screen_cursor_x := screen_cursor_x s - 1\<rparr>) := ch)\<rparr>)"
  using assms by (subst put_at_cursor_ok) (auto simp: cursor_ok_def)

lemma screen_write_ch_ok:
  assumes "cursor_ok s"
  shows "\<exists>s'. screen_write_ch ch s = Some s' \<and> cursor_ok s' \<and> port s' = port s"
  using assms
  by (auto simp: screen_write_ch_def cursor_ok_def put_at_cursor_def screen_scroll_eq Let_def)

lemma screen_write_ok:
  "cursor_ok s \<Longrightarrow> \<exists>s'. screen_write buff s = Some s' \<and> cursor_ok s' \<and> port s' = port s"
proof (induction buff arbitrary: s)
  case Nil
  then show ?case by (simp add: screen_write_def)
next
  case (Cons ch buff)
  then obtain s1 where "screen_write_ch ch s = Some s1" "cursor_ok s1" "port s1 = port s"
    using screen_write_ch_ok by blast
  with Cons.IH [of s1] show ?case by (auto simp: screen_write_def)
qed

subsection \<open>The refresh\<close>

lemma vt100_move_cursor_total: "\<exists>out. vt100_move_cursor x y s = Some (s\<lparr>port := port s @ out\<rparr>)"
  using mini_vsnprintf_total [of "cs ''%c[%d;%dH''" "[VInt 27, VInt (word_of_int y), VInt (word_of_int x)]" 256]
  by (auto simp: vt100_move_cursor_def printk_def port_write_def)

lemma reflush_cell_total:
  "\<exists>out. reflush_cell i j s = Some (s\<lparr>old_screen := (old_screen s)(i * SCREEN_WIDTH + j :=
      new_screen s (i * SCREEN_WIDTH + j)), port := port s @ out\<rparr>)"
proof (cases "new_screen s (i * SCREEN_WIDTH + j) = old_screen s (i * SCREEN_WIDTH + j)")
  case True
  then show ?thesis by (intro exI [of _ "[]"]) (simp add: reflush_cell_def Let_def)
next
  case False
  obtain out where "vt100_move_cursor (int j + 1) (int i + 1) s = Some (s\<lparr>port := port s @ out\<rparr>)"
    using vt100_move_cursor_total by blast
  with False show ?thesis
    by (auto simp: reflush_cell_def Let_def port_write_ch_def
      intro!: exI [of _ "out @ [new_screen s (i * SCREEN_WIDTH + j)]"])
qed

text \<open>\<open>flushed n s s'\<close>: \<open>s'\<close> is \<open>s\<close> with the first \<open>n\<close> cells shown and output sent.\<close>

definition flushed :: "nat \<Rightarrow> screen_t \<Rightarrow> screen_t \<Rightarrow> bool" where
  "flushed n s s' \<longleftrightarrow>
     (\<exists>out. s' = s\<lparr>old_screen := region 0 n (new_screen s) (old_screen s), port := port s @ out\<rparr>)"

lemma flushed_step:
  assumes "flushed k s t" "k = i * SCREEN_WIDTH + j"
  shows "\<exists>t'. reflush_cell i j t = Some t' \<and> flushed (Suc k) s t'"
proof -
  from assms(1) obtain out where t: "t = s\<lparr>old_screen := region 0 k (new_screen s) (old_screen s),
    port := port s @ out\<rparr>" by (auto simp: flushed_def)
  obtain out' where "reflush_cell i j t = Some (t\<lparr>old_screen := (old_screen t)(k := new_screen t k),
    port := port t @ out'\<rparr>)" using reflush_cell_total [of i j t] assms(2) by auto
  moreover have "(region 0 k (new_screen s) (old_screen s))(k := new_screen s k) =
      region 0 (Suc k) (new_screen s) (old_screen s)" by (rule region_step) simp
  ultimately show ?thesis by (auto simp: flushed_def t)
qed

lemma reflush_lines:
  "\<exists>t. for_upto_opt 0 SCREEN_HEIGHT (\<lambda>i. for_upto_opt 0 SCREEN_WIDTH (reflush_cell i)) s = Some t \<and>
     flushed (SCREEN_HEIGHT * SCREEN_WIDTH) s t"
proof (rule for_upto_opt_inv [where I = "\<lambda>i t. flushed (i * SCREEN_WIDTH) s t"])
  show "flushed (0 * SCREEN_WIDTH) s s"
    by (auto simp: flushed_def region_empty intro!: exI [of _ "[]"])
  fix i t assume t: "flushed (i * SCREEN_WIDTH) s t"
  have "\<exists>t'. for_upto_opt 0 SCREEN_WIDTH (reflush_cell i) t = Some t' \<and> flushed (i * SCREEN_WIDTH + SCREEN_WIDTH) s t'"
  proof (rule for_upto_opt_inv [where I = "\<lambda>j t. flushed (i * SCREEN_WIDTH + j) s t"])
    show "flushed (i * SCREEN_WIDTH + 0) s t" using t by simp
  qed (use flushed_step in auto)
  then show "\<exists>t'. for_upto_opt 0 SCREEN_WIDTH (reflush_cell i) t = Some t' \<and> flushed (Suc i * SCREEN_WIDTH) s t'"
    by (simp add: add.commute)
qed simp

lemma screen_reflush_total:
  "\<exists>out. screen_reflush s = Some (s\<lparr>old_screen :=
     region 0 (SCREEN_HEIGHT * SCREEN_WIDTH) (new_screen s) (old_screen s), port := port s @ out\<rparr>)"
proof -
  obtain t where "for_upto_opt 0 SCREEN_HEIGHT (\<lambda>i. for_upto_opt 0 SCREEN_WIDTH (reflush_cell i)) s = Some t"
    and "flushed (SCREEN_HEIGHT * SCREEN_WIDTH) s t" using reflush_lines by blast
  moreover obtain out where
    "vt100_move_cursor (screen_cursor_x t) (screen_cursor_y t) t = Some (t\<lparr>port := port t @ out\<rparr>)"
    using vt100_move_cursor_total by blast
  ultimately show ?thesis by (auto simp: screen_reflush_def flushed_def)
qed

subsection \<open>Properties\<close>

text \<open>
  Writing text is memory safe. With the cursor on the screen, \<open>screen_write\<close> of any bytes
  (newlines, backspaces, lines that run over, the scroll at the bottom) makes no access outside
  the screen arrays, leaves the cursor on the screen and sends nothing to the port.
\<close>

theorem screen_write_safe:
  assumes "cursor_ok s"
  shows "\<exists>s'. screen_write buff s = Some s' \<and> cursor_ok s' \<and> port s' = port s"
  by (rule screen_write_ok [OF assms])

theorem screen_write_safe_witness:
  "\<exists>s'. screen_write (cs ''ab'' @ [10, 8]) \<lparr>new_screen = \<lambda>_. 32, old_screen = \<lambda>_. 0,
      screen_cursor_x = 79, screen_cursor_y = 29, port = []\<rparr> = Some s' \<and> cursor_ok s' \<and> port s' = []"
  using screen_write_safe [of "\<lparr>new_screen = \<lambda>_. 32, old_screen = \<lambda>_. 0,
      screen_cursor_x = 79, screen_cursor_y = 29, port = []\<rparr>" "cs ''ab'' @ [10, 8]"]
  by (simp add: cursor_ok_def)



text \<open>
  The scroll at the bottom of the screen moves the lines 17 to 29 up by one, blanks line 29,
  leaves the lines 0 to 15 as they were and marks every scrolled cell for redrawing.
\<close>

theorem screen_scroll_bottom:
  "\<exists>s'. screen_scroll (SCREEN_HEIGHT div 2 + 1) (SCREEN_HEIGHT - 1) s = Some s' \<and>
     (\<forall>y x. x < SCREEN_WIDTH \<longrightarrow> new_screen s' (y * SCREEN_WIDTH + x) =
        (if 16 \<le> y \<and> y < 29 then new_screen s (Suc y * SCREEN_WIDTH + x)
         else if y = 29 then 32 else new_screen s (y * SCREEN_WIDTH + x))) \<and>
     (\<forall>y x. x < SCREEN_WIDTH \<and> 16 \<le> y \<and> y \<le> 29 \<longrightarrow> old_screen s' (y * SCREEN_WIDTH + x) = 0)"
  using screen_scroll_eq [of 16 29 s] by (auto simp: region_def add.commute add.left_commute)

theorem screen_scroll_bottom_witness:
  "\<exists>s'. screen_scroll (SCREEN_HEIGHT div 2 + 1) (SCREEN_HEIGHT - 1)
      \<lparr>new_screen = \<lambda>k. word_of_nat (k div 80), old_screen = \<lambda>_. 0,
       screen_cursor_x = 0, screen_cursor_y = 0, port = []\<rparr> = Some s' \<and> new_screen s' (20 * 80 + 5) = 21"
proof -
  let ?s = "\<lparr>new_screen = \<lambda>k. word_of_nat (k div 80), old_screen = \<lambda>_. 0,
       screen_cursor_x = 0, screen_cursor_y = 0, port = []\<rparr>"
  obtain s' where s': "screen_scroll (SCREEN_HEIGHT div 2 + 1) (SCREEN_HEIGHT - 1) ?s = Some s'"
    and cells: "\<forall>y x. x < SCREEN_WIDTH \<longrightarrow> new_screen s' (y * SCREEN_WIDTH + x) =
      (if 16 \<le> y \<and> y < 29 then new_screen ?s (Suc y * SCREEN_WIDTH + x)
       else if y = 29 then 32 else new_screen ?s (y * SCREEN_WIDTH + x))"
    using screen_scroll_bottom [of ?s] by blast
  from cells [rule_format, of 5 20] have "new_screen s' (20 * 80 + 5) = 21" by simp
  with s' show ?thesis by blast
qed

end
