(* ===== verification/Kstate.thy ===== *)
theory Kstate
  imports Kqueue Screen
begin

text \<open>
  The kernel's data: the types of \<^verbatim>\<open>include/os/sched.h\<close>, \<^verbatim>\<open>lock.h\<close>, \<^verbatim>\<open>sem.h\<close>,
  \<^verbatim>\<open>cond.h\<close> and \<^verbatim>\<open>barrier.h\<close>, and the global variables of \<^verbatim>\<open>kernel/sched/sched.c\<close>,
  \<^verbatim>\<open>kernel/sched/time.c\<close> and \<^verbatim>\<open>kernel/locking/lock.c\<close> as one record.

  A process is its index in the array \<open>pcb\<close>; a mutex, semaphore, condition variable or barrier
  is named by a number standing for its address. Every \<open>queue_t\<close> object of the system has a
  name of type \<open>qid\<close>. The fields \<open>prev\<close> and \<open>next\<close> of the PCBs are in \<open>klinks\<close>. The arrays
  indexed by priority are functions on \<^typ>\<open>int\<close>: the code also reads them at index -1, and
  the cell at -1 stands for the memory in front of the array.
\<close>

subsection \<open>Processes\<close>

abbreviation "NUM_MAX_TASK \<equiv> (16 :: nat)"
abbreviation "MAX_PRIORITY_NUM \<equiv> (5 :: int)"
abbreviation "PRIORITY_FACTOR \<equiv> (3 :: u32)"
abbreviation "MAX_LOCK_NUM_FOR_A_PROC \<equiv> (8 :: nat)"

datatype task_status_t = TASK_BLOCKED | TASK_RUNNING | TASK_READY | TASK_EXITED | TASK_CREATE

datatype task_type_t = KERNEL_PROCESS | KERNEL_THREAD | USER_PROCESS | USER_THREAD

record regs_context_t =
  regs :: "nat \<Rightarrow> u32"
  cp0_status :: u32
  hi :: u32
  lo :: u32
  cp0_badvaddr :: u32
  cp0_cause :: u32
  cp0_epc :: u32
  pc :: u32

record file_desc_t =
  fd_pos :: u32
  fd_file :: "nat option"
  file_access :: int

record pcb_t =
  kernel_context :: regs_context_t
  user_context :: regs_context_t
  secondary_pt :: "nat \<Rightarrow> u32"
  pid :: int
  kernel_stack_top :: u32
  user_stack_top :: u32
  pname :: "u8 list"
  entry_point :: u32
  locks :: "nat \<Rightarrow> nat option"
  ttype :: task_type_t
  status :: task_status_t
  awake_time :: u32
  cursor_x :: int
  cursor_y :: int
  priority :: u32
  waiting_desc :: "nat option"
  fd :: "file_desc_t"

record task_info_t =
  task_name :: "u8 list"
  task_entry_point :: u32
  task_type :: task_type_t

subsection \<open>Synchronisation objects\<close>

datatype lock_status_t = UNLOCKED | LOCKED

record mutex_lock_t =
  lock_status :: lock_status_t
  is_init :: u32
  lock_id :: u32

record semaphore_t =
  sem_value :: int
  sem_initialized :: int

record condition_t =
  cond_initialized :: int

record barrier_t =
  barrier_initialized :: int
  cur_val :: int
  barrier_bound :: int

subsection \<open>The state\<close>

datatype qid =
    ReadyQ int        \<comment> \<open>\<open>priority_ready_queue[i]\<close>\<close>
  | BlockQ            \<comment> \<open>\<open>block_queue\<close>, the sleeping processes\<close>
  | RecvQ             \<comment> \<open>\<open>recv_block_queue\<close>\<close>
  | ProcQ nat         \<comment> \<open>\<open>pcb[i].proc_block_queue\<close>\<close>
  | LockQ nat         \<comment> \<open>\<open>lock->waiting_queue\<close>\<close>
  | SemQ nat          \<comment> \<open>\<open>s->sem_block_queue\<close>\<close>
  | CondQ nat         \<comment> \<open>\<open>condition->cond_block_queue\<close>\<close>
  | BarrierQ nat      \<comment> \<open>\<open>barrier->barrier_block_queue\<close>\<close>

record kstate =
  pcb :: "nat \<Rightarrow> pcb_t"
  klinks :: links
  queues :: "qid \<Rightarrow> queue_t"
  current_running :: "nat option"
  last_sel_index :: int
  glb_sched_cnt :: int
  glb_sched_bound :: int
  priority_ready_queue_counter :: "int \<Rightarrow> u32"
  priority_ready_queue_counter_uppper_bound :: "int \<Rightarrow> u32"
  scr :: screen_t
  time_elapsed :: u32
  desc_tdes0 :: "nat \<Rightarrow> u32"
  lock_cnt :: u32
  mutexes :: "nat \<Rightarrow> mutex_lock_t"
  sems :: "nat \<Rightarrow> semaphore_t"
  conds :: "nat \<Rightarrow> condition_t"
  barriers :: "nat \<Rightarrow> barrier_t"

text \<open>Writing one PCB.\<close>

definition upd_pcb :: "nat \<Rightarrow> (pcb_t \<Rightarrow> pcb_t) \<Rightarrow> kstate \<Rightarrow> kstate" where
  "upd_pcb i f s = s\<lparr>pcb := (pcb s)(i := f (pcb s i))\<rparr>"

definition get_timer :: "kstate \<Rightarrow> u32" where
  "get_timer s = time_elapsed s"

definition get_timer_in_sec :: "kstate \<Rightarrow> u32" where
  "get_timer_in_sec s = get_timer s div 1000"

text \<open>\<open>update_time_stamp\<close>: the processor's count register is an argument; the division is one of
  signed ints by 150000.\<close>

definition update_time_stamp :: "u32 \<Rightarrow> kstate \<Rightarrow> kstate" where
  "update_time_stamp count s =
     (let tick = sint count; ms_cnt = 300 * 1000 div 2
      in s\<lparr>time_elapsed := time_elapsed s + word_of_int (sgn tick * (\<bar>tick\<bar> div ms_cnt))\<rparr>)"

subsection \<open>The queue operations on the state\<close>

definition kq_push :: "qid \<Rightarrow> nat \<Rightarrow> kstate \<Rightarrow> kstate option" where
  "kq_push q item s = do {
     (h, q') \<leftarrow> queue_push item (klinks s) (queues s q);
     Some (s\<lparr>klinks := h, queues := (queues s)(q := q')\<rparr>) }"

definition kq_push_if_not_exist :: "qid \<Rightarrow> nat \<Rightarrow> kstate \<Rightarrow> kstate option" where
  "kq_push_if_not_exist q item s = do {
     (h, q') \<leftarrow> queue_push_if_not_exist item (klinks s) (queues s q);
     Some (s\<lparr>klinks := h, queues := (queues s)(q := q')\<rparr>) }"

definition kq_dequeue :: "qid \<Rightarrow> kstate \<Rightarrow> nat option \<times> kstate" where
  "kq_dequeue q s =
     (case queue_dequeue (klinks s) (queues s q) of
        (x, h, q') \<Rightarrow> (x, s\<lparr>klinks := h, queues := (queues s)(q := q')\<rparr>))"

text \<open>A queue of the array \<open>priority_ready_queue\<close> at an index computed from a priority.\<close>

definition ready_q :: "u32 \<Rightarrow> qid option" where
  "ready_q p = (if uint p < MAX_PRIORITY_NUM then Some (ReadyQ (uint p)) else None)"

subsection \<open>All queues as lists\<close>

text \<open>
  \<open>queues_wf s Q\<close>: every queue \<open>q\<close> of the system holds the list \<open>Q q\<close>, and no process is on two
  queues.
\<close>

type_synonym qcontents = "qid \<Rightarrow> nat list"

definition queues_wf :: "kstate \<Rightarrow> qcontents \<Rightarrow> bool" where
  "queues_wf s Q \<longleftrightarrow>
     (\<forall>q. queue_rep (klinks s) (queues s q) (Q q)) \<and>
     (\<forall>q r. q \<noteq> r \<longrightarrow> set (Q q) \<inter> set (Q r) = {})"

definition queued :: "qcontents \<Rightarrow> nat set" where
  "queued Q = (\<Union>q. set (Q q))"

text \<open>\<open>only_queues s s'\<close>: the two states differ in the queues and their links at most.\<close>

definition only_queues :: "kstate \<Rightarrow> kstate \<Rightarrow> bool" where
  "only_queues s s' \<longleftrightarrow> (\<exists>h q. s' = s\<lparr>klinks := h, queues := q\<rparr>)"

lemma only_queues_fields [simp]:
  assumes "only_queues s s'"
  shows "pcb s' = pcb s" "current_running s' = current_running s"
    "last_sel_index s' = last_sel_index s" "glb_sched_cnt s' = glb_sched_cnt s"
    "glb_sched_bound s' = glb_sched_bound s"
    "priority_ready_queue_counter s' = priority_ready_queue_counter s"
    "priority_ready_queue_counter_uppper_bound s' = priority_ready_queue_counter_uppper_bound s"
    "scr s' = scr s" "time_elapsed s' = time_elapsed s" "desc_tdes0 s' = desc_tdes0 s"
    "lock_cnt s' = lock_cnt s" "mutexes s' = mutexes s" "sems s' = sems s"
    "conds s' = conds s" "barriers s' = barriers s"
  using assms by (auto simp: only_queues_def)

lemma only_queues_refl [simp]: "only_queues s s"
proof -
  have "s = s\<lparr>klinks := klinks s, queues := queues s\<rparr>" by simp
  then show ?thesis unfolding only_queues_def by blast
qed

lemma only_queuesI [simp]: "only_queues s (s\<lparr>klinks := h, queues := q\<rparr>)"
  unfolding only_queues_def by blast

lemma only_queues_trans:
  assumes "only_queues s t" "only_queues t u"
  shows "only_queues s u"
proof -
  from assms obtain h q h' q' where "t = s\<lparr>klinks := h, queues := q\<rparr>"
    "u = t\<lparr>klinks := h', queues := q'\<rparr>" unfolding only_queues_def by blast
  then have "u = s\<lparr>klinks := h', queues := q'\<rparr>" by simp
  then show ?thesis by simp
qed

lemma upd_pcb_simps [simp]:
  "pcb (upd_pcb i f s) = (pcb s)(i := f (pcb s i))"
  "klinks (upd_pcb i f s) = klinks s" "queues (upd_pcb i f s) = queues s"
  "current_running (upd_pcb i f s) = current_running s"
  "last_sel_index (upd_pcb i f s) = last_sel_index s"
  "glb_sched_cnt (upd_pcb i f s) = glb_sched_cnt s"
  "glb_sched_bound (upd_pcb i f s) = glb_sched_bound s"
  "priority_ready_queue_counter (upd_pcb i f s) = priority_ready_queue_counter s"
  "priority_ready_queue_counter_uppper_bound (upd_pcb i f s) =
     priority_ready_queue_counter_uppper_bound s"
  "scr (upd_pcb i f s) = scr s" "time_elapsed (upd_pcb i f s) = time_elapsed s"
  "desc_tdes0 (upd_pcb i f s) = desc_tdes0 s" "lock_cnt (upd_pcb i f s) = lock_cnt s"
  "mutexes (upd_pcb i f s) = mutexes s" "sems (upd_pcb i f s) = sems s"
  "conds (upd_pcb i f s) = conds s" "barriers (upd_pcb i f s) = barriers s"
  by (simp_all add: upd_pcb_def)

lemma queues_wf_cong:
  "klinks s' = klinks s \<Longrightarrow> queues s' = queues s \<Longrightarrow> queues_wf s' Q = queues_wf s Q"
  by (simp add: queues_wf_def)

lemma queues_wf_update [simp]:
  "queues_wf (upd_pcb i f s) Q = queues_wf s Q"
  "queues_wf (s\<lparr>pcb := v1\<rparr>) Q = queues_wf s Q"
  "queues_wf (s\<lparr>current_running := v2\<rparr>) Q = queues_wf s Q"
  "queues_wf (s\<lparr>last_sel_index := v3\<rparr>) Q = queues_wf s Q"
  "queues_wf (s\<lparr>glb_sched_cnt := v4\<rparr>) Q = queues_wf s Q"
  "queues_wf (s\<lparr>priority_ready_queue_counter := v5\<rparr>) Q = queues_wf s Q"
  "queues_wf (s\<lparr>priority_ready_queue_counter_uppper_bound := v6\<rparr>) Q = queues_wf s Q"
  "queues_wf (s\<lparr>scr := v7\<rparr>) Q = queues_wf s Q"
  "queues_wf (s\<lparr>lock_cnt := v8\<rparr>) Q = queues_wf s Q"
  "queues_wf (s\<lparr>mutexes := v9\<rparr>) Q = queues_wf s Q"
  "queues_wf (s\<lparr>sems := v10\<rparr>) Q = queues_wf s Q"
  "queues_wf (s\<lparr>conds := v11\<rparr>) Q = queues_wf s Q"
  "queues_wf (s\<lparr>barriers := v12\<rparr>) Q = queues_wf s Q"
  "queues_wf (s\<lparr>time_elapsed := v13\<rparr>) Q = queues_wf s Q"
  by (simp_all add: queues_wf_def)

lemma queued_iff: "x \<in> queued Q \<longleftrightarrow> (\<exists>q. x \<in> set (Q q))"
  by (auto simp: queued_def)

lemma queued_upd_mono:
  assumes "set ts \<subseteq> set (Q q)"
  shows "queued (Q(q := ts)) \<subseteq> queued Q"
proof -
  have "set ((Q(q := ts)) r) \<subseteq> set (Q r)" for r using assms by simp
  then show ?thesis unfolding queued_def by (intro UN_mono) simp_all
qed

lemma queues_wf_head:
  "queues_wf s Q \<Longrightarrow> q_head (queues s q) = (case Q q of [] \<Rightarrow> None | x # _ \<Rightarrow> Some x)"
  unfolding queues_wf_def by (blast intro: queue_rep_head)

lemma queues_wf_once: "queues_wf s Q \<Longrightarrow> x \<in> set (Q q) \<Longrightarrow> x \<in> set (Q r) \<Longrightarrow> q = r"
  by (auto simp: queues_wf_def)

lemma queues_wf_distinct: "queues_wf s Q \<Longrightarrow> distinct (Q q)"
  by (auto simp: queues_wf_def dest: queue_rep_distinct)

text \<open>
  What the queue operations do to all queues at once, by the frame law of the queue interface:
  the other queues thread the same fields and keep their contents.
\<close>

lemma queues_wf_store:
  assumes wf: "queues_wf s Q" and rep: "queue_rep h q' xs"
    and frame: "links_agree (insert x (set (Q q))) (klinks s) h"
    and xs: "set xs \<subseteq> insert x (set (Q q))" and x: "\<And>r. r \<noteq> q \<Longrightarrow> x \<notin> set (Q r)"
  shows "queues_wf (s\<lparr>klinks := h, queues := (queues s)(q := q')\<rparr>) (Q(q := xs))"
proof -
  have other: "set (Q r) \<inter> insert x (set (Q q)) = {}" if "r \<noteq> q" for r
    using wf x that by (auto simp: queues_wf_def)
  have "queue_rep h (queues s r) (Q r)" if "r \<noteq> q" for r
    using wf that by (intro queue_rep_agree [OF _ frame other]) (auto simp: queues_wf_def)
  moreover have "set xs \<inter> set (Q r) = {}" if "r \<noteq> q" for r using other [OF that] xs by blast
  ultimately show ?thesis using wf rep by (auto simp: queues_wf_def)
qed

lemma kq_push_wf:
  assumes wf: "queues_wf s Q" and x: "x \<notin> queued Q"
  shows "\<exists>s'. kq_push q x s = Some s' \<and> only_queues s s' \<and> queues_wf s' (Q(q := Q q @ [x]))"
proof -
  from wf have "queue_rep (klinks s) (queues s q) (Q q)" by (simp add: queues_wf_def)
  from kq.push_rep [OF this, of x] x obtain h q' where
    push: "queue_push x (klinks s) (queues s q) = Some (h, q')" and rep: "queue_rep h q' (Q q @ [x])"
    and fr: "links_agree (insert x (set (Q q))) (klinks s) h" by (auto simp: queued_iff)
  have "queues_wf (s\<lparr>klinks := h, queues := (queues s)(q := q')\<rparr>) (Q(q := Q q @ [x]))"
    using x by (intro queues_wf_store [OF wf rep fr]) (auto simp: queued_iff)
  with push show ?thesis by (auto simp: kq_push_def)
qed

lemma kq_push_if_not_exist_wf:
  assumes wf: "queues_wf s Q" and x: "\<And>r. r \<noteq> q \<Longrightarrow> x \<notin> set (Q r)"
  shows "\<exists>s'. kq_push_if_not_exist q x s = Some s' \<and> only_queues s s' \<and>
    queues_wf s' (Q(q := if x \<in> set (Q q) then Q q else Q q @ [x]))"
proof -
  let ?xs = "if x \<in> set (Q q) then Q q else Q q @ [x]"
  from wf have "queue_rep (klinks s) (queues s q) (Q q)" by (simp add: queues_wf_def)
  from queue_push_if_not_exist_rep [OF this, of x] obtain h q' where
    push: "queue_push_if_not_exist x (klinks s) (queues s q) = Some (h, q')"
    and rep: "queue_rep h q' ?xs"
    and fr: "links_agree (insert x (set (Q q))) (klinks s) h" by auto
  have "queues_wf (s\<lparr>klinks := h, queues := (queues s)(q := q')\<rparr>) (Q(q := ?xs))"
    using x by (intro queues_wf_store [OF wf rep fr]) auto
  with push show ?thesis by (auto simp: kq_push_if_not_exist_def)
qed

lemma kq_dequeue_Nil:
  assumes "queues_wf s Q" "Q q = []"
  shows "kq_dequeue q s = (None, s)"
proof -
  have "q_head (queues s q) = None" using queues_wf_head [OF assms(1), of q] assms(2) by simp
  then show ?thesis by (simp add: kq_dequeue_def queue_dequeue_def)
qed

lemma kq_dequeue_Cons:
  assumes wf: "queues_wf s Q" and q: "Q q = x # xs"
  shows "\<exists>s'. kq_dequeue q s = (Some x, s') \<and> only_queues s s' \<and> queues_wf s' (Q(q := xs))"
proof -
  from wf have "queue_rep (klinks s) (queues s q) (Q q)" by (simp add: queues_wf_def)
  with q queue_dequeue_Cons obtain h q' where
    deq: "queue_dequeue (klinks s) (queues s q) = (Some x, h, q')" and rep: "queue_rep h q' xs"
    and fr: "links_agree (insert x (set (Q q))) (klinks s) h" by (metis insert_absorb2 list.simps(15))
  have "queues_wf (s\<lparr>klinks := h, queues := (queues s)(q := q')\<rparr>) (Q(q := xs))"
    using q queues_wf_once [OF wf, of x q] by (intro queues_wf_store [OF wf rep fr]) auto
  with deq show ?thesis by (auto simp: kq_dequeue_def)
qed

subsection \<open>Output\<close>

text \<open>\<open>printks\<close> on the screen of the kernel.\<close>

definition kprintks :: "u8 list \<Rightarrow> va_arg list \<Rightarrow> kstate \<Rightarrow> kstate option" where
  "kprintks fmt va s = do { x \<leftarrow> printks fmt va (scr s); Some (s\<lparr>scr := x\<rparr>) }"

lemma kprintks_ok:
  assumes "args_ok fmt va" "cursor_ok (scr s)"
  shows "\<exists>x. kprintks fmt va s = Some (s\<lparr>scr := x\<rparr>) \<and> cursor_ok x"
proof -
  obtain out where o: "mini_vsnprintf 256 fmt va = Some out" using mini_vsnprintf_total [OF assms(1)] by blast
  obtain x where x: "screen_write out (scr s) = Some x" "cursor_ok x"
    using screen_write_ok [OF assms(2)] by blast
  then have "kprintks fmt va s = Some (s\<lparr>scr := x\<rparr>)" using o by (simp add: kprintks_def printks_def)
  with x(2) show ?thesis by (intro exI conjI)
qed

end
