(* ===== verification/Sched.thy ===== *)
theory Sched
  imports Kstate
begin

text \<open>
  The scheduler of \<^verbatim>\<open>kernel/sched/sched.c\<close>: the choice of a ready queue, \<open>scheduler\<close>, blocking and
  waking up processes. \<open>None\<close> is undefined behaviour: a null dereference, an access outside
  \<open>priority_ready_queue\<close>, or a loop that does not end.

  \<open>do_scheduler\<close> (assembly in \<^verbatim>\<open>arch/mips/kernel/entry.S\<close>) saves the registers of the process,
  calls \<open>scheduler\<close> and restores those of the new \<open>current_running\<close>; here it is \<open>scheduler\<close> on the
  kernel's state. The registers, and the clearing of the TLB by inline assembly, are not in the
  state.
\<close>

subsection \<open>Operations\<close>

definition get_proc_by_pid :: "int \<Rightarrow> kstate \<Rightarrow> nat option" where
  "get_proc_by_pid p s =
     (if p < 0 \<or> int NUM_MAX_TASK \<le> p then None
      else if status (pcb s (nat p)) = TASK_RUNNING \<or> status (pcb s (nat p)) = TASK_BLOCKED \<or>
              status (pcb s (nat p)) = TASK_READY
      then Some (nat p) else None)"

text \<open>The unsigned \<open>priority\<close> parameter clamped to the array; the test \<open>priority < 0\<close> is never true.\<close>

definition clamp_priority :: "u32 \<Rightarrow> u32" where
  "clamp_priority p = (if MAX_PRIORITY_NUM \<le> uint p then 4 else p)"

definition increase_priority_upper_bound :: "u32 \<Rightarrow> kstate \<Rightarrow> kstate" where
  "increase_priority_upper_bound p s =
     (let pr = clamp_priority p; b = priority_ready_queue_counter_uppper_bound s
      in s\<lparr>priority_ready_queue_counter_uppper_bound :=
             b(uint pr := b (uint pr) + PRIORITY_FACTOR * (pr + 1))\<rparr>)"

definition decrease_priority_upper_bound :: "u32 \<Rightarrow> kstate \<Rightarrow> kstate" where
  "decrease_priority_upper_bound p s =
     (let pr = clamp_priority p; b = priority_ready_queue_counter_uppper_bound s;
          decreament = PRIORITY_FACTOR * (pr + 1)
      in s\<lparr>priority_ready_queue_counter_uppper_bound :=
             b(uint pr := if decreament > b (uint pr) then 0 else b (uint pr) - decreament)\<rparr>)"

definition invoke_blocked_proc :: "nat option \<Rightarrow> kstate \<Rightarrow> kstate option" where
  "invoke_blocked_proc p s =
     (case p of
        None \<Rightarrow> Some s
      | Some proc \<Rightarrow> do {
          let s1 = upd_pcb proc (status_update (\<lambda>_. TASK_RUNNING)) s;
          let s2 = increase_priority_upper_bound (priority (pcb s1 proc)) s1;
          q \<leftarrow> ready_q (priority (pcb s2 proc));
          kq_push_if_not_exist q proc s2 })"

definition check_sleeping :: "kstate \<Rightarrow> kstate option" where
  "check_sleeping s =
     (case q_head (queues s BlockQ) of
        None \<Rightarrow> Some s
      | Some blk_top \<Rightarrow>
          if awake_time (pcb s blk_top) < get_timer s
          then (case kq_dequeue BlockQ s of
                  (None, s1) \<Rightarrow> None
                | (Some proc, s1) \<Rightarrow>
                    invoke_blocked_proc (Some proc) (upd_pcb proc (awake_time_update (\<lambda>_. 0)) s1))
          else Some s)"

definition check_net_recv :: "kstate \<Rightarrow> kstate option" where
  "check_net_recv s =
     (case q_head (queues s RecvQ) of
        None \<Rightarrow> Some s
      | Some proc \<Rightarrow> do {
          desc \<leftarrow> waiting_desc (pcb s proc);
          if desc_tdes0 s desc AND 0x80000000 = 0
          then invoke_blocked_proc (Some proc) (snd (kq_dequeue RecvQ s))
          else Some s })"

text \<open>The loop that moves past the queues whose quota is used up.\<close>

function skip_exhausted :: "(int \<Rightarrow> u32) \<Rightarrow> (int \<Rightarrow> u32) \<Rightarrow> int \<Rightarrow> int" where
  "skip_exhausted counter bound this_index =
     (if this_index < MAX_PRIORITY_NUM \<and> counter this_index \<ge> bound this_index
      then skip_exhausted counter bound (this_index + 1) else this_index)"
  by auto
termination
  by (relation "measure (\<lambda>(c, b, i). nat (MAX_PRIORITY_NUM - i))") auto

text \<open>
  The choice of the ready queue, the first half of \<open>scheduler\<close>. Before the first choice
  \<open>last_sel_index\<close> is -1 and the loop reads the counters at -1; the queue at -1 does not exist.
\<close>

definition sched_pick :: "kstate \<Rightarrow> (int \<times> kstate) option" where
  "sched_pick s =
     (let i0 = (if last_sel_index s \<ge> MAX_PRIORITY_NUM then 1 else last_sel_index s);
          i1 = skip_exhausted (priority_ready_queue_counter s)
                 (priority_ready_queue_counter_uppper_bound s) i0;
          (i2, s1) =
            (if i1 \<ge> MAX_PRIORITY_NUM
             then (1, s\<lparr>priority_ready_queue_counter :=
                        for_upto 1 (nat MAX_PRIORITY_NUM) (\<lambda>i c. c(int i := 0))
                          (priority_ready_queue_counter s)\<rparr>)
             else (i1, s));
          s2 = s1\<lparr>glb_sched_cnt := glb_sched_cnt s1 + 1\<rparr>
      in if glb_sched_cnt s2 \<ge> glb_sched_bound s2 then Some (0, s2\<lparr>glb_sched_cnt := 0\<rparr>)
         else if i2 < 0 then None
         else if q_head (queues s2 (ReadyQ i2)) = None then Some (0, s2)
         else Some (i2, s2\<lparr>last_sel_index := i2,
                          priority_ready_queue_counter := (priority_ready_queue_counter s2)
                            (i2 := priority_ready_queue_counter s2 i2 + 1)\<rparr>))"

text \<open>The loop, in \<open>scheduler\<close> and in \<open>do_unblock_one\<close>, that dequeues until a process that has not
  exited, or NULL, comes out.\<close>

partial_function (option) dequeue_live :: "qid \<Rightarrow> kstate \<Rightarrow> (nat option \<times> kstate) option" where
  "dequeue_live q s =
     (case kq_dequeue q s of
        (None, s') \<Rightarrow> Some (None, s')
      | (Some t, s') \<Rightarrow>
          if status (pcb s' t) = TASK_EXITED then dequeue_live q s' else Some (Some t, s'))"

definition save_cursor :: "nat \<Rightarrow> kstate \<Rightarrow> kstate" where
  "save_cursor c s =
     upd_pcb c (\<lambda>p. p\<lparr>cursor_x := screen_cursor_x (scr s), cursor_y := screen_cursor_y (scr s)\<rparr>) s"

definition load_cursor :: "nat \<Rightarrow> kstate \<Rightarrow> kstate" where
  "load_cursor c s =
     s\<lparr>scr := (scr s)\<lparr>screen_cursor_x := cursor_x (pcb s c), screen_cursor_y := cursor_y (pcb s c)\<rparr>\<rparr>"

definition requeue_current :: "nat \<Rightarrow> kstate \<Rightarrow> kstate option" where
  "requeue_current c s =
     (if status (pcb s c) \<noteq> TASK_BLOCKED \<and> status (pcb s c) \<noteq> TASK_EXITED
      then do { q \<leftarrow> ready_q (priority (pcb s c)); kq_push q c s } else Some s)"

definition sched_error_msg :: "u8 list" where
  "sched_error_msg = cs ''[ERROR] scheduler error!'' @ [10]"

definition scheduler :: "kstate \<Rightarrow> kstate option" where
  "scheduler s = do {
     (this_index, s1) \<leftarrow> sched_pick s;
     (sel, s2) \<leftarrow> dequeue_live (ReadyQ this_index) s1;
     case sel of
       Some t \<Rightarrow> do {
         let s3 = upd_pcb t (status_update (\<lambda>_. TASK_RUNNING)) s2;
         c \<leftarrow> current_running s3;
         let s4 = save_cursor c s3;
         s5 \<leftarrow> requeue_current c s4;
         s6 \<leftarrow> check_sleeping s5;
         s7 \<leftarrow> check_net_recv s6;
         Some (load_cursor t (s7\<lparr>current_running := Some t\<rparr>)) }
     | None \<Rightarrow> do {
         scr' \<leftarrow> printk sched_error_msg [] (scr s2);
         Some (s2\<lparr>scr := scr'\<rparr>) } }"

abbreviation do_scheduler :: "kstate \<Rightarrow> kstate option" where
  "do_scheduler s \<equiv> scheduler s"

definition do_block :: "qid \<Rightarrow> kstate \<Rightarrow> kstate option" where
  "do_block blk_queue s = do {
     c \<leftarrow> current_running s;
     s1 \<leftarrow> kq_push_if_not_exist blk_queue c s;
     let s2 = upd_pcb c (status_update (\<lambda>_. TASK_BLOCKED)) s1;
     do_scheduler (decrease_priority_upper_bound (priority (pcb s2 c)) s2) }"

definition do_sleep :: "u32 \<Rightarrow> kstate \<Rightarrow> kstate option" where
  "do_sleep sleep_time s = do {
     c \<leftarrow> current_running s;
     do_block BlockQ (upd_pcb c (awake_time_update (\<lambda>_. sleep_time + get_timer s)) s) }"

definition do_unblock_one :: "qid \<Rightarrow> kstate \<Rightarrow> kstate option" where
  "do_unblock_one q s = do {
     (proc, s1) \<leftarrow> dequeue_live q s;
     case proc of None \<Rightarrow> Some s1 | Some p \<Rightarrow> invoke_blocked_proc (Some p) s1 }"

partial_function (option) do_unblock_all :: "qid \<Rightarrow> kstate \<Rightarrow> kstate option" where
  "do_unblock_all q s =
     (if q_head (queues s q) \<noteq> None
      then (case do_unblock_one q s of None \<Rightarrow> None | Some s' \<Rightarrow> do_unblock_all q s')
      else Some s)"

declare dequeue_live.simps [code] do_unblock_all.simps [code]

subsection \<open>Waking up a process\<close>

text \<open>
  \<open>wake_frame s s'\<close>: the states differ in PCBs, queues and quotas at most. \<open>wake s p Q\<close>: the queue
  contents after \<open>p\<close> has been appended to the ready queue of its priority.
\<close>

definition wake_frame :: "kstate \<Rightarrow> kstate \<Rightarrow> bool" where
  "wake_frame s s' \<longleftrightarrow>
     (\<exists>p h q b. s' = s\<lparr>pcb := p, klinks := h, queues := q,
        priority_ready_queue_counter_uppper_bound := b\<rparr>)"

definition to_ready :: "kstate \<Rightarrow> nat \<Rightarrow> qid" where
  "to_ready s p = ReadyQ (uint (priority (pcb s p)))"

definition wake :: "kstate \<Rightarrow> nat \<Rightarrow> qcontents \<Rightarrow> qcontents" where
  "wake s p Q = Q(to_ready s p := Q (to_ready s p) @ [p])"

definition exited :: "kstate \<Rightarrow> nat \<Rightarrow> bool" where
  "exited s p \<longleftrightarrow> status (pcb s p) = TASK_EXITED"

lemma wake_frameI [simp]:
  "wake_frame s (s\<lparr>pcb := p, klinks := h, queues := q,
     priority_ready_queue_counter_uppper_bound := b\<rparr>)"
  unfolding wake_frame_def by blast

lemma wake_frame_fields [simp]:
  assumes "wake_frame s s'"
  shows "current_running s' = current_running s"
    "last_sel_index s' = last_sel_index s" "glb_sched_cnt s' = glb_sched_cnt s"
    "glb_sched_bound s' = glb_sched_bound s"
    "priority_ready_queue_counter s' = priority_ready_queue_counter s"
    "scr s' = scr s" "time_elapsed s' = time_elapsed s" "desc_tdes0 s' = desc_tdes0 s"
    "lock_cnt s' = lock_cnt s" "mutexes s' = mutexes s" "sems s' = sems s"
    "conds s' = conds s" "barriers s' = barriers s"
  using assms by (auto simp: wake_frame_def)

lemma wake_frame_intro:
  assumes "s' = s\<lparr>pcb := p, klinks := h, queues := q,
     priority_ready_queue_counter_uppper_bound := b\<rparr>"
  shows "wake_frame s s'"
  using assms by simp

lemma wake_frame_refl [simp]: "wake_frame s s"
  by (rule wake_frame_intro [where p = "pcb s" and h = "klinks s" and q = "queues s" and
        b = "priority_ready_queue_counter_uppper_bound s"]) simp

lemma wake_frame_trans:
  assumes "wake_frame s t" "wake_frame t u"
  shows "wake_frame s u"
proof -
  from assms obtain p h q b p' h' q' b' where
    "t = s\<lparr>pcb := p, klinks := h, queues := q, priority_ready_queue_counter_uppper_bound := b\<rparr>"
    "u = t\<lparr>pcb := p', klinks := h', queues := q', priority_ready_queue_counter_uppper_bound := b'\<rparr>"
    unfolding wake_frame_def by blast
  then show ?thesis by (intro wake_frame_intro [where p = p' and h = h' and q = q' and b = b']) simp
qed

lemma only_queues_wake_frame:
  assumes "only_queues s s'"
  shows "wake_frame s s'"
proof -
  from assms obtain h q where "s' = s\<lparr>klinks := h, queues := q\<rparr>"
    unfolding only_queues_def by blast
  then show ?thesis
    by (intro wake_frame_intro [where p = "pcb s" and h = h and q = q and
        b = "priority_ready_queue_counter_uppper_bound s"]) simp
qed

lemma wake_frame_upd_pcb [simp]: "wake_frame s (upd_pcb i f s)"
  by (rule wake_frame_intro [where p = "(pcb s)(i := f (pcb s i))" and h = "klinks s" and
        q = "queues s" and b = "priority_ready_queue_counter_uppper_bound s"]) (simp add: upd_pcb_def)

lemma wake_frame_bound [simp]:
  "wake_frame s (increase_priority_upper_bound p s)" "wake_frame s (decrease_priority_upper_bound p s)"
  unfolding increase_priority_upper_bound_def decrease_priority_upper_bound_def Let_def
  by (rule wake_frame_intro [where p = "pcb s" and h = "klinks s" and q = "queues s"], simp)+

lemma bound_simps [simp]:
  "pcb (increase_priority_upper_bound p s) = pcb s"
  "pcb (decrease_priority_upper_bound p s) = pcb s"
  "klinks (increase_priority_upper_bound p s) = klinks s"
  "klinks (decrease_priority_upper_bound p s) = klinks s"
  "queues (increase_priority_upper_bound p s) = queues s"
  "queues (decrease_priority_upper_bound p s) = queues s"
  "queues_wf (increase_priority_upper_bound p s) Q = queues_wf s Q"
  "queues_wf (decrease_priority_upper_bound p s) Q = queues_wf s Q"
  by (simp_all add: increase_priority_upper_bound_def decrease_priority_upper_bound_def Let_def)

lemma clamp_priority_range [simp]: "0 \<le> uint (clamp_priority p)" "uint (clamp_priority p) < 5"
  by (simp_all add: clamp_priority_def)

lemma bound_before_array [simp]:
  "priority_ready_queue_counter_uppper_bound (increase_priority_upper_bound p s) (- 1) =
     priority_ready_queue_counter_uppper_bound s (- 1)"
  "priority_ready_queue_counter_uppper_bound (decrease_priority_upper_bound p s) (- 1) =
     priority_ready_queue_counter_uppper_bound s (- 1)"
proof -
  have "- 1 \<noteq> uint (clamp_priority p)" using clamp_priority_range(1) [of p] by linarith
  then show "priority_ready_queue_counter_uppper_bound (increase_priority_upper_bound p s) (- 1) =
      priority_ready_queue_counter_uppper_bound s (- 1)"
    "priority_ready_queue_counter_uppper_bound (decrease_priority_upper_bound p s) (- 1) =
      priority_ready_queue_counter_uppper_bound s (- 1)"
    by (simp_all add: increase_priority_upper_bound_def decrease_priority_upper_bound_def Let_def)
qed

lemma wake_in_range: "to_ready s p = q \<Longrightarrow> uint (priority (pcb s p)) < 5 \<Longrightarrow>
  ready_q (priority (pcb s p)) = Some q"
  by (auto simp: to_ready_def ready_q_def)

lemma invoke_blocked_proc_wf:
  assumes wf: "queues_wf s Q" and p: "p \<notin> queued Q" and pr: "uint (priority (pcb s p)) < 5"
  shows "\<exists>s'. invoke_blocked_proc (Some p) s = Some s' \<and> queues_wf s' (wake s p Q) \<and>
    pcb s' = (pcb s)(p := (pcb s p)\<lparr>status := TASK_RUNNING\<rparr>) \<and> wake_frame s s' \<and>
    priority_ready_queue_counter_uppper_bound s' =
      priority_ready_queue_counter_uppper_bound
        (increase_priority_upper_bound (priority (pcb s p)) s)"
proof -
  let ?s1 = "upd_pcb p (status_update (\<lambda>_. TASK_RUNNING)) s"
  let ?s2 = "increase_priority_upper_bound (priority (pcb s p)) ?s1"
  have "queues_wf ?s2 Q" using wf by simp
  from kq_push_if_not_exist_wf [OF this, of "to_ready s p" p] p obtain s' where
    push: "kq_push_if_not_exist (to_ready s p) p ?s2 = Some s'" and oq: "only_queues ?s2 s'"
    and wf': "queues_wf s' (wake s p Q)"
    by (auto simp: queued_iff wake_def)
  have "ready_q (priority (pcb s p)) = Some (to_ready s p)" using pr by (simp add: wake_in_range)
  then have "invoke_blocked_proc (Some p) s = Some s'"
    using push by (simp add: invoke_blocked_proc_def Let_def)
  moreover have "wake_frame s s'"
    by (rule wake_frame_trans [OF wake_frame_trans [OF wake_frame_upd_pcb wake_frame_bound(1)]
          only_queues_wake_frame [OF oq]])
  ultimately show ?thesis
    using oq wf' by (auto simp: increase_priority_upper_bound_def Let_def upd_pcb_def)
qed

subsection \<open>Dequeuing the next live process\<close>

lemma dequeue_live_wf:
  assumes "queues_wf s Q"
  shows "\<exists>s'. dequeue_live q s =
      Some (case dropWhile (exited s) (Q q) of [] \<Rightarrow> None | t # _ \<Rightarrow> Some t, s') \<and>
    only_queues s s' \<and> queues_wf s' (Q(q := tl (dropWhile (exited s) (Q q))))"
  using assms
proof (induction "Q q" arbitrary: s Q)
  case Nil
  then have "kq_dequeue q s = (None, s)" by (simp add: kq_dequeue_Nil)
  moreover have "Q(q := []) = Q" using Nil.hyps by (simp add: fun_upd_idem)
  ultimately show ?case using Nil by (subst dequeue_live.simps) (simp flip: Nil.hyps)
next
  case (Cons x xs)
  then obtain s1 where deq: "kq_dequeue q s = (Some x, s1)" and oq: "only_queues s s1"
    and wf: "queues_wf s1 (Q(q := xs))" by (metis kq_dequeue_Cons)
  have ex: "exited s1 = exited s" using oq by (simp add: exited_def fun_eq_iff)
  show ?case
  proof (cases "exited s x")
    case True
    with Cons.hyps(1) [of "Q(q := xs)" s1] wf obtain s2 where
      "dequeue_live q s1 = Some (case dropWhile (exited s) xs of [] \<Rightarrow> None | t # _ \<Rightarrow> Some t, s2)"
      "only_queues s1 s2" "queues_wf s2 (Q(q := tl (dropWhile (exited s) xs)))"
      by (auto simp: ex)
    with True deq oq Cons.hyps(2) show ?thesis
      by (subst dequeue_live.simps) (auto simp: exited_def elim: only_queues_trans simp flip: Cons.hyps(2))
  next
    case False
    with deq oq wf show ?thesis
      by (subst dequeue_live.simps) (auto simp: exited_def simp flip: Cons.hyps(2))
  qed
qed

subsection \<open>The wake-up checks\<close>

text \<open>\<open>wake_head P q s Q\<close>: the head of \<open>q\<close> is moved to the ready queue of its priority if \<open>P\<close> holds
  of it.\<close>

definition wake_head :: "(nat \<Rightarrow> bool) \<Rightarrow> qid \<Rightarrow> kstate \<Rightarrow> qcontents \<Rightarrow> qcontents" where
  "wake_head P q s Q =
     (case Q q of [] \<Rightarrow> Q | p # ps \<Rightarrow> if P p then wake s p (Q(q := ps)) else Q)"

definition sleep_over :: "kstate \<Rightarrow> nat \<Rightarrow> bool" where
  "sleep_over s p \<longleftrightarrow> awake_time (pcb s p) < get_timer s"

definition packet_here :: "kstate \<Rightarrow> nat \<Rightarrow> bool" where
  "packet_here s p \<longleftrightarrow>
     (case waiting_desc (pcb s p) of None \<Rightarrow> False | Some d \<Rightarrow> desc_tdes0 s d AND 0x80000000 = 0)"

definition woken :: "(nat \<Rightarrow> bool) \<Rightarrow> qid \<Rightarrow> qcontents \<Rightarrow> nat set" where
  "woken P q Q = (case Q q of [] \<Rightarrow> {} | p # _ \<Rightarrow> if P p then {p} else {})"

text \<open>\<open>waked A s s'\<close>: from \<open>s\<close> to \<open>s'\<close> the processes in \<open>A\<close> have been set running; other PCBs, and
  of those in \<open>A\<close> everything but the status and the alarm, are as before.\<close>

definition waked :: "nat set \<Rightarrow> kstate \<Rightarrow> kstate \<Rightarrow> bool" where
  "waked A s s' \<longleftrightarrow> wake_frame s s' \<and>
     priority_ready_queue_counter_uppper_bound s' (- 1) =
       priority_ready_queue_counter_uppper_bound s (- 1) \<and>
     (\<forall>p. p \<notin> A \<longrightarrow> pcb s' p = pcb s p) \<and>
     (\<forall>p\<in>A. \<exists>a. pcb s' p = (pcb s p)\<lparr>status := TASK_RUNNING, awake_time := a\<rparr>)"

lemma waked_frame: "waked A s s' \<Longrightarrow> wake_frame s s'"
  by (simp add: waked_def)

lemma waked_pcb:
  assumes "waked A s s'"
  shows "priority (pcb s' p) = priority (pcb s p)" "waiting_desc (pcb s' p) = waiting_desc (pcb s p)"
    "cursor_x (pcb s' p) = cursor_x (pcb s p)" "cursor_y (pcb s' p) = cursor_y (pcb s p)"
    "locks (pcb s' p) = locks (pcb s p)"
    "status (pcb s' p) = (if p \<in> A then TASK_RUNNING else status (pcb s p))"
  using assms by (cases "p \<in> A"; force simp: waked_def)+

lemma waked_abs:
  assumes "waked A s s'"
  shows "to_ready s' = to_ready s" "wake s' = wake s" "wake_head P q s' = wake_head P q s"
proof -
  show r: "to_ready s' = to_ready s" using waked_pcb [OF assms] by (simp add: fun_eq_iff to_ready_def)
  then show w: "wake s' = wake s" by (simp add: wake_def fun_eq_iff)
  show "wake_head P q s' = wake_head P q s" unfolding wake_head_def w ..
qed

lemma waked_refl [simp]: "waked {} s s"
  by (simp add: waked_def)

lemma waked_only_queues: "only_queues s s' \<Longrightarrow> waked {} s s'"
  by (simp add: waked_def only_queues_wake_frame)

lemma waked_in:
  "waked A s s' \<Longrightarrow> p \<in> A \<Longrightarrow> \<exists>a. pcb s' p = (pcb s p)\<lparr>status := TASK_RUNNING, awake_time := a\<rparr>"
  by (simp only: waked_def)

lemma waked_out: "waked A s s' \<Longrightarrow> p \<notin> A \<Longrightarrow> pcb s' p = pcb s p"
  by (simp add: waked_def)

lemma waked_trans:
  assumes st: "waked A s t" and tu: "waked B t u"
  shows "waked (A \<union> B) s u"
proof -
  have "\<exists>a. pcb u p = (pcb s p)\<lparr>status := TASK_RUNNING, awake_time := a\<rparr>" if "p \<in> A \<union> B" for p
  proof (cases "p \<in> B")
    case B: True
    obtain b where b: "pcb u p = (pcb t p)\<lparr>status := TASK_RUNNING, awake_time := b\<rparr>"
      using waked_in [OF tu B] by (elim exE)
    show ?thesis
    proof (cases "p \<in> A")
      case True
      obtain a where "pcb t p = (pcb s p)\<lparr>status := TASK_RUNNING, awake_time := a\<rparr>"
        using waked_in [OF st True] by (elim exE)
      with b have "pcb u p = (pcb s p)\<lparr>status := TASK_RUNNING, awake_time := b\<rparr>" by simp
      then show ?thesis by (rule exI)
    next
      case False
      with b have "pcb u p = (pcb s p)\<lparr>status := TASK_RUNNING, awake_time := b\<rparr>"
        by (simp add: waked_out [OF st])
      then show ?thesis by (rule exI)
    qed
  next
    case False
    then show ?thesis using waked_in [OF st, of p] that by (simp add: waked_out [OF tu])
  qed
  moreover have "wake_frame s u" by (rule wake_frame_trans [OF waked_frame [OF st] waked_frame [OF tu]])
  moreover have "pcb u p = pcb s p" if "p \<notin> A \<union> B" for p
    using that by (simp add: waked_out [OF st] waked_out [OF tu])
  ultimately show ?thesis using st tu by (simp only: waked_def) simp
qed

lemma queued_head_removed:
  assumes "queues_wf s Q" "Q q = p # ps"
  shows "p \<notin> queued (Q(q := ps))"
  using queues_wf_distinct [OF assms(1), of q] queues_wf_once [OF assms(1), of p q] assms(2)
  by (auto simp: queued_iff)

lemma wake_queue_head:
  assumes wf: "queues_wf s Q" and q: "Q q = p # ps" and pr: "uint (priority (pcb s p)) < 5"
  shows "\<exists>s1 s'. kq_dequeue q s = (Some p, s1) \<and>
    invoke_blocked_proc (Some p) (upd_pcb p (awake_time_update f) s1) = Some s' \<and>
    queues_wf s' (wake s p (Q(q := ps))) \<and> waked {p} s s'"
proof -
  from kq_dequeue_Cons [OF wf q] obtain s1 where deq: "kq_dequeue q s = (Some p, s1)"
    and oq: "only_queues s s1" and wf1: "queues_wf s1 (Q(q := ps))" by blast
  let ?s2 = "upd_pcb p (awake_time_update f) s1"
  have "uint (priority (pcb ?s2 p)) < 5" using pr oq by simp
  moreover have "queues_wf ?s2 (Q(q := ps))" using wf1 by simp
  ultimately obtain s' where inv: "invoke_blocked_proc (Some p) ?s2 = Some s'"
    and wf': "queues_wf s' (wake ?s2 p (Q(q := ps)))"
    and pc: "pcb s' = (pcb ?s2)(p := (pcb ?s2 p)\<lparr>status := TASK_RUNNING\<rparr>)"
    and fr: "wake_frame ?s2 s'"
    and bd: "priority_ready_queue_counter_uppper_bound s' =
      priority_ready_queue_counter_uppper_bound
        (increase_priority_upper_bound (priority (pcb ?s2 p)) ?s2)"
    using invoke_blocked_proc_wf queued_head_removed [OF wf q] by metis
  have "wake ?s2 p = wake s p" using oq by (simp add: wake_def to_ready_def fun_eq_iff)
  moreover have "wake_frame s s'"
    by (rule wake_frame_trans [OF wake_frame_trans [OF only_queues_wake_frame [OF oq] wake_frame_upd_pcb] fr])
  moreover have "\<exists>a. pcb s' p = (pcb s p)\<lparr>status := TASK_RUNNING, awake_time := a\<rparr>"
    using pc oq by (intro exI [of _ "f (awake_time (pcb s p))"]) simp
  ultimately have "waked {p} s s'" using bd oq pc by (simp add: waked_def)
  with deq inv wf' \<open>wake ?s2 p = wake s p\<close> show ?thesis by auto
qed

lemma check_sleeping_wf:
  assumes wf: "queues_wf s Q" and pr: "\<And>p. uint (priority (pcb s p)) < 5"
  shows "\<exists>s'. check_sleeping s = Some s' \<and> queues_wf s' (wake_head (sleep_over s) BlockQ s Q) \<and>
    waked (woken (sleep_over s) BlockQ Q) s s'"
proof (cases "Q BlockQ")
  case Nil
  then show ?thesis
    using wf by (simp add: check_sleeping_def queues_wf_head [OF wf] wake_head_def woken_def)
next
  case (Cons p ps)
  from wake_queue_head [OF wf Cons pr, of "\<lambda>_. 0"] show ?thesis
    using wf Cons
    by (auto simp: check_sleeping_def queues_wf_head [OF wf] wake_head_def sleep_over_def woken_def)
qed

lemma check_net_recv_wf:
  assumes wf: "queues_wf s Q" and pr: "\<And>p. uint (priority (pcb s p)) < 5"
    and desc: "\<And>p. p \<in> set (Q RecvQ) \<Longrightarrow> waiting_desc (pcb s p) \<noteq> None"
  shows "\<exists>s'. check_net_recv s = Some s' \<and> queues_wf s' (wake_head (packet_here s) RecvQ s Q) \<and>
    waked (woken (packet_here s) RecvQ Q) s s'"
proof (cases "Q RecvQ")
  case Nil
  then show ?thesis
    using wf by (simp add: check_net_recv_def queues_wf_head [OF wf] wake_head_def woken_def)
next
  case (Cons p ps)
  then obtain d where d: "waiting_desc (pcb s p) = Some d" using desc by auto
  have "awake_time_update (\<lambda>x. x) = (\<lambda>y :: pcb_t. y)" by (simp add: fun_eq_iff)
  then have id: "upd_pcb p (awake_time_update (\<lambda>x. x)) s1 = s1" for s1
    unfolding upd_pcb_def by simp
  from wake_queue_head [OF wf Cons pr, of "\<lambda>x. x"] show ?thesis
    using wf Cons d
    by (auto simp: id check_net_recv_def queues_wf_head [OF wf] wake_head_def packet_here_def woken_def)
qed

subsection \<open>Unblocking\<close>

lemma dropWhile_exited_filter:
  "filter (\<lambda>p. \<not> exited s p) xs =
     (case dropWhile (exited s) xs of [] \<Rightarrow> [] | t # ts \<Rightarrow> t # filter (\<lambda>p. \<not> exited s p) ts)"
  by (induction xs) auto

definition wake_list :: "kstate \<Rightarrow> nat list \<Rightarrow> qcontents \<Rightarrow> qcontents" where
  "wake_list s ps Q = fold (wake s) ps Q"

lemma do_unblock_one_wf:
  assumes wf: "queues_wf s Q" and pr: "\<And>p. p \<in> set (Q q) \<Longrightarrow> uint (priority (pcb s p)) < 5"
  shows "\<exists>s'. do_unblock_one q s = Some s' \<and>
    (case dropWhile (exited s) (Q q) of
       [] \<Rightarrow> queues_wf s' (Q(q := [])) \<and> waked {} s s'
     | t # ts \<Rightarrow> queues_wf s' (wake s t (Q(q := ts))) \<and> waked {t} s s')"
proof -
  from dequeue_live_wf [OF wf, of q] obtain s1 where
    deq: "dequeue_live q s = Some (case dropWhile (exited s) (Q q) of [] \<Rightarrow> None | t # _ \<Rightarrow> Some t, s1)"
    and oq: "only_queues s s1" and wf1: "queues_wf s1 (Q(q := tl (dropWhile (exited s) (Q q))))"
    by blast
  show ?thesis
  proof (cases "dropWhile (exited s) (Q q)")
    case Nil
    with deq wf1 oq show ?thesis by (simp add: do_unblock_one_def waked_only_queues del: dropWhile_eq_Nil_conv)
  next
    case (Cons t ts)
    let ?Q = "Q(q := ts)"
    have tin: "t \<in> set (Q q)" using Cons by (metis list.set_intros(1) set_dropWhileD)
    have "distinct (dropWhile (exited s) (Q q))"
      using queues_wf_distinct [OF wf] by (rule distinct_dropWhile)
    then have "t \<notin> set ts" using Cons by simp
    then have "t \<notin> set (?Q r)" for r
      using queues_wf_once [OF wf tin, of r] by (cases "r = q") auto
    then have new: "t \<notin> queued ?Q" by (simp add: queued_iff)
    have "queues_wf s1 ?Q" using wf1 Cons by simp
    moreover have "uint (priority (pcb s1 t)) < 5" using pr [OF tin] oq by simp
    ultimately obtain s' where inv: "invoke_blocked_proc (Some t) s1 = Some s'"
      and wf': "queues_wf s' (wake s1 t ?Q)"
      and pc: "pcb s' = (pcb s1)(t := (pcb s1 t)\<lparr>status := TASK_RUNNING\<rparr>)"
      and fr: "wake_frame s1 s'"
      and bd: "priority_ready_queue_counter_uppper_bound s' =
        priority_ready_queue_counter_uppper_bound (increase_priority_upper_bound (priority (pcb s1 t)) s1)"
      using invoke_blocked_proc_wf new by blast
    have "\<exists>a. pcb s' t = (pcb s t)\<lparr>status := TASK_RUNNING, awake_time := a\<rparr>"
      using pc oq by (intro exI [of _ "awake_time (pcb s t)"]) simp
    moreover have "wake_frame s s'" by (rule wake_frame_trans [OF only_queues_wake_frame [OF oq] fr])
    ultimately have "waked {t} s s'" using pc bd oq by (simp add: waked_def)
    moreover have "wake s1 = wake s" using oq by (simp add: wake_def to_ready_def fun_eq_iff)
    ultimately show ?thesis using deq inv wf' Cons by (simp add: do_unblock_one_def)
  qed
qed

text \<open>Waking one process does not change which of the others have exited, nor the other queues.\<close>

lemma filter_exited_waked:
  assumes "waked {t} s s1" "t \<notin> set ts"
  shows "filter (\<lambda>p. \<not> exited s1 p) ts = filter (\<lambda>p. \<not> exited s p) ts"
proof (rule filter_cong [OF refl])
  fix p assume "p \<in> set ts"
  then show "(\<not> exited s1 p) = (\<not> exited s p)"
    using assms(2) waked_pcb(6) [OF assms(1), of p] by (auto simp: exited_def)
qed

lemma wake_upd_commute: "(\<And>i. q \<noteq> ReadyQ i) \<Longrightarrow> (wake s t Q)(q := ts) = wake s t (Q(q := ts))"
  by (auto simp: wake_def to_ready_def fun_eq_iff)

lemma do_unblock_all_wf:
  assumes "queues_wf s Q" "\<And>p. p \<in> set (Q q) \<Longrightarrow> uint (priority (pcb s p)) < 5" "\<And>i. q \<noteq> ReadyQ i"
  shows "\<exists>s'. do_unblock_all q s = Some s' \<and>
    queues_wf s' (wake_list s (filter (\<lambda>p. \<not> exited s p) (Q q)) (Q(q := []))) \<and>
    waked (set (filter (\<lambda>p. \<not> exited s p) (Q q))) s s'"
  using assms
proof (induction "length (Q q)" arbitrary: s Q rule: less_induct)
  case less
  show ?case
  proof (cases "Q q")
    case Nil
    moreover have "Q(q := []) = Q" using Nil by (simp add: fun_upd_idem)
    ultimately show ?thesis
      using less.prems(1) queues_wf_head [OF less.prems(1), of q]
      by (subst do_unblock_all.simps) (simp add: wake_list_def)
  next
    case (Cons x xs)
    have hd: "q_head (queues s q) \<noteq> None" using Cons queues_wf_head [OF less.prems(1), of q] by simp
    from do_unblock_one_wf [OF less.prems(1,2)] obtain s1 where one: "do_unblock_one q s = Some s1"
      and cases: "case dropWhile (exited s) (Q q) of
         [] \<Rightarrow> queues_wf s1 (Q(q := [])) \<and> waked {} s s1
       | t # ts \<Rightarrow> queues_wf s1 (wake s t (Q(q := ts))) \<and> waked {t} s s1" by blast
    show ?thesis
    proof (cases "dropWhile (exited s) (Q q)")
      case Nil
      then have wf1: "queues_wf s1 (Q(q := []))" and wk: "waked {} s s1"
        using cases by (simp_all del: dropWhile_eq_Nil_conv)
      have "do_unblock_all q s1 = Some s1"
        using queues_wf_head [OF wf1, of q] by (subst do_unblock_all.simps) simp
      then have "do_unblock_all q s = Some s1"
        using hd one by (subst do_unblock_all.simps) simp
      then show ?thesis
        using wf1 wk Nil by (simp add: wake_list_def filter_empty_conv [THEN iffD2])
    next
      case (Cons t ts)
      let ?Q = "wake s t (Q(q := ts))"
      have wf1: "queues_wf s1 ?Q" and wk: "waked {t} s s1" using cases Cons by simp_all
      have q: "?Q q = ts" using less.prems(3) by (auto simp: wake_def to_ready_def)
      have sub: "set ts \<subseteq> set (Q q)" using Cons by (metis list.set_intros(2) set_dropWhileD subsetI)
      have "length (dropWhile (exited s) (Q q)) \<le> length (Q q)" by (rule length_dropWhile_le)
      then have "length (?Q q) < length (Q q)" using Cons q by simp
      from less.hyps [OF this wf1] less.prems(2,3) sub obtain s2 where
        all: "do_unblock_all q s1 = Some s2"
        and wf2: "queues_wf s2 (wake_list s1 (filter (\<lambda>p. \<not> exited s1 p) (?Q q)) (?Q(q := [])))"
        and wk2: "waked (set (filter (\<lambda>p. \<not> exited s1 p) (?Q q))) s1 s2"
        by (auto simp: q waked_pcb [OF wk])
      have "distinct (t # ts)" using distinct_dropWhile [OF queues_wf_distinct [OF less.prems(1)]] Cons by metis
      then have flt: "filter (\<lambda>p. \<not> exited s1 p) ts = filter (\<lambda>p. \<not> exited s p) ts"
        using filter_exited_waked [OF wk] by simp
      have comm: "?Q(q := []) = wake s t (Q(q := []))" using wake_upd_commute [OF less.prems(3)] by simp
      have "do_unblock_all q s = Some s2"
        using hd one all by (subst do_unblock_all.simps) simp
      moreover have "filter (\<lambda>p. \<not> exited s p) (Q q) = t # filter (\<lambda>p. \<not> exited s p) ts"
        using Cons by (subst dropWhile_exited_filter) simp
      ultimately show ?thesis
        using wf2 waked_trans [OF wk wk2]
        by (simp add: wake_list_def q flt comm waked_abs [OF wk])
    qed
  qed
qed

subsection \<open>The choice of the ready queue\<close>

declare skip_exhausted.simps [simp del]

lemma skip_exhausted_range:
  "i \<le> 5 \<Longrightarrow> i \<le> skip_exhausted c b i \<and> skip_exhausted c b i \<le> 5"
proof (induction c b i rule: skip_exhausted.induct)
  case (1 c b i)
  then show ?case by (subst (1 2) skip_exhausted.simps) fastforce
qed

lemma skip_exhausted_stops:
  "skip_exhausted c b i < 5 \<Longrightarrow> c (skip_exhausted c b i) < b (skip_exhausted c b i)"
proof (induction c b i rule: skip_exhausted.induct)
  case (1 c b i)
  show ?case
  proof (cases "i < 5 \<and> b i \<le> c i")
    case True
    then have "skip_exhausted c b i = skip_exhausted c b (i + 1)"
      by (subst skip_exhausted.simps) simp
    with 1 True show ?thesis by simp
  next
    case False
    then have "skip_exhausted c b i = i" by (subst skip_exhausted.simps) auto
    with 1 False show ?thesis by auto
  qed
qed

lemma skip_exhausted_from_start:
  assumes "- 1 \<le> i" "i < 5" "b (- 1) \<le> c (- 1)"
  shows "0 \<le> skip_exhausted c b i \<and> skip_exhausted c b i \<le> 5"
proof (cases "i = - 1")
  case True
  then have "skip_exhausted c b i = skip_exhausted c b 0"
    using assms by (subst skip_exhausted.simps) simp
  then show ?thesis using skip_exhausted_range [of 0 c b] by simp
next
  case False
  then show ?thesis using skip_exhausted_range [of i c b] assms by simp
qed

text \<open>\<open>pick_ok s\<close>: what the choice relies on. The two words in front of the counter arrays are
  read until a queue has been chosen for the first time.\<close>

definition pick_ok :: "kstate \<Rightarrow> bool" where
  "pick_ok s \<longleftrightarrow> - 1 \<le> last_sel_index s \<and>
     priority_ready_queue_counter_uppper_bound s (- 1) \<le> priority_ready_queue_counter s (- 1) \<and>
     glb_sched_bound s = 5 \<and> 0 \<le> glb_sched_cnt s \<and> glb_sched_cnt s < 5"

lemma counter_reset:
  "for_upto (Suc 0) 5 (\<lambda>i c. c(int i := 0)) c = (\<lambda>i. if 1 \<le> i \<and> i < 5 then 0 else c i)"
proof -
  have "for_upto (Suc 0) 5 (\<lambda>i c. c(int i := 0)) c = c(1 := 0, 2 := 0, 3 := 0, 4 := 0)"
    by (simp add: for_upto_def upt_conv_Cons numeral_eq_Suc)
  also have "\<dots> = (\<lambda>i. if 1 \<le> i \<and> i < 5 then 0 else c i)"
    by (auto simp: fun_eq_iff)
  finally show ?thesis .
qed

lemma sched_pick_ok:
  assumes ok: "pick_ok s"
  shows "\<exists>i l g c. sched_pick s =
      Some (i, s\<lparr>last_sel_index := l, glb_sched_cnt := g, priority_ready_queue_counter := c\<rparr>) \<and>
    0 \<le> i \<and> i < 5 \<and> - 1 \<le> l \<and> c (- 1) = priority_ready_queue_counter s (- 1) \<and>
    g = (if glb_sched_cnt s = 4 then 0 else glb_sched_cnt s + 1) \<and>
    (glb_sched_cnt s = 4 \<longrightarrow> i = 0) \<and>
    (i \<noteq> 0 \<longrightarrow> q_head (queues s (ReadyQ i)) \<noteq> None)"
proof -
  let ?c = "priority_ready_queue_counter s" and ?b = "priority_ready_queue_counter_uppper_bound s"
  let ?i0 = "if 5 \<le> last_sel_index s then 1 else last_sel_index s"
  let ?i1 = "skip_exhausted ?c ?b ?i0"
  have i1: "0 \<le> ?i1 \<and> ?i1 \<le> 5"
    using ok by (intro skip_exhausted_from_start) (auto simp: pick_ok_def)
  define i2 where "i2 = (if 5 \<le> ?i1 then 1 else ?i1)"
  define c2 where "c2 = (if 5 \<le> ?i1 then (\<lambda>i. if 1 \<le> i \<and> i < 5 then 0 else ?c i) else ?c)"
  have i2: "0 \<le> i2" "i2 < 5" using i1 by (auto simp: i2_def)
  have c2: "c2 (- 1) = ?c (- 1)" by (simp add: c2_def)
  let ?s1 = "s\<lparr>priority_ready_queue_counter := c2\<rparr>"
  let ?g = "glb_sched_cnt s + 1"
  have pick: "sched_pick s =
    (if ?g \<ge> glb_sched_bound s then Some (0, ?s1\<lparr>glb_sched_cnt := 0\<rparr>)
     else if q_head (queues s (ReadyQ i2)) = None then Some (0, ?s1\<lparr>glb_sched_cnt := ?g\<rparr>)
     else Some (i2, ?s1\<lparr>glb_sched_cnt := ?g, last_sel_index := i2,
       priority_ready_queue_counter := c2(i2 := c2 i2 + 1)\<rparr>))"
  proof (cases "5 \<le> ?i1")
    case True
    then show ?thesis by (simp add: sched_pick_def Let_def i2_def c2_def counter_reset)
  next
    case False
    then show ?thesis using i1 by (simp add: sched_pick_def Let_def i2_def c2_def)
  qed
  let ?l = "last_sel_index s"
  have r: "s\<lparr>priority_ready_queue_counter := c, glb_sched_cnt := g\<rparr> =
      s\<lparr>last_sel_index := ?l, glb_sched_cnt := g, priority_ready_queue_counter := c\<rparr>" for c g
    by simp
  show ?thesis
  proof (cases "glb_sched_cnt s = 4")
    case True
    then show ?thesis using ok c2 pick
      by (intro exI [of _ 0] exI [of _ ?l] exI [of _ c2]) (simp add: pick_ok_def)
  next
    case four: False
    show ?thesis
    proof (cases "q_head (queues s (ReadyQ i2)) = None")
      case True
      with four show ?thesis using ok c2 pick
        by (intro exI [of _ 0] exI [of _ ?l] exI [of _ ?g] exI [of _ c2]) (simp add: pick_ok_def)
    next
      case False
      show ?thesis
        by (rule exI [of _ i2], rule exI [of _ i2], rule exI [of _ ?g],
            rule exI [of _ "c2(i2 := c2 i2 + 1)"])
          (use False four ok c2 pick i2 in \<open>simp add: pick_ok_def split: if_splits\<close>)
    qed
  qed
qed

subsection \<open>The scheduler on lists\<close>

text \<open>
  \<open>sched_queues s c i ts Q\<close>: the queue contents after the scheduler has switched away from \<open>c\<close>, when
  \<open>ts\<close> is what remains of the ready queue \<open>i\<close> it has chosen from.
\<close>

definition runnable :: "kstate \<Rightarrow> nat \<Rightarrow> bool" where
  "runnable s p \<longleftrightarrow> status (pcb s p) \<noteq> TASK_BLOCKED \<and> status (pcb s p) \<noteq> TASK_EXITED"

definition sched_queues :: "kstate \<Rightarrow> nat \<Rightarrow> int \<Rightarrow> nat list \<Rightarrow> qcontents \<Rightarrow> qcontents" where
  "sched_queues s c i ts Q =
     wake_head (packet_here s) RecvQ s
       (wake_head (sleep_over s) BlockQ s
         ((if runnable s c then wake s c else id) (Q(ReadyQ i := ts))))"

definition is_ready_q :: "qid \<Rightarrow> bool" where
  "is_ready_q q \<longleftrightarrow> (\<exists>i. q = ReadyQ i)"

lemma is_ready_q_simps [simp]:
  "is_ready_q (ReadyQ i)" "is_ready_q (to_ready s p)" "\<not> is_ready_q BlockQ" "\<not> is_ready_q RecvQ"
  "\<not> is_ready_q (ProcQ n)" "\<not> is_ready_q (LockQ n)" "\<not> is_ready_q (SemQ n)"
  "\<not> is_ready_q (CondQ n)" "\<not> is_ready_q (BarrierQ n)"
  by (auto simp: is_ready_q_def to_ready_def)

text \<open>
  The scheduler's invariant: every queue is well formed and no process is on two of them; the
  current process is on a queue only if it is blocked; the processes on ready queues are not
  blocked and those on the other queues are blocked or have exited; priorities are in range;
  processes that wait for a packet have a descriptor.
\<close>

definition sched_inv :: "kstate \<Rightarrow> qcontents \<Rightarrow> bool" where
  "sched_inv s Q \<longleftrightarrow> queues_wf s Q \<and> pick_ok s \<and>
     (\<exists>c. current_running s = Some c \<and> (c \<in> queued Q \<longleftrightarrow> status (pcb s c) = TASK_BLOCKED)) \<and>
     (\<forall>q p. p \<in> set (Q q) \<longrightarrow> is_ready_q q \<longrightarrow> status (pcb s p) \<noteq> TASK_BLOCKED) \<and>
     (\<forall>q p. p \<in> set (Q q) \<longrightarrow> \<not> is_ready_q q \<longrightarrow>
        status (pcb s p) = TASK_BLOCKED \<or> status (pcb s p) = TASK_EXITED) \<and>
     (\<forall>p. uint (priority (pcb s p)) < 5) \<and>
     (\<forall>p\<in>set (Q RecvQ). waiting_desc (pcb s p) \<noteq> None)"

lemma requeue_current_wf:
  assumes wf: "queues_wf s Q" and pr: "uint (priority (pcb s c)) < 5"
    and c: "runnable s c \<Longrightarrow> c \<notin> queued Q"
  shows "\<exists>s'. requeue_current c s = Some s' \<and> only_queues s s' \<and>
    queues_wf s' ((if runnable s c then wake s c else id) Q)"
proof (cases "runnable s c")
  case True
  with kq_push_wf [OF wf c, of "to_ready s c"] pr show ?thesis
    by (auto simp: requeue_current_def runnable_def wake_in_range wake_def)
next
  case False
  with wf show ?thesis by (auto simp: requeue_current_def runnable_def)
qed

lemma wake_queue_other: "\<not> is_ready_q q \<Longrightarrow> wake s p Q q = Q q"
  by (auto simp: wake_def)

lemma wake_head_other: "\<not> is_ready_q q \<Longrightarrow> q \<noteq> r \<Longrightarrow> wake_head P r s Q q = Q q"
  by (auto simp: wake_head_def wake_queue_other split: list.splits)

lemma printk_sched_error: "printk sched_error_msg [] x = Some (port_write sched_error_msg x)"
proof -
  have "mini_vsnprintf 256 sched_error_msg [] = Some sched_error_msg" by code_simp
  then show ?thesis by (simp add: printk_def)
qed

lemma sched_invD:
  assumes "sched_inv s Q"
  shows "queues_wf s Q" "pick_ok s"
    "\<exists>c. current_running s = Some c \<and> (c \<in> queued Q \<longleftrightarrow> status (pcb s c) = TASK_BLOCKED)"
    "\<And>q p. p \<in> set (Q q) \<Longrightarrow> is_ready_q q \<Longrightarrow> status (pcb s p) \<noteq> TASK_BLOCKED"
    "\<And>q p. p \<in> set (Q q) \<Longrightarrow> \<not> is_ready_q q \<Longrightarrow>
       status (pcb s p) = TASK_BLOCKED \<or> status (pcb s p) = TASK_EXITED"
    "\<And>p. uint (priority (pcb s p)) < 5"
    "\<And>p. p \<in> set (Q RecvQ) \<Longrightarrow> waiting_desc (pcb s p) \<noteq> None"
  using assms by (auto simp: sched_inv_def)

lemma sched_inv_cong:
  assumes "sched_inv s Q" "queues_wf s' Q" "pick_ok s'" "current_running s' = current_running s"
    "\<And>p. status (pcb s' p) = status (pcb s p)" "\<And>p. priority (pcb s' p) = priority (pcb s p)"
    "\<And>p. waiting_desc (pcb s' p) = waiting_desc (pcb s p)"
  shows "sched_inv s' Q"
  using assms(1-3) unfolding sched_inv_def assms(4-7) by simp

text \<open>The end of the switch: the first sleeper and the first receiver are woken if their time has come.\<close>

lemma wake_checks_wf:
  assumes wf: "queues_wf s5 Q" and pr: "\<And>p. uint (priority (pcb s5 p)) < 5"
    and desc: "\<And>p. p \<in> set (Q RecvQ) \<Longrightarrow> waiting_desc (pcb s5 p) \<noteq> None"
  obtains s6 s7 where "check_sleeping s5 = Some s6" "check_net_recv s6 = Some s7"
    "queues_wf s7 (wake_head (packet_here s5) RecvQ s5 (wake_head (sleep_over s5) BlockQ s5 Q))"
    "waked (woken (sleep_over s5) BlockQ Q \<union> woken (packet_here s5) RecvQ Q) s5 s7"
proof -
  let ?Q1 = "wake_head (sleep_over s5) BlockQ s5 Q"
  obtain s6 where s6: "check_sleeping s5 = Some s6" "queues_wf s6 ?Q1" "waked (woken (sleep_over s5) BlockQ Q) s5 s6"
    using check_sleeping_wf [OF wf pr] by blast
  have Q1: "?Q1 RecvQ = Q RecvQ" by (simp add: wake_head_other)
  have pk: "packet_here s6 = packet_here s5"
    using waked_frame [OF s6(3)] by (simp add: packet_here_def fun_eq_iff waked_pcb [OF s6(3)] cong: option.case_cong)
  obtain s7 where "check_net_recv s6 = Some s7" "queues_wf s7 (wake_head (packet_here s5) RecvQ s5 ?Q1)"
    "waked (woken (packet_here s5) RecvQ Q) s6 s7"
    using check_net_recv_wf [OF s6(2)] pr desc
    by (auto simp: Q1 pk waked_pcb [OF s6(3)] waked_abs [OF s6(3)] woken_def)
  then show ?thesis using that s6(1) waked_trans [OF s6(3)] by blast
qed

text \<open>The first half: the next process leaves its queue and the current one, if it can still run, goes to the end of its own.\<close>

lemma switch_out_wf:
  assumes wf: "queues_wf s Q" and sel: "dropWhile (exited s) (Q (ReadyQ i)) = t # ts"
    and pr: "\<And>p. uint (priority (pcb s p)) < 5" and ne: "t \<noteq> c" and out: "runnable s c \<Longrightarrow> c \<notin> queued Q"
  obtains s2 s5 where "dequeue_live (ReadyQ i) s = Some (Some t, s2)" "only_queues s s2"
    "requeue_current c (save_cursor c (upd_pcb t (status_update (\<lambda>_. TASK_RUNNING)) s2)) = Some s5"
    "only_queues (save_cursor c (upd_pcb t (status_update (\<lambda>_. TASK_RUNNING)) s)) s5"
    "queues_wf s5 ((if runnable s c then wake s c else id) (Q(ReadyQ i := ts)))"
proof -
  let ?run = "\<lambda>s. save_cursor c (upd_pcb t (status_update (\<lambda>_. TASK_RUNNING)) s)"
  obtain s2 where s2: "dequeue_live (ReadyQ i) s = Some (Some t, s2)" "only_queues s s2" "queues_wf s2 (Q(ReadyQ i := ts))"
    using dequeue_live_wf [OF wf, of "ReadyQ i"] by (auto simp: sel)
  have "set ts \<subseteq> set (Q (ReadyQ i))" using sel by (metis list.set_intros(2) set_dropWhileD subsetI)
  then have sub: "queued (Q(ReadyQ i := ts)) \<subseteq> queued Q" by (rule queued_upd_mono)
  have pr4: "priority (pcb (?run s2) p) = priority (pcb s p)" for p using s2(2) by (simp add: save_cursor_def)
  have ru4: "runnable (?run s2) c = runnable s c" using s2(2) ne by (simp add: runnable_def save_cursor_def)
  have wk4: "wake (?run s2) = wake s" by (simp add: wake_def to_ready_def fun_eq_iff pr4)
  have wf4: "queues_wf (?run s2) (Q(ReadyQ i := ts))" using s2(3) by (simp add: save_cursor_def)
  obtain s5 where s5: "requeue_current c (?run s2) = Some s5" "only_queues (?run s2) s5"
    "queues_wf s5 ((if runnable s c then wake s c else id) (Q(ReadyQ i := ts)))"
    using requeue_current_wf [OF wf4, of c, unfolded ru4 wk4 pr4] pr out sub by blast
  obtain h q where "s2 = s\<lparr>klinks := h, queues := q\<rparr>" using s2(2) unfolding only_queues_def by blast
  then have "?run s2 = (?run s)\<lparr>klinks := h, queues := q\<rparr>" by (simp add: save_cursor_def upd_pcb_def)
  then have "only_queues (?run s) (?run s2)" by (simp only: only_queuesI)
  then show ?thesis using that s2(1,2) s5 only_queues_trans by blast
qed

lemma scheduler_switch:
  assumes inv: "sched_inv s Q" and cur: "current_running s = Some c"
    and pick: "sched_pick s = Some (i, s1)"
    and s1: "s1 = s\<lparr>last_sel_index := l, glb_sched_cnt := g, priority_ready_queue_counter := k\<rparr>"
    and sel: "dropWhile (exited s) (Q (ReadyQ i)) = t # ts"
  obtains s4 s7 A where "scheduler s = Some (load_cursor t (s7\<lparr>current_running := Some t\<rparr>))"
    "queues_wf s7 (sched_queues s c i ts Q)" "waked A s4 s7"
    "only_queues (save_cursor c (upd_pcb t (status_update (\<lambda>_. TASK_RUNNING)) s1)) s4"
    "A = woken (sleep_over s) BlockQ Q \<union> woken (packet_here s) RecvQ Q"
proof -
  note rd = sched_invD(4) [OF inv] and pr = sched_invD(6) [OF inv]
  have cq: "c \<in> queued Q \<longleftrightarrow> status (pcb s c) = TASK_BLOCKED" using sched_invD(3) [OF inv] cur by auto
  have tin: "t \<in> set (Q (ReadyQ i))" using sel by (metis list.set_intros(1) set_dropWhileD)
  have tne: "t \<noteq> c" using rd [OF tin] tin cq by (auto simp: queued_iff)
  have pcb1: "pcb s1 = pcb s" "exited s1 = exited s" "wake s1 = wake s" "runnable s1 c = runnable s c"
    by (simp_all add: s1 exited_def wake_def to_ready_def runnable_def fun_eq_iff)
  have wf1: "queues_wf s1 Q" using sched_invD(1) [OF inv] by (simp add: s1)
  have sel1: "dropWhile (exited s1) (Q (ReadyQ i)) = t # ts" and pr1: "uint (priority (pcb s1 p)) < 5" for p
    using sel pr by (simp_all add: pcb1)
  have out1: "c \<notin> queued Q" if "runnable s1 c" using that cq unfolding pcb1 runnable_def by blast
  obtain s2 s5 where s2: "dequeue_live (ReadyQ i) s1 = Some (Some t, s2)" "only_queues s1 s2"
    and s5: "requeue_current c (save_cursor c (upd_pcb t (status_update (\<lambda>_. TASK_RUNNING)) s2)) = Some s5"
      "only_queues (save_cursor c (upd_pcb t (status_update (\<lambda>_. TASK_RUNNING)) s1)) s5"
      "queues_wf s5 ((if runnable s c then wake s c else id) (Q(ReadyQ i := ts)))"
    by (rule switch_out_wf [OF wf1 sel1 pr1 tne out1, unfolded pcb1]) (assumption, rule that, assumption+)
  let ?Q2 = "(if runnable s c then wake s c else id) (Q(ReadyQ i := ts))"
  have f5: "priority (pcb s5 p) = priority (pcb s p)" "waiting_desc (pcb s5 p) = waiting_desc (pcb s p)"
    "awake_time (pcb s5 p) = awake_time (pcb s p)" "desc_tdes0 s5 = desc_tdes0 s" "get_timer s5 = get_timer s" for p
    using s5(2) by (simp_all add: save_cursor_def s1 get_timer_def)
  have ab: "sleep_over s5 = sleep_over s" "packet_here s5 = packet_here s" "wake s5 = wake s"
    by (simp_all add: sleep_over_def packet_here_def wake_def to_ready_def fun_eq_iff f5 cong: option.case_cong)
  have wh: "wake_head P q s5 = wake_head P q s" for P q unfolding wake_head_def ab ..
  have Q2: "?Q2 q = Q q" if "\<not> is_ready_q q" for q using that by (auto simp: wake_queue_other)
  have wo: "woken P q ?Q2 = woken P q Q" if "\<not> is_ready_q q" for P q using Q2 [OF that] by (simp add: woken_def)
  obtain s6 s7 where s7: "check_sleeping s5 = Some s6" "check_net_recv s6 = Some s7"
    "queues_wf s7 (wake_head (packet_here s5) RecvQ s5 (wake_head (sleep_over s5) BlockQ s5 ?Q2))"
    "waked (woken (sleep_over s5) BlockQ ?Q2 \<union> woken (packet_here s5) RecvQ ?Q2) s5 s7"
    by (rule wake_checks_wf [OF s5(3)]) (use pr sched_invD(7) [OF inv] in \<open>simp_all add: f5 Q2\<close>)
  have "current_running (upd_pcb t (status_update (\<lambda>_. TASK_RUNNING)) s2) = Some c" using s2(2) cur by (simp add: s1)
  then have "scheduler s = Some (load_cursor t (s7\<lparr>current_running := Some t\<rparr>))"
    using pick s2(1) s5(1) s7(1,2) by (simp add: scheduler_def Let_def)
  then show thesis using that s5(2) s7(3,4) unfolding ab wh wo [OF is_ready_q_simps(3)] wo [OF is_ready_q_simps(4)] sched_queues_def
    by blast
qed

lemma set_wake: "set (wake s p Q q) = set (Q q) \<union> (if q = to_ready s p then {p} else {})"
  by (simp add: wake_def)

lemma queued_wake [simp]: "queued (wake s p Q) = insert p (queued Q)"
  by (auto simp: queued_def set_wake split: if_splits)

lemma queued_upd: "queued (Q(q := xs)) = set xs \<union> (\<Union>r\<in>{r. r \<noteq> q}. set (Q r))"
  by (auto simp: queued_def split: if_splits)

lemma queued_split:
  assumes "p \<in> queued Q"
  shows "p \<in> set (Q q) \<or> p \<in> queued (Q(q := xs))"
proof -
  obtain r where r: "p \<in> set (Q r)" using assms by (auto simp: queued_def)
  show ?thesis
  proof (cases "r = q")
    case False
    then have "p \<in> (\<Union>r\<in>{r. r \<noteq> q}. set (Q r))" using r by (intro UN_I [of r]) simp_all
    then show ?thesis unfolding queued_upd by simp
  qed (use r in simp)
qed

lemma queued_remove_head:
  assumes "Q q = p # ps"
  shows "insert p (queued (Q(q := ps))) = queued Q"
proof -
  have "queued Q = queued (Q(q := p # ps))" using assms by (simp add: fun_upd_idem)
  then show ?thesis by (simp add: queued_upd)
qed

lemma queued_wake_head [simp]: "queued (wake_head P q s Q) = queued Q"
  by (auto simp: wake_head_def queued_remove_head split: list.splits)

lemma scheduler_idle:
  assumes wf: "queues_wf s Q" and pick: "sched_pick s = Some (i, s1)"
    and s1: "s1 = s\<lparr>last_sel_index := l, glb_sched_cnt := g, priority_ready_queue_counter := k\<rparr>"
    and sel: "dropWhile (exited s) (Q (ReadyQ i)) = []"
  shows "\<exists>s2. scheduler s = Some (s2\<lparr>scr := port_write sched_error_msg (scr s)\<rparr>) \<and>
    only_queues s1 s2 \<and> queues_wf s2 (Q(ReadyQ i := []))"
proof -
  have wf1: "queues_wf s1 Q" and ex1: "exited s1 = exited s"
    using wf by (simp_all add: s1 exited_def fun_eq_iff)
  from dequeue_live_wf [OF wf1, of "ReadyQ i"] sel obtain s2 where
    deq: "dequeue_live (ReadyQ i) s1 = Some (None, s2)" and oq2: "only_queues s1 s2"
    and wf2: "queues_wf s2 (Q(ReadyQ i := []))"
    by (auto simp: ex1 simp del: dropWhile_eq_Nil_conv)
  have "scr s2 = scr s" using oq2 by (simp add: s1)
  then have "scheduler s = Some (s2\<lparr>scr := port_write sched_error_msg (scr s)\<rparr>)"
    using pick deq by (simp add: scheduler_def printk_sched_error)
  then show ?thesis using oq2 wf2 by (intro exI conjI)
qed

text \<open>The processes the two wake-up checks of one scheduler call set running.\<close>

definition sched_woken :: "kstate \<Rightarrow> qcontents \<Rightarrow> nat set" where
  "sched_woken s Q = woken (sleep_over s) BlockQ Q \<union> woken (packet_here s) RecvQ Q"

definition switched :: "kstate \<Rightarrow> qcontents \<Rightarrow> nat \<Rightarrow> nat \<Rightarrow> kstate \<Rightarrow> bool" where
  "switched s Q c t s' \<longleftrightarrow> current_running s' = Some t \<and>
     (\<forall>p. status (pcb s' p) = (if p = t \<or> p \<in> sched_woken s Q then TASK_RUNNING else status (pcb s p)) \<and>
          priority (pcb s' p) = priority (pcb s p) \<and>
          waiting_desc (pcb s' p) = waiting_desc (pcb s p)) \<and>
     cursor_x (pcb s' c) = screen_cursor_x (scr s) \<and> cursor_y (pcb s' c) = screen_cursor_y (scr s) \<and>
     screen_cursor_x (scr s') = cursor_x (pcb s t) \<and> screen_cursor_y (scr s') = cursor_y (pcb s t)"

lemma load_cursor_simps [simp]:
  "pcb (load_cursor t s) = pcb s" "current_running (load_cursor t s) = current_running s"
  "queues_wf (load_cursor t s) Q = queues_wf s Q" "pick_ok (load_cursor t s) = pick_ok s"
  "glb_sched_cnt (load_cursor t s) = glb_sched_cnt s"
  by (simp_all add: load_cursor_def pick_ok_def)

lemma pick_ok_cong:
  "wake_frame s s' \<Longrightarrow> priority_ready_queue_counter_uppper_bound s' (- 1) =
     priority_ready_queue_counter_uppper_bound s (- 1) \<Longrightarrow> pick_ok s' = pick_ok s"
  by (simp add: pick_ok_def)

lemma switch_pcbs:
  assumes oq: "only_queues (save_cursor c (upd_pcb t (status_update (\<lambda>_. TASK_RUNNING)) s1)) s4"
    and wk: "waked A s4 s7" and tc: "t \<noteq> c" and pcb1: "pcb s1 = pcb s" and scr1: "scr s1 = scr s"
  shows "status (pcb s7 p) = (if p = t \<or> p \<in> A then TASK_RUNNING else status (pcb s p))"
    "priority (pcb s7 p) = priority (pcb s p)" "waiting_desc (pcb s7 p) = waiting_desc (pcb s p)"
    "cursor_x (pcb s7 c) = screen_cursor_x (scr s)" "cursor_y (pcb s7 c) = screen_cursor_y (scr s)"
    "cursor_x (pcb s7 t) = cursor_x (pcb s t)" "cursor_y (pcb s7 t) = cursor_y (pcb s t)"
proof -
  let ?s3 = "save_cursor c (upd_pcb t (status_update (\<lambda>_. TASK_RUNNING)) s1)"
  have p4: "pcb s4 = pcb ?s3" using oq by (rule only_queues_fields(1))
  show "status (pcb s7 p) = (if p = t \<or> p \<in> A then TASK_RUNNING else status (pcb s p))"
    "priority (pcb s7 p) = priority (pcb s p)" "waiting_desc (pcb s7 p) = waiting_desc (pcb s p)"
    "cursor_x (pcb s7 c) = screen_cursor_x (scr s)" "cursor_y (pcb s7 c) = screen_cursor_y (scr s)"
    "cursor_x (pcb s7 t) = cursor_x (pcb s t)" "cursor_y (pcb s7 t) = cursor_y (pcb s t)"
    using tc by (simp_all add: waked_pcb [OF wk] p4 save_cursor_def pcb1 scr1)
qed

lemma scheduler_step:
  assumes inv: "sched_inv s Q" and cur: "current_running s = Some c"
  shows "\<exists>i s'. 0 \<le> i \<and> i < 5 \<and> (glb_sched_cnt s = 4 \<longrightarrow> i = 0) \<and> scheduler s = Some s' \<and>
    pick_ok s' \<and> glb_sched_cnt s' = (if glb_sched_cnt s = 4 then 0 else glb_sched_cnt s + 1) \<and>
    (case dropWhile (exited s) (Q (ReadyQ i)) of
       [] \<Rightarrow> current_running s' = Some c \<and> pcb s' = pcb s \<and> queues_wf s' (Q(ReadyQ i := []))
     | t # ts \<Rightarrow> switched s Q c t s' \<and> queues_wf s' (sched_queues s c i ts Q))"
proof -
  note D = sched_invD [OF inv]
  have cq: "c \<in> queued Q \<longleftrightarrow> status (pcb s c) = TASK_BLOCKED" using D(3) cur by auto
  obtain i l g k where pick: "sched_pick s =
      Some (i, s\<lparr>last_sel_index := l, glb_sched_cnt := g, priority_ready_queue_counter := k\<rparr>)"
    and i: "0 \<le> i" "i < 5" and l: "- 1 \<le> l" and k: "k (- 1) = priority_ready_queue_counter s (- 1)"
    and g: "g = (if glb_sched_cnt s = 4 then 0 else glb_sched_cnt s + 1)"
    and i0: "glb_sched_cnt s = 4 \<longrightarrow> i = 0"
    using sched_pick_ok [OF D(2)] by blast
  define s1 where "s1 = s\<lparr>last_sel_index := l, glb_sched_cnt := g, priority_ready_queue_counter := k\<rparr>"
  have ok1: "pick_ok s1" using D(2) l k g by (auto simp: pick_ok_def s1_def)
  have pick1: "sched_pick s = Some (i, s1)" using pick by (simp add: s1_def)
  show ?thesis
  proof (cases "dropWhile (exited s) (Q (ReadyQ i))")
    case Nil
    from scheduler_idle [OF D(1) pick1 s1_def Nil] obtain s2 where
      sc: "scheduler s = Some (s2\<lparr>scr := port_write sched_error_msg (scr s)\<rparr>)"
      and oq: "only_queues s1 s2" and wf: "queues_wf s2 (Q(ReadyQ i := []))" by blast
    have "pick_ok s2" using ok1 oq by (simp add: pick_ok_def)
    then have "pick_ok (s2\<lparr>scr := port_write sched_error_msg (scr s)\<rparr>)" by (simp add: pick_ok_def)
    moreover have "pcb s2 = pcb s" "current_running s2 = Some c" "glb_sched_cnt s2 = g"
      using oq cur by (simp_all add: s1_def)
    ultimately show ?thesis using sc wf Nil i i0 g
      by (intro exI [of _ i] exI [of _ "s2\<lparr>scr := port_write sched_error_msg (scr s)\<rparr>"])
        (simp del: dropWhile_eq_Nil_conv)
  next
    case (Cons t ts)
    obtain s4 s7 A where
      sc: "scheduler s = Some (load_cursor t (s7\<lparr>current_running := Some t\<rparr>))"
      and wf: "queues_wf s7 (sched_queues s c i ts Q)" and wk: "waked A s4 s7"
      and oq: "only_queues (save_cursor c (upd_pcb t (status_update (\<lambda>_. TASK_RUNNING)) s1)) s4"
      and A: "A = woken (sleep_over s) BlockQ Q \<union> woken (packet_here s) RecvQ Q"
      by (rule scheduler_switch [OF inv cur pick1 s1_def Cons])
    have tin: "t \<in> set (Q (ReadyQ i))" using Cons by (metis list.set_intros(1) set_dropWhileD)
    then have tne: "t \<noteq> c" using D(4) [OF tin] cq by (auto simp: queued_iff)
    note P = switch_pcbs [OF oq wk tne, of s]
    have "pick_ok s4" using ok1 oq by (simp add: pick_ok_def save_cursor_def)
    then have "pick_ok s7" using wk pick_ok_cong [of s4 s7] by (simp add: waked_def)
    then have "pick_ok (s7\<lparr>current_running := Some t\<rparr>)" by (simp add: pick_ok_def)
    moreover have "glb_sched_cnt s7 = g"
      using oq waked_frame [OF wk] by (simp add: save_cursor_def s1_def)
    moreover have "switched s Q c t (load_cursor t (s7\<lparr>current_running := Some t\<rparr>))"
      using P by (simp add: switched_def sched_woken_def A s1_def)
        (simp add: load_cursor_def)
    ultimately show ?thesis using sc wf Cons i i0 g
      by (intro exI [of _ i] exI [of _ "load_cursor t (s7\<lparr>current_running := Some t\<rparr>)"]) simp
  qed
qed

subsection \<open>The invariant is kept and no process is lost\<close>

lemma woken_sub: "woken P q Q \<subseteq> set (Q q)"
  by (auto simp: woken_def split: list.splits)

lemma woken_cong: "Q q = R q \<Longrightarrow> woken P q Q = woken P q R"
  by (simp add: woken_def)

lemma wake_head_ready:
  assumes "\<not> is_ready_q r"
  shows "set (wake_head P r s Q q) \<subseteq> set (Q q) \<union> woken P r Q"
  using assms by (cases "Q r") (auto simp: wake_head_def woken_def set_wake)

lemma wake_head_self:
  assumes "\<not> is_ready_q r" "distinct (Q r)"
  shows "set (wake_head P r s Q r) = set (Q r) - woken P r Q"
  using assms by (cases "Q r") (auto simp: wake_head_def woken_def wake_queue_other)

lemma sched_queues_wait:
  assumes wf: "queues_wf s Q" and q: "\<not> is_ready_q q"
  shows "set (sched_queues s c i ts Q q) = set (Q q) - sched_woken s Q"
proof -
  let ?Q2 = "(if runnable s c then wake s c else id) (Q(ReadyQ i := ts))"
  let ?Q3 = "wake_head (sleep_over s) BlockQ s ?Q2"
  have Q2: "?Q2 r = Q r" if "\<not> is_ready_q r" for r using that by (auto simp: wake_queue_other)
  have Q3: "?Q3 r = Q r" if "\<not> is_ready_q r" "r \<noteq> BlockQ" for r
    using that by (simp add: wake_head_other Q2)
  have w2: "woken (sleep_over s) BlockQ ?Q2 = woken (sleep_over s) BlockQ Q"
    by (rule woken_cong) (simp add: Q2)
  have w3: "woken (packet_here s) RecvQ ?Q3 = woken (packet_here s) RecvQ Q"
    by (rule woken_cong) (simp add: Q3)
  have dj: "set (Q q) \<inter> woken P r Q = {}" if "q \<noteq> r" for P r
    using wf woken_sub [of P r Q] that by (fastforce simp: queues_wf_def)
  have S: "sched_queues s c i ts Q = wake_head (packet_here s) RecvQ s ?Q3"
    by (simp add: sched_queues_def)
  consider "q = BlockQ" | "q = RecvQ" | "q \<noteq> BlockQ" "q \<noteq> RecvQ" by blast
  then show ?thesis
  proof cases
    case 1
    have "set (sched_queues s c i ts Q q) = set (?Q3 q)" using 1 by (simp only: S) (simp add: wake_head_other)
    also have "\<dots> = set (Q q) - woken (sleep_over s) BlockQ Q"
      using 1 wf by (simp add: wake_head_self Q2 queues_wf_distinct w2)
    finally show ?thesis using dj [of RecvQ "packet_here s"] 1 unfolding sched_woken_def by blast
  next
    case 2
    have "set (sched_queues s c i ts Q q) = set (Q q) - woken (packet_here s) RecvQ Q"
      using 2 wf by (simp only: S) (simp add: wake_head_self Q3 queues_wf_distinct w3)
    then show ?thesis using dj [of BlockQ "sleep_over s"] 2 unfolding sched_woken_def by blast
  next
    case 3
    have "sched_queues s c i ts Q q = ?Q3 q" unfolding S by (rule wake_head_other [OF q 3(2)])
    then have "set (sched_queues s c i ts Q q) = set (Q q)" using Q3 [OF q 3(1)] by (simp only:)
    then show ?thesis
      using 3 dj [of BlockQ "sleep_over s"] dj [of RecvQ "packet_here s"] unfolding sched_woken_def by blast
  qed
qed

lemma sched_queues_ready:
  "set (sched_queues s c i ts Q q) \<subseteq>
     set ((Q(ReadyQ i := ts)) q) \<union> (if runnable s c then {c} else {}) \<union> sched_woken s Q"
proof -
  let ?Q2 = "(if runnable s c then wake s c else id) (Q(ReadyQ i := ts))"
  let ?Q3 = "wake_head (sleep_over s) BlockQ s ?Q2"
  have w2: "woken (sleep_over s) BlockQ ?Q2 = woken (sleep_over s) BlockQ Q"
    by (rule woken_cong) (auto simp: wake_queue_other)
  have w3: "woken (packet_here s) RecvQ ?Q3 = woken (packet_here s) RecvQ Q"
    by (rule woken_cong) (auto simp: wake_queue_other wake_head_other)
  have "set (?Q2 q) \<subseteq> set ((Q(ReadyQ i := ts)) q) \<union> (if runnable s c then {c} else {})"
    by (auto simp: set_wake)
  moreover have "set (?Q3 q) \<subseteq> set (?Q2 q) \<union> woken (sleep_over s) BlockQ Q"
    using wake_head_ready [of BlockQ "sleep_over s" s ?Q2 q] w2 by simp
  moreover have "set (sched_queues s c i ts Q q) \<subseteq> set (?Q3 q) \<union> woken (packet_here s) RecvQ Q"
    using wake_head_ready [of RecvQ "packet_here s" s ?Q3 q] w3 unfolding sched_queues_def by simp
  ultimately show ?thesis unfolding sched_woken_def by blast
qed

lemma queued_sched_queues:
  "queued (sched_queues s c i ts Q) = queued (Q(ReadyQ i := ts)) \<union> (if runnable s c then {c} else {})"
  by (simp add: sched_queues_def)

lemma sched_inv_idle:
  assumes inv: "sched_inv s Q" and sel: "dropWhile (exited s) (Q (ReadyQ i)) = []"
    and s': "current_running s' = current_running s" "pcb s' = pcb s" "pick_ok s'"
      "queues_wf s' (Q(ReadyQ i := []))"
  shows "sched_inv s' (Q(ReadyQ i := []))"
proof -
  note D = sched_invD [OF inv]
  let ?Q = "Q(ReadyQ i := [])"
  have sub: "set (?Q q) \<subseteq> set (Q q)" for q by simp
  obtain c where cur: "current_running s = Some c"
    and cq: "c \<in> queued Q \<longleftrightarrow> status (pcb s c) = TASK_BLOCKED" using D(3) by blast
  have "c \<in> queued ?Q \<longleftrightarrow> c \<in> queued Q"
  proof
    show "c \<in> queued ?Q \<Longrightarrow> c \<in> queued Q" using queued_upd_mono [of "[]" Q "ReadyQ i"] by auto
    assume "c \<in> queued Q"
    then obtain q where q: "c \<in> set (Q q)" and bl: "status (pcb s c) = TASK_BLOCKED"
      using cq by (auto simp: queued_iff)
    then have "q \<noteq> ReadyQ i" using D(4) [OF q] by auto
    then have "c \<in> set (?Q q)" using q by simp
    then show "c \<in> queued ?Q" unfolding queued_iff by blast
  qed
  moreover have "status (pcb s p) \<noteq> TASK_BLOCKED" if "p \<in> set (?Q q)" "is_ready_q q" for p q
    using D(4) [of p q] that sub by blast
  moreover have "status (pcb s p) = TASK_BLOCKED \<or> status (pcb s p) = TASK_EXITED"
    if "p \<in> set (?Q q)" "\<not> is_ready_q q" for p q using D(5) [of p q] that sub by blast
  moreover have "waiting_desc (pcb s p) \<noteq> None" if "p \<in> set (?Q RecvQ)" for p
    using D(7) [of p] that sub by blast
  ultimately show ?thesis
    unfolding sched_inv_def s'(2) using s'(1,3,4) cur cq D(6) by auto
qed

lemma sched_inv_switch:
  assumes inv: "sched_inv s Q" and cur: "current_running s = Some c"
    and sel: "dropWhile (exited s) (Q (ReadyQ i)) = t # ts" and sw: "switched s Q c t s'"
    and wf': "queues_wf s' (sched_queues s c i ts Q)" and ok': "pick_ok s'"
  shows "sched_inv s' (sched_queues s c i ts Q)"
proof -
  note D = sched_invD [OF inv]
  let ?Q = "sched_queues s c i ts Q"
  have st: "status (pcb s' p) = (if p = t \<or> p \<in> sched_woken s Q then TASK_RUNNING else status (pcb s p))"
    and pr: "priority (pcb s' p) = priority (pcb s p)"
    and wd: "waiting_desc (pcb s' p) = waiting_desc (pcb s p)" for p
    using sw by (simp_all add: switched_def)
  have cur': "current_running s' = Some t" using sw by (simp add: switched_def)
  have tin: "t \<in> set (Q (ReadyQ i))" using sel by (metis list.set_intros(1) set_dropWhileD)
  have tsub: "set ts \<subseteq> set (Q (ReadyQ i))"
    using sel by (metis list.set_intros(2) set_dropWhileD subsetI)
  have "distinct (dropWhile (exited s) (Q (ReadyQ i)))"
    using queues_wf_distinct [OF D(1)] by (rule distinct_dropWhile)
  then have tts: "t \<notin> set ts" using sel by simp
  have cq: "c \<in> queued Q \<longleftrightarrow> status (pcb s c) = TASK_BLOCKED" using D(3) cur by auto
  have tne: "t \<noteq> c" using D(4) [OF tin] tin cq by (auto simp: queued_iff)
  have "t \<notin> set ((Q(ReadyQ i := ts)) q)" for q
    using tts queues_wf_once [OF D(1) tin, of q] by (cases "q = ReadyQ i") auto
  then have tnq: "t \<notin> queued ?Q" using tne unfolding queued_sched_queues by (auto simp: queued_iff)
  have "status (pcb s' p) \<noteq> TASK_BLOCKED" if p: "p \<in> set (?Q q)" and q: "is_ready_q q" for p q
  proof -
    have "p \<in> set (Q q) \<or> runnable s p \<or> p \<in> sched_woken s Q"
      using p sched_queues_ready [of s c i ts Q q] tsub by (auto split: if_splits)
    then show ?thesis using D(4) [OF _ q, of p] by (auto simp: st runnable_def)
  qed
  moreover have "status (pcb s' p) = TASK_BLOCKED \<or> status (pcb s' p) = TASK_EXITED"
    if p: "p \<in> set (?Q q)" and q: "\<not> is_ready_q q" for p q
  proof -
    have pq: "p \<in> set (Q q)" "p \<notin> sched_woken s Q"
      using p unfolding sched_queues_wait [OF D(1) q] by auto
    moreover have "p \<noteq> t" using queues_wf_once [OF D(1) tin, of q] pq(1) q by auto
    ultimately show ?thesis using D(5) [OF pq(1) q] by (simp add: st)
  qed
  moreover have "waiting_desc (pcb s' p) \<noteq> None" if "p \<in> set (?Q RecvQ)" for p
    using that D(7) sched_queues_wait [OF D(1), of RecvQ c i ts] by (auto simp: wd)
  moreover have "t \<in> queued ?Q \<longleftrightarrow> status (pcb s' t) = TASK_BLOCKED" using tnq by (simp add: st)
  ultimately show ?thesis
    unfolding sched_inv_def using wf' ok' cur' D(6) by (auto simp: pr)
qed

lemma sched_inv_scheduler:
  assumes inv: "sched_inv s Q"
  shows "\<exists>s' Q'. scheduler s = Some s' \<and> sched_inv s' Q' \<and>
    (\<forall>p. p \<in> queued Q \<or> current_running s = Some p \<longrightarrow> status (pcb s p) \<noteq> TASK_EXITED \<longrightarrow>
       p \<in> queued Q' \<or> current_running s' = Some p)"
proof -
  obtain c where cur: "current_running s = Some c"
    and cq: "c \<in> queued Q \<longleftrightarrow> status (pcb s c) = TASK_BLOCKED" using sched_invD(3) [OF inv] by blast
  from scheduler_step [OF inv cur] obtain i s' where sc: "scheduler s = Some s'" and ok: "pick_ok s'"
    and cases: "case dropWhile (exited s) (Q (ReadyQ i)) of
       [] \<Rightarrow> current_running s' = Some c \<and> pcb s' = pcb s \<and> queues_wf s' (Q(ReadyQ i := []))
     | t # ts \<Rightarrow> switched s Q c t s' \<and> queues_wf s' (sched_queues s c i ts Q)" by blast
  have split: "p \<in> set (Q (ReadyQ i)) \<or> p \<in> queued (Q(ReadyQ i := xs))" if "p \<in> queued Q" for p xs
    by (rule queued_split [OF that])
  show ?thesis
  proof (cases "dropWhile (exited s) (Q (ReadyQ i))")
    case Nil
    with cases have s': "current_running s' = Some c" "pcb s' = pcb s" "queues_wf s' (Q(ReadyQ i := []))"
      by (simp_all del: dropWhile_eq_Nil_conv)
    have "p \<in> queued (Q(ReadyQ i := []))" if "p \<in> queued Q" "status (pcb s p) \<noteq> TASK_EXITED" for p
      using split [OF that(1), of "[]"] that(2) Nil by (auto simp: exited_def)
    then show ?thesis
      using sc s' cur sched_inv_idle [OF inv Nil _ _ ok] by (intro exI [of _ s'] exI [of _ "Q(ReadyQ i := [])"]) auto
  next
    case (Cons t ts)
    with cases have sw: "switched s Q c t s'" and wf': "queues_wf s' (sched_queues s c i ts Q)" by simp_all
    have "p \<in> queued (sched_queues s c i ts Q) \<or> p = t"
      if p: "p \<in> queued Q \<or> p = c" and live: "status (pcb s p) \<noteq> TASK_EXITED" for p
    proof (cases "p \<in> queued Q")
      case True
      have "p \<in> set (Q (ReadyQ i)) \<Longrightarrow> p \<in> set (dropWhile (exited s) (Q (ReadyQ i)))"
        using live by (metis Un_iff exited_def set_append set_takeWhileD takeWhile_dropWhile_id)
      then show ?thesis using split [OF True, of ts] Cons
        unfolding queued_sched_queues queued_upd by auto
    next
      case False
      then have "runnable s c" "p = c" using p live cq by (auto simp: runnable_def)
      then show ?thesis by (simp add: queued_sched_queues)
    qed
    then show ?thesis
      using sc sched_inv_switch [OF inv cur Cons sw wf' ok] cur sw
      by (intro exI [of _ s'] exI [of _ "sched_queues s c i ts Q"]) (auto simp: switched_def)
  qed
qed

lemma scheduler_exited:
  assumes inv: "sched_inv s Q" and cur: "current_running s = Some c" and st: "status (pcb s c) = TASK_EXITED"
  shows "\<exists>s'. scheduler s = Some s' \<and> (\<exists>Q'. sched_inv s' Q' \<and> c \<notin> queued Q') \<and>
    status (pcb s' c) = TASK_EXITED"
proof -
  have cq: "c \<notin> queued Q" using sched_invD(3) [OF inv] cur st by auto
  obtain i s' where sc: "scheduler s = Some s'" and ok: "pick_ok s'"
    and cases: "case dropWhile (exited s) (Q (ReadyQ i)) of
       [] \<Rightarrow> current_running s' = Some c \<and> pcb s' = pcb s \<and> queues_wf s' (Q(ReadyQ i := []))
     | t # ts \<Rightarrow> switched s Q c t s' \<and> queues_wf s' (sched_queues s c i ts Q)"
    using scheduler_step [OF inv cur] by blast
  show ?thesis
  proof (cases "dropWhile (exited s) (Q (ReadyQ i))")
    case Nil
    with cases have s': "current_running s' = Some c" "pcb s' = pcb s" "queues_wf s' (Q(ReadyQ i := []))"
      by (simp_all del: dropWhile_eq_Nil_conv)
    have "sched_inv s' (Q(ReadyQ i := []))" by (rule sched_inv_idle [OF inv Nil]) (simp_all add: s' ok cur)
    moreover have "c \<notin> queued (Q(ReadyQ i := []))" using cq queued_upd_mono [of "[]" Q "ReadyQ i"] by auto
    ultimately show ?thesis using sc s' st by auto
  next
    case (Cons t ts)
    with cases have sw: "switched s Q c t s'" and wf': "queues_wf s' (sched_queues s c i ts Q)" by simp_all
    have tin: "t \<in> set (Q (ReadyQ i))" using Cons by (metis list.set_intros(1) set_dropWhileD)
    have sub: "set ts \<subseteq> set (Q (ReadyQ i))"
      using Cons by (metis list.set_intros(2) set_dropWhileD subsetI)
    have "t \<noteq> c" using tin cq by (auto simp: queued_def)
    moreover have "c \<notin> sched_woken s Q"
      using cq woken_sub [of _ BlockQ Q] woken_sub [of _ RecvQ Q] unfolding sched_woken_def queued_def by blast
    ultimately have "status (pcb s' c) = TASK_EXITED" using sw st by (simp add: switched_def)
    moreover have "c \<notin> queued (sched_queues s c i ts Q)"
      using cq queued_upd_mono [where Q = Q and q = "ReadyQ i", OF sub] st unfolding queued_sched_queues by (auto simp: runnable_def)
    ultimately show ?thesis using sc sched_inv_switch [OF inv cur Cons sw wf' ok] by blast
  qed
qed

text \<open>Waking up processes that wait on a queue, while the current process is not blocked.\<close>

lemma sched_inv_woken:
  assumes inv: "sched_inv s Q" and cur: "current_running s = Some c" "status (pcb s c) \<noteq> TASK_BLOCKED"
    and wk: "waked A s s'" and wf': "queues_wf s' Q'" and sub: "queued Q' \<subseteq> queued Q" and A: "A \<subseteq> queued Q"
    and ready: "\<And>q. is_ready_q q \<Longrightarrow> set (Q' q) \<subseteq> set (Q q) \<union> A"
    and wait: "\<And>q. \<not> is_ready_q q \<Longrightarrow> set (Q' q) \<subseteq> set (Q q) - A"
  shows "sched_inv s' Q'"
proof -
  note D = sched_invD [OF inv] and P = waked_pcb [OF wk]
  have cq: "c \<notin> queued Q" using D(3) cur by auto
  then have cA: "c \<notin> A" using A by blast
  have "pick_ok s'" using D(2) wk pick_ok_cong [of s s'] by (simp add: waked_def)
  moreover have "current_running s' = Some c" using cur(1) waked_frame [OF wk] by simp
  moreover have "c \<in> queued Q' \<longleftrightarrow> status (pcb s' c) = TASK_BLOCKED"
    using cq sub cA cur(2) by (auto simp: P)
  moreover have "status (pcb s' p) \<noteq> TASK_BLOCKED" if "p \<in> set (Q' q)" "is_ready_q q" for p q
    using that ready [OF that(2)] D(4) [of p q] by (auto simp: P)
  moreover have "status (pcb s' p) = TASK_BLOCKED \<or> status (pcb s' p) = TASK_EXITED"
    if "p \<in> set (Q' q)" "\<not> is_ready_q q" for p q
    using that wait [OF that(2)] D(5) [of p q] by (auto simp: P)
  moreover have "waiting_desc (pcb s' p) \<noteq> None" if "p \<in> set (Q' RecvQ)" for p
    using that wait [of RecvQ] D(7) [of p] by (auto simp: P)
  ultimately show ?thesis unfolding sched_inv_def using wf' D(6) by (auto simp: P)
qed

lemma wake_list_simps [simp]:
  "queued (wake_list s ps Q) = set ps \<union> queued Q"
  "\<not> is_ready_q q \<Longrightarrow> wake_list s ps Q q = Q q"
  unfolding wake_list_def by (induction ps arbitrary: Q) (auto simp: wake_queue_other)

lemma set_wake_list: "set (wake_list s ps Q q) \<subseteq> set (Q q) \<union> set ps"
  unfolding wake_list_def
proof (induction ps arbitrary: Q)
  case (Cons p ps)
  then show ?case using set_wake [of s p Q q] by (fastforce split: if_splits)
qed simp

lemma queued_wait_upd:
  assumes "set ys \<subseteq> set (Q q)"
  shows "set ys \<subseteq> queued Q"
  using assms unfolding queued_def by blast

lemma sched_inv_wake_list:
  assumes inv: "sched_inv s Q" and cur: "current_running s = Some c" "status (pcb s c) \<noteq> TASK_BLOCKED"
    and q: "\<not> is_ready_q q" and wk: "waked (set (filter (\<lambda>p. \<not> exited s p) (Q q))) s s'"
    and wf: "queues_wf s' (wake_list s (filter (\<lambda>p. \<not> exited s p) (Q q)) (Q(q := [])))"
  shows "sched_inv s' (wake_list s (filter (\<lambda>p. \<not> exited s p) (Q q)) (Q(q := [])))"
proof (rule sched_inv_woken [OF inv cur wk wf])
  let ?ps = "filter (\<lambda>p. \<not> exited s p) (Q q)"
  let ?Q = "wake_list s ?ps (Q(q := []))"
  have ps: "set ?ps \<subseteq> queued Q" by (rule queued_wait_upd [of _ _ q]) auto
  then show "queued ?Q \<subseteq> queued Q" using queued_upd_mono [of "[]" Q q] by simp
  show "set ?ps \<subseteq> queued Q" by (rule ps)
  fix r
  have "set (?Q r) \<subseteq> set ((Q(q := [])) r) \<union> set ?ps" by (rule set_wake_list)
  then show "set (?Q r) \<subseteq> set (Q r) \<union> set ?ps" by (auto split: if_splits)
  assume r: "\<not> is_ready_q r"
  show "set (?Q r) \<subseteq> set (Q r) - set ?ps"
  proof (cases "r = q")
    case False
    then have "set (Q r) \<inter> set (Q q) = {}" using sched_invD(1) [OF inv] by (simp add: queues_wf_def)
    then show ?thesis using r False by auto
  qed (use r in simp)
qed

lemma sched_inv_unblock_all:
  assumes inv: "sched_inv s Q" and cur: "current_running s = Some c" "status (pcb s c) \<noteq> TASK_BLOCKED"
    and q: "\<not> is_ready_q q"
  shows "\<exists>s'. do_unblock_all q s = Some s' \<and>
    sched_inv s' (wake_list s (filter (\<lambda>p. \<not> exited s p) (Q q)) (Q(q := []))) \<and>
    waked (set (filter (\<lambda>p. \<not> exited s p) (Q q))) s s'"
proof -
  note D = sched_invD [OF inv]
  obtain s' where s': "do_unblock_all q s = Some s'"
    "queues_wf s' (wake_list s (filter (\<lambda>p. \<not> exited s p) (Q q)) (Q(q := [])))"
    "waked (set (filter (\<lambda>p. \<not> exited s p) (Q q))) s s'"
    using do_unblock_all_wf [OF D(1) D(6), of q] q by (auto simp: is_ready_q_def)
  then show ?thesis using sched_inv_wake_list [OF inv cur q s'(3,2)] by blast
qed

lemma sched_inv_wake_one:
  assumes inv: "sched_inv s Q" and cur: "current_running s = Some c" "status (pcb s c) \<noteq> TASK_BLOCKED"
    and sub: "set (t # ts) \<subseteq> set (Q q)" and dist: "distinct (t # ts)"
    and wk: "waked {t} s s'" and wf: "queues_wf s' (wake s t (Q(q := ts)))"
  shows "sched_inv s' (wake s t (Q(q := ts)))"
proof (rule sched_inv_woken [OF inv cur wk wf])
  have tq: "t \<in> queued Q" using queued_wait_upd [where Q = Q and q = q, OF sub] by simp
  then show "queued (wake s t (Q(q := ts))) \<subseteq> queued Q"
    using queued_upd_mono [of ts Q q] sub by simp
  show "{t} \<subseteq> queued Q" using tq by simp
  fix r
  show "set (wake s t (Q(q := ts)) r) \<subseteq> set (Q r) \<union> {t}"
    using sub by (auto simp: set_wake split: if_splits)
  assume r: "\<not> is_ready_q r"
  have "t \<notin> set (Q r)" if "r \<noteq> q" using queues_wf_once [OF sched_invD(1) [OF inv], of t q r] sub that by auto
  then show "set (wake s t (Q(q := ts)) r) \<subseteq> set (Q r) - {t}"
    using r sub dist by (auto simp: wake_queue_other split: if_splits)
qed

lemma sched_inv_unblock_one:
  assumes inv: "sched_inv s Q" and cur: "current_running s = Some c" "status (pcb s c) \<noteq> TASK_BLOCKED"
    and q: "\<not> is_ready_q q"
  shows "\<exists>s' Q'. do_unblock_one q s = Some s' \<and> sched_inv s' Q' \<and>
    (case dropWhile (exited s) (Q q) of
       [] \<Rightarrow> Q' = Q(q := []) \<and> waked {} s s'
     | t # ts \<Rightarrow> Q' = wake s t (Q(q := ts)) \<and> waked {t} s s')"
proof -
  note D = sched_invD [OF inv]
  obtain s' where s': "do_unblock_one q s = Some s'" and cases:
    "case dropWhile (exited s) (Q q) of
       [] \<Rightarrow> queues_wf s' (Q(q := [])) \<and> waked {} s s'
     | t # ts \<Rightarrow> queues_wf s' (wake s t (Q(q := ts))) \<and> waked {t} s s'"
    using do_unblock_one_wf [OF D(1) D(6), of q] by blast
  show ?thesis
  proof (cases "dropWhile (exited s) (Q q)")
    case Nil
    then have wf: "queues_wf s' (Q(q := []))" and wk: "waked {} s s'"
      using cases by (simp_all del: dropWhile_eq_Nil_conv)
    have "sched_inv s' (Q(q := []))"
      by (rule sched_inv_woken [OF inv cur wk wf]) (use queued_upd_mono [of "[]" Q q] in auto)
    with s' wk Nil show ?thesis by (auto simp del: dropWhile_eq_Nil_conv)
  next
    case (Cons t ts)
    then have wf: "queues_wf s' (wake s t (Q(q := ts)))" and wk: "waked {t} s s'" using cases by simp_all
    have sub: "set (t # ts) \<subseteq> set (Q q)" using Cons by (metis set_dropWhileD subsetI)
    have dist: "distinct (t # ts)"
      using distinct_dropWhile [OF queues_wf_distinct [OF D(1)], of "exited s" q] Cons by simp
    have "sched_inv s' (wake s t (Q(q := ts)))" by (rule sched_inv_wake_one [OF inv cur sub dist wk wf])
    with s' wk Cons show ?thesis by auto
  qed
qed

subsection \<open>Blocking\<close>

definition blocked_state :: "qid \<Rightarrow> nat \<Rightarrow> kstate \<Rightarrow> kstate option" where
  "blocked_state q c s = do {
     s1 \<leftarrow> kq_push_if_not_exist q c s;
     let s2 = upd_pcb c (status_update (\<lambda>_. TASK_BLOCKED)) s1;
     Some (decrease_priority_upper_bound (priority (pcb s2 c)) s2) }"

lemma do_block_eq:
  "current_running s = Some c \<Longrightarrow> do_block q s = Option.bind (blocked_state q c s) scheduler"
  by (cases "kq_push_if_not_exist q c s")
    (simp_all add: do_block_def blocked_state_def Let_def)

lemma sched_inv_blocked:
  assumes inv: "sched_inv s Q" and cur: "current_running s = Some c" "status (pcb s c) \<noteq> TASK_BLOCKED"
    and q: "\<not> is_ready_q q" and desc: "q = RecvQ \<Longrightarrow> waiting_desc (pcb s c) \<noteq> None"
  shows "\<exists>s2. blocked_state q c s = Some s2 \<and> sched_inv s2 (Q(q := Q q @ [c])) \<and>
    current_running s2 = Some c \<and> pcb s2 = (pcb s)(c := (pcb s c)\<lparr>status := TASK_BLOCKED\<rparr>) \<and>
    wake_frame s s2"
proof -
  note D = sched_invD [OF inv]
  let ?Q = "Q(q := Q q @ [c])"
  have cq: "c \<notin> queued Q" using D(3) cur by auto
  then have cs: "c \<notin> set (Q r)" for r by (auto simp: queued_def)
  obtain s1 where push: "kq_push_if_not_exist q c s = Some s1" and oq: "only_queues s s1"
    and wf: "queues_wf s1 ?Q"
    using kq_push_if_not_exist_wf [OF D(1), of q c] cs by auto
  let ?s2 = "decrease_priority_upper_bound (priority (pcb s c)) (upd_pcb c (status_update (\<lambda>_. TASK_BLOCKED)) s1)"
  have b: "blocked_state q c s = Some ?s2" using push oq by (simp add: blocked_state_def Let_def)
  have pc: "pcb ?s2 = (pcb s)(c := (pcb s c)\<lparr>status := TASK_BLOCKED\<rparr>)" using oq by simp
  have fr: "wake_frame s ?s2"
    by (rule wake_frame_trans [OF only_queues_wake_frame [OF oq]
          wake_frame_trans [OF wake_frame_upd_pcb wake_frame_bound(2)]])
  have "pick_ok ?s2" using D(2) pick_ok_cong [OF fr] oq by simp
  moreover have "c \<in> queued ?Q" by (simp add: queued_upd)
  moreover have "status (pcb ?s2 p) \<noteq> TASK_BLOCKED" if "p \<in> set (?Q r)" "is_ready_q r" for p r
  proof -
    have "p \<in> set (Q r)" using that q by (auto split: if_splits)
    then show ?thesis using D(4) [OF _ that(2)] cs [of r] unfolding pc by auto
  qed
  moreover have "status (pcb ?s2 p) = TASK_BLOCKED \<or> status (pcb ?s2 p) = TASK_EXITED"
    if "p \<in> set (?Q r)" "\<not> is_ready_q r" for p r
  proof (cases "p = c")
    case False
    then have "p \<in> set (Q r)" using that by (auto split: if_splits)
    then show ?thesis using D(5) [OF _ that(2)] False unfolding pc by simp
  qed (simp add: pc)
  moreover have "waiting_desc (pcb ?s2 p) \<noteq> None" if "p \<in> set (?Q RecvQ)" for p
    using that D(7) [of p] desc unfolding pc by (auto split: if_splits)
  moreover have "uint (priority (pcb ?s2 p)) < 5" for p using D(6) unfolding pc by simp
  moreover have "current_running ?s2 = Some c" using fr cur by simp
  moreover have "status (pcb ?s2 c) = TASK_BLOCKED" unfolding pc by simp
  moreover have "queues_wf ?s2 ?Q" using wf by simp
  ultimately have "sched_inv ?s2 ?Q" unfolding sched_inv_def by blast
  with b fr pc cur show ?thesis by (intro exI [of _ ?s2]) simp
qed

lemma sched_inv_do_block:
  assumes inv: "sched_inv s Q" and cur: "current_running s = Some c" "status (pcb s c) \<noteq> TASK_BLOCKED"
    and q: "\<not> is_ready_q q" and desc: "q = RecvQ \<Longrightarrow> waiting_desc (pcb s c) \<noteq> None"
  shows "\<exists>s' Q'. do_block q s = Some s' \<and> sched_inv s' Q' \<and>
    (\<forall>p. p \<in> queued Q \<or> p = c \<longrightarrow> p = c \<or> status (pcb s p) \<noteq> TASK_EXITED \<longrightarrow>
       p \<in> queued Q' \<or> current_running s' = Some p)"
proof -
  obtain s2 where b: "blocked_state q c s = Some s2" and i2: "sched_inv s2 (Q(q := Q q @ [c]))"
    and c2: "current_running s2 = Some c" and p2: "pcb s2 = (pcb s)(c := (pcb s c)\<lparr>status := TASK_BLOCKED\<rparr>)"
    using sched_inv_blocked [OF inv cur q] desc by blast
  obtain s' Q' where sc: "scheduler s2 = Some s'" and i': "sched_inv s' Q'"
    and keep: "\<And>p. p \<in> queued (Q(q := Q q @ [c])) \<or> current_running s2 = Some p \<Longrightarrow>
      status (pcb s2 p) \<noteq> TASK_EXITED \<Longrightarrow> p \<in> queued Q' \<or> current_running s' = Some p"
    using sched_inv_scheduler [OF i2] by blast
  have "p \<in> queued Q' \<or> current_running s' = Some p"
    if "p \<in> queued Q \<or> p = c" "p = c \<or> status (pcb s p) \<noteq> TASK_EXITED" for p
  proof -
    have "p \<in> queued (Q(q := Q q @ [c])) \<or> p = c"
      using that(1) queued_split [of p Q q "Q q @ [c]"] by (auto simp: queued_upd)
    then show ?thesis using keep [of p] that(2) c2 by (auto simp: p2)
  qed
  moreover have "do_block q s = Some s'" using do_block_eq [OF cur(1)] b sc by simp
  ultimately show ?thesis using i' by blast
qed

lemma sched_inv_do_sleep:
  assumes inv: "sched_inv s Q" and cur: "current_running s = Some c" "status (pcb s c) \<noteq> TASK_BLOCKED"
  shows "\<exists>s' Q'. do_sleep n s = Some s' \<and> sched_inv s' Q'"
proof -
  let ?s = "upd_pcb c (awake_time_update (\<lambda>_. n + get_timer s)) s"
  have "sched_inv ?s Q"
    by (rule sched_inv_cong [OF inv]) (use sched_invD(1,2) [OF inv] in \<open>simp_all add: pick_ok_def\<close>)
  from sched_inv_do_block [OF this, of c BlockQ] cur show ?thesis
    by (auto simp: do_sleep_def)
qed

subsection \<open>A small state\<close>

text \<open>Process 0 runs, process 1 is ready at priority 0, process 2 sleeps until time 7, process 3
  waits on mutex 0, and process 4 waits there too but has been killed. Nothing has been
  scheduled yet.\<close>

definition blank_regs :: regs_context_t where
  "blank_regs = \<lparr>regs = (\<lambda>_. 0), cp0_status = 0, hi = 0, lo = 0, cp0_badvaddr = 0, cp0_cause = 0,
     cp0_epc = 0, pc = 0\<rparr>"

definition blank_pcb :: pcb_t where
  "blank_pcb = \<lparr>kernel_context = blank_regs, user_context = blank_regs, secondary_pt = (\<lambda>_. 0),
     pid = 0, kernel_stack_top = 0, user_stack_top = 0, pname = [], entry_point = 0,
     locks = (\<lambda>_. None), ttype = USER_PROCESS, status = TASK_CREATE, awake_time = 0,
     cursor_x = 0, cursor_y = 0, priority = 1, waiting_desc = None,
     fd = \<lparr>fd_pos = 0, fd_file = None, file_access = 0\<rparr>\<rparr>"

definition demo_state :: kstate where
  "demo_state =
     \<lparr>pcb = (\<lambda>_. blank_pcb)
        (0 := blank_pcb\<lparr>status := TASK_RUNNING\<rparr>,
         1 := blank_pcb\<lparr>status := TASK_READY, priority := 0, cursor_x := 3, cursor_y := 4\<rparr>,
         2 := blank_pcb\<lparr>status := TASK_BLOCKED, awake_time := 7\<rparr>,
         3 := blank_pcb\<lparr>status := TASK_BLOCKED, priority := 2\<rparr>,
         4 := blank_pcb\<lparr>status := TASK_EXITED\<rparr>),
      klinks = \<lparr>next_of = (\<lambda>_. None)(4 := Some 3), prev_of = (\<lambda>_. None)(3 := Some 4)\<rparr>,
      queues = (\<lambda>_. \<lparr>q_head = None, q_tail = None\<rparr>)
        (ReadyQ 0 := \<lparr>q_head = Some 1, q_tail = Some 1\<rparr>,
         BlockQ := \<lparr>q_head = Some 2, q_tail = Some 2\<rparr>,
         LockQ 0 := \<lparr>q_head = Some 4, q_tail = Some 3\<rparr>),
      current_running = Some 0, last_sel_index = - 1, glb_sched_cnt = 0, glb_sched_bound = 5,
      priority_ready_queue_counter = (\<lambda>_. 0), priority_ready_queue_counter_uppper_bound = (\<lambda>_. 0),
      scr = \<lparr>new_screen = (\<lambda>_. 0), old_screen = (\<lambda>_. 0), screen_cursor_x = 0, screen_cursor_y = 0,
             port = []\<rparr>,
      time_elapsed = 9, desc_tdes0 = (\<lambda>_. 0), lock_cnt = 1,
      mutexes = (\<lambda>_. \<lparr>lock_status = LOCKED, is_init = 1, lock_id = 0\<rparr>),
      sems = (\<lambda>_. \<lparr>sem_value = 0, sem_initialized = 0\<rparr>),
      conds = (\<lambda>_. \<lparr>cond_initialized = 0\<rparr>),
      barriers = (\<lambda>_. \<lparr>barrier_initialized = 0, cur_val = 0, barrier_bound = 0\<rparr>)\<rparr>"

definition demo_queues :: qcontents where
  "demo_queues = (\<lambda>_. [])(ReadyQ 0 := [1], BlockQ := [2], LockQ 0 := [4, 3])"

lemma demo_wf: "queues_wf demo_state demo_queues"
  by (auto simp: queues_wf_def demo_state_def demo_queues_def queue_rep_def)

lemma queued_demo: "queued demo_queues = {1, 2, 3, 4}"
  by (auto simp: queued_def demo_queues_def split: if_splits)

lemma demo_inv: "sched_inv demo_state demo_queues"
proof -
  have "pick_ok demo_state" by (simp add: pick_ok_def demo_state_def)
  moreover have "current_running demo_state = Some 0" "status (pcb demo_state 0) = TASK_RUNNING"
    by (simp_all add: demo_state_def)
  moreover have "status (pcb demo_state p) \<noteq> TASK_BLOCKED"
    if "p \<in> set (demo_queues q)" "is_ready_q q" for p q
    using that by (auto simp: demo_state_def demo_queues_def split: if_splits)
  moreover have "status (pcb demo_state p) = TASK_BLOCKED \<or> status (pcb demo_state p) = TASK_EXITED"
    if "p \<in> set (demo_queues q)" "\<not> is_ready_q q" for p q
    using that by (auto simp: demo_state_def demo_queues_def split: if_splits)
  moreover have "uint (priority (pcb demo_state p)) < 5" for p
    by (simp add: demo_state_def blank_pcb_def)
  ultimately show ?thesis
    unfolding sched_inv_def using demo_wf by (auto simp: queued_demo) (simp add: demo_queues_def)
qed

subsection \<open>Properties\<close>



text \<open>
  C3: Scheduling loses no process. From a state of the invariant \<open>scheduler\<close> returns a state of the
  invariant in which every process that was current or queued, and has not exited, is current
  or queued.
\<close>

theorem scheduler_keeps_processes:
  assumes "sched_inv s Q"
  shows "\<exists>s' Q'. scheduler s = Some s' \<and> sched_inv s' Q' \<and>
    (\<forall>p. p \<in> queued Q \<or> current_running s = Some p \<longrightarrow> status (pcb s p) \<noteq> TASK_EXITED \<longrightarrow>
       p \<in> queued Q' \<or> current_running s' = Some p)"
  by (rule sched_inv_scheduler [OF assms])

theorem scheduler_keeps_processes_witness:
  "\<exists>s' Q'. scheduler demo_state = Some s' \<and> sched_inv s' Q' \<and>
    (\<forall>p. p \<in> queued demo_queues \<or> current_running demo_state = Some p \<longrightarrow>
       status (pcb demo_state p) \<noteq> TASK_EXITED \<longrightarrow> p \<in> queued Q' \<or> current_running s' = Some p)"
  by (rule scheduler_keeps_processes [OF demo_inv])

text \<open>The state after \<open>n\<close> calls of the scheduler.\<close>

fun run_scheduler :: "nat \<Rightarrow> kstate \<Rightarrow> kstate option" where
  "run_scheduler 0 s = Some s"
| "run_scheduler (Suc n) s = do { s' \<leftarrow> scheduler s; run_scheduler n s' }"

lemma run_scheduler_inv:
  "sched_inv s Q \<Longrightarrow> glb_sched_cnt s + int n \<le> 4 \<Longrightarrow>
    \<exists>s' Q'. run_scheduler n s = Some s' \<and> sched_inv s' Q' \<and> glb_sched_cnt s' = glb_sched_cnt s + int n"
proof (induction n arbitrary: s Q)
  case (Suc n)
  obtain c where cur: "current_running s = Some c" using sched_invD(3) [OF Suc.prems(1)] by blast
  obtain s1 where s1: "scheduler s = Some s1" "glb_sched_cnt s1 = glb_sched_cnt s + 1"
    using scheduler_step [OF Suc.prems(1) cur] Suc.prems(2) by auto
  obtain Q1 where "sched_inv s1 Q1" using sched_inv_scheduler [OF Suc.prems(1)] s1(1) by auto
  from Suc.IH [OF this] s1 Suc.prems(2) show ?case by auto
qed auto

text \<open>
  C29: The ready queue 0 is served regularly: from any state of the invariant, one of the next five
  calls of the scheduler takes its process from queue 0, whatever the quotas and the other
  queues are.
\<close>

theorem queue_zero_served:
  assumes "sched_inv s Q"
  shows "\<exists>n s' s1. n < 5 \<and> run_scheduler n s = Some s' \<and> sched_pick s' = Some (0, s1)"
proof -
  have g: "0 \<le> glb_sched_cnt s" "glb_sched_cnt s < 5" using sched_invD(2) [OF assms] by (simp_all add: pick_ok_def)
  let ?n = "nat (4 - glb_sched_cnt s)"
  obtain s' Q' where s': "run_scheduler ?n s = Some s'" "sched_inv s' Q'" "glb_sched_cnt s' = 4"
    using run_scheduler_inv [OF assms, of ?n] g by auto
  then obtain s1 where "sched_pick s' = Some (0, s1)"
    using sched_pick_ok [OF sched_invD(2) [OF s'(2)]] by auto
  moreover have "?n < 5" using g by simp
  ultimately show ?thesis using s'(1) by blast
qed

theorem queue_zero_served_witness:
  "\<exists>n s' s1. n < 5 \<and> run_scheduler n demo_state = Some s' \<and> sched_pick s' = Some (0, s1)"
  by (rule queue_zero_served [OF demo_inv])

text \<open>
  The choice gets stuck. If the queue chosen last has quota left but is empty, then the choice is
  queue 0 and neither the last chosen index nor any counter changes, whatever the other queues
  hold: until a process of that very priority becomes ready, only queue 0 is served.
\<close>

theorem sched_pick_stuck:
  assumes "sched_inv s Q" "last_sel_index s = i" "0 \<le> i" "i < 5" "Q (ReadyQ i) = []"
    "priority_ready_queue_counter s i < priority_ready_queue_counter_uppper_bound s i"
  shows "\<exists>g. sched_pick s = Some (0, s\<lparr>glb_sched_cnt := g\<rparr>)"
proof -
  have "q_head (queues s (ReadyQ i)) = None"
    using queues_wf_head [OF sched_invD(1) [OF assms(1)], of "ReadyQ i"] assms(5) by simp
  moreover have "skip_exhausted (priority_ready_queue_counter s)
      (priority_ready_queue_counter_uppper_bound s) i = i"
    using assms(6) by (subst skip_exhausted.simps) (auto dest: leD)
  ultimately have "sched_pick s =
      Some (0, s\<lparr>glb_sched_cnt := if glb_sched_bound s \<le> glb_sched_cnt s + 1 then 0 else glb_sched_cnt s + 1\<rparr>)"
    using assms(2-4) by (simp add: sched_pick_def Let_def)
  then show ?thesis by (rule exI)
qed

definition stuck_state :: kstate where
  "stuck_state = demo_state\<lparr>last_sel_index := 3,
     priority_ready_queue_counter_uppper_bound := (\<lambda>_. 0)(3 := 12)\<rparr>"

theorem sched_pick_stuck_witness:
  "last_sel_index stuck_state = 3 \<and> (\<exists>g. sched_pick stuck_state = Some (0, stuck_state\<lparr>glb_sched_cnt := g\<rparr>))"
proof
  show l: "last_sel_index stuck_state = 3" by (simp add: stuck_state_def)
  have "queues_wf stuck_state demo_queues" using demo_wf by (simp add: stuck_state_def)
  moreover have "pick_ok stuck_state" by (simp add: stuck_state_def pick_ok_def demo_state_def)
  ultimately have "sched_inv stuck_state demo_queues"
    by (rule sched_inv_cong [OF demo_inv]) (simp_all add: stuck_state_def)
  then show "\<exists>g. sched_pick stuck_state = Some (0, stuck_state\<lparr>glb_sched_cnt := g\<rparr>)"
    by (rule sched_pick_stuck [OF _ l])
      (simp_all add: demo_queues_def stuck_state_def demo_state_def)
qed

text \<open>
  Blocking. When the running process calls \<open>do_block\<close> on a queue that is not a ready queue, the
  call is defined, keeps the invariant, and every live process, the blocked one included, is
  on a queue or current afterwards.
\<close>

theorem do_block_keeps_processes:
  assumes "sched_inv s Q" "current_running s = Some c" "status (pcb s c) \<noteq> TASK_BLOCKED"
    "\<not> is_ready_q q" "q \<noteq> RecvQ"
  shows "\<exists>s' Q'. do_block q s = Some s' \<and> sched_inv s' Q' \<and>
    (\<forall>p. p \<in> queued Q \<or> p = c \<longrightarrow> p = c \<or> status (pcb s p) \<noteq> TASK_EXITED \<longrightarrow>
       p \<in> queued Q' \<or> current_running s' = Some p)"
  using sched_inv_do_block [OF assms(1-4)] assms(5) by blast

theorem do_block_keeps_processes_witness:
  "\<exists>s' Q'. do_block (LockQ 0) demo_state = Some s' \<and> sched_inv s' Q' \<and>
    (\<forall>p. p \<in> queued demo_queues \<or> p = 0 \<longrightarrow> p = 0 \<or> status (pcb demo_state p) \<noteq> TASK_EXITED \<longrightarrow>
       p \<in> queued Q' \<or> current_running s' = Some p)"
  by (rule do_block_keeps_processes [OF demo_inv]) (simp_all add: demo_state_def)

text \<open>
  Waking everybody. \<open>do_unblock_all\<close> terminates on every well-formed wait queue and leaves it
  empty; its live processes, in their order, are appended to the ready queues of their
  priorities and set running, exited ones are dropped, and the invariant holds again.
\<close>

theorem do_unblock_all_wakes_all:
  assumes "sched_inv s Q" "current_running s = Some c" "status (pcb s c) \<noteq> TASK_BLOCKED"
    "\<not> is_ready_q q"
  shows "\<exists>s'. do_unblock_all q s = Some s' \<and> q_head (queues s' q) = None \<and>
    sched_inv s' (wake_list s (filter (\<lambda>p. \<not> exited s p) (Q q)) (Q(q := []))) \<and>
    (\<forall>p\<in>set (Q q). status (pcb s p) \<noteq> TASK_EXITED \<longrightarrow> status (pcb s' p) = TASK_RUNNING)"
proof -
  let ?ps = "filter (\<lambda>p. \<not> exited s p) (Q q)"
  obtain s' where s': "do_unblock_all q s = Some s'" "sched_inv s' (wake_list s ?ps (Q(q := [])))"
    "waked (set ?ps) s s'" using sched_inv_unblock_all [OF assms] by blast
  moreover have "q_head (queues s' q) = None"
    using queues_wf_head [OF sched_invD(1) [OF s'(2)], of q] assms(4) by simp
  moreover have "\<forall>p\<in>set (Q q). status (pcb s p) \<noteq> TASK_EXITED \<longrightarrow> status (pcb s' p) = TASK_RUNNING"
    using waked_pcb(6) [OF s'(3)] by (simp add: exited_def)
  ultimately show ?thesis by blast
qed

theorem do_unblock_all_wakes_all_witness:
  "\<exists>s'. do_unblock_all (LockQ 0) demo_state = Some s' \<and> q_head (queues s' (LockQ 0)) = None \<and>
    sched_inv s' (wake_list demo_state (filter (\<lambda>p. \<not> exited demo_state p) (demo_queues (LockQ 0)))
      (demo_queues(LockQ 0 := []))) \<and>
    (\<forall>p\<in>set (demo_queues (LockQ 0)). status (pcb demo_state p) \<noteq> TASK_EXITED \<longrightarrow>
      status (pcb s' p) = TASK_RUNNING)"
  by (rule do_unblock_all_wakes_all [OF demo_inv, where c = 0]) (simp_all add: demo_state_def)

text \<open>
  Quotas balance. Lowering the quota of a priority after raising it restores the state, for
  every priority, also those out of range, as long as the 32-bit sum does not wrap.
\<close>

theorem quota_roundtrip:
  assumes "uint (priority_ready_queue_counter_uppper_bound s (uint (clamp_priority p))) < 2 ^ 32 - 15"
  shows "decrease_priority_upper_bound p (increase_priority_upper_bound p s) = s"
proof -
  let ?pr = "clamp_priority p" and ?b = "priority_ready_queue_counter_uppper_bound s"
  let ?d = "PRIORITY_FACTOR * (?pr + 1)"
  have "?pr = 0 \<or> ?pr = 1 \<or> ?pr = 2 \<or> ?pr = 3 \<or> ?pr = 4"
  proof -
    have "uint ?pr = 0 \<or> uint ?pr = 1 \<or> uint ?pr = 2 \<or> uint ?pr = 3 \<or> uint ?pr = 4"
      using clamp_priority_range(1) [of p] clamp_priority_range(2) [of p] by linarith
    then show ?thesis by (simp add: word_uint_eq_iff)
  qed
  then have "uint ?d \<le> 15" by auto
  then have "uint (?b (uint ?pr) + ?d) = uint (?b (uint ?pr)) + uint ?d"
    using assms by (simp add: uint_plus_if')
  then have "?d \<le> ?b (uint ?pr) + ?d" by (simp add: word_le_def)
  then have "\<not> ?d > ?b (uint ?pr) + ?d" by simp
  then show ?thesis
    by (simp add: decrease_priority_upper_bound_def increase_priority_upper_bound_def Let_def)
qed

theorem quota_roundtrip_witness:
  "decrease_priority_upper_bound 9 (increase_priority_upper_bound 9 demo_state) = demo_state"
  by (rule quota_roundtrip) (simp add: demo_state_def)

end
