(* ===== verification/Algo.thy ===== *)
theory Algo
  imports Kernel_Prelude "HOL-Library.Multiset"
begin

text \<open>
  \<^verbatim>\<open>libs/algo.c\<close>, the sorting of an array of mutexes by \<open>lock_id\<close> that
  \<open>mutex_lock_acquire_multiple\<close> and \<open>do_mutex_lock_release_multiple\<close> rely on. The array is a
  function on int indices; \<open>ids\<close> gives the \<open>lock_id\<close> of a mutex.
\<close>

subsection \<open>Operations\<close>

definition cmp_lock :: "(nat \<Rightarrow> u32) \<Rightarrow> nat \<Rightarrow> nat \<Rightarrow> int" where
  "cmp_lock ids a b = sint (ids a - ids b)"

definition partition_step :: "(nat \<Rightarrow> nat \<Rightarrow> int) \<Rightarrow> int \<Rightarrow> (int \<Rightarrow> nat) \<times> int \<Rightarrow> (int \<Rightarrow> nat) \<times> int" where
  "partition_step cmp i st =
     (case st of (b, lst) \<Rightarrow>
        if cmp (b i) (b lst) < 0
        then (let tmp = b i; lst' = lst + 1; b1 = b(i := b lst') in (b1(lst' := tmp), lst'))
        else (b, lst))"

definition partition_loop :: "(nat \<Rightarrow> nat \<Rightarrow> int) \<Rightarrow> (int \<Rightarrow> nat) \<Rightarrow> int \<Rightarrow> int \<Rightarrow> (int \<Rightarrow> nat) \<times> int" where
  "partition_loop cmp b left right = fold (partition_step cmp) [left..right] (b, left)"

partial_function (option) qsort ::
  "(nat \<Rightarrow> nat \<Rightarrow> int) \<Rightarrow> (int \<Rightarrow> nat) \<Rightarrow> int \<Rightarrow> int \<Rightarrow> (int \<Rightarrow> nat) option" where
  "qsort cmp b left right =
     (if left \<ge> right then Some b
      else (let (b1, lst) = partition_loop cmp b left right;
                b2 = b1(left := b1 lst, lst := b1 left)
            in Option.bind (qsort cmp b2 left lst) (\<lambda>b3. qsort cmp b3 (lst + 1) right)))"

declare qsort.simps [code]

subsection \<open>The partition\<close>

definition exchange :: "(int \<Rightarrow> nat) \<Rightarrow> int \<Rightarrow> int \<Rightarrow> int \<Rightarrow> nat" where
  "exchange b i j = b(i := b j, j := b i)"

text \<open>\<open>permuted l r b b'\<close>: between \<open>l\<close> and \<open>r\<close> the arrays hold the same items, elsewhere they are
  equal.\<close>

definition permuted :: "int \<Rightarrow> int \<Rightarrow> (int \<Rightarrow> nat) \<Rightarrow> (int \<Rightarrow> nat) \<Rightarrow> bool" where
  "permuted l r b b' \<longleftrightarrow>
     image_mset b' (mset_set {l..r}) = image_mset b (mset_set {l..r}) \<and> (\<forall>i. i \<notin> {l..r} \<longrightarrow> b' i = b i)"

lemma permuted_refl [simp]: "permuted l r b b"
  by (simp add: permuted_def)

lemma permuted_trans: "permuted l r b c \<Longrightarrow> permuted l r c d \<Longrightarrow> permuted l r b d"
  by (simp add: permuted_def)

lemma permuted_exchange:
  assumes "i \<in> {l..r}" "j \<in> {l..r}"
  shows "permuted l r b (exchange b i j)"
proof (cases "i = j")
  case False
  let ?A = "{l..r} - {i, j}"
  have A: "{l..r} = insert i (insert j ?A)" using assms by blast
  have same: "image_mset (exchange b i j) (mset_set ?A) = image_mset b (mset_set ?A)"
    by (intro image_mset_cong) (auto simp: exchange_def)
  have "mset_set {l..r} = {#i, j#} + mset_set ?A"
    using False by (subst A) simp
  then show ?thesis using False same assms by (auto simp: permuted_def exchange_def)
qed (simp add: exchange_def)

lemma permuted_widen:
  assumes "permuted l r b b'" "l' \<le> l" "r \<le> r'"
  shows "permuted l' r' b b'"
proof -
  let ?A = "{l'..r'} - {l..r}"
  have A: "{l'..r'} = {l..r} \<union> ?A" if "l \<le> r" using that assms by auto
  have "image_mset b' (mset_set ?A) = image_mset b (mset_set ?A)"
    using assms(1) by (intro image_mset_cong) (auto simp: permuted_def)
  then have "image_mset b' (mset_set ({l..r} \<union> ?A)) = image_mset b (mset_set ({l..r} \<union> ?A))"
    using assms(1) by (subst (1 2) mset_set_Union) (auto simp: permuted_def)
  then have "image_mset b' (mset_set {l'..r'}) = image_mset b (mset_set {l'..r'})"
    using A by (cases "l \<le> r") auto
  then show ?thesis using assms by (auto simp: permuted_def)
qed

lemma partition_step_eq:
  "partition_step cmp i (b, lst) =
     (if cmp (b i) (b lst) < 0 then (exchange b i (lst + 1), lst + 1) else (b, lst))"
  by (auto simp: partition_step_def exchange_def Let_def fun_eq_iff)

text \<open>What the partition loop does when the comparison is by keys.\<close>

definition partition_inv :: "(nat \<Rightarrow> int) \<Rightarrow> (int \<Rightarrow> nat) \<Rightarrow> int \<Rightarrow> int \<Rightarrow> int \<Rightarrow> (int \<Rightarrow> nat) \<times> int \<Rightarrow> bool" where
  "partition_inv k b left right i st \<longleftrightarrow>
     (case st of (b', lst) \<Rightarrow> left \<le> lst \<and> lst \<le> i \<and> permuted left right b b' \<and>
        (lst = i \<longrightarrow> b' = b \<and> (\<forall>j. left < j \<and> j \<le> i \<longrightarrow> k (b j) < k (b (j - 1)))) \<and>
        ((\<forall>j. left \<le> j \<and> j \<le> i \<longrightarrow> k (b left) \<le> k (b j)) \<longrightarrow> lst = left \<and> b' = b))"

definition cmp_by :: "(nat \<Rightarrow> nat \<Rightarrow> int) \<Rightarrow> (nat \<Rightarrow> int) \<Rightarrow> bool" where
  "cmp_by cmp k \<longleftrightarrow> (\<forall>x y. cmp x y < 0 \<longleftrightarrow> k x < k y)"

lemma partition_inv_loop:
  assumes by_key: "cmp_by cmp k" and "left \<le> i" "i \<le> right"
  shows "partition_inv k b left right i (fold (partition_step cmp) [left..i] (b, left))"
  using assms(2,3)
proof (induction i rule: int_ge_induct)
  case base
  note cmp = by_key [unfolded cmp_by_def, rule_format]
  show ?case using base by (simp add: partition_step_eq cmp partition_inv_def)
next
  case (step i)
  note cmp = by_key [unfolded cmp_by_def, rule_format]
  obtain b' lst where st: "fold (partition_step cmp) [left..i] (b, left) = (b', lst)" by fastforce
  have inv: "partition_inv k b left right i (b', lst)" using step st by simp
  have up: "[left..i + 1] = [left..i] @ [i + 1]" using step by (simp add: upto_rec2)
  have lst: "left \<le> lst" "lst \<le> i" using inv by (auto simp: partition_inv_def)
  have "permuted left right b' (exchange b' (i + 1) (lst + 1))"
    using step lst by (intro permuted_exchange) auto
  then have perm: "permuted left right b (exchange b' (i + 1) (lst + 1))"
    using inv permuted_trans by (auto simp: partition_inv_def)
  show ?case
  proof (cases "k (b' (i + 1)) < k (b' lst)")
    case True
    have "exchange b' (i + 1) (lst + 1) = b \<and> (\<forall>j. left < j \<and> j \<le> i + 1 \<longrightarrow> k (b j) < k (b (j - 1)))"
      if "lst = i"
    proof -
      have b: "b' = b" and dec: "\<And>j. left < j \<Longrightarrow> j \<le> i \<Longrightarrow> k (b j) < k (b (j - 1))"
        using inv that by (auto simp: partition_inv_def)
      have "k (b j) < k (b (j - 1))" if "left < j" "j \<le> i + 1" for j
        using dec [of j] True that \<open>lst = i\<close> b by (cases "j = i + 1") auto
      then show ?thesis using b that by (simp add: exchange_def)
    qed
    moreover have "\<not> (\<forall>j. left \<le> j \<and> j \<le> i + 1 \<longrightarrow> k (b left) \<le> k (b j))"
    proof
      assume m: "\<forall>j. left \<le> j \<and> j \<le> i + 1 \<longrightarrow> k (b left) \<le> k (b j)"
      then have "lst = left \<and> b' = b" using inv by (auto simp: partition_inv_def)
      moreover have "k (b left) \<le> k (b (i + 1))" using m step by simp
      ultimately show False using True by auto
    qed
    ultimately show ?thesis
      using lst perm True unfolding up fold_append
      by (auto simp: st partition_step_eq cmp partition_inv_def)
  next
    case False
    then show ?thesis using lst inv unfolding up fold_append
      by (auto simp: st partition_step_eq cmp partition_inv_def)
  qed
qed

subsection \<open>qsort returns a permutation\<close>

lemma qsort_trivial: "right \<le> left \<Longrightarrow> qsort cmp b left right = Some b"
  by (subst qsort.simps) simp

text \<open>The range the first recursive call gets is smaller than the given one, unless the range is
  strictly decreasing; then the smallest item is first in that call.\<close>

lemma qsort_unfold:
  assumes cmp: "cmp_by cmp k" and lr: "left < right"
  obtains b2 lst where "left \<le> lst" "lst \<le> right" "permuted left right b b2"
    "qsort cmp b left right =
       Option.bind (qsort cmp b2 left lst) (\<lambda>b3. qsort cmp b3 (lst + 1) right)"
    "lst = right \<Longrightarrow> \<forall>j. left \<le> j \<and> j \<le> right \<longrightarrow> k (b2 left) \<le> k (b2 j)"
    "(\<forall>j. left \<le> j \<and> j \<le> right \<longrightarrow> k (b left) \<le> k (b j)) \<Longrightarrow> lst = left"
proof -
  obtain b1 lst where part: "partition_loop cmp b left right = (b1, lst)" by fastforce
  have inv: "partition_inv k b left right right (b1, lst)"
    using partition_inv_loop [of cmp k left right right b] cmp lr part by (simp add: partition_loop_def)
  let ?b2 = "exchange b1 left lst"
  have bounds: "left \<le> lst" "lst \<le> right" using inv by (auto simp: partition_inv_def)
  have perm: "permuted left right b ?b2"
    using inv bounds permuted_trans permuted_exchange [of left left right lst b1] lr
    by (auto simp: partition_inv_def)
  have eq: "qsort cmp b left right =
      Option.bind (qsort cmp ?b2 left lst) (\<lambda>b3. qsort cmp b3 (lst + 1) right)"
    using lr part by (subst qsort.simps) (simp add: exchange_def)
  have min: "\<forall>j. left \<le> j \<and> j \<le> right \<longrightarrow> k (?b2 left) \<le> k (?b2 j)" if "lst = right"
  proof -
    have b1: "b1 = b" and dec: "\<And>j. left < j \<Longrightarrow> j \<le> right \<Longrightarrow> k (b j) < k (b (j - 1))"
      using inv that by (auto simp: partition_inv_def)
    have low: "k (b right) \<le> k (b j)" if "j \<le> right" "left \<le> j" for j
      using that
    proof (induction j rule: int_le_induct)
      case (step i)
      then show ?case using dec [of i] by simp
    qed simp
    show ?thesis using low lr that b1 by (auto simp: exchange_def)
  qed
  have triv: "lst = left" if "\<forall>j. left \<le> j \<and> j \<le> right \<longrightarrow> k (b left) \<le> k (b j)"
    using inv that by (auto simp: partition_inv_def)
  show thesis by (rule that [OF bounds perm eq min triv])
qed

lemma qsort_total:
  assumes cmp: "cmp_by cmp k"
  shows "\<exists>b'. qsort cmp b left right = Some b' \<and> permuted left right b b'"
proof (induction "nat (right - left)" arbitrary: b left right rule: less_induct)
  case less
  show ?case
  proof (cases "left < right")
    case lr: True
    obtain b2 lst where l: "left \<le> lst" "lst \<le> right" and p: "permuted left right b b2"
      and eq: "qsort cmp b left right =
        Option.bind (qsort cmp b2 left lst) (\<lambda>b3. qsort cmp b3 (lst + 1) right)"
      and full: "lst = right \<Longrightarrow> \<forall>j. left \<le> j \<and> j \<le> right \<longrightarrow> k (b2 left) \<le> k (b2 j)"
      by (rule qsort_unfold [OF cmp lr, of b]) auto
    have "\<exists>b3. qsort cmp b2 left lst = Some b3 \<and> permuted left right b2 b3"
    proof (cases "lst = right")
      case True
      obtain c2 l2 where p2: "permuted left right b2 c2" and l2: "l2 = left"
        and eq2: "qsort cmp b2 left right =
          Option.bind (qsort cmp c2 left l2) (\<lambda>b3. qsort cmp b3 (l2 + 1) right)"
        by (rule qsort_unfold [OF cmp lr, of b2]) (use full [OF True] in auto)
      obtain c3 where "qsort cmp c2 (left + 1) right = Some c3" "permuted (left + 1) right c2 c3"
        using less.hyps [of right "left + 1" c2] lr by auto
      moreover have "permuted left right c2 c3"
        by (rule permuted_widen [OF calculation(2)]) simp_all
      ultimately show ?thesis
        using eq2 l2 True p2 permuted_trans by (auto simp: qsort_trivial)
    next
      case False
      then obtain b3 where "qsort cmp b2 left lst = Some b3" "permuted left lst b2 b3"
        using less.hyps [of lst left b2] l lr by auto
      then show ?thesis using l by (auto intro: permuted_widen)
    qed
    then obtain b3 where b3: "qsort cmp b2 left lst = Some b3" "permuted left right b2 b3" by blast
    obtain b4 where b4: "qsort cmp b3 (lst + 1) right = Some b4" "permuted (lst + 1) right b3 b4"
      using less.hyps [of right "lst + 1" b3] l lr by auto
    have "permuted left right b3 b4" by (rule permuted_widen [OF b4(2)]) (use l in auto)
    then show ?thesis using eq b3 b4(1) p by (auto intro: permuted_trans)
  qed (simp add: qsort_trivial)
qed

lemma cmp_lock_less:
  assumes "\<And>x. uint (ids x) < 2 ^ 31"
  shows "cmp_lock ids x y < 0 \<longleftrightarrow> uint (ids x) < uint (ids y)"
proof -
  have "- (2 ^ 31) \<le> uint (ids x) - uint (ids y)" "uint (ids x) - uint (ids y) < 2 ^ 31"
    using assms [of x] assms [of y] uint_ge_0 [of "ids x"] uint_ge_0 [of "ids y"] by linarith+
  then have "signed_take_bit 31 (uint (ids x) - uint (ids y)) = uint (ids x) - uint (ids y)"
    by (intro signed_take_bit_int_eq_self) simp_all
  moreover have "ids x - ids y = word_of_int (uint (ids x) - uint (ids y))"
    by (simp add: word_of_int_uint flip: wi_hom_sub)
  ultimately have "cmp_lock ids x y = uint (ids x) - uint (ids y)"
    unfolding cmp_lock_def by (simp only: signed_of_int) simp
  then show ?thesis by simp
qed

subsection \<open>Properties\<close>

text \<open>
  C33: Sorting an array of locks terminates for every array and range (although the first recursive
  call can get the whole range again) and only permutes the locks within the range, provided
  lock ids are below 2 to the 31.
\<close>

theorem qsort_locks_permutes:
  assumes "\<And>x. uint (ids x) < 2 ^ 31"
  shows "\<exists>b'. qsort (cmp_lock ids) b left right = Some b' \<and> permuted left right b b'"
proof (rule qsort_total)
  show "cmp_by (cmp_lock ids) (\<lambda>x. uint (ids x))"
    using cmp_lock_less [OF assms] by (simp add: cmp_by_def)
qed

theorem qsort_locks_permutes_witness:
  "\<exists>b'. qsort (cmp_lock (\<lambda>x. word_of_nat (x mod 7))) (\<lambda>i. nat (5 - i)) 0 4 = Some b' \<and>
    permuted 0 4 (\<lambda>i. nat (5 - i)) b'"
proof (rule qsort_locks_permutes)
  fix x :: nat
  have "x mod 7 < 7" by simp
  then have "uint (word_of_nat (x mod 7) :: u32) = int (x mod 7)"
    by (simp add: uint_nat unat_of_nat_u32)
  then show "uint (word_of_nat (x mod 7) :: u32) < 2 ^ 31" using \<open>x mod 7 < 7\<close> by simp
qed

text \<open>
  The sort does not sort. The partition compares with the item exchanged last and not with the
  pivot: three locks with ids 3, 1, 2 come out in the order 1, 3, 2, so two processes that
  acquire the same locks by \<open>mutex_lock_acquire_multiple\<close> need not take them in the same order.
\<close>

theorem qsort_locks_unsorted:
  "map_option (\<lambda>b. map b [0, 1, 2])
     (qsort (cmp_lock (\<lambda>x. word_of_nat x)) ((\<lambda>_. 0)(0 := 3, 1 := 1, 2 := 2)) 0 2) = Some [1, 3, 2]"
  by code_simp

end
