(* ===== verification/Sync.thy ===== *)
theory Sync
  imports Sched Algo
begin

text \<open>
  \<^verbatim>\<open>kernel/locking\<close>: spin locks, mutexes, semaphores, condition variables and barriers.

  A call that may block is modelled by its pieces between two scheduling points. The result of
  such a piece is \<open>(True, s)\<close> when the call has returned to its caller and \<open>(False, s)\<close> when the
  caller has been put to sleep inside the loop of the call; it executes the piece again when it
  next runs. Which processes run in between is left open: the step relation at the end of this
  theory interleaves the pieces of all processes in every possible way. Kernel code runs with
  interrupts off, so a piece is atomic.
\<close>

subsection \<open>Spin locks\<close>

record spin_lock_t =
  spin_status :: lock_status_t

definition spin_lock_init :: "spin_lock_t \<Rightarrow> spin_lock_t" where
  "spin_lock_init l = l\<lparr>spin_status := UNLOCKED\<rparr>"

partial_function (option) spin_lock_acquire :: "spin_lock_t \<Rightarrow> spin_lock_t option" where
  "spin_lock_acquire l =
     (if LOCKED = spin_status l then spin_lock_acquire l else Some (l\<lparr>spin_status := LOCKED\<rparr>))"

definition spin_lock_release :: "spin_lock_t \<Rightarrow> spin_lock_t" where
  "spin_lock_release l = l\<lparr>spin_status := UNLOCKED\<rparr>"

subsection \<open>Mutexes\<close>

definition set_mutex :: "nat \<Rightarrow> lock_status_t \<Rightarrow> kstate \<Rightarrow> kstate" where
  "set_mutex l st s = s\<lparr>mutexes := (mutexes s)(l := (mutexes s l)\<lparr>lock_status := st\<rparr>)\<rparr>"

definition do_mutex_lock_init :: "nat \<Rightarrow> kstate \<Rightarrow> kstate" where
  "do_mutex_lock_init l s =
     (if is_init (mutexes s l) \<noteq> 1
      then s\<lparr>queues := (queues s)(LockQ l := \<lparr>q_head = None, q_tail = None\<rparr>),
             mutexes := (mutexes s)(l := \<lparr>lock_status = UNLOCKED, is_init = 1, lock_id = lock_cnt s\<rparr>),
             lock_cnt := lock_cnt s + 1\<rparr>
      else s)"

text \<open>The two loops over \<open>current_running->locks\<close>.\<close>

definition record_lock :: "nat \<Rightarrow> nat \<Rightarrow> kstate \<Rightarrow> kstate" where
  "record_lock c l s =
     (case first_index 0 MAX_LOCK_NUM_FOR_A_PROC (\<lambda>i. locks (pcb s c) i = None) of
        None \<Rightarrow> s
      | Some i \<Rightarrow> upd_pcb c (\<lambda>p. p\<lparr>locks := (locks p)(i := Some l)\<rparr>) s)"

definition forget_lock :: "nat \<Rightarrow> nat \<Rightarrow> kstate \<Rightarrow> kstate" where
  "forget_lock c l s =
     (case first_index 0 MAX_LOCK_NUM_FOR_A_PROC (\<lambda>i. locks (pcb s c) i = Some l) of
        None \<Rightarrow> s
      | Some i \<Rightarrow> upd_pcb c (\<lambda>p. p\<lparr>locks := (locks p)(i := None)\<rparr>) s)"

text \<open>One pass through \<open>do_mutex_lock_acquire\<close>, from the loop condition on.\<close>

definition do_mutex_lock_acquire :: "nat \<Rightarrow> kstate \<Rightarrow> (bool \<times> kstate) option" where
  "do_mutex_lock_acquire l s = do {
     c \<leftarrow> current_running s;
     if lock_status (mutexes s l) = LOCKED
     then do {
       s1 \<leftarrow> kq_push_if_not_exist (LockQ l) c s;
       s2 \<leftarrow> do_block (LockQ l) s1;
       Some (False, s2) }
     else (let s1 = record_lock c l (set_mutex l LOCKED s)
           in Some (True, if q_head (queues s1 (LockQ l)) = Some c
                          then snd (kq_dequeue (LockQ l) s1) else s1)) }"

definition do_mutex_lock_release :: "nat \<Rightarrow> kstate \<Rightarrow> kstate option" where
  "do_mutex_lock_release l s = do {
     let s1 = set_mutex l UNLOCKED s;
     c \<leftarrow> current_running s1;
     do_unblock_one (LockQ l) (forget_lock c l s1) }"

text \<open>\<open>mutex_lock_acquire_multiple\<close> runs in user mode and issues one system call per lock, in the
  order its \<open>qsort\<close> leaves. The result is the list of locks still to be acquired.\<close>

definition sorted_locks :: "(int \<Rightarrow> nat) \<Rightarrow> int \<Rightarrow> kstate \<Rightarrow> nat list option" where
  "sorted_locks b num s = do {
     b' \<leftarrow> qsort (cmp_lock (\<lambda>l. lock_id (mutexes s l))) b 0 (num - 1);
     Some (map b' [0..num - 1]) }"

fun mutex_lock_acquire_rest :: "nat list \<Rightarrow> kstate \<Rightarrow> (nat list \<times> kstate) option" where
  "mutex_lock_acquire_rest [] s = Some ([], s)"
| "mutex_lock_acquire_rest (l # ls) s = do {
     (got, s1) \<leftarrow> do_mutex_lock_acquire l s;
     if got then mutex_lock_acquire_rest ls s1 else Some (l # ls, s1) }"

definition mutex_lock_acquire_multiple :: "(int \<Rightarrow> nat) \<Rightarrow> int \<Rightarrow> kstate \<Rightarrow> (nat list \<times> kstate) option" where
  "mutex_lock_acquire_multiple b num s = do {
     ls \<leftarrow> sorted_locks b num s;
     mutex_lock_acquire_rest ls s }"

definition release_one_of_many :: "nat \<Rightarrow> kstate \<Rightarrow> kstate option" where
  "release_one_of_many l s = do {
     let s1 = set_mutex l UNLOCKED s;
     let (proc, s2) = kq_dequeue (LockQ l) s1;
     c \<leftarrow> current_running s2;
     invoke_blocked_proc proc (forget_lock c l s2) }"

definition do_mutex_lock_release_multiple :: "(int \<Rightarrow> nat) \<Rightarrow> int \<Rightarrow> kstate \<Rightarrow> kstate option" where
  "do_mutex_lock_release_multiple b num s = do {
     ls \<leftarrow> sorted_locks b num s;
     s1 \<leftarrow> fold_opt release_one_of_many ls s;
     do_scheduler s1 }"

subsection \<open>Semaphores\<close>

text \<open>The counter is an int; a step past its range is undefined.\<close>

definition sem_add :: "nat \<Rightarrow> int \<Rightarrow> kstate \<Rightarrow> kstate option" where
  "sem_add n d s =
     (let v = sem_value (sems s n) + d
      in if v < - (2 ^ 31) \<or> 2 ^ 31 \<le> v then None
         else Some (s\<lparr>sems := (sems s)(n := (sems s n)\<lparr>sem_value := v\<rparr>)\<rparr>))"

definition do_semaphore_init :: "nat \<Rightarrow> int \<Rightarrow> kstate \<Rightarrow> kstate" where
  "do_semaphore_init n val s =
     (if sem_initialized (sems s n) \<noteq> 0 then s
      else s\<lparr>sems := (sems s)(n := \<lparr>sem_value = val, sem_initialized = 1\<rparr>),
             queues := (queues s)(SemQ n := queue_init (queues s (SemQ n)))\<rparr>)"

definition do_semaphore_up :: "nat \<Rightarrow> kstate \<Rightarrow> kstate option" where
  "do_semaphore_up n s = do {
     s1 \<leftarrow> sem_add n 1 s;
     if sem_value (sems s1 n) \<le> 0 then do_unblock_one (SemQ n) s1 else Some s1 }"

text \<open>\<open>do_semaphore_down\<close>: the decrement, and the loop.\<close>

definition semaphore_wait :: "nat \<Rightarrow> kstate \<Rightarrow> (bool \<times> kstate) option" where
  "semaphore_wait n s =
     (if sem_value (sems s n) < 0
      then do { s1 \<leftarrow> do_block (SemQ n) s; Some (False, s1) }
      else Some (True, s))"

definition do_semaphore_down :: "nat \<Rightarrow> kstate \<Rightarrow> (bool \<times> kstate) option" where
  "do_semaphore_down n s = do {
     s1 \<leftarrow> sem_add n (- 1) s;
     semaphore_wait n s1 }"

subsection \<open>Condition variables\<close>

definition do_condition_init :: "nat \<Rightarrow> kstate \<Rightarrow> kstate" where
  "do_condition_init n s =
     (if cond_initialized (conds s n) \<noteq> 0 then s
      else s\<lparr>queues := (queues s)(CondQ n := queue_init (queues s (CondQ n)))\<rparr>)"

text \<open>\<open>do_condition_wait\<close> up to its scheduling point; the caller then goes on with
  \<open>do_mutex_lock_acquire\<close> of the same lock.\<close>

definition do_condition_wait :: "nat \<Rightarrow> nat \<Rightarrow> kstate \<Rightarrow> kstate option" where
  "do_condition_wait l n s = do {
     s1 \<leftarrow> do_mutex_lock_release l s;
     do_block (CondQ n) s1 }"

definition do_condition_signal :: "nat \<Rightarrow> kstate \<Rightarrow> kstate option" where
  "do_condition_signal n s = do_unblock_one (CondQ n) s"

definition do_condition_broadcast :: "nat \<Rightarrow> kstate \<Rightarrow> kstate option" where
  "do_condition_broadcast n s = do_unblock_all (CondQ n) s"

subsection \<open>Barriers\<close>

definition set_barrier :: "nat \<Rightarrow> int \<Rightarrow> kstate \<Rightarrow> kstate" where
  "set_barrier n v s = s\<lparr>barriers := (barriers s)(n := (barriers s n)\<lparr>cur_val := v\<rparr>)\<rparr>"

definition do_barrier_init :: "nat \<Rightarrow> int \<Rightarrow> kstate \<Rightarrow> kstate" where
  "do_barrier_init n goal s =
     (if barrier_initialized (barriers s n) \<noteq> 0 then s
      else s\<lparr>barriers := (barriers s)(n := (barriers s n)\<lparr>cur_val := 0, barrier_bound := goal\<rparr>)\<rparr>)"

definition do_barrier_wait :: "nat \<Rightarrow> kstate \<Rightarrow> kstate option" where
  "do_barrier_wait n s =
     (let v = cur_val (barriers s n) + 1
      in if 2 ^ 31 \<le> v then None
         else if v < barrier_bound (barriers s n) then do_block (BarrierQ n) (set_barrier n v s)
         else do_unblock_all (BarrierQ n) (set_barrier n 0 s))"

declare spin_lock_acquire.simps [code]

subsection \<open>What scheduling leaves alone\<close>

text \<open>\<open>sync_frame s s'\<close>: the synchronisation objects and the lock slots of all processes are the same
  in both states. The scheduler and the queue operations have this frame in every state.\<close>

definition sync_frame :: "kstate \<Rightarrow> kstate \<Rightarrow> bool" where
  "sync_frame s s' \<longleftrightarrow> mutexes s' = mutexes s \<and> sems s' = sems s \<and> conds s' = conds s \<and>
     barriers s' = barriers s \<and> lock_cnt s' = lock_cnt s \<and>
     (\<forall>p. locks (pcb s' p) = locks (pcb s p))"

named_theorems sync_frames "operations that leave the synchronisation objects alone"

lemma sync_frame_refl [simp]: "sync_frame s s"
  by (simp add: sync_frame_def)

lemma sync_frame_trans [trans]: "sync_frame s t \<Longrightarrow> sync_frame t u \<Longrightarrow> sync_frame s u"
  by (simp add: sync_frame_def)

lemma kq_push_sync [sync_frames]: "kq_push q p s = Some s' \<Longrightarrow> sync_frame s s'"
  by (auto simp: kq_push_def sync_frame_def Option.bind_eq_Some_conv)

lemma kq_push_if_not_exist_sync [sync_frames]: "kq_push_if_not_exist q p s = Some s' \<Longrightarrow> sync_frame s s'"
  by (auto simp: kq_push_if_not_exist_def sync_frame_def Option.bind_eq_Some_conv)

lemma kq_dequeue_sync [sync_frames]: "kq_dequeue q s = (p, s') \<Longrightarrow> sync_frame s s'"
  by (auto simp: kq_dequeue_def sync_frame_def split: prod.splits)

lemma upd_pcb_sync [simp]: "(\<And>x. locks (f x) = locks x) \<Longrightarrow> sync_frame s (upd_pcb i f s)"
  by (simp add: sync_frame_def)

lemma bound_sync [simp]:
  "sync_frame s (increase_priority_upper_bound p s)" "sync_frame s (decrease_priority_upper_bound p s)"
  by (simp_all add: sync_frame_def increase_priority_upper_bound_def decrease_priority_upper_bound_def Let_def)

lemma invoke_blocked_proc_sync [sync_frames]:
  assumes "invoke_blocked_proc p s = Some s'"
  shows "sync_frame s s'"
proof (cases p)
  case (Some x)
  then obtain q where push: "kq_push_if_not_exist q x
      (increase_priority_upper_bound (priority (pcb s x)) (upd_pcb x (status_update (\<lambda>_. TASK_RUNNING)) s)) = Some s'"
    using assms by (auto simp: invoke_blocked_proc_def Let_def Option.bind_eq_Some_conv)
  have "sync_frame s (increase_priority_upper_bound (priority (pcb s x))
      (upd_pcb x (status_update (\<lambda>_. TASK_RUNNING)) s))"
    by (rule sync_frame_trans [OF upd_pcb_sync bound_sync(1)]) simp
  with kq_push_if_not_exist_sync [OF push] show ?thesis by (rule sync_frame_trans [rotated])
qed (use assms in \<open>simp add: invoke_blocked_proc_def\<close>)

lemma dequeue_live_sync':
  assumes "dequeue_live q s = Some y"
  shows "sync_frame s (snd y)"
proof (rule dequeue_live.raw_induct [where P = "\<lambda>q s y. sync_frame s (snd y)", OF _ assms])
  fix dl q s y
  assume 1: "\<And>q s y. dl q s = Some y \<Longrightarrow> sync_frame s (snd y)"
    "(case kq_dequeue q s of (None, s') \<Rightarrow> Some (None, s')
      | (Some t, s') \<Rightarrow> if status (pcb s' t) = TASK_EXITED then dl q s' else Some (Some t, s')) = Some y"
  obtain p s1 where deq: "kq_dequeue q s = (p, s1)" by fastforce
  have fr: "sync_frame s s1" by (rule kq_dequeue_sync [OF deq])
  show "sync_frame s (snd y)"
  proof (cases "\<exists>t. p = Some t \<and> status (pcb s1 t) = TASK_EXITED")
    case True
    then have "dl q s1 = Some y" using 1(2) deq by auto
    from 1(1) [OF this] show ?thesis by (rule sync_frame_trans [OF fr])
  next
    case False
    then have "y = (p, s1)" using 1(2) deq by (cases p) auto
    then show ?thesis using fr by simp
  qed
qed

lemma dequeue_live_sync [sync_frames]: "dequeue_live q s = Some (t, s') \<Longrightarrow> sync_frame s s'"
  using dequeue_live_sync' by fastforce

lemma do_unblock_one_sync [sync_frames]: "do_unblock_one q s = Some s' \<Longrightarrow> sync_frame s s'"
  by (auto simp: do_unblock_one_def Option.bind_eq_Some_conv split: option.splits
      dest!: dequeue_live_sync invoke_blocked_proc_sync elim: sync_frame_trans)

lemma do_unblock_all_sync [sync_frames]:
  assumes "do_unblock_all q s = Some s'"
  shows "sync_frame s s'"
proof (rule do_unblock_all.raw_induct [where P = "\<lambda>q s y. sync_frame s y", OF _ assms])
  fix ua q s y
  assume 1: "\<And>q s y. ua q s = Some y \<Longrightarrow> sync_frame s y"
    "(if q_head (queues s q) \<noteq> None
      then case do_unblock_one q s of None \<Rightarrow> None | Some s' \<Rightarrow> ua q s' else Some s) = Some y"
  show "sync_frame s y"
  proof (cases "q_head (queues s q)")
    case (Some x)
    then obtain s1 where one: "do_unblock_one q s = Some s1" and rest: "ua q s1 = Some y"
      using 1(2) by (auto split: option.splits)
    show ?thesis by (rule sync_frame_trans [OF do_unblock_one_sync [OF one] 1(1) [OF rest]])
  qed (use 1(2) in simp)
qed

lemma check_sleeping_sync [sync_frames]:
  assumes "check_sleeping s = Some s'"
  shows "sync_frame s s'"
proof -
  consider "s' = s" | p s1 where "kq_dequeue BlockQ s = (Some p, s1)"
      "invoke_blocked_proc (Some p) (upd_pcb p (awake_time_update (\<lambda>_. 0)) s1) = Some s'"
    using assms by (auto simp: check_sleeping_def split: option.splits if_splits prod.splits)
  then show ?thesis
  proof cases
    case 2
    have "sync_frame s1 (upd_pcb p (awake_time_update (\<lambda>_. 0)) s1)" by simp
    then show ?thesis
      using kq_dequeue_sync [OF 2(1)] invoke_blocked_proc_sync [OF 2(2)] sync_frame_trans by blast
  qed simp
qed

lemma check_net_recv_sync [sync_frames]:
  assumes "check_net_recv s = Some s'"
  shows "sync_frame s s'"
proof -
  obtain p s1 where deq: "kq_dequeue RecvQ s = (p, s1)" by fastforce
  show ?thesis
  proof (cases "q_head (queues s RecvQ)")
    case None
    then show ?thesis using assms by (simp add: check_net_recv_def)
  next
    case (Some x)
    obtain d where d: "waiting_desc (pcb s x) = Some d"
      using assms Some by (cases "waiting_desc (pcb s x)") (simp_all add: check_net_recv_def)
    show ?thesis
    proof (cases "desc_tdes0 s d AND 0x80000000 = 0")
      case True
      then have "invoke_blocked_proc (Some x) s1 = Some s'"
        using assms Some d deq by (simp add: check_net_recv_def)
      then show ?thesis
        by (rule sync_frame_trans [OF kq_dequeue_sync [OF deq] invoke_blocked_proc_sync])
    next
      case False
      then show ?thesis using assms Some d by (simp add: check_net_recv_def)
    qed
  qed
qed

lemma sched_pick_sync [sync_frames]:
  assumes "sched_pick s = Some (i, s')"
  shows "sync_frame s s'"
  using assms by (auto simp: sched_pick_def Let_def sync_frame_def split: if_splits prod.splits)

lemma requeue_current_sync [sync_frames]: "requeue_current c s = Some s' \<Longrightarrow> sync_frame s s'"
  by (auto simp: requeue_current_def Option.bind_eq_Some_conv split: if_splits dest: kq_push_sync)

lemma scheduler_sync [sync_frames]:
  assumes "scheduler s = Some s'"
  shows "sync_frame s s'"
proof -
  obtain i s1 t s2 where pick: "sched_pick s = Some (i, s1)" and deq: "dequeue_live (ReadyQ i) s1 = Some (t, s2)"
    using assms by (auto simp: scheduler_def Option.bind_eq_Some_conv)
  have fr: "sync_frame s s2" by (rule sync_frame_trans [OF sched_pick_sync [OF pick] dequeue_live_sync [OF deq]])
  show ?thesis
  proof (cases t)
    case None
    then have "\<exists>x. s' = s2\<lparr>scr := x\<rparr>"
      using assms pick deq by (auto simp: scheduler_def Option.bind_eq_Some_conv)
    then show ?thesis using fr by (auto simp: sync_frame_def)
  next
    case (Some x)
    let ?s3 = "upd_pcb x (status_update (\<lambda>_. TASK_RUNNING)) s2"
    obtain c s5 s6 s7 where q: "requeue_current c (save_cursor c ?s3) = Some s5"
      and sl: "check_sleeping s5 = Some s6" and nr: "check_net_recv s6 = Some s7"
      and s': "s' = load_cursor x (s7\<lparr>current_running := Some x\<rparr>)"
      using assms pick deq Some by (auto simp: scheduler_def Option.bind_eq_Some_conv Let_def)
    have "sync_frame s2 (save_cursor c ?s3)" by (simp add: save_cursor_def sync_frame_def)
    also have "sync_frame \<dots> s5" by (rule requeue_current_sync [OF q])
    also have "sync_frame \<dots> s6" by (rule check_sleeping_sync [OF sl])
    also have "sync_frame \<dots> s7" by (rule check_net_recv_sync [OF nr])
    also have "sync_frame s7 s'" by (simp add: s' load_cursor_def sync_frame_def)
    finally show ?thesis by (rule sync_frame_trans [OF fr])
  qed
qed

lemma do_block_sync [sync_frames]:
  assumes "do_block q s = Some s'"
  shows "sync_frame s s'"
proof -
  obtain c s1 where push: "kq_push_if_not_exist q c s = Some s1"
    and sc: "scheduler (decrease_priority_upper_bound (priority (pcb s1 c))
       (upd_pcb c (status_update (\<lambda>_. TASK_BLOCKED)) s1)) = Some s'"
    using assms by (auto simp: do_block_def Option.bind_eq_Some_conv Let_def)
  have "sync_frame s s1" by (rule kq_push_if_not_exist_sync [OF push])
  also have "sync_frame s1 (upd_pcb c (status_update (\<lambda>_. TASK_BLOCKED)) s1)" by simp
  also have "sync_frame \<dots> (decrease_priority_upper_bound (priority (pcb s1 c))
       (upd_pcb c (status_update (\<lambda>_. TASK_BLOCKED)) s1))" by simp
  also have "sync_frame \<dots> s'" by (rule scheduler_sync [OF sc])
  finally show ?thesis .
qed

lemma do_sleep_sync [sync_frames]:
  assumes "do_sleep n s = Some s'"
  shows "sync_frame s s'"
proof -
  obtain c where b: "do_block BlockQ (upd_pcb c (awake_time_update (\<lambda>_. n + get_timer s)) s) = Some s'"
    using assms by (auto simp: do_sleep_def Option.bind_eq_Some_conv)
  have "sync_frame s (upd_pcb c (awake_time_update (\<lambda>_. n + get_timer s)) s)" by simp
  then show ?thesis using do_block_sync [OF b] by (rule sync_frame_trans)
qed

subsection \<open>The calls keep the scheduler's invariant\<close>

lemma sched_inv_sync_update:
  assumes inv: "sched_inv s Q"
    and same: "klinks s' = klinks s" "queues s' = queues s" "current_running s' = current_running s"
      "last_sel_index s' = last_sel_index s" "glb_sched_cnt s' = glb_sched_cnt s"
      "glb_sched_bound s' = glb_sched_bound s"
      "priority_ready_queue_counter s' = priority_ready_queue_counter s"
      "priority_ready_queue_counter_uppper_bound s' = priority_ready_queue_counter_uppper_bound s"
    and pcbs: "\<And>p. status (pcb s' p) = status (pcb s p)" "\<And>p. priority (pcb s' p) = priority (pcb s p)"
      "\<And>p. waiting_desc (pcb s' p) = waiting_desc (pcb s p)"
  shows "sched_inv s' Q"
proof (rule sched_inv_cong [OF inv])
  show "queues_wf s' Q" using queues_wf_cong [of s' s Q] same(1,2) sched_invD(1) [OF inv] by simp
  show "pick_ok s'" using sched_invD(2) [OF inv] by (simp add: pick_ok_def same)
qed (simp_all add: same pcbs)

lemma first_index_cases:
  "(case first_index i n P of None \<Rightarrow> s | Some k \<Rightarrow> f k) = s \<or>
   (\<exists>k. (case first_index i n P of None \<Rightarrow> s | Some k \<Rightarrow> f k) = f k)"
  by (cases "first_index i n P") auto

lemma sched_inv_slot:
  assumes "sched_inv s Q"
  shows "sched_inv (record_lock c l s) Q" "sched_inv (forget_lock c l s) Q"
    "sched_inv (set_mutex l st s) Q" "sched_inv (set_barrier n v s) Q"
    "sched_inv (s\<lparr>sems := x\<rparr>) Q"
  by (rule sched_inv_sync_update [OF assms];
      simp add: record_lock_def forget_lock_def set_mutex_def set_barrier_def split: option.splits)+

lemma slot_simps [simp]:
  "current_running (record_lock c l s) = current_running s"
  "current_running (forget_lock c l s) = current_running s"
  "current_running (set_mutex l st s) = current_running s"
  "current_running (set_barrier n v s) = current_running s"
  "mutexes (record_lock c l s) = mutexes s" "mutexes (forget_lock c l s) = mutexes s"
  "sems (record_lock c l s) = sems s" "sems (forget_lock c l s) = sems s"
  "sems (set_mutex l st s) = sems s" "sems (set_barrier n v s) = sems s"
  "mutexes (set_barrier n v s) = mutexes s"
  "queues (record_lock c l s) = queues s" "queues (forget_lock c l s) = queues s"
  "queues (set_mutex l st s) = queues s" "queues (set_barrier n v s) = queues s"
  "pcb (set_mutex l st s) = pcb s" "pcb (set_barrier n v s) = pcb s"
  "status (pcb (record_lock c l s) p) = status (pcb s p)"
  "status (pcb (forget_lock c l s) p) = status (pcb s p)"
  "barriers (set_barrier n v s) = (barriers s)(n := (barriers s n)\<lparr>cur_val := v\<rparr>)"
  "mutexes (set_mutex l st s) = (mutexes s)(l := (mutexes s l)\<lparr>lock_status := st\<rparr>)"
  by (simp_all add: record_lock_def forget_lock_def set_mutex_def set_barrier_def split: option.splits)

lemma do_block_push_twice:
  assumes wf: "queues_wf s Q" and c: "c \<notin> queued Q" and cur: "current_running s = Some c"
    and push: "kq_push_if_not_exist q c s = Some s1"
  shows "do_block q s1 = do_block q s"
proof -
  have cs: "c \<notin> set (Q r)" for r using c by (auto simp: queued_def)
  obtain s1' where "kq_push_if_not_exist q c s = Some s1'" "only_queues s s1'"
    and wf1: "queues_wf s1' (Q(q := Q q @ [c]))"
    using kq_push_if_not_exist_wf [OF wf, of q c] cs by auto
  then have oq: "only_queues s s1" and wf1: "queues_wf s1 (Q(q := Q q @ [c]))" using push by auto
  then have "queue_rep (klinks s1) (queues s1 q) (Q q @ [c])" by (auto simp: queues_wf_def dest: spec [of _ q])
  then have "queue_walk (next_of (klinks s1)) c (q_head (queues s1 q)) = Some True"
    using queue_walk_chain [of "next_of (klinks s1)" "q_head (queues s1 q)" "Q q @ [c]" c]
    by (simp add: queue_rep_def)
  then have "queue_push_if_not_exist c (klinks s1) (queues s1 q) = Some (klinks s1, queues s1 q)"
    by (simp add: queue_push_if_not_exist_def)
  then have "kq_push_if_not_exist q c s1 = Some s1" by (simp add: kq_push_if_not_exist_def)
  then have "blocked_state q c s1 = blocked_state q c s" using push by (simp add: blocked_state_def)
  moreover have "current_running s1 = Some c" using cur oq by simp
  ultimately show ?thesis using do_block_eq cur by simp
qed

lemma acquire_free:
  assumes inv: "sched_inv s Q" and cur: "current_running s = Some c" "status (pcb s c) \<noteq> TASK_BLOCKED"
    and free: "lock_status (mutexes s l) = UNLOCKED"
  shows "do_mutex_lock_acquire l s = Some (True, record_lock c l (set_mutex l LOCKED s))"
proof -
  have "c \<notin> queued Q" using sched_invD(3) [OF inv] cur by auto
  then have "c \<notin> set (Q (LockQ l))" by (auto simp: queued_def)
  then have "q_head (queues s (LockQ l)) \<noteq> Some c"
    using queues_wf_head [OF sched_invD(1) [OF inv], of "LockQ l"] by (auto split: list.splits)
  then show ?thesis using cur free by (simp add: do_mutex_lock_acquire_def Let_def)
qed

lemma acquire_held:
  assumes inv: "sched_inv s Q" and cur: "current_running s = Some c" "status (pcb s c) \<noteq> TASK_BLOCKED"
    and held: "lock_status (mutexes s l) = LOCKED"
  shows "do_mutex_lock_acquire l s = map_option (Pair False) (do_block (LockQ l) s)"
proof -
  have cq: "c \<notin> queued Q" using sched_invD(3) [OF inv] cur by auto
  obtain s1 where push: "kq_push_if_not_exist (LockQ l) c s = Some s1"
    using kq_push_if_not_exist_wf [OF sched_invD(1) [OF inv], of "LockQ l" c] cq by (auto simp: queued_def)
  show ?thesis
    using do_block_push_twice [OF sched_invD(1) [OF inv] cq cur(1) push] cur(1) push held
    by (cases "do_block (LockQ l) s") (simp_all add: do_mutex_lock_acquire_def)
qed

lemma sched_inv_acquire:
  assumes inv: "sched_inv s Q" and cur: "current_running s = Some c" "status (pcb s c) \<noteq> TASK_BLOCKED"
  shows "\<exists>got s' Q'. do_mutex_lock_acquire l s = Some (got, s') \<and> sched_inv s' Q' \<and>
    got = (lock_status (mutexes s l) = UNLOCKED)"
proof (cases "lock_status (mutexes s l)")
  case UNLOCKED
  have "sched_inv (record_lock c l (set_mutex l LOCKED s)) Q" by (intro sched_inv_slot inv)
  with acquire_free [OF inv cur UNLOCKED] UNLOCKED show ?thesis by simp blast
next
  case LOCKED
  obtain s' Q' where "do_block (LockQ l) s = Some s'" "sched_inv s' Q'"
    using sched_inv_do_block [OF inv cur, of "LockQ l"] by auto
  with acquire_held [OF inv cur LOCKED] LOCKED show ?thesis by simp blast
qed

lemma release_effect:
  assumes inv: "sched_inv s Q" and cur: "current_running s = Some c" "status (pcb s c) \<noteq> TASK_BLOCKED"
  shows "\<exists>s' Q'. do_mutex_lock_release l s = Some s' \<and> sched_inv s' Q' \<and>
    lock_status (mutexes s' l) = UNLOCKED \<and> current_running s' = Some c \<and>
    status (pcb s' c) \<noteq> TASK_BLOCKED \<and> (\<forall>p. exited s p \<longrightarrow> exited s' p) \<and>
    (case dropWhile (exited s) (Q (LockQ l)) of
       [] \<Rightarrow> Q' = Q(LockQ l := [])
     | t # ts \<Rightarrow> Q' = wake s t (Q(LockQ l := ts)) \<and> status (pcb s' t) = TASK_RUNNING)"
proof -
  let ?s1 = "forget_lock c l (set_mutex l UNLOCKED s)"
  have inv1: "sched_inv ?s1 Q" by (intro sched_inv_slot inv)
  have ex: "exited ?s1 = exited s" by (simp add: exited_def fun_eq_iff)
  have wk: "wake ?s1 = wake s"
    by (simp add: wake_def to_ready_def fun_eq_iff forget_lock_def split: option.splits)
  obtain s' Q' where s': "do_unblock_one (LockQ l) ?s1 = Some s'" "sched_inv s' Q'"
    and cases: "case dropWhile (exited s) (Q (LockQ l)) of
       [] \<Rightarrow> Q' = Q(LockQ l := []) \<and> waked {} ?s1 s'
     | t # ts \<Rightarrow> Q' = wake s t (Q(LockQ l := ts)) \<and> waked {t} ?s1 s'"
    using sched_inv_unblock_one [OF inv1, of c "LockQ l"] cur unfolding ex wk by auto
  obtain A where A: "waked A ?s1 s'" and c: "c \<notin> A" and live: "\<forall>a\<in>A. \<not> exited s a"
    and out: "case dropWhile (exited s) (Q (LockQ l)) of
       [] \<Rightarrow> Q' = Q(LockQ l := [])
     | t # ts \<Rightarrow> Q' = wake s t (Q(LockQ l := ts)) \<and> status (pcb s' t) = TASK_RUNNING"
  proof (cases "dropWhile (exited s) (Q (LockQ l))")
    case Nil
    then show ?thesis using cases that [of "{}"] by (simp del: dropWhile_eq_Nil_conv)
  next
    case (Cons t ts)
    have "t \<in> set (Q (LockQ l))" using Cons by (metis list.set_intros(1) set_dropWhileD)
    then have "t \<noteq> c" using sched_invD(3) [OF inv] cur by (auto simp: queued_def)
    moreover have "waked {t} ?s1 s'" using cases Cons by simp
    moreover have "\<not> exited s t" using hd_dropWhile [of "exited s" "Q (LockQ l)"] Cons by simp
    ultimately show ?thesis using cases Cons that [of "{t}"] waked_pcb(6) [of "{t}" ?s1 s' t] by simp
  qed
  have "do_mutex_lock_release l s = Some s'" using s'(1) cur by (simp add: do_mutex_lock_release_def Let_def)
  moreover have "lock_status (mutexes s' l) = UNLOCKED"
    using do_unblock_one_sync [OF s'(1)] by (simp add: sync_frame_def)
  moreover have "current_running s' = Some c" using waked_frame [OF A] cur by simp
  moreover have "status (pcb s' c) \<noteq> TASK_BLOCKED" using waked_pcb(6) [OF A, of c] c cur by simp
  moreover have "\<forall>p. exited s p \<longrightarrow> exited s' p"
    using waked_pcb(6) [OF A] live by (auto simp: exited_def)
  ultimately show ?thesis using s'(2) out by blast
qed

subsection \<open>Interleaved calls\<close>

text \<open>
  The system of all processes: the kernel state, for every process the call it is inside of, and
  two ghost fields: \<open>holders l\<close>, the processes whose acquire of \<open>l\<close> has returned and that have not
  released it, and \<open>admitted n\<close>, the returned downs minus the ups of semaphore \<open>n\<close>. Every step is
  one of the current process, or a timer interrupt. A mutex is released only by a holder;
  signals, ups and barrier calls are free.
\<close>

datatype call = NoCall | InAcquire nat | InDown nat

record lsys =
  ks :: kstate
  calls :: "nat \<Rightarrow> call"
  holders :: "nat \<Rightarrow> nat set"
  admitted :: "nat \<Rightarrow> int"

inductive lstep :: "lsys \<Rightarrow> lsys \<Rightarrow> bool" where
  acquire: "\<lbrakk>current_running (ks y) = Some c; calls y c = NoCall \<or> calls y c = InAcquire l;
     do_mutex_lock_acquire l (ks y) = Some (got, s')\<rbrakk> \<Longrightarrow>
     lstep y (y\<lparr>ks := s', calls := (calls y)(c := if got then NoCall else InAcquire l),
       holders := if got then (holders y)(l := insert c (holders y l)) else holders y\<rparr>)"
| release: "\<lbrakk>current_running (ks y) = Some c; calls y c = NoCall; c \<in> holders y l;
     do_mutex_lock_release l (ks y) = Some s'\<rbrakk> \<Longrightarrow>
     lstep y (y\<lparr>ks := s', holders := (holders y)(l := holders y l - {c})\<rparr>)"
| cond_wait: "\<lbrakk>current_running (ks y) = Some c; calls y c = NoCall; c \<in> holders y l;
     do_condition_wait l n (ks y) = Some s'\<rbrakk> \<Longrightarrow>
     lstep y (y\<lparr>ks := s', calls := (calls y)(c := InAcquire l),
       holders := (holders y)(l := holders y l - {c})\<rparr>)"
| cond_signal: "\<lbrakk>current_running (ks y) = Some c; calls y c = NoCall;
     do_condition_signal n (ks y) = Some s'\<rbrakk> \<Longrightarrow> lstep y (y\<lparr>ks := s'\<rparr>)"
| cond_broadcast: "\<lbrakk>current_running (ks y) = Some c; calls y c = NoCall;
     do_condition_broadcast n (ks y) = Some s'\<rbrakk> \<Longrightarrow> lstep y (y\<lparr>ks := s'\<rparr>)"
| down: "\<lbrakk>current_running (ks y) = Some c; calls y c = NoCall;
     do_semaphore_down n (ks y) = Some (got, s')\<rbrakk> \<Longrightarrow>
     lstep y (y\<lparr>ks := s', calls := (calls y)(c := if got then NoCall else InDown n),
       admitted := if got then (admitted y)(n := admitted y n + 1) else admitted y\<rparr>)"
| down_again: "\<lbrakk>current_running (ks y) = Some c; calls y c = InDown n;
     semaphore_wait n (ks y) = Some (got, s')\<rbrakk> \<Longrightarrow>
     lstep y (y\<lparr>ks := s', calls := (calls y)(c := if got then NoCall else InDown n),
       admitted := if got then (admitted y)(n := admitted y n + 1) else admitted y\<rparr>)"
| up: "\<lbrakk>current_running (ks y) = Some c; calls y c = NoCall; do_semaphore_up n (ks y) = Some s'\<rbrakk> \<Longrightarrow>
     lstep y (y\<lparr>ks := s', admitted := (admitted y)(n := admitted y n - 1)\<rparr>)"
| barrier: "\<lbrakk>current_running (ks y) = Some c; calls y c = NoCall; do_barrier_wait n (ks y) = Some s'\<rbrakk> \<Longrightarrow>
     lstep y (y\<lparr>ks := s'\<rparr>)"
| sleep: "\<lbrakk>current_running (ks y) = Some c; calls y c = NoCall; do_sleep n (ks y) = Some s'\<rbrakk> \<Longrightarrow>
     lstep y (y\<lparr>ks := s'\<rparr>)"
| timer: "\<lbrakk>screen_reflush (scr (ks y)) = Some x; scheduler ((ks y)\<lparr>scr := x\<rparr>) = Some s'\<rbrakk> \<Longrightarrow>
     lstep y (y\<lparr>ks := s'\<rparr>)"
| tick: "lstep y (y\<lparr>ks := update_time_stamp n (ks y)\<rparr>)"

inductive_cases lstepE: "lstep y y'"

definition mutex_inv :: "lsys \<Rightarrow> bool" where
  "mutex_inv y \<longleftrightarrow> (\<forall>l. (lock_status (mutexes (ks y) l) = LOCKED \<longrightarrow> (\<exists>c. holders y l = {c})) \<and>
     (lock_status (mutexes (ks y) l) = UNLOCKED \<longrightarrow> holders y l = {}))"

definition waiters :: "lsys \<Rightarrow> nat \<Rightarrow> nat set" where
  "waiters y n = {p. calls y p = InDown n}"

definition sem_inv :: "(nat \<Rightarrow> int) \<Rightarrow> lsys \<Rightarrow> bool" where
  "sem_inv limit y \<longleftrightarrow> (\<forall>n. finite (waiters y n) \<and> admitted y n \<le> limit n \<and>
     sem_value (sems (ks y) n) + admitted y n + int (card (waiters y n)) = limit n)"

text \<open>What each call does to the mutexes and to the semaphores.\<close>

lemma acquire_sync:
  assumes "do_mutex_lock_acquire l s = Some (got, s')"
  shows "sems s' = sems s"
    "if got then lock_status (mutexes s l) = UNLOCKED \<and>
        mutexes s' = (mutexes s)(l := (mutexes s l)\<lparr>lock_status := LOCKED\<rparr>)
     else mutexes s' = mutexes s"
proof -
  obtain c where cur: "current_running s = Some c"
    using assms by (auto simp: do_mutex_lock_acquire_def Option.bind_eq_Some_conv)
  have "sems s' = sems s \<and> (if got then lock_status (mutexes s l) = UNLOCKED \<and>
        mutexes s' = (mutexes s)(l := (mutexes s l)\<lparr>lock_status := LOCKED\<rparr>) else mutexes s' = mutexes s)"
  proof (cases "lock_status (mutexes s l)")
    case LOCKED
    then obtain s1 where got: "\<not> got" and 1: "kq_push_if_not_exist (LockQ l) c s = Some s1"
      and 2: "do_block (LockQ l) s1 = Some s'"
      using assms cur by (auto simp: do_mutex_lock_acquire_def Option.bind_eq_Some_conv)
    show ?thesis
      using sync_frame_trans [OF kq_push_if_not_exist_sync [OF 1] do_block_sync [OF 2]] got
      by (simp add: sync_frame_def)
  next
    case UNLOCKED
    let ?s1 = "record_lock c l (set_mutex l LOCKED s)"
    have s': "got \<and> s' = (if q_head (queues ?s1 (LockQ l)) = Some c then snd (kq_dequeue (LockQ l) ?s1) else ?s1)"
      using assms cur UNLOCKED by (simp add: do_mutex_lock_acquire_def Let_def)
    obtain p s2 where "kq_dequeue (LockQ l) ?s1 = (p, s2)" by fastforce
    then have "sync_frame ?s1 s'" using s' kq_dequeue_sync by (auto split: if_splits)
    then show ?thesis using s' UNLOCKED by (simp add: sync_frame_def)
  qed
  then show "sems s' = sems s"
    "if got then lock_status (mutexes s l) = UNLOCKED \<and>
        mutexes s' = (mutexes s)(l := (mutexes s l)\<lparr>lock_status := LOCKED\<rparr>)
     else mutexes s' = mutexes s" by simp_all
qed

lemma release_sync:
  assumes "do_mutex_lock_release l s = Some s'"
  shows "sems s' = sems s" "mutexes s' = (mutexes s)(l := (mutexes s l)\<lparr>lock_status := UNLOCKED\<rparr>)"
proof -
  obtain c where "do_unblock_one (LockQ l) (forget_lock c l (set_mutex l UNLOCKED s)) = Some s'"
    using assms by (auto simp: do_mutex_lock_release_def Option.bind_eq_Some_conv Let_def)
  from do_unblock_one_sync [OF this]
  show "sems s' = sems s" "mutexes s' = (mutexes s)(l := (mutexes s l)\<lparr>lock_status := UNLOCKED\<rparr>)"
    by (simp_all add: sync_frame_def)
qed

lemma cond_wait_sync:
  assumes "do_condition_wait l n s = Some s'"
  shows "sems s' = sems s" "mutexes s' = (mutexes s)(l := (mutexes s l)\<lparr>lock_status := UNLOCKED\<rparr>)"
proof -
  obtain s1 where r: "do_mutex_lock_release l s = Some s1" and b: "do_block (CondQ n) s1 = Some s'"
    using assms by (auto simp: do_condition_wait_def Option.bind_eq_Some_conv)
  show "sems s' = sems s" "mutexes s' = (mutexes s)(l := (mutexes s l)\<lparr>lock_status := UNLOCKED\<rparr>)"
    using do_block_sync [OF b] release_sync [OF r] by (simp_all add: sync_frame_def)
qed

lemma sem_add_sync:
  assumes "sem_add n d s = Some s'"
  shows "mutexes s' = mutexes s"
    "sem_value (sems s' m) = sem_value (sems s m) + (if m = n then d else 0)"
  using assms by (auto simp: sem_add_def Let_def split: if_splits)

lemma semaphore_wait_sync:
  assumes "semaphore_wait n s = Some (got, s')"
  shows "mutexes s' = mutexes s" "sems s' = sems s" "got \<longleftrightarrow> 0 \<le> sem_value (sems s n)"
  using assms do_block_sync
  by (auto simp: semaphore_wait_def sync_frame_def Option.bind_eq_Some_conv split: if_splits)

lemma down_sync:
  assumes "do_semaphore_down n s = Some (got, s')"
  shows "mutexes s' = mutexes s"
    "sem_value (sems s' m) = sem_value (sems s m) - (if m = n then 1 else 0)"
    "got \<longleftrightarrow> 0 < sem_value (sems s n)"
proof -
  obtain s1 where 1: "sem_add n (- 1) s = Some s1" and 2: "semaphore_wait n s1 = Some (got, s')"
    using assms by (auto simp: do_semaphore_down_def Option.bind_eq_Some_conv)
  show "mutexes s' = mutexes s"
    "sem_value (sems s' m) = sem_value (sems s m) - (if m = n then 1 else 0)"
    by (simp_all add: sem_add_sync [OF 1] semaphore_wait_sync [OF 2])
  show "got \<longleftrightarrow> 0 < sem_value (sems s n)"
    using semaphore_wait_sync(3) [OF 2] sem_add_sync(2) [OF 1, of n] by simp
qed

lemma up_sync:
  assumes "do_semaphore_up n s = Some s'"
  shows "mutexes s' = mutexes s"
    "sem_value (sems s' m) = sem_value (sems s m) + (if m = n then 1 else 0)"
proof -
  obtain s1 where 1: "sem_add n 1 s = Some s1"
    using assms by (cases "sem_add n 1 s") (simp_all add: do_semaphore_up_def)
  have "sync_frame s1 s'"
  proof (cases "sem_value (sems s1 n) \<le> 0")
    case True
    then have "do_unblock_one (SemQ n) s1 = Some s'" using assms 1 by (simp add: do_semaphore_up_def)
    then show ?thesis by (rule do_unblock_one_sync)
  qed (use assms 1 in \<open>simp add: do_semaphore_up_def\<close>)
  then show "mutexes s' = mutexes s"
    "sem_value (sems s' m) = sem_value (sems s m) + (if m = n then 1 else 0)"
    using sem_add_sync [OF 1] by (auto simp: sync_frame_def)
qed

lemma barrier_sync:
  assumes "do_barrier_wait n s = Some s'"
  shows "mutexes s' = mutexes s" "sems s' = sems s"
proof -
  obtain v where "do_block (BarrierQ n) (set_barrier n v s) = Some s' \<or>
      do_unblock_all (BarrierQ n) (set_barrier n v s) = Some s'"
    using assms by (auto simp: do_barrier_wait_def Let_def split: if_splits)
  then have "sync_frame (set_barrier n v s) s'" using do_block_sync do_unblock_all_sync by auto
  then show "mutexes s' = mutexes s" "sems s' = sems s" by (simp_all add: sync_frame_def)
qed

lemma timer_sync:
  assumes "scheduler (s\<lparr>scr := x\<rparr>) = Some s'"
  shows "mutexes s' = mutexes s" "sems s' = sems s"
  using scheduler_sync [OF assms] by (simp_all add: sync_frame_def)

lemma tick_sync [simp]:
  "mutexes (update_time_stamp n s) = mutexes s" "sems (update_time_stamp n s) = sems s"
  by (simp_all add: update_time_stamp_def Let_def)

lemma mutex_inv_same:
  assumes "mutex_inv y" "mutexes (ks y') = mutexes (ks y)" "holders y' = holders y"
  shows "mutex_inv y'"
  using assms by (simp add: mutex_inv_def)

lemma mutex_inv_release:
  assumes inv: "mutex_inv y" and c: "c \<in> holders y l"
    and m: "mutexes (ks y') = (mutexes (ks y))(l := (mutexes (ks y) l)\<lparr>lock_status := UNLOCKED\<rparr>)"
    and h: "holders y' = (holders y)(l := holders y l - {c})"
  shows "mutex_inv y'"
proof -
  have "holders y l = {c}"
    using inv c unfolding mutex_inv_def
    by (cases "lock_status (mutexes (ks y) l)") (auto dest: spec [of _ l])
  then show ?thesis using inv unfolding mutex_inv_def m h by simp
qed

lemma mutex_inv_step:
  assumes "lstep y y'" "mutex_inv y"
  shows "mutex_inv y'"
  using assms
proof (induction rule: lstep.induct)
  case (acquire y c l got s')
  note sy = acquire_sync(2) [OF acquire.hyps(3)]
  show ?case
  proof (cases got)
    case True
    then have "holders y l = {}" "mutexes s' = (mutexes (ks y))(l := (mutexes (ks y) l)\<lparr>lock_status := LOCKED\<rparr>)"
      using sy acquire.prems by (auto simp: mutex_inv_def dest: spec [of _ l])
    then show ?thesis using True acquire.prems unfolding mutex_inv_def by simp
  next
    case False
    then show ?thesis using sy acquire.prems by (intro mutex_inv_same [OF acquire.prems]) simp_all
  qed
next
  case (release y c l s')
  show ?case by (rule mutex_inv_release [OF release.prems release.hyps(3)])
      (simp_all add: release_sync(2) [OF release.hyps(4)])
next
  case (cond_wait y c l n s')
  show ?case by (rule mutex_inv_release [OF cond_wait.prems cond_wait.hyps(3)])
      (simp_all add: cond_wait_sync(2) [OF cond_wait.hyps(4)])
next
  case (cond_signal y c n s')
  show ?case using do_unblock_one_sync cond_signal.hyps(3)
    by (intro mutex_inv_same [OF cond_signal.prems]) (auto simp: do_condition_signal_def sync_frame_def)
next
  case (cond_broadcast y c n s')
  show ?case using do_unblock_all_sync cond_broadcast.hyps(3)
    by (intro mutex_inv_same [OF cond_broadcast.prems]) (auto simp: do_condition_broadcast_def sync_frame_def)
next
  case (down y c n got s')
  show ?case by (rule mutex_inv_same [OF down.prems]) (simp_all add: down_sync(1) [OF down.hyps(3)])
next
  case (down_again y c n got s')
  show ?case by (rule mutex_inv_same [OF down_again.prems])
      (simp_all add: semaphore_wait_sync(1) [OF down_again.hyps(3)])
next
  case (up y c n s')
  show ?case by (rule mutex_inv_same [OF up.prems]) (simp_all add: up_sync(1) [OF up.hyps(3)])
next
  case (barrier y c n s')
  show ?case by (rule mutex_inv_same [OF barrier.prems]) (simp_all add: barrier_sync(1) [OF barrier.hyps(3)])
next
  case (sleep y c n s')
  show ?case using do_sleep_sync [OF sleep.hyps(3)]
    by (intro mutex_inv_same [OF sleep.prems]) (simp_all add: sync_frame_def)
next
  case (timer y x s')
  show ?case by (rule mutex_inv_same [OF timer.prems]) (simp_all add: timer_sync(1) [OF timer.hyps(2)])
next
  case (tick y n)
  show ?case by (rule mutex_inv_same [OF tick.prems]) simp_all
qed

lemma waiters_upd:
  "waiters (y\<lparr>calls := (calls y)(c := k)\<rparr>) n = (if k = InDown n then insert c (waiters y n) else waiters y n - {c})"
  by (auto simp: waiters_def)

lemma waiters_simps [simp]:
  "waiters (y\<lparr>ks := s\<rparr>) n = waiters y n" "waiters (y\<lparr>holders := h\<rparr>) n = waiters y n"
  "waiters (y\<lparr>admitted := a\<rparr>) n = waiters y n"
  by (simp_all add: waiters_def)

lemma sem_inv_same:
  assumes "sem_inv limit y" "sems (ks y') = sems (ks y)" "admitted y' = admitted y"
    "\<And>n. waiters y' n = waiters y n"
  shows "sem_inv limit y'"
  using assms by (simp add: sem_inv_def)

lemma sem_inv_other:
  assumes inv: "sem_inv limit y" and k: "calls y c = NoCall \<or> calls y c = InAcquire l" "k' = NoCall \<or> k' = InAcquire l"
    and s: "sems s' = sems (ks y)"
  shows "sem_inv limit (y\<lparr>ks := s', calls := (calls y)(c := k'), holders := h\<rparr>)"
proof (rule sem_inv_same [OF inv])
  show "waiters (y\<lparr>ks := s', calls := (calls y)(c := k'), holders := h\<rparr>) n = waiters y n" for n
    using k by (auto simp: waiters_def)
qed (simp_all add: s)

text \<open>A process enters or leaves the loop of \<open>do_semaphore_down\<close>.\<close>

lemma sem_inv_admit:
  assumes inv: "sem_inv limit y" and c: "calls y c = NoCall \<or> calls y c = InDown n"
    and v: "\<And>m. sem_value (sems s' m) = sem_value (sems (ks y) m) -
      (if m = n \<and> calls y c = NoCall then 1 else 0)"
    and got: "got \<longleftrightarrow> 0 \<le> sem_value (sems s' n)"
  shows "sem_inv limit (y\<lparr>ks := s', calls := (calls y)(c := if got then NoCall else InDown n),
       admitted := if got then (admitted y)(n := admitted y n + 1) else admitted y\<rparr>)"
proof -
  let ?y = "y\<lparr>ks := s', calls := (calls y)(c := if got then NoCall else InDown n),
       admitted := if got then (admitted y)(n := admitted y n + 1) else admitted y\<rparr>"
  have fin: "finite (waiters y m)" and le: "admitted y m \<le> limit m"
    and eq: "sem_value (sems (ks y) m) + admitted y m + int (card (waiters y m)) = limit m" for m
    using inv by (auto simp: sem_inv_def)
  have W: "waiters ?y m = (if m = n then if got then waiters y n - {c} else insert c (waiters y n) else waiters y m)" for m
    using c by (auto simp: waiters_def)
  have cn: "c \<in> waiters y n \<longleftrightarrow> calls y c = InDown n" by (simp add: waiters_def)
  have "finite (waiters ?y m) \<and> admitted ?y m \<le> limit m \<and>
     sem_value (sems (ks ?y) m) + admitted ?y m + int (card (waiters ?y m)) = limit m" for m
  proof (cases "m = n")
    case True
    have card: "int (card (waiters ?y n)) = int (card (waiters y n)) +
        (if got then (if calls y c = NoCall then 0 else - 1) else (if calls y c = NoCall then 1 else 0))"
    proof (cases "calls y c = NoCall")
      case nc: True
      then have "c \<notin> waiters y n" by (simp add: waiters_def)
      then show ?thesis using fin [of n] nc unfolding W by simp
    next
      case False
      then have "c \<in> waiters y n" using c by (simp add: waiters_def)
      then have "0 < card (waiters y n)" using fin [of n] card_gt_0_iff by blast
      then show ?thesis using \<open>c \<in> waiters y n\<close> fin [of n] False unfolding W by (simp add: insert_absorb)
    qed
    have "finite (waiters ?y n)" using fin [of n] unfolding W by simp
    then show ?thesis
      using True le [of n] eq [of n] v [of n] got card c by (auto split: if_splits)
  next
    case False
    then show ?thesis using fin [of m] le [of m] eq [of m] v [of m] unfolding W by simp
  qed
  then show ?thesis unfolding sem_inv_def by blast
qed

lemma sem_inv_step:
  assumes "lstep y y'" "sem_inv limit y"
  shows "sem_inv limit y'"
  using assms
proof (induction rule: lstep.induct)
  case (acquire y c l got s')
  show ?case by (rule sem_inv_other [OF acquire.prems acquire.hyps(2) _ acquire_sync(1) [OF acquire.hyps(3)]]) auto
next
  case (release y c l s')
  show ?case by (rule sem_inv_same [OF release.prems]) (simp_all add: release_sync(1) [OF release.hyps(4)])
next
  case (cond_wait y c l n s')
  show ?case using cond_wait.hyps
    by (intro sem_inv_other [OF cond_wait.prems, of c l]) (simp_all add: cond_wait_sync(1) [OF cond_wait.hyps(4)])
next
  case (cond_signal y c n s')
  show ?case using do_unblock_one_sync cond_signal.hyps(3)
    by (intro sem_inv_same [OF cond_signal.prems]) (auto simp: do_condition_signal_def sync_frame_def)
next
  case (cond_broadcast y c n s')
  show ?case using do_unblock_all_sync cond_broadcast.hyps(3)
    by (intro sem_inv_same [OF cond_broadcast.prems]) (auto simp: do_condition_broadcast_def sync_frame_def)
next
  case (down y c n got s')
  note D = down_sync [OF down.hyps(3)]
  show ?case
    by (rule sem_inv_admit [OF down.prems]) (use down.hyps(2) in \<open>simp_all add: D\<close>)
next
  case (down_again y c n got s')
  note D = semaphore_wait_sync [OF down_again.hyps(3)]
  show ?case
    by (rule sem_inv_admit [OF down_again.prems]) (use down_again.hyps(2) in \<open>simp_all add: D\<close>)
next
  case (up y c n s')
  note D = up_sync [OF up.hyps(3)]
  show ?case
    using up.prems unfolding sem_inv_def by (auto simp: D split: if_splits) (smt (verit))+
next
  case (barrier y c n s')
  show ?case by (rule sem_inv_same [OF barrier.prems]) (simp_all add: barrier_sync(2) [OF barrier.hyps(3)])
next
  case (sleep y c n s')
  show ?case using do_sleep_sync [OF sleep.hyps(3)]
    by (intro sem_inv_same [OF sleep.prems]) (simp_all add: sync_frame_def)
next
  case (timer y x s')
  show ?case by (rule sem_inv_same [OF timer.prems]) (simp_all add: timer_sync(2) [OF timer.hyps(2)])
next
  case (tick y n)
  show ?case by (rule sem_inv_same [OF tick.prems]) simp_all
qed

lemma lsteps_inv:
  assumes "lstep\<^sup>*\<^sup>* y y'"
  shows "mutex_inv y \<Longrightarrow> mutex_inv y'" "sem_inv limit y \<Longrightarrow> sem_inv limit y'"
  using assms by (induction rule: rtranclp_induct) (blast intro: mutex_inv_step sem_inv_step)+

subsection \<open>Properties\<close>

text \<open>A system on the small state: mutex 0 is held by process 0, semaphore 0 has the value 0 and
  admits two.\<close>

definition demo_sys :: lsys where
  "demo_sys = \<lparr>ks = demo_state\<lparr>mutexes := (\<lambda>l. \<lparr>lock_status = if l = 0 then LOCKED else UNLOCKED, is_init = 1, lock_id = word_of_nat l\<rparr>)\<rparr>,
     calls = (\<lambda>_. NoCall)(2 := InDown 0), holders = (\<lambda>_. {})(0 := {0}), admitted = (\<lambda>_. 0)(0 := 1)\<rparr>"

lemma demo_sys_inv: "mutex_inv demo_sys" "sem_inv ((\<lambda>_. 0)(0 := 2)) demo_sys"
proof -
  show "mutex_inv demo_sys" by (simp add: mutex_inv_def demo_sys_def)
  have "waiters demo_sys n = (if n = 0 then {2} else {})" for n
    by (auto simp: waiters_def demo_sys_def)
  then show "sem_inv ((\<lambda>_. 0)(0 := 2)) demo_sys"
    unfolding sem_inv_def by (simp add: demo_sys_def demo_state_def)
qed

text \<open>
  C2: Mutual exclusion. In every interleaving of acquires, releases, condition waits and the other
  calls with timer interrupts, if only holders release then at no time do two processes hold
  the same mutex, and an unlocked mutex has no holder.
\<close>

theorem mutual_exclusion:
  assumes "lstep\<^sup>*\<^sup>* y y'" "mutex_inv y" "c \<in> holders y' l" "d \<in> holders y' l"
  shows "c = d \<and> lock_status (mutexes (ks y') l) = LOCKED"
proof -
  have "mutex_inv y'" by (rule lsteps_inv(1) [OF assms(1,2)])
  then show ?thesis
    using assms(3,4) unfolding mutex_inv_def
    by (cases "lock_status (mutexes (ks y') l)") (auto dest: spec [of _ l])
qed

theorem mutual_exclusion_witness:
  "\<exists>y'. lstep demo_sys y' \<and> 0 \<in> holders y' 5 \<and> lock_status (mutexes (ks y') 5) = LOCKED"
proof -
  let ?s = "ks demo_sys"
  have inv: "sched_inv ?s demo_queues" unfolding demo_sys_def
    by (rule sched_inv_sync_update [OF demo_inv]) simp_all
  have cur: "current_running ?s = Some 0" "status (pcb ?s 0) \<noteq> TASK_BLOCKED"
    and fr: "lock_status (mutexes ?s 5) = UNLOCKED" and call: "calls demo_sys 0 = NoCall"
    by (simp_all add: demo_sys_def demo_state_def)
  from lstep.acquire [OF cur(1) disjI1 [OF call] acquire_free [OF inv cur fr]]
  obtain y' where st: "lstep demo_sys y'" and h: "0 \<in> holders y' 5" by (auto simp: demo_sys_def)
  from mutual_exclusion [OF r_into_rtranclp [of lstep, OF st] demo_sys_inv(1) h h] st h show ?thesis by blast
qed

text \<open>
  C7: A semaphore admits at most its count. In every interleaving, the number of downs of a semaphore
  that have returned minus the number of its ups never exceeds the value it started with, and
  the counter accounts exactly for the admitted and the waiting processes.
\<close>

theorem semaphore_limit:
  assumes "lstep\<^sup>*\<^sup>* y y'" "sem_inv limit y"
  shows "admitted y' n \<le> limit n \<and>
    sem_value (sems (ks y') n) = limit n - admitted y' n - int (card (waiters y' n))"
proof -
  have "sem_inv limit y'" by (rule lsteps_inv(2) [OF assms])
  then show ?thesis unfolding sem_inv_def by (auto dest: spec [of _ n])
qed

theorem semaphore_limit_witness:
  "admitted demo_sys 0 \<le> 2 \<and>
    sem_value (sems (ks demo_sys) 0) = 2 - admitted demo_sys 0 - int (card (waiters demo_sys 0))"
  using semaphore_limit [OF rtranclp.rtrancl_refl demo_sys_inv(2), of 0] by simp

text \<open>
  Releasing a mutex. The call is defined in every state of the scheduler's invariant and keeps it;
  the mutex is then unlocked, exited waiters at the front of its queue are dropped and the
  first live waiter, if any, is moved from the queue to the ready queue of its priority; the
  caller goes on running.
\<close>

theorem release_wakes_first:
  assumes "sched_inv s Q" "current_running s = Some c" "status (pcb s c) \<noteq> TASK_BLOCKED"
  shows "\<exists>s' Q'. do_mutex_lock_release l s = Some s' \<and> sched_inv s' Q' \<and>
    lock_status (mutexes s' l) = UNLOCKED \<and> current_running s' = Some c \<and>
    (case dropWhile (exited s) (Q (LockQ l)) of
       [] \<Rightarrow> Q' = Q(LockQ l := [])
     | t # ts \<Rightarrow> Q' = wake s t (Q(LockQ l := ts)) \<and> status (pcb s' t) = TASK_RUNNING)"
  using release_effect [OF assms] by blast

theorem release_wakes_first_witness:
  "\<exists>s' Q'. do_mutex_lock_release 0 demo_state = Some s' \<and> sched_inv s' Q' \<and>
    lock_status (mutexes s' 0) = UNLOCKED \<and> current_running s' = Some 0 \<and>
    (case dropWhile (exited demo_state) (demo_queues (LockQ 0)) of
       [] \<Rightarrow> Q' = demo_queues(LockQ 0 := [])
     | t # ts \<Rightarrow> Q' = wake demo_state t (demo_queues(LockQ 0 := ts)) \<and> status (pcb s' t) = TASK_RUNNING)"
  by (rule release_wakes_first [OF demo_inv]) (simp_all add: demo_state_def)

text \<open>
  Acquiring a mutex. The call is defined in every state of the scheduler's invariant and keeps it;
  it returns with the mutex exactly when the mutex is free, and otherwise has blocked the
  caller.
\<close>

theorem acquire_total:
  assumes "sched_inv s Q" "current_running s = Some c" "status (pcb s c) \<noteq> TASK_BLOCKED"
  shows "\<exists>got s' Q'. do_mutex_lock_acquire l s = Some (got, s') \<and> sched_inv s' Q' \<and>
    got = (lock_status (mutexes s l) = UNLOCKED)"
  by (rule sched_inv_acquire [OF assms])

theorem acquire_total_witness:
  "\<exists>got s' Q'. do_mutex_lock_acquire 0 demo_state = Some (got, s') \<and> sched_inv s' Q' \<and>
    got = (lock_status (mutexes demo_state 0) = UNLOCKED)"
  by (rule acquire_total [OF demo_inv, where c = 0]) (simp_all add: demo_state_def)

text \<open>
  The last arrival opens the barrier. When the counter of a barrier is one below its bound, the
  next \<open>do_barrier_wait\<close> resets the counter, empties the barrier's queue and makes every live
  process on it ready, while the caller goes on; with the counter lower the caller is blocked
  and counted.
\<close>

theorem barrier_opens:
  assumes inv: "sched_inv s Q" and cur: "current_running s = Some c" "status (pcb s c) \<noteq> TASK_BLOCKED"
    and v: "cur_val (barriers s n) + 1 < 2 ^ 31"
  shows "if cur_val (barriers s n) + 1 < barrier_bound (barriers s n)
    then \<exists>s' Q'. do_barrier_wait n s = Some s' \<and> sched_inv s' Q' \<and>
      cur_val (barriers s' n) = cur_val (barriers s n) + 1 \<and> (c \<in> queued Q' \<or> current_running s' = Some c)
    else \<exists>s'. do_barrier_wait n s = Some s' \<and> current_running s' = Some c \<and>
      cur_val (barriers s' n) = 0 \<and>
      sched_inv s' (wake_list s (filter (\<lambda>p. \<not> exited s p) (Q (BarrierQ n))) (Q(BarrierQ n := [])))"
proof (cases "cur_val (barriers s n) + 1 < barrier_bound (barriers s n)")
  case True
  let ?s = "set_barrier n (cur_val (barriers s n) + 1) s"
  have i: "sched_inv ?s Q" by (rule sched_inv_slot(4) [OF inv])
  obtain s' Q' where s': "do_block (BarrierQ n) ?s = Some s'" "sched_inv s' Q'"
    "c \<in> queued Q' \<or> current_running s' = Some c"
    using sched_inv_do_block [OF i, of c "BarrierQ n"] cur by auto
  have "cur_val (barriers s' n) = cur_val (barriers s n) + 1"
    using do_block_sync [OF s'(1)] by (simp add: sync_frame_def)
  moreover have "do_barrier_wait n s = Some s'" using True v s'(1) by (simp add: do_barrier_wait_def Let_def)
  ultimately show ?thesis using True s' by auto
next
  case False
  let ?s = "set_barrier n 0 s"
  have i: "sched_inv ?s Q" by (rule sched_inv_slot(4) [OF inv])
  have e: "exited ?s = exited s" by (simp add: exited_def fun_eq_iff)
  have "wake ?s = wake s" by (simp add: wake_def to_ready_def fun_eq_iff)
  then have w: "wake_list ?s = wake_list s" by (intro ext) (simp only: wake_list_def)
  obtain s' where s': "do_unblock_all (BarrierQ n) ?s = Some s'"
    "sched_inv s' (wake_list s (filter (\<lambda>p. \<not> exited s p) (Q (BarrierQ n))) (Q(BarrierQ n := [])))"
    "waked (set (filter (\<lambda>p. \<not> exited s p) (Q (BarrierQ n)))) ?s s'"
    using sched_inv_unblock_all [OF i, of c "BarrierQ n"] cur unfolding e w by auto
  have "cur_val (barriers s' n) = 0" using do_unblock_all_sync [OF s'(1)] by (simp add: sync_frame_def)
  moreover have "current_running s' = Some c" using waked_frame [OF s'(3)] cur by simp
  moreover have "do_barrier_wait n s = Some s'" using False v s'(1) by (simp add: do_barrier_wait_def Let_def)
  ultimately show ?thesis using False s'(2) by simp
qed

theorem barrier_opens_witness:
  "\<exists>s'. do_barrier_wait 0 demo_state = Some s' \<and> current_running s' = Some 0 \<and>
    cur_val (barriers s' 0) = 0 \<and>
    sched_inv s' (wake_list demo_state (filter (\<lambda>p. \<not> exited demo_state p) (demo_queues (BarrierQ 0)))
      (demo_queues(BarrierQ 0 := [])))"
proof -
  have "\<not> cur_val (barriers demo_state 0) + 1 < barrier_bound (barriers demo_state 0)"
    and "current_running demo_state = Some 0" "status (pcb demo_state 0) \<noteq> TASK_BLOCKED"
    "cur_val (barriers demo_state 0) + 1 < 2 ^ 31" by (simp_all add: demo_state_def)
  with barrier_opens [OF demo_inv, of 0 0] show ?thesis by simp
qed


definition two_waiters :: kstate where
  "two_waiters = demo_state\<lparr>sems := (\<lambda>_. \<lparr>sem_value = - 2, sem_initialized = 1\<rparr>)\<rparr>"


end
