(* ===== verification/Mailbox.thy ===== *)
theory Mailbox
  imports Sync
begin

text \<open>
  \<^verbatim>\<open>libs/mailbox.c\<close>: mailboxes, a user-mode library on the semaphores and mutexes of the kernel. A mailbox
  is a ring of two messages of 64 bytes; \<open>mbox_send\<close> and \<open>mbox_recv\<close> are sequences of system calls around a
  body that runs with the mutex held. The interleavings of senders and receivers are a step relation on top of
  the one of \<open>Sync\<close>: every system call of the library is a step of that relation, so its invariants hold here
  too.

  A mailbox is its index in \<open>_mailboxes\<close>; its mutex and semaphores are named by numbers. A name is an address;
  the strings in memory are an argument \<open>str\<close>.
\<close>

abbreviation "MAILBOX_MSG_MAX_LEN \<equiv> (64 :: nat)"
abbreviation "MAILBOX_MSG_MAX_NUM \<equiv> (2 :: nat)"
abbreviation "MAILBOX_MAX_NUM \<equiv> (8 :: nat)"

record mailbox_t =
  msg :: "nat \<Rightarrow> buffer"
  mb_head :: int
  mb_tail :: int
  mailbox_lock :: nat
  mailbox_empty :: nat
  mailbox_full :: nat
  mb_name :: "nat option"
  valid :: int

subsection \<open>Operations\<close>

definition init_one_mailbox :: "nat \<Rightarrow> (nat \<Rightarrow> mailbox_t) \<times> kstate \<Rightarrow> (nat \<Rightarrow> mailbox_t) \<times> kstate" where
  "init_one_mailbox i st =
     (let (bs, s) = st;
          m = for_upto 0 MAILBOX_MSG_MAX_LEN (\<lambda>j m. for_upto 0 MAILBOX_MSG_MAX_NUM (\<lambda>k m. m(k := (m k)(j := 0))) m) (msg (bs i));
          b = (bs i)\<lparr>msg := m, valid := 0, mb_name := None, mb_tail := 0, mb_head := 0\<rparr>;
          s1 = do_mutex_lock_init (mailbox_lock b) s;
          s2 = do_semaphore_init (mailbox_empty b) (int MAILBOX_MSG_MAX_NUM) s1;
          s3 = do_semaphore_init (mailbox_full b) 0 s2
      in (bs(i := b), s3))"

definition mbox_init :: "(nat \<Rightarrow> mailbox_t) \<times> kstate \<Rightarrow> (nat \<Rightarrow> mailbox_t) \<times> kstate" where
  "mbox_init st = for_upto 0 MAILBOX_MAX_NUM init_one_mailbox st"

text \<open>The first loop of \<open>mbox_open\<close>; a valid mailbox with a NULL name would be compared with NULL.\<close>

primrec find_mailbox :: "(nat \<Rightarrow> buffer) \<Rightarrow> nat \<Rightarrow> (nat \<Rightarrow> mailbox_t) \<Rightarrow> nat list \<Rightarrow> nat option option" where
  "find_mailbox str name bs [] = Some None"
| "find_mailbox str name bs (i # is) =
     (if valid (bs i) = 0 then find_mailbox str name bs is
      else do {
        n \<leftarrow> mb_name (bs i);
        d \<leftarrow> strcmp (str name) 0 (str n) 0;
        if d = 0 then Some (Some i) else find_mailbox str name bs is })"

definition mbox_open ::
  "(nat \<Rightarrow> buffer) \<Rightarrow> nat \<Rightarrow> (nat \<Rightarrow> mailbox_t) \<Rightarrow> (nat option \<times> (nat \<Rightarrow> mailbox_t)) option" where
  "mbox_open str name bs = do {
     r \<leftarrow> find_mailbox str name bs [0..<MAILBOX_MAX_NUM];
     (case r of
        Some i \<Rightarrow> Some (Some i, bs)
      | None \<Rightarrow>
          (case first_index 0 MAILBOX_MAX_NUM (\<lambda>i. valid (bs i) = 0) of
             None \<Rightarrow> Some (None, bs)
           | Some i \<Rightarrow> Some (Some i, bs(i := (bs i)\<lparr>mb_name := Some name, valid := 1\<rparr>)))) }"

definition mbox_close :: "nat \<Rightarrow> (nat \<Rightarrow> mailbox_t) \<Rightarrow> nat \<Rightarrow> mailbox_t" where
  "mbox_close i bs = bs(i := (bs i)\<lparr>valid := 0\<rparr>)"

text \<open>The bodies of \<open>mbox_send\<close> and \<open>mbox_recv\<close> between acquiring and releasing the mutex. The indices are never
  negative, so the remainder of C is \<open>mod\<close>.\<close>

definition mbox_put :: "buffer \<Rightarrow> int \<Rightarrow> mailbox_t \<Rightarrow> mailbox_t" where
  "mbox_put m len b =
     (let b1 = b\<lparr>mb_tail := (mb_tail b + 1) mod int MAILBOX_MSG_MAX_NUM\<rparr>;
          cnt = nat (mb_tail b1)
      in if len \<le> int MAILBOX_MSG_MAX_LEN
         then b1\<lparr>msg := (msg b1)(cnt := for_upto 0 (nat len) (\<lambda>i x. x(i := m i)) (msg b1 cnt))\<rparr> else b1)"

definition mbox_get :: "buffer \<Rightarrow> int \<Rightarrow> mailbox_t \<Rightarrow> buffer \<times> mailbox_t" where
  "mbox_get m len b =
     (let b1 = b\<lparr>mb_head := (mb_head b + 1) mod int MAILBOX_MSG_MAX_NUM\<rparr>;
          cnt = nat (mb_head b1)
      in (if len \<le> int MAILBOX_MSG_MAX_LEN then for_upto 0 (nat len) (\<lambda>i x. x(i := msg b1 cnt i)) m else m, b1))"

subsection \<open>System calls of one process\<close>

text \<open>The calls the library makes, as steps of the system of \<open>Sync\<close>; a call that blocked is resumed when its
  process runs again.\<close>

inductive kdown :: "nat \<Rightarrow> nat \<Rightarrow> bool \<Rightarrow> lsys \<Rightarrow> lsys \<Rightarrow> bool" where
  first: "\<lbrakk>current_running (ks y) = Some c; calls y c = NoCall; do_semaphore_down n (ks y) = Some (got, s')\<rbrakk> \<Longrightarrow>
     kdown c n got y (y\<lparr>ks := s', calls := (calls y)(c := if got then NoCall else InDown n),
       admitted := if got then (admitted y)(n := admitted y n + 1) else admitted y\<rparr>)"
| again: "\<lbrakk>current_running (ks y) = Some c; calls y c = InDown n; semaphore_wait n (ks y) = Some (got, s')\<rbrakk> \<Longrightarrow>
     kdown c n got y (y\<lparr>ks := s', calls := (calls y)(c := if got then NoCall else InDown n),
       admitted := if got then (admitted y)(n := admitted y n + 1) else admitted y\<rparr>)"

inductive kacquire :: "nat \<Rightarrow> nat \<Rightarrow> bool \<Rightarrow> lsys \<Rightarrow> lsys \<Rightarrow> bool" where
  "\<lbrakk>current_running (ks y) = Some c; calls y c = NoCall \<or> calls y c = InAcquire l;
     do_mutex_lock_acquire l (ks y) = Some (got, s')\<rbrakk> \<Longrightarrow>
     kacquire c l got y (y\<lparr>ks := s', calls := (calls y)(c := if got then NoCall else InAcquire l),
       holders := if got then (holders y)(l := insert c (holders y l)) else holders y\<rparr>)"

inductive krelease :: "nat \<Rightarrow> nat \<Rightarrow> lsys \<Rightarrow> lsys \<Rightarrow> bool" where
  "\<lbrakk>current_running (ks y) = Some c; calls y c = NoCall; c \<in> holders y l; do_mutex_lock_release l (ks y) = Some s'\<rbrakk> \<Longrightarrow>
     krelease c l y (y\<lparr>ks := s', holders := (holders y)(l := holders y l - {c})\<rparr>)"

inductive kup :: "nat \<Rightarrow> nat \<Rightarrow> lsys \<Rightarrow> lsys \<Rightarrow> bool" where
  "\<lbrakk>current_running (ks y) = Some c; calls y c = NoCall; do_semaphore_up n (ks y) = Some s'\<rbrakk> \<Longrightarrow>
     kup c n y (y\<lparr>ks := s', admitted := (admitted y)(n := admitted y n - 1)\<rparr>)"

subsection \<open>Senders and receivers\<close>

text \<open>Where a process is in \<open>mbox_send\<close> or \<open>mbox_recv\<close>: before the first semaphore, before the mutex, before the
  body, before the release, before the second semaphore.\<close>

datatype mpc = AtDown | AtLock | AtBody | AtRelease | AtUp

datatype stage = MIdle | MSend mpc nat buffer int | MRecv mpc nat buffer int

text \<open>\<open>sent\<close> and \<open>rcvd\<close> are ghost fields: per mailbox, the messages stored and the buffers filled, in this order.\<close>

record msys =
  ls :: lsys
  mboxes :: "nat \<Rightarrow> mailbox_t"
  stages :: "nat \<Rightarrow> stage"
  sent :: "nat \<Rightarrow> (buffer \<times> int) list"
  rcvd :: "nat \<Rightarrow> (buffer \<times> int) list"

inductive mstep :: "msys \<Rightarrow> msys \<Rightarrow> bool" where
  send: "\<lbrakk>current_running (ks (ls y)) = Some c; calls (ls y) c = NoCall; stages y c = MIdle; b < MAILBOX_MAX_NUM\<rbrakk> \<Longrightarrow>
     mstep y (y\<lparr>stages := (stages y)(c := MSend AtDown b m n)\<rparr>)"
| send_down: "\<lbrakk>stages y c = MSend AtDown b m n; kdown c (mailbox_empty (mboxes y b)) got (ls y) l'\<rbrakk> \<Longrightarrow>
     mstep y (y\<lparr>ls := l', stages := (stages y)(c := MSend (if got then AtLock else AtDown) b m n)\<rparr>)"
| send_lock: "\<lbrakk>stages y c = MSend AtLock b m n; kacquire c (mailbox_lock (mboxes y b)) got (ls y) l'\<rbrakk> \<Longrightarrow>
     mstep y (y\<lparr>ls := l', stages := (stages y)(c := MSend (if got then AtBody else AtLock) b m n)\<rparr>)"
| send_body: "\<lbrakk>current_running (ks (ls y)) = Some c; stages y c = MSend AtBody b m n\<rbrakk> \<Longrightarrow>
     mstep y (y\<lparr>mboxes := (mboxes y)(b := mbox_put m n (mboxes y b)), stages := (stages y)(c := MSend AtRelease b m n),
       sent := (sent y)(b := sent y b @ [(m, n)])\<rparr>)"
| send_release: "\<lbrakk>stages y c = MSend AtRelease b m n; krelease c (mailbox_lock (mboxes y b)) (ls y) l'\<rbrakk> \<Longrightarrow>
     mstep y (y\<lparr>ls := l', stages := (stages y)(c := MSend AtUp b m n)\<rparr>)"
| send_up: "\<lbrakk>stages y c = MSend AtUp b m n; kup c (mailbox_full (mboxes y b)) (ls y) l'\<rbrakk> \<Longrightarrow>
     mstep y (y\<lparr>ls := l', stages := (stages y)(c := MIdle)\<rparr>)"
| recv: "\<lbrakk>current_running (ks (ls y)) = Some c; calls (ls y) c = NoCall; stages y c = MIdle; b < MAILBOX_MAX_NUM\<rbrakk> \<Longrightarrow>
     mstep y (y\<lparr>stages := (stages y)(c := MRecv AtDown b m n)\<rparr>)"
| recv_down: "\<lbrakk>stages y c = MRecv AtDown b m n; kdown c (mailbox_full (mboxes y b)) got (ls y) l'\<rbrakk> \<Longrightarrow>
     mstep y (y\<lparr>ls := l', stages := (stages y)(c := MRecv (if got then AtLock else AtDown) b m n)\<rparr>)"
| recv_lock: "\<lbrakk>stages y c = MRecv AtLock b m n; kacquire c (mailbox_lock (mboxes y b)) got (ls y) l'\<rbrakk> \<Longrightarrow>
     mstep y (y\<lparr>ls := l', stages := (stages y)(c := MRecv (if got then AtBody else AtLock) b m n)\<rparr>)"
| recv_body: "\<lbrakk>current_running (ks (ls y)) = Some c; stages y c = MRecv AtBody b m n;
     mbox_get m n (mboxes y b) = (m', mb)\<rbrakk> \<Longrightarrow>
     mstep y (y\<lparr>mboxes := (mboxes y)(b := mb), stages := (stages y)(c := MRecv AtRelease b m' n),
       rcvd := (rcvd y)(b := rcvd y b @ [(m', n)])\<rparr>)"
| recv_release: "\<lbrakk>stages y c = MRecv AtRelease b m n; krelease c (mailbox_lock (mboxes y b)) (ls y) l'\<rbrakk> \<Longrightarrow>
     mstep y (y\<lparr>ls := l', stages := (stages y)(c := MRecv AtUp b m n)\<rparr>)"
| recv_up: "\<lbrakk>stages y c = MRecv AtUp b m n; kup c (mailbox_empty (mboxes y b)) (ls y) l'\<rbrakk> \<Longrightarrow>
     mstep y (y\<lparr>ls := l', stages := (stages y)(c := MIdle)\<rparr>)"
| other: "\<lbrakk>lstep (ls y) l';
     \<forall>b < MAILBOX_MAX_NUM. admitted l' (mailbox_empty (mboxes y b)) = admitted (ls y) (mailbox_empty (mboxes y b)) \<and>
       admitted l' (mailbox_full (mboxes y b)) = admitted (ls y) (mailbox_full (mboxes y b)) \<and>
       holders l' (mailbox_lock (mboxes y b)) = holders (ls y) (mailbox_lock (mboxes y b))\<rbrakk> \<Longrightarrow>
     mstep y (y\<lparr>ls := l'\<rparr>)"

inductive_cases kdownE: "kdown c n got y y'"
inductive_cases kacquireE: "kacquire c l got y y'"
inductive_cases kreleaseE: "krelease c l y y'"
inductive_cases kupE: "kup c n y y'"


lemma ksteps_lstep:
  "kdown c n got y y' \<Longrightarrow> lstep y y'" "kacquire c l got y y' \<Longrightarrow> lstep y y'"
  "krelease c l y y' \<Longrightarrow> lstep y y'" "kup c n y y' \<Longrightarrow> lstep y y'"
  by (auto elim!: kdownE kacquireE kreleaseE kupE intro: lstep.down lstep.down_again lstep.acquire lstep.release lstep.up)

lemma kdown_admitted: "kdown c n got y y' \<Longrightarrow> admitted y' = (if got then (admitted y)(n := admitted y n + 1) else admitted y)"
  and kdown_holders: "kdown c n got y y' \<Longrightarrow> holders y' = holders y"
  and kacquire_admitted: "kacquire c l got y y' \<Longrightarrow> admitted y' = admitted y"
  and kacquire_holders: "kacquire c l got y y' \<Longrightarrow>
    holders y' = (if got then (holders y)(l := insert c (holders y l)) else holders y)"
  and krelease_admitted: "krelease c l y y' \<Longrightarrow> admitted y' = admitted y"
  and krelease_holders: "krelease c l y y' \<Longrightarrow> holders y' = (holders y)(l := holders y l - {c})"
  and kup_admitted: "kup c n y y' \<Longrightarrow> admitted y' = (admitted y)(n := admitted y n - 1)"
  and kup_holders: "kup c n y y' \<Longrightarrow> holders y' = holders y"
  by (auto elim!: kdownE kacquireE kreleaseE kupE)

lemmas kcall_ghosts = kdown_admitted kdown_holders kacquire_admitted kacquire_holders krelease_admitted
  krelease_holders kup_admitted kup_holders

lemma mstep_lstep: "mstep y y' \<Longrightarrow> ls y' = ls y \<or> lstep (ls y) (ls y')"
  by (induction rule: mstep.induct) (auto dest: ksteps_lstep)

subsection \<open>Counting processes\<close>

fun in_send :: "nat \<Rightarrow> mpc set \<Rightarrow> stage \<Rightarrow> bool" where
  "in_send b P (MSend w b' m n) \<longleftrightarrow> b' = b \<and> w \<in> P"
| "in_send b P st \<longleftrightarrow> False"

fun in_recv :: "nat \<Rightarrow> mpc set \<Rightarrow> stage \<Rightarrow> bool" where
  "in_recv b P (MRecv w b' m n) \<longleftrightarrow> b' = b \<and> w \<in> P"
| "in_recv b P st \<longleftrightarrow> False"

definition num :: "(stage \<Rightarrow> bool) \<Rightarrow> (nat \<Rightarrow> stage) \<Rightarrow> int" where
  "num P st = int (card {p. P (st p)})"

lemma num_upd:
  assumes fin: "finite {p. st p \<noteq> MIdle}" and "\<not> P MIdle"
  shows "num P (st(c := v)) = num P st + of_bool (P v) - of_bool (P (st c))"
proof -
  define A where "A = {p. P (st p)} - {c}"
  have "{p. P (st p)} \<subseteq> {p. st p \<noteq> MIdle}" using assms(2) by auto
  then have f: "finite A" using fin finite_subset by (auto simp: A_def)
  have "{p. P ((st(c := v)) p)} = (if P v then insert c A else A)" "{p. P (st p)} = (if P (st c) then insert c A else A)"
    by (auto simp: A_def)
  moreover have "card (insert c A) = Suc (card A)" using f by (intro card_insert_disjoint) (auto simp: A_def)
  ultimately show ?thesis unfolding num_def by simp
qed

lemma num_pos: "finite {p. st p \<noteq> MIdle} \<Longrightarrow> \<not> P MIdle \<Longrightarrow> P (st c) \<Longrightarrow> 1 \<le> num P st"
proof -
  assume a: "finite {p. st p \<noteq> MIdle}" "\<not> P MIdle" "P (st c)"
  have "{p. P (st p)} \<subseteq> {p. st p \<noteq> MIdle}" using a(2) by auto
  then have "finite {p. P (st p)}" using a(1) finite_subset by blast
  then have "0 < card {p. P (st p)}" using a(3) by (auto simp: card_gt_0_iff)
  then show ?thesis by (simp add: num_def)
qed

lemma num_nonneg [simp]: "0 \<le> num P st"
  by (simp add: num_def)

subsection \<open>The invariant\<close>

definition delivered :: "buffer \<times> int \<Rightarrow> buffer \<times> int \<Rightarrow> bool" where
  "delivered x z \<longleftrightarrow> (snd x \<le> int MAILBOX_MSG_MAX_LEN \<longrightarrow> snd z \<le> int MAILBOX_MSG_MAX_LEN \<longrightarrow>
     (\<forall>i. int i < snd x \<and> int i < snd z \<longrightarrow> fst z i = fst x i))"

text \<open>Returned downs and ups of the two semaphores, in terms of messages and processes on their way.\<close>

definition box_counts :: "msys \<Rightarrow> nat \<Rightarrow> bool" where
  "box_counts y b \<longleftrightarrow>
     admitted (ls y) (mailbox_empty (mboxes y b)) = int (length (sent y b)) + num (in_send b {AtLock, AtBody}) (stages y)
       - int (length (rcvd y b)) + num (in_recv b {AtRelease, AtUp}) (stages y) \<and>
     admitted (ls y) (mailbox_full (mboxes y b)) = int (length (rcvd y b)) + num (in_recv b {AtLock, AtBody}) (stages y)
       - int (length (sent y b)) + num (in_send b {AtRelease, AtUp}) (stages y)"

text \<open>The ring holds the messages that were sent and not yet received; message \<open>k\<close> is in slot \<open>(k + 1) mod 2\<close>.\<close>

definition ring :: "mailbox_t \<Rightarrow> (buffer \<times> int) list \<Rightarrow> (buffer \<times> int) list \<Rightarrow> bool" where
  "ring b xs zs \<longleftrightarrow>
     mb_tail b = int (length xs mod 2) \<and> mb_head b = int (length zs mod 2) \<and>
     length zs \<le> length xs \<and> length xs \<le> length zs + MAILBOX_MSG_MAX_NUM \<and>
     (\<forall>k. length zs \<le> k \<and> k < length xs \<longrightarrow> delivered (xs ! k) (msg b (Suc k mod 2), int MAILBOX_MSG_MAX_LEN)) \<and>
     (\<forall>k < length zs. delivered (xs ! k) (zs ! k))"

definition ids_ok :: "(nat \<Rightarrow> mailbox_t) \<Rightarrow> bool" where
  "ids_ok bs \<longleftrightarrow> inj_on (\<lambda>b. mailbox_lock (bs b)) {..<MAILBOX_MAX_NUM} \<and>
     inj_on (\<lambda>b. mailbox_empty (bs b)) {..<MAILBOX_MAX_NUM} \<and> inj_on (\<lambda>b. mailbox_full (bs b)) {..<MAILBOX_MAX_NUM} \<and>
     (\<forall>b < MAILBOX_MAX_NUM. \<forall>b' < MAILBOX_MAX_NUM. mailbox_empty (bs b) \<noteq> mailbox_full (bs b'))"

definition objs_ok :: "(nat \<Rightarrow> int) \<Rightarrow> (nat \<Rightarrow> mailbox_t) \<Rightarrow> bool" where
  "objs_ok limit bs \<longleftrightarrow> ids_ok bs \<and>
     (\<forall>b < MAILBOX_MAX_NUM. limit (mailbox_empty (bs b)) = int MAILBOX_MSG_MAX_NUM \<and> limit (mailbox_full (bs b)) = 0)"

definition in_body :: "nat \<Rightarrow> stage \<Rightarrow> bool" where
  "in_body b st \<longleftrightarrow> in_send b {AtBody, AtRelease} st \<or> in_recv b {AtBody, AtRelease} st"

fun stage_ok :: "stage \<Rightarrow> bool" where
  "stage_ok (MSend w b m n) \<longleftrightarrow> b < MAILBOX_MAX_NUM"
| "stage_ok (MRecv w b m n) \<longleftrightarrow> b < MAILBOX_MAX_NUM"
| "stage_ok MIdle \<longleftrightarrow> True"

definition mbox_inv :: "(nat \<Rightarrow> int) \<Rightarrow> msys \<Rightarrow> bool" where
  "mbox_inv limit y \<longleftrightarrow> sem_inv limit (ls y) \<and> mutex_inv (ls y) \<and> objs_ok limit (mboxes y) \<and>
     finite {p. stages y p \<noteq> MIdle} \<and> (\<forall>p. stage_ok (stages y p)) \<and>
     (\<forall>p. \<forall>b < MAILBOX_MAX_NUM. in_body b (stages y p) \<longrightarrow> p \<in> holders (ls y) (mailbox_lock (mboxes y b))) \<and>
     (\<forall>b < MAILBOX_MAX_NUM. box_counts y b \<and> ring (mboxes y b) (sent y b) (rcvd y b))"

lemma objs_okD:
  assumes "objs_ok limit bs" "b < MAILBOX_MAX_NUM" "b' < MAILBOX_MAX_NUM"
  shows "limit (mailbox_empty (bs b)) = 2" "limit (mailbox_full (bs b)) = 0"
    "mailbox_empty (bs b) = mailbox_empty (bs b') \<longleftrightarrow> b = b'" "mailbox_full (bs b) = mailbox_full (bs b') \<longleftrightarrow> b = b'"
    "mailbox_lock (bs b) = mailbox_lock (bs b') \<longleftrightarrow> b = b'" "mailbox_empty (bs b) \<noteq> mailbox_full (bs b')"
    "mailbox_full (bs b) \<noteq> mailbox_empty (bs b')"
proof -
  show "limit (mailbox_empty (bs b)) = 2" "limit (mailbox_full (bs b)) = 0" using assms by (simp_all add: objs_ok_def)
  have "b \<in> {..<MAILBOX_MAX_NUM}" "b' \<in> {..<MAILBOX_MAX_NUM}" using assms by simp_all
  then show "mailbox_empty (bs b) = mailbox_empty (bs b') \<longleftrightarrow> b = b'" "mailbox_full (bs b) = mailbox_full (bs b') \<longleftrightarrow> b = b'"
    "mailbox_lock (bs b) = mailbox_lock (bs b') \<longleftrightarrow> b = b'"
    using assms(1) unfolding objs_ok_def ids_ok_def inj_on_def by blast+
  show "mailbox_empty (bs b) \<noteq> mailbox_full (bs b')" "mailbox_full (bs b) \<noteq> mailbox_empty (bs b')"
    using assms unfolding objs_ok_def ids_ok_def by metis+
qed

lemma mbox_put_fields [simp]:
  "mailbox_lock (mbox_put m n b) = mailbox_lock b" "mailbox_empty (mbox_put m n b) = mailbox_empty b"
  "mailbox_full (mbox_put m n b) = mailbox_full b" "mb_head (mbox_put m n b) = mb_head b"
  "mb_tail (mbox_put m n b) = (mb_tail b + 1) mod 2"
  by (simp_all add: mbox_put_def Let_def)

lemma mbox_get_fields:
  assumes "mbox_get m n b = (m', b')"
  shows "mailbox_lock b' = mailbox_lock b" "mailbox_empty b' = mailbox_empty b" "mailbox_full b' = mailbox_full b"
    "mb_tail b' = mb_tail b" "mb_head b' = (mb_head b + 1) mod 2" "msg b' = msg b"
  using assms by (auto simp: mbox_get_def Let_def)

lemma mstep_ids:
  "mstep y y' \<Longrightarrow> mailbox_lock (mboxes y' b) = mailbox_lock (mboxes y b) \<and>
     mailbox_empty (mboxes y' b) = mailbox_empty (mboxes y b) \<and> mailbox_full (mboxes y' b) = mailbox_full (mboxes y b)"
  by (induction rule: mstep.induct) (auto dest: mbox_get_fields)

lemma mstep_objs: "mstep y y' \<Longrightarrow> objs_ok limit (mboxes y) \<Longrightarrow> objs_ok limit (mboxes y')"
  by (simp add: objs_ok_def ids_ok_def mstep_ids)

lemma finite_upd: "finite {p. st p \<noteq> MIdle} \<Longrightarrow> finite {p. (st(c := v)) p \<noteq> MIdle}"
  by (rule finite_subset [of _ "insert c {p. st p \<noteq> MIdle}"]) auto

lemma mstep_finite: "mstep y y' \<Longrightarrow> finite {p. stages y p \<noteq> MIdle} \<Longrightarrow> finite {p. stages y' p \<noteq> MIdle}"
  by (induction rule: mstep.induct) (simp_all add: finite_upd del: fun_upd_apply)

lemma stage_box:
  "\<forall>p. stage_ok (stages y p) \<Longrightarrow> stages y c = MSend w b m n \<Longrightarrow> b < MAILBOX_MAX_NUM"
  "\<forall>p. stage_ok (stages y p) \<Longrightarrow> stages y c = MRecv w b m n \<Longrightarrow> b < MAILBOX_MAX_NUM"
  by (metis stage_ok.simps(1)) (metis stage_ok.simps(2))

lemma mstep_stage_ok: "mstep y y' \<Longrightarrow> \<forall>p. stage_ok (stages y p) \<Longrightarrow> stage_ok (stages y' p)"
  by (induction rule: mstep.induct) (auto dest: stage_box)

lemma mstep_counts:
  assumes "mstep y y'" "objs_ok limit (mboxes y)" "finite {p. stages y p \<noteq> MIdle}" "\<forall>p. stage_ok (stages y p)"
    and "b < MAILBOX_MAX_NUM" "box_counts y b"
  shows "box_counts y' b"
  using assms
proof (induction rule: mstep.induct)
  case (recv_body y c b' m n m' mb)
  note f = mbox_get_fields [OF recv_body(3)]
  show ?case using recv_body f by (auto simp: box_counts_def num_upd)
qed (auto simp: box_counts_def num_upd kcall_ghosts objs_okD dest: stage_box)

lemma mstep_holders:
  assumes "mstep y y'" "b < MAILBOX_MAX_NUM" "in_body b (stages y p) \<longrightarrow> p \<in> holders (ls y) (mailbox_lock (mboxes y b))"
  shows "in_body b (stages y' p) \<longrightarrow> p \<in> holders (ls y') (mailbox_lock (mboxes y' b))"
  using assms
proof (induction rule: mstep.induct)
  case (recv_body y c b' m n m' mb)
  note f = mbox_get_fields [OF recv_body(3)]
  show ?case using recv_body f by (auto simp: in_body_def)
qed (auto simp: in_body_def kcall_ghosts split: if_splits)

lemma slot_next: "(int (n mod 2) + 1) mod 2 = int (Suc n mod 2)"
proof (cases "even n")
  case True
  then show ?thesis by (simp add: even_iff_mod_2_eq_zero mod_Suc)
next
  case False
  then show ?thesis by (simp add: odd_iff_mod_2_eq_one mod_Suc)
qed

lemma mbox_put_msg:
  "msg (mbox_put m n b) = (if n \<le> 64 then (msg b)(nat ((mb_tail b + 1) mod 2) :=
     (\<lambda>i. if int i < n then m i else msg b (nat ((mb_tail b + 1) mod 2)) i)) else msg b)"
  using for_upto_store [of "nat n" 0 m "msg b (nat ((mb_tail b + 1) mod 2))"]
  by (auto simp: mbox_put_def Let_def fun_eq_iff)

lemma mbox_get_msg:
  "mbox_get m n b = (m', b') \<Longrightarrow> n \<le> 64 \<Longrightarrow> int i < n \<Longrightarrow> m' i = msg b (nat ((mb_head b + 1) mod 2)) i"
  using for_upto_store [of "nat n" 0 "msg b (nat ((mb_head b + 1) mod 2))" m]
  by (auto simp: mbox_get_def Let_def)

lemma ring_put:
  assumes r: "ring b xs zs" and room: "length xs \<le> length zs + 1"
  shows "ring (mbox_put m n b) (xs @ [(m, n)]) zs"
proof -
  have t: "nat ((mb_tail b + 1) mod 2) = Suc (length xs) mod 2" using r by (simp add: ring_def slot_next)
  have "delivered (m, n) (msg (mbox_put m n b) (Suc (length xs) mod 2), 64)"
    by (simp add: delivered_def mbox_put_msg t)
  moreover have "msg (mbox_put m n b) (Suc k mod 2) = msg b (Suc k mod 2)" if "length zs \<le> k" "k < length xs" for k
  proof -
    have "Suc k = length xs" using that room by simp
    then have "Suc k mod 2 \<noteq> Suc (length xs) mod 2" by presburger
    then show ?thesis by (simp add: mbox_put_msg t)
  qed
  ultimately show ?thesis using r room by (auto simp: ring_def slot_next nth_append less_Suc_eq)
qed

lemma ring_get:
  assumes r: "ring b xs zs" and unread: "length zs < length xs" and g: "mbox_get m n b = (m', b')"
  shows "ring b' xs (zs @ [(m', n)])"
proof -
  have h: "nat ((mb_head b + 1) mod 2) = Suc (length zs) mod 2" using r by (simp add: ring_def slot_next)
  have "delivered (xs ! length zs) (msg b (Suc (length zs) mod 2), 64)" using r unread by (simp add: ring_def)
  then have "delivered (xs ! length zs) (m', n)"
    using mbox_get_msg [OF g] by (auto simp: delivered_def h)
  then show ?thesis using r unread
    by (auto simp: ring_def slot_next nth_append less_Suc_eq mbox_get_fields [OF g])
qed

lemma mbox_invD:
  assumes "mbox_inv limit y" "b < MAILBOX_MAX_NUM"
  shows "admitted (ls y) (mailbox_empty (mboxes y b)) \<le> 2" "admitted (ls y) (mailbox_full (mboxes y b)) \<le> 0"
    "box_counts y b" "ring (mboxes y b) (sent y b) (rcvd y b)"
    "in_body b (stages y p) \<longrightarrow> p \<in> holders (ls y) (mailbox_lock (mboxes y b))"
proof -
  have le: "admitted (ls y) k \<le> limit k" for k using assms(1) by (simp add: mbox_inv_def sem_inv_def)
  have "limit (mailbox_empty (mboxes y b)) = 2" "limit (mailbox_full (mboxes y b)) = 0"
    using assms by (simp_all add: mbox_inv_def objs_ok_def)
  with le [of "mailbox_empty (mboxes y b)"] le [of "mailbox_full (mboxes y b)"]
  show "admitted (ls y) (mailbox_empty (mboxes y b)) \<le> 2" "admitted (ls y) (mailbox_full (mboxes y b)) \<le> 0" by simp_all
qed (use assms in \<open>simp_all add: mbox_inv_def\<close>)

lemma mstep_ring:
  assumes "mstep y y'" "mbox_inv limit y" "b < MAILBOX_MAX_NUM"
  shows "ring (mboxes y' b) (sent y' b) (rcvd y' b)"
  using assms
proof (induction rule: mstep.induct)
  case (send_body y c b' m n)
  note I = mbox_invD [OF send_body(3)]
  have b': "b' < MAILBOX_MAX_NUM" using stage_box(1) [OF _ send_body(2)] send_body(3) by (simp add: mbox_inv_def)
  have "1 \<le> num (in_send b' {AtLock, AtBody}) (stages y)"
    using send_body by (intro num_pos [where c = c]) (simp_all add: mbox_inv_def)
  moreover have "0 \<le> num (in_recv b' {AtRelease, AtUp}) (stages y)" by simp
  ultimately have "length (sent y b') \<le> length (rcvd y b') + 1"
    using I(1) [OF b'] I(3) [OF b'] unfolding box_counts_def by linarith
  then show ?case using ring_put [OF I(4) [OF b']] I(4) [OF send_body(4)] by auto
next
  case (recv_body y c b' m n m' mb)
  note I = mbox_invD [OF recv_body(4)]
  have b': "b' < MAILBOX_MAX_NUM" using stage_box(2) [OF _ recv_body(2)] recv_body(4) by (simp add: mbox_inv_def)
  have "1 \<le> num (in_recv b' {AtLock, AtBody}) (stages y)"
    using recv_body by (intro num_pos [where c = c]) (simp_all add: mbox_inv_def)
  moreover have "0 \<le> num (in_send b' {AtRelease, AtUp}) (stages y)" by simp
  ultimately have "length (rcvd y b') < length (sent y b')"
    using I(2) [OF b'] I(3) [OF b'] unfolding box_counts_def by linarith
  then show ?case using ring_get [OF I(4) [OF b'] _ recv_body(3)] I(4) [OF recv_body(5)] by auto
qed (auto dest: mbox_invD)

lemma mbox_inv_step:
  assumes st: "mstep y y'" and inv: "mbox_inv limit y"
  shows "mbox_inv limit y'"
proof -
  note I = inv [unfolded mbox_inv_def]
  have "sem_inv limit (ls y')" "mutex_inv (ls y')"
    using mstep_lstep [OF st] I sem_inv_step mutex_inv_step by metis+
  moreover have "objs_ok limit (mboxes y')" "finite {p. stages y' p \<noteq> MIdle}"
    using mstep_objs [OF st] mstep_finite [OF st] I by blast+
  moreover have "stage_ok (stages y' p)" for p using mstep_stage_ok [OF st] I by blast
  moreover have "box_counts y' b" if "b < MAILBOX_MAX_NUM" for b
    using mstep_counts [OF st] I that by blast
  moreover have "in_body b (stages y' p) \<longrightarrow> p \<in> holders (ls y') (mailbox_lock (mboxes y' b))"
    if "b < MAILBOX_MAX_NUM" for p b
    by (rule mstep_holders [OF st that mbox_invD(5) [OF inv that]])
  ultimately show ?thesis using mstep_ring [OF st inv] unfolding mbox_inv_def by blast
qed

lemma msteps_inv: "mstep\<^sup>*\<^sup>* y y' \<Longrightarrow> mbox_inv limit y \<Longrightarrow> mbox_inv limit y'"
  by (induction rule: rtranclp_induct) (auto intro: mbox_inv_step)

lemma in_body_unique:
  assumes "mbox_inv limit y" "b < MAILBOX_MAX_NUM" "in_body b (stages y p)" "in_body b (stages y q)"
  shows "p = q"
proof -
  have "p \<in> holders (ls y) (mailbox_lock (mboxes y b))" "q \<in> holders (ls y) (mailbox_lock (mboxes y b))"
    using mbox_invD(5) [OF assms(1,2)] assms(3,4) by blast+
  moreover have "mutex_inv (ls y)" using assms(1) by (simp add: mbox_inv_def)
  ultimately show ?thesis unfolding mutex_inv_def
    by (cases "lock_status (mutexes (ks (ls y)) (mailbox_lock (mboxes y b)))")
       (auto dest!: spec [of _ "mailbox_lock (mboxes y b)"])
qed

subsection \<open>Initialisation\<close>

definition fresh_boxes :: "(nat \<Rightarrow> mailbox_t) \<Rightarrow> kstate \<Rightarrow> bool" where
  "fresh_boxes bs s \<longleftrightarrow> ids_ok bs \<and> (\<forall>l. lock_status (mutexes s l) = UNLOCKED) \<and> (\<forall>n. 0 \<le> sem_value (sems s n)) \<and>
     (\<forall>b < MAILBOX_MAX_NUM. sem_initialized (sems s (mailbox_empty (bs b))) = 0 \<and>
        sem_initialized (sems s (mailbox_full (bs b))) = 0)"

definition mail_start :: "(nat \<Rightarrow> mailbox_t) \<Rightarrow> kstate \<Rightarrow> msys" where
  "mail_start bs s =
     (let (bs', s') = mbox_init (bs, s)
      in \<lparr>ls = \<lparr>ks = s', calls = \<lambda>_. NoCall, holders = \<lambda>_. {}, admitted = \<lambda>_. 0\<rparr>,
          mboxes = bs', stages = \<lambda>_. MIdle, sent = \<lambda>_. [], rcvd = \<lambda>_. []\<rparr>)"

text \<open>After \<open>k\<close> rounds of the loop of \<open>mbox_init\<close>.\<close>

definition boxes_done :: "(nat \<Rightarrow> mailbox_t) \<Rightarrow> nat \<Rightarrow> (nat \<Rightarrow> mailbox_t) \<times> kstate \<Rightarrow> bool" where
  "boxes_done bs k st \<longleftrightarrow>
     (\<forall>b. mailbox_lock (fst st b) = mailbox_lock (bs b) \<and> mailbox_empty (fst st b) = mailbox_empty (bs b) \<and>
        mailbox_full (fst st b) = mailbox_full (bs b)) \<and>
     (\<forall>l. lock_status (mutexes (snd st) l) = UNLOCKED) \<and> (\<forall>n. 0 \<le> sem_value (sems (snd st) n)) \<and>
     (\<forall>b < k. mb_head (fst st b) = 0 \<and> mb_tail (fst st b) = 0 \<and> valid (fst st b) = 0 \<and>
        sem_value (sems (snd st) (mailbox_empty (bs b))) = 2 \<and> sem_value (sems (snd st) (mailbox_full (bs b))) = 0) \<and>
     (\<forall>b. k \<le> b \<and> b < MAILBOX_MAX_NUM \<longrightarrow> sem_initialized (sems (snd st) (mailbox_empty (bs b))) = 0 \<and>
        sem_initialized (sems (snd st) (mailbox_full (bs b))) = 0)"

lemma ids_okD:
  assumes "ids_ok bs" "b < MAILBOX_MAX_NUM" "b' < MAILBOX_MAX_NUM"
  shows "mailbox_empty (bs b) = mailbox_empty (bs b') \<longleftrightarrow> b = b'" "mailbox_full (bs b) = mailbox_full (bs b') \<longleftrightarrow> b = b'"
    "mailbox_empty (bs b) \<noteq> mailbox_full (bs b')" "mailbox_full (bs b) \<noteq> mailbox_empty (bs b')"
proof -
  have "b \<in> {..<MAILBOX_MAX_NUM}" "b' \<in> {..<MAILBOX_MAX_NUM}" using assms by simp_all
  then show "mailbox_empty (bs b) = mailbox_empty (bs b') \<longleftrightarrow> b = b'" "mailbox_full (bs b) = mailbox_full (bs b') \<longleftrightarrow> b = b'"
    using assms(1) unfolding ids_ok_def inj_on_def by blast+
  show "mailbox_empty (bs b) \<noteq> mailbox_full (bs b')" "mailbox_full (bs b) \<noteq> mailbox_empty (bs b')"
    using assms unfolding ids_ok_def by metis+
qed

lemma init_one_mailbox_eq:
  "\<exists>m. init_one_mailbox k (bs, s) =
     (bs(k := (bs k)\<lparr>msg := m, valid := 0, mb_name := None, mb_tail := 0, mb_head := 0\<rparr>),
      do_semaphore_init (mailbox_full (bs k)) 0 (do_semaphore_init (mailbox_empty (bs k)) 2
        (do_mutex_lock_init (mailbox_lock (bs k)) s)))"
  unfolding init_one_mailbox_def Let_def by (rule exI) simp

lemma sync_init_simps [simp]:
  "sems (do_mutex_lock_init l s) = sems s" "mutexes (do_semaphore_init n v s) = mutexes s"
  "sem_initialized (sems s n) = 0 \<Longrightarrow> sems (do_semaphore_init n v s) = (sems s)(n := \<lparr>sem_value = v, sem_initialized = 1\<rparr>)"
  by (simp_all add: do_mutex_lock_init_def do_semaphore_init_def)

lemma boxes_done_step:
  assumes ok: "ids_ok bs" and k: "k < MAILBOX_MAX_NUM" and d: "boxes_done bs k (bs1, s1)"
  shows "boxes_done bs (Suc k) (init_one_mailbox k (bs1, s1))"
proof -
  note D = d [unfolded boxes_done_def, simplified]
  obtain m where i: "init_one_mailbox k (bs1, s1) =
     (bs1(k := (bs1 k)\<lparr>msg := m, valid := 0, mb_name := None, mb_tail := 0, mb_head := 0\<rparr>),
      do_semaphore_init (mailbox_full (bs1 k)) 0 (do_semaphore_init (mailbox_empty (bs1 k)) 2
        (do_mutex_lock_init (mailbox_lock (bs1 k)) s1)))" using init_one_mailbox_eq by blast
  have sem: "sems (snd (init_one_mailbox k (bs1, s1))) = (sems s1)(mailbox_empty (bs k) := \<lparr>sem_value = 2, sem_initialized = 1\<rparr>,
      mailbox_full (bs k) := \<lparr>sem_value = 0, sem_initialized = 1\<rparr>)"
    using D k ids_okD(3,4) [OF ok k k] by (simp add: i)
  have mut: "lock_status (mutexes (snd (init_one_mailbox k (bs1, s1))) l) = UNLOCKED" for l
    using D by (simp add: i do_mutex_lock_init_def)
  have ready: "sem_value (sems (snd (init_one_mailbox k (bs1, s1))) (mailbox_empty (bs b))) = 2 \<and>
      sem_value (sems (snd (init_one_mailbox k (bs1, s1))) (mailbox_full (bs b))) = 0" if "b < Suc k" for b
    using D that k ids_okD [OF ok, of b k] by (cases "b = k") (simp_all add: sem)
  have left: "sem_initialized (sems (snd (init_one_mailbox k (bs1, s1))) (mailbox_empty (bs b))) = 0 \<and>
      sem_initialized (sems (snd (init_one_mailbox k (bs1, s1))) (mailbox_full (bs b))) = 0"
    if "Suc k \<le> b" "b < MAILBOX_MAX_NUM" for b
    using D that k ids_okD [OF ok, of b k] by (simp add: sem)
  have pos: "0 \<le> sem_value (sems (snd (init_one_mailbox k (bs1, s1))) n)" for n using D by (simp add: sem)
  have hd: "mb_head (fst (init_one_mailbox k (bs1, s1)) b) = 0 \<and> mb_tail (fst (init_one_mailbox k (bs1, s1)) b) = 0 \<and>
      valid (fst (init_one_mailbox k (bs1, s1)) b) = 0" if "b < Suc k" for b
    using D that by (cases "b = k") (simp_all add: i)
  have ids: "mailbox_lock (fst (init_one_mailbox k (bs1, s1)) b) = mailbox_lock (bs b) \<and>
      mailbox_empty (fst (init_one_mailbox k (bs1, s1)) b) = mailbox_empty (bs b) \<and>
      mailbox_full (fst (init_one_mailbox k (bs1, s1)) b) = mailbox_full (bs b)" for b
    using D by (cases "b = k") (simp_all add: i)
  show ?thesis unfolding boxes_done_def using ready left pos hd ids mut by blast
qed

lemma mail_start_inv:
  assumes fr: "fresh_boxes bs s"
  shows "mbox_inv (\<lambda>n. sem_value (sems (ks (ls (mail_start bs s))) n)) (mail_start bs s)"
proof -
  obtain bs' s' where i: "mbox_init (bs, s) = (bs', s')" by fastforce
  have "boxes_done bs MAILBOX_MAX_NUM (mbox_init (bs, s))" unfolding mbox_init_def
    by (rule for_upto_inv)
       (use fr boxes_done_step in \<open>auto simp: boxes_done_def fresh_boxes_def\<close>)
  then have D: "boxes_done bs MAILBOX_MAX_NUM (bs', s')" by (simp add: i)
  have "ids_ok bs" using fr by (simp add: fresh_boxes_def)
  then have "ids_ok bs'" using D by (simp add: boxes_done_def ids_ok_def)
  then show ?thesis using D
    by (simp add: mail_start_def i mbox_inv_def sem_inv_def mutex_inv_def objs_ok_def waiters_def box_counts_def ring_def
        num_def in_body_def boxes_done_def)
qed

subsection \<open>Opening\<close>

definition named :: "(nat \<Rightarrow> buffer) \<Rightarrow> (nat \<Rightarrow> mailbox_t) \<Rightarrow> u8 list \<Rightarrow> nat \<Rightarrow> bool" where
  "named str bs xs i \<longleftrightarrow> valid (bs i) \<noteq> 0 \<and> (\<exists>n. mb_name (bs i) = Some n \<and> cstr (str n) 0 xs)"

definition names_ok :: "(nat \<Rightarrow> buffer) \<Rightarrow> (nat \<Rightarrow> mailbox_t) \<Rightarrow> bool" where
  "names_ok str bs \<longleftrightarrow> (\<forall>i < MAILBOX_MAX_NUM. valid (bs i) \<noteq> 0 \<longrightarrow> (\<exists>xs. named str bs xs i))"

lemma find_mailbox_eq:
  assumes "cstr (str name) 0 xs" "\<forall>i \<in> set is. valid (bs i) \<noteq> 0 \<longrightarrow> (\<exists>ys. named str bs ys i)"
  shows "find_mailbox str name bs is = Some (List.find (named str bs xs) is)"
  using assms(2)
proof (induction "is")
  case (Cons i js)
  show ?case
  proof (cases "valid (bs i) = 0")
    case False
    then obtain n ys where n: "mb_name (bs i) = Some n" "cstr (str n) 0 ys" using Cons.prems by (auto simp: named_def)
    obtain d where d: "strcmp (str name) 0 (str n) 0 = Some d" "d = 0 \<longleftrightarrow> xs = ys"
      using strcmp_cstr [OF assms(1) n(2)] by blast
    have "named str bs xs i \<longleftrightarrow> xs = ys" using False n cstr_unique by (auto simp: named_def)
    then show ?thesis using Cons False n d by simp
  qed (use Cons in \<open>simp add: named_def\<close>)
qed simp

lemma mbox_open_eq:
  assumes "names_ok str bs" "cstr (str name) 0 xs"
  shows "mbox_open str name bs = Some (case first_index 0 MAILBOX_MAX_NUM (named str bs xs) of
      Some i \<Rightarrow> (Some i, bs)
    | None \<Rightarrow> (case first_index 0 MAILBOX_MAX_NUM (\<lambda>i. valid (bs i) = 0) of
        None \<Rightarrow> (None, bs)
      | Some i \<Rightarrow> (Some i, bs(i := (bs i)\<lparr>mb_name := Some name, valid := 1\<rparr>))))"
proof -
  have "find_mailbox str name bs [0..<MAILBOX_MAX_NUM] = Some (first_index 0 MAILBOX_MAX_NUM (named str bs xs))"
    unfolding first_index_def
    by (rule find_mailbox_eq [where str = str and name = name, OF assms(2)]) (use assms(1) in \<open>simp add: names_ok_def\<close>)
  then show ?thesis unfolding mbox_open_def by (simp split: option.splits)
qed

lemma named_upd:
  "named str (bs(i := (bs i)\<lparr>mb_name := Some name, valid := 1\<rparr>)) xs k \<longleftrightarrow>
     (if k = i then cstr (str name) 0 xs else named str bs xs k)"
  by (simp add: named_def)

text \<open>Sending into a mailbox with room and a free mutex does not block.\<close>

lemma kdown_free:
  assumes "current_running (ks y) = Some c" "calls y c = NoCall"
    and "0 < sem_value (sems (ks y) n)" "sem_value (sems (ks y) n) < 2 ^ 31"
  shows "\<exists>l'. kdown c n True y l' \<and> current_running (ks l') = Some c \<and> calls l' c = NoCall \<and> mutexes (ks l') = mutexes (ks y)"
proof -
  let ?s = "(ks y)\<lparr>sems := (sems (ks y))(n := (sems (ks y) n)\<lparr>sem_value := sem_value (sems (ks y) n) - 1\<rparr>)\<rparr>"
  have "do_semaphore_down n (ks y) = Some (True, ?s)"
    using assms(3,4) by (simp add: do_semaphore_down_def sem_add_def semaphore_wait_def Let_def)
  from kdown.first [OF assms(1,2) this] show ?thesis by (intro exI conjI, assumption) (simp_all add: assms)
qed

lemma kacquire_free:
  assumes "current_running (ks y) = Some c" "calls y c = NoCall" "lock_status (mutexes (ks y) l) = UNLOCKED"
  shows "\<exists>l'. kacquire c l True y l' \<and> current_running (ks l') = Some c"
proof -
  obtain s' where s': "do_mutex_lock_acquire l (ks y) = Some (True, s')" "current_running s' = Some c"
    using assms by (auto simp: do_mutex_lock_acquire_def Let_def kq_dequeue_def split: option.splits prod.splits)
  from kacquire.intros [OF assms(1) disjI1 [OF assms(2)] s'(1)] show ?thesis
    by (intro exI conjI, assumption) (simp add: s')
qed

lemma send_stores:
  assumes cur: "current_running (ks (ls y)) = Some c" "calls (ls y) c = NoCall" "stages y c = MIdle" "b < MAILBOX_MAX_NUM"
    and room: "0 < sem_value (sems (ks (ls y)) (mailbox_empty (mboxes y b)))"
      "sem_value (sems (ks (ls y)) (mailbox_empty (mboxes y b))) < 2 ^ 31"
    and free: "lock_status (mutexes (ks (ls y)) (mailbox_lock (mboxes y b))) = UNLOCKED"
  shows "\<exists>y'. mstep\<^sup>*\<^sup>* y y' \<and> sent y' b = sent y b @ [(m, n)] \<and> rcvd y' = rcvd y \<and>
    mboxes y' b = mbox_put m n (mboxes y b) \<and> stages y' c = MSend AtRelease b m n"
proof -
  define y1 where "y1 = y\<lparr>stages := (stages y)(c := MSend AtDown b m n)\<rparr>"
  have s1: "mstep y y1" unfolding y1_def by (rule mstep.send [OF cur])
  obtain l2 where l2: "kdown c (mailbox_empty (mboxes y b)) True (ls y) l2" "current_running (ks l2) = Some c"
    "calls l2 c = NoCall" "mutexes (ks l2) = mutexes (ks (ls y))" using kdown_free [OF cur(1,2) room] by blast
  define y2 where "y2 = y1\<lparr>ls := l2, stages := (stages y)(c := MSend AtLock b m n)\<rparr>"
  have s2: "mstep y1 y2" using mstep.send_down [of y1 c b m n True l2] l2(1) by (simp add: y1_def y2_def)
  have "lock_status (mutexes (ks l2) (mailbox_lock (mboxes y b))) = UNLOCKED" using free l2(4) by simp
  then obtain l3 where l3: "kacquire c (mailbox_lock (mboxes y b)) True l2 l3" "current_running (ks l3) = Some c"
    using kacquire_free [OF l2(2,3)] by blast
  define y3 where "y3 = y2\<lparr>ls := l3, stages := (stages y)(c := MSend AtBody b m n)\<rparr>"
  have s3: "mstep y2 y3" using mstep.send_lock [of y2 c b m n True l3] l3(1) by (simp add: y1_def y2_def y3_def)
  define y4 where "y4 = y3\<lparr>mboxes := (mboxes y)(b := mbox_put m n (mboxes y b)), stages := (stages y)(c := MSend AtRelease b m n),
    sent := (sent y)(b := sent y b @ [(m, n)])\<rparr>"
  have s4: "mstep y3 y4" using mstep.send_body [of y3 c b m n] l3(2) by (simp add: y1_def y2_def y3_def y4_def)
  have "mstep\<^sup>*\<^sup>* y y4" using s1 s2 s3 s4 by (meson rtranclp.rtrancl_into_rtrancl r_into_rtranclp)
  then show ?thesis by (intro exI conjI, assumption) (simp_all add: y1_def y2_def y3_def y4_def)
qed

lemma mbox_init_current: "current_running (snd (mbox_init st)) = current_running (snd st)"
  unfolding mbox_init_def
proof (rule for_upto_inv)
  fix k and s :: "(nat \<Rightarrow> mailbox_t) \<times> kstate"
  obtain bs s0 where s: "s = (bs, s0)" by fastforce
  assume "current_running (snd s) = current_running (snd st)"
  moreover have "current_running (do_mutex_lock_init l z) = current_running z"
    "current_running (do_semaphore_init i v z) = current_running z" for l i v z
    by (simp_all add: do_mutex_lock_init_def do_semaphore_init_def)
  ultimately show "current_running (snd (init_one_mailbox k s)) = current_running (snd st)"
    using init_one_mailbox_eq [of k bs s0] by (auto simp: s)
qed simp_all

definition demo_boxes :: "nat \<Rightarrow> mailbox_t" where
  "demo_boxes b = \<lparr>msg = \<lambda>_ _. 0, mb_head = 0, mb_tail = 0, mailbox_lock = b, mailbox_empty = 2 * b,
     mailbox_full = 2 * b + 1, mb_name = None, valid = 0\<rparr>"

definition demo_kernel :: kstate where
  "demo_kernel = demo_state\<lparr>mutexes := \<lambda>_. \<lparr>lock_status = UNLOCKED, is_init = 0, lock_id = 0\<rparr>\<rparr>"

lemma demo_fresh: "fresh_boxes demo_boxes demo_kernel"
proof -
  have "2 * b \<noteq> 2 * b' + 1" for b b' :: nat by presburger
  then have "ids_ok demo_boxes" by (simp add: ids_ok_def demo_boxes_def inj_on_def)
  then show ?thesis by (simp add: fresh_boxes_def demo_kernel_def demo_state_def)
qed

subsection \<open>Properties\<close>

text \<open>
  C8: Mailboxes are first-in first-out. From the state that \<open>mbox_init\<close> leaves, in every interleaving of
  senders, receivers, other system calls and timer interrupts: at any time at most two messages are stored
  and not received, no more are received than were stored, the \<open>k\<close>-th receive of a mailbox gets the bytes of the
  \<open>k\<close>-th message stored in it (up to the shorter of the two lengths, if both are within the 64 bytes of a
  slot), and no two processes are between the acquire and the release of the same mailbox.
\<close>

theorem mailbox_fifo:
  assumes "fresh_boxes bs s" "mstep\<^sup>*\<^sup>* (mail_start bs s) y" "b < MAILBOX_MAX_NUM"
  shows "length (rcvd y b) \<le> length (sent y b) \<and> length (sent y b) \<le> length (rcvd y b) + MAILBOX_MSG_MAX_NUM \<and>
    (\<forall>k < length (rcvd y b). delivered (sent y b ! k) (rcvd y b ! k)) \<and>
    (\<forall>p q. in_body b (stages y p) \<and> in_body b (stages y q) \<longrightarrow> p = q)"
proof -
  note inv = msteps_inv [OF assms(2) mail_start_inv [OF assms(1)]]
  show ?thesis using mbox_invD(4) [OF inv assms(3)] in_body_unique [OF inv assms(3)] unfolding ring_def by blast
qed

theorem mailbox_fifo_witness:
  "\<exists>y. mstep\<^sup>*\<^sup>* (mail_start demo_boxes demo_kernel) y \<and> length (sent y 0) = 1 \<and> in_body 0 (stages y 0) \<and>
     (\<forall>q. in_body 0 (stages y q) \<longrightarrow> q = 0) \<and> length (sent y 0) \<le> length (rcvd y 0) + 2"
proof -
  let ?y = "mail_start demo_boxes demo_kernel"
  note inv = mail_start_inv [OF demo_fresh]
  have idle: "calls (ls ?y) p = NoCall" "stages ?y p = MIdle" "holders (ls ?y) l = {}" "sent ?y k = []" for p l k
    by (simp_all add: mail_start_def split: prod.splits)
  have "current_running (snd (mbox_init (demo_boxes, demo_kernel))) = Some 0"
    unfolding mbox_init_current by (simp add: demo_kernel_def demo_state_def)
  then have cur: "current_running (ks (ls ?y)) = Some 0" by (auto simp: mail_start_def split: prod.splits)
  have "sem_value (sems (ks (ls ?y)) (mailbox_empty (mboxes ?y 0))) = 2"
    using inv by (simp add: mbox_inv_def objs_ok_def)
  moreover have "lock_status (mutexes (ks (ls ?y)) l) = UNLOCKED" for l
    using inv idle(3) by (cases "lock_status (mutexes (ks (ls ?y)) l)") (auto simp: mbox_inv_def mutex_inv_def)
  ultimately obtain y' where y': "mstep\<^sup>*\<^sup>* ?y y'" "sent y' 0 = [((\<lambda>_. 7), 5)]" "stages y' 0 = MSend AtRelease 0 (\<lambda>_. 7) 5"
    using send_stores [of ?y 0 0 "\<lambda>_. 7" 5] cur idle by auto
  moreover have "in_body 0 (stages y' 0)" using y'(3) by (simp add: in_body_def)
  ultimately show ?thesis using mailbox_fifo [OF demo_fresh y'(1), of 0] by auto
qed

text \<open>
  Opening a mailbox. With NUL-terminated names, \<open>mbox_open\<close> returns: the mailbox of that name if one is
  open, without change; otherwise the first closed one, which then has that name, while the others stay as they
  are; NULL exactly if all eight are open under other names. Opening the same name again, through any pointer to
  it, finds the same mailbox.
\<close>

theorem mbox_open_find_or_create:
  assumes ok: "names_ok str bs" and x: "cstr (str name) 0 xs"
  shows "\<exists>r bs'. mbox_open str name bs = Some (r, bs') \<and> names_ok str bs' \<and>
    (r = None \<longleftrightarrow> (\<forall>i < MAILBOX_MAX_NUM. valid (bs i) \<noteq> 0 \<and> \<not> named str bs xs i)) \<and>
    (\<forall>i. r = Some i \<longrightarrow> i < MAILBOX_MAX_NUM \<and> named str bs' xs i \<and> (\<forall>k. k \<noteq> i \<longrightarrow> bs' k = bs k) \<and>
       ((\<exists>k < MAILBOX_MAX_NUM. named str bs xs k) \<longrightarrow> bs' = bs) \<and>
       (\<forall>name'. cstr (str name') 0 xs \<longrightarrow> mbox_open str name' bs' = Some (Some i, bs')))"
proof (cases "first_index 0 MAILBOX_MAX_NUM (named str bs xs)")
  case (Some i)
  then have "mbox_open str name' bs = Some (Some i, bs)" if "cstr (str name') 0 xs" for name'
    using mbox_open_eq [OF ok that] by simp
  moreover have "i < MAILBOX_MAX_NUM" "named str bs xs i" using Some by (simp_all add: first_index_Some)
  ultimately show ?thesis using x ok by (intro exI [of _ "Some i"] exI [of _ bs]) auto
next
  case None
  note fresh = None [unfolded first_index_None]
  show ?thesis
  proof (cases "first_index 0 MAILBOX_MAX_NUM (\<lambda>i. valid (bs i) = 0)")
    case None
    with fresh mbox_open_eq [OF ok x] \<open>first_index 0 MAILBOX_MAX_NUM (named str bs xs) = None\<close> ok
    show ?thesis by (intro exI [of _ None] exI [of _ bs]) (simp add: first_index_None)
  next
    case (Some i)
    let ?bs = "bs(i := (bs i)\<lparr>mb_name := Some name, valid := 1\<rparr>)"
    have i: "i < MAILBOX_MAX_NUM" "valid (bs i) = 0" using Some by (simp_all add: first_index_Some)
    have ok': "names_ok str ?bs" using ok x unfolding names_ok_def named_upd by auto
    have "first_index 0 MAILBOX_MAX_NUM (named str ?bs xs) = Some i"
      using i x fresh by (auto simp: first_index_Some named_upd)
    then have again: "mbox_open str name' ?bs = Some (Some i, ?bs)" if "cstr (str name') 0 xs" for name'
      using mbox_open_eq [OF ok' that] by simp
    have "mbox_open str name bs = Some (Some i, ?bs)"
      using mbox_open_eq [OF ok x] None Some by simp
    then show ?thesis using i x fresh again ok'
      by (intro exI [of _ "Some i"] exI [of _ ?bs]) (auto simp: named_upd)
  qed
qed

theorem mbox_open_find_or_create_witness:
  "\<exists>i bs'. mbox_open (\<lambda>_. buf_of (cs ''mb'')) 4 demo_boxes = Some (Some i, bs') \<and>
     mbox_open (\<lambda>_. buf_of (cs ''mb'')) 9 bs' = Some (Some i, bs')"
proof -
  have ok: "names_ok (\<lambda>_. buf_of (cs ''mb'')) demo_boxes" by (simp add: names_ok_def demo_boxes_def)
  have c: "cstr ((\<lambda>_. buf_of (cs ''mb'')) k) 0 (cs ''mb'')" for k :: nat by simp
  from mbox_open_find_or_create [OF ok, where name = 4, OF c]
  obtain r bs' where r: "mbox_open (\<lambda>_. buf_of (cs ''mb'')) 4 demo_boxes = Some (r, bs')"
    "r = None \<longleftrightarrow> (\<forall>i < MAILBOX_MAX_NUM. valid (demo_boxes i) \<noteq> 0 \<and> \<not> named (\<lambda>_. buf_of (cs ''mb'')) demo_boxes (cs ''mb'') i)"
    "\<forall>i. r = Some i \<longrightarrow> (\<forall>name'. cstr (buf_of (cs ''mb'')) 0 (cs ''mb'') \<longrightarrow>
       mbox_open (\<lambda>_. buf_of (cs ''mb'')) name' bs' = Some (Some i, bs'))" by blast
  have "r \<noteq> None" using r(2) by (auto simp: demo_boxes_def intro!: exI [of _ 0])
  then obtain i where "r = Some i" by blast
  then show ?thesis using r(1,3) c by blast
qed

end
