(* ===== verification/Bytes.thy ===== *)
theory Bytes
  imports Kernel_Prelude
begin

text \<open>
  32-bit words in byte memory. The machine is little endian; page table entries, inodes and
  directory entries are arrays of such words in memory and on the disk. \<open>rd32\<close> and \<open>wr32\<close> access a
  word in a memory whose addresses are natural numbers (offsets in a buffer) or 32-bit words
  (machine addresses).
\<close>

definition byte_of :: "nat \<Rightarrow> u32 \<Rightarrow> u8" where
  "byte_of k v = ucast (drop_bit (8 * k) v)"

definition le32 :: "u8 \<Rightarrow> u8 \<Rightarrow> u8 \<Rightarrow> u8 \<Rightarrow> u32" where
  "le32 b0 b1 b2 b3 =
     ucast b0 OR push_bit 8 (ucast b1) OR push_bit 16 (ucast b2) OR push_bit 24 (ucast b3)"

lemma bit_byte_of: "bit (byte_of k v) n \<longleftrightarrow> n < 8 \<and> bit v (8 * k + n)"
  by (auto simp: byte_of_def bit_ucast_iff bit_drop_bit_eq)

lemma bit_le32: "bit (le32 b0 b1 b2 b3) n \<longleftrightarrow>
   (if n < 8 then bit b0 n else if n < 16 then bit b1 (n - 8)
    else if n < 24 then bit b2 (n - 16) else if n < 32 then bit b3 (n - 24) else False)"
proof -
  have "\<not> bit b m" if "8 \<le> m" for b :: u8 and m
    using that bit_imp_le_length [of b m] by auto
  then show ?thesis
    by (auto simp: le32_def bit_or_iff bit_push_bit_iff bit_ucast_iff dest: bit_imp_le_length)
qed

lemma le32_bytes [simp]: "le32 (byte_of 0 v) (byte_of 1 v) (byte_of 2 v) (byte_of 3 v) = v"
  by (rule bit_word_eqI) (auto simp: bit_le32 bit_byte_of dest: bit_imp_le_length)

lemma byte_of_le32 [simp]:
  "byte_of 0 (le32 b0 b1 b2 b3) = b0" "byte_of (Suc 0) (le32 b0 b1 b2 b3) = b1"
  "byte_of 2 (le32 b0 b1 b2 b3) = b2" "byte_of 3 (le32 b0 b1 b2 b3) = b3"
  by (rule bit_word_eqI; auto simp: bit_le32 bit_byte_of dest: bit_imp_le_length)+
text \<open>Access to a word in memory.\<close>

definition rd32 :: "('a :: comm_semiring_1 \<Rightarrow> u8) \<Rightarrow> 'a \<Rightarrow> u32" where
  "rd32 m a = le32 (m a) (m (a + 1)) (m (a + 2)) (m (a + 3))"

definition wr32 :: "'a :: comm_semiring_1 \<Rightarrow> u32 \<Rightarrow> ('a \<Rightarrow> u8) \<Rightarrow> 'a \<Rightarrow> u8" where
  "wr32 a v m =
     m(a := byte_of 0 v, a + 1 := byte_of 1 v, a + 2 := byte_of 2 v, a + 3 := byte_of 3 v)"

definition addrs4 :: "'a :: comm_semiring_1 \<Rightarrow> 'a set" where
  "addrs4 a = {a, a + 1, a + 2, a + 3}"

lemma rd32_cong: "(\<And>x. x \<in> addrs4 a \<Longrightarrow> m x = m' x) \<Longrightarrow> rd32 m a = rd32 m' a"
  by (simp add: rd32_def addrs4_def)

lemma wr32_outside: "x \<notin> addrs4 a \<Longrightarrow> wr32 a v m x = m x"
  by (simp add: wr32_def addrs4_def)

lemma rd32_wr32_other: "addrs4 a \<inter> addrs4 b = {} \<Longrightarrow> rd32 (wr32 b v m) a = rd32 m a"
  by (rule rd32_cong) (auto intro: wr32_outside)

lemma rd32_wr32_nat [simp]: "rd32 (wr32 a v m) (a :: nat) = v"
  using le32_bytes [of v] by (simp add: rd32_def wr32_def)

lemma rd32_wr32_u32 [simp]: "rd32 (wr32 a v m) (a :: u32) = v"
proof -
  have "a \<noteq> a + 1" "a \<noteq> a + 2" "a \<noteq> a + 3" "a + 1 \<noteq> a + 2" "a + 1 \<noteq> a + 3" "a + 2 \<noteq> a + 3" by simp_all
  then show ?thesis using le32_bytes [of v] by (simp add: rd32_def wr32_def)
qed

lemma addrs4_nat_disjoint: "a + 4 \<le> b \<or> b + 4 \<le> a \<Longrightarrow> addrs4 (a :: nat) \<inter> addrs4 b = {}"
  by (auto simp: addrs4_def)

end
