(* ===== verification/Mm.thy ===== *)
theory Mm
  imports Sched Bytes
begin

text \<open>
  \<^verbatim>\<open>kernel/mm/memory.c\<close> and the copies between user and kernel memory in
  \<^verbatim>\<open>kernel/sched/sched.c\<close>: the stack of free page frames, the two-level page tables and the
  address computations on 32-bit words. The memory reached through unmapped addresses is a
  function from byte addresses to bytes; the page tables and the frames of the processes all lie in
  it, so that a copy to a wrong address may destroy a page table. The TLB is in \<open>Tlb\<close>.
  \<^const>\<open>None\<close> is undefined behaviour: a null dereference, a first level index outside
  \<open>secondary_pt\<close>, or \<open>kalloc\<close> running off its end without a return value.
\<close>

subsection \<open>Data\<close>

abbreviation "FRAME_NUM \<equiv> (2048 :: nat)"
abbreviation "PAGE_SIZE \<equiv> (4096 :: u32)"
abbreviation "FIRST_PTE_NUM \<equiv> (1024 :: nat)"

record mm_t =
  empty_frame :: "nat \<Rightarrow> u32"
  frame_top :: nat
  mem :: "u32 \<Rightarrow> u8"

subsection \<open>Address arithmetic\<close>

definition get_vpn2 :: "u32 \<Rightarrow> u32" where "get_vpn2 vaddr = drop_bit 13 vaddr"
definition get_vpn :: "u32 \<Rightarrow> u32" where "get_vpn vaddr = drop_bit 12 vaddr"
definition get_pfn :: "u32 \<Rightarrow> u32" where "get_pfn paddr = drop_bit 12 paddr"
definition get_frame_start :: "u32 \<Rightarrow> u32" where "get_frame_start unmapped = unmapped AND NOT (PAGE_SIZE - 1)"
definition get_paddr :: "u32 \<Rightarrow> u32" where "get_paddr unmapped = unmapped AND 0xffffff"
definition get_first_level_index :: "u32 \<Rightarrow> u32" where "get_first_level_index vpn = drop_bit 9 vpn"
definition get_second_level_index :: "u32 \<Rightarrow> u32" where "get_second_level_index vpn = vpn AND 511"

definition COMPRESS_ENTRYLO :: "u32 \<Rightarrow> u32 \<Rightarrow> u32 \<Rightarrow> u32 \<Rightarrow> u32 \<Rightarrow> u32" where
  "COMPRESS_ENTRYLO pfn coherency dirty valid global =
     push_bit 6 pfn OR push_bit 3 coherency OR push_bit 2 dirty OR push_bit 1 valid OR global"

subsection \<open>Frames\<close>

definition do_mem_init :: "mm_t \<Rightarrow> mm_t" where
  "do_mem_init m =
     (let (fr, _) = for_upto 0 FRAME_NUM (\<lambda>i (fr, start). (fr(i := start), start + PAGE_SIZE))
                      (empty_frame m, 0xa08f0000)
      in m\<lparr>empty_frame := fr, frame_top := 0\<rparr>)"

definition zero_frame :: "u32 \<Rightarrow> (u32 \<Rightarrow> u8) \<Rightarrow> u32 \<Rightarrow> u8" where
  "zero_frame addr = for_upto 0 (4096 div 4) (\<lambda>i. wr32 (addr + 4 * word_of_nat i) 0)"

definition kalloc :: "mm_t \<Rightarrow> (u32 \<times> mm_t) option" where
  "kalloc m =
     (if frame_top m < FRAME_NUM - 1
      then (let addr = empty_frame m (frame_top m)
            in Some (addr, m\<lparr>mem := zero_frame addr (mem m), frame_top := frame_top m + 1\<rparr>))
      else None)"

definition paddr_ok :: "u32 \<Rightarrow> bool" where "paddr_ok paddr = True"

definition kfree :: "u32 \<Rightarrow> mm_t \<Rightarrow> mm_t" where
  "kfree paddr m =
     (if paddr_ok paddr \<and> frame_top m > 0
      then m\<lparr>frame_top := frame_top m - 1, empty_frame := (empty_frame m)(frame_top m - 1 := paddr)\<rparr>
      else m)"

subsection \<open>Page tables\<close>

text \<open>The first level entry of a process for a virtual page number.\<close>

definition first_level :: "nat \<Rightarrow> u32 \<Rightarrow> kstate \<Rightarrow> u32 option" where
  "first_level p vpn s =
     (let i = unat (get_first_level_index vpn)
      in if i < FIRST_PTE_NUM then Some (secondary_pt (pcb s p) i) else None)"

definition pte_addr :: "u32 \<Rightarrow> u32 \<Rightarrow> u32" where
  "pte_addr second vpn = second + 8 * get_second_level_index vpn"

text \<open>The address of the page table entry; the inner \<open>None\<close> is the null pointer.\<close>

definition querry_PTE :: "u32 \<Rightarrow> int \<Rightarrow> kstate \<Rightarrow> u32 option option" where
  "querry_PTE vpn p s = do {
     proc \<leftarrow> get_proc_by_pid p s;
     second \<leftarrow> first_level proc vpn s;
     Some (if second \<noteq> 0 then Some (pte_addr second vpn) else None) }"

text \<open>One half of \<open>add_2_page\<close>: the entry for the page at \<open>base\<close>.\<close>

definition add_page :: "u32 \<Rightarrow> nat \<Rightarrow> kstate \<times> mm_t \<Rightarrow> (kstate \<times> mm_t) option" where
  "add_page base proc st = do {
     let (s, m) = st;
     let vpn = get_vpn base;
     let fst_i = unat (get_first_level_index vpn);
     second \<leftarrow> first_level proc vpn s;
     (s1, m1) \<leftarrow>
       (if second = 0
        then do {
          (page, m1) \<leftarrow> kalloc m;
          Some (upd_pcb proc (\<lambda>p. p\<lparr>secondary_pt := (secondary_pt p)(fst_i := page)\<rparr>) s, m1) }
        else Some (s, m));
     (frame, m2) \<leftarrow> kalloc m1;
     let entry = COMPRESS_ENTRYLO (get_pfn (get_paddr frame)) 2 1 1 0;
     let a = pte_addr (secondary_pt (pcb s1 proc) fst_i) vpn;
     Some (s1, m2\<lparr>mem := wr32 (a + 4) entry (wr32 a vpn (mem m2))\<rparr>) }"

definition add_2_page :: "u32 \<Rightarrow> int \<Rightarrow> kstate \<times> mm_t \<Rightarrow> (kstate \<times> mm_t) option" where
  "add_2_page vpn2 p st = do {
     let base = push_bit 13 vpn2;
     proc \<leftarrow> get_proc_by_pid p (fst st);
     st1 \<leftarrow> add_page base proc st;
     add_page (base + PAGE_SIZE) proc st1 }"

definition page_miss_handler :: "u32 \<Rightarrow> kstate \<times> mm_t \<Rightarrow> (kstate \<times> mm_t) option" where
  "page_miss_handler vpn2 st = do {
     c \<leftarrow> current_running (fst st);
     add_2_page vpn2 (pid (pcb (fst st) c)) st }"

subsection \<open>Copies between kernel and user memory\<close>

definition unmapped_of :: "u32 \<Rightarrow> u32 \<Rightarrow> u32" where
  "unmapped_of entry vaddr =
     (push_bit 6 (entry AND NOT 63) OR (vaddr AND 0xfff)) OR 0xa0000000"

definition copy_from_user :: "u32 \<Rightarrow> buffer \<Rightarrow> int \<Rightarrow> nat \<Rightarrow> kstate \<times> mm_t \<Rightarrow> buffer option" where
  "copy_from_user src dest src_pid sz st = do {
     pte \<leftarrow> querry_PTE (drop_bit 12 src) src_pid (fst st);
     a \<leftarrow> pte;
     let unmapped = unmapped_of (rd32 (mem (snd st)) (a + 4)) src;
     Some (for_upto 0 sz (\<lambda>i d. d(i := mem (snd st) (unmapped + word_of_nat i))) dest) }"

text \<open>The part of \<open>copy_to_user\<close> after the page has been found.\<close>

definition store_user :: "buffer \<Rightarrow> u32 \<Rightarrow> int \<Rightarrow> nat \<Rightarrow> kstate \<times> mm_t \<Rightarrow> (kstate \<times> mm_t) option" where
  "store_user src dest dest_pid sz st = do {
     pte \<leftarrow> querry_PTE (drop_bit 12 dest) dest_pid (fst st);
     a \<leftarrow> pte;
     let unmapped = unmapped_of (rd32 (mem (snd st)) (a + 4)) dest;
     Some (fst st, (snd st)\<lparr>mem :=
       for_upto 0 sz (\<lambda>i f. f(unmapped + word_of_nat i := src i)) (mem (snd st))\<rparr>) }"

definition copy_to_user :: "buffer \<Rightarrow> u32 \<Rightarrow> int \<Rightarrow> nat \<Rightarrow> kstate \<times> mm_t \<Rightarrow> (kstate \<times> mm_t) option" where
  "copy_to_user src dest dest_pid sz st = do {
     pte \<leftarrow> querry_PTE (drop_bit 12 dest) dest_pid (fst st);
     st1 \<leftarrow> (if pte = None then add_2_page (drop_bit 13 dest) dest_pid st else Some st);
     store_user src dest dest_pid sz st1 }"

subsection \<open>Pages\<close>

lemma unat_drop_12: "unat (drop_bit 12 (x :: u32)) = unat x div 4096"
  by (simp only: unat_drop_bit_eq) (simp add: drop_bit_eq_div)

lemma frame_start_shift: "get_frame_start x = push_bit 12 (drop_bit 12 x)"
proof -
  have "get_frame_start x = x AND NOT (mask 12)"
    by (simp add: get_frame_start_def mask_eq_exp_minus_1)
  also have "\<dots> = push_bit 12 (drop_bit 12 x)"
    by (rule bit_word_eqI)
      (auto simp only: bit_simps not_less le_add_diff_inverse possible_bit_word o_apply)
  finally show ?thesis .
qed

lemma unat_frame_start: "unat (get_frame_start x) = unat x div 4096 * 4096"
proof -
  have "unat x div 4096 * 4096 < 4294967296"
    using unat_u32_less [of x] div_times_less_eq_dividend [of "unat x" 4096] by linarith
  then show ?thesis
    by (simp add: frame_start_shift push_bit_eq_mult unat_word_ariths unat_drop_12 mult.commute)
qed

definition page_frame :: "u32 \<Rightarrow> bool" where
  "page_frame a \<longleftrightarrow> get_frame_start a = a"

lemma page_frame_unat: "page_frame a \<longleftrightarrow> 4096 dvd unat a"
  unfolding page_frame_def word_unat_eq_iff unat_frame_start by (metis dvd_div_mult_self dvd_triv_right)

lemma unat_page_offset:
  assumes "page_frame a" and "n < 4096"
  shows "unat (a + word_of_nat n) = unat a + n"
proof -
  obtain k where "unat a = 4096 * k"
    using assms(1) by (auto simp: page_frame_unat)
  moreover from this have "k \<le> 1048575" using unat_u32_less [of a] by linarith
  ultimately have "unat a \<le> 4294963200" by linarith
  then show ?thesis
    using assms(2) by (subst unat_add_u32) (auto simp: unat_of_nat_u32)
qed

lemma frame_start_offset:
  assumes "page_frame a" and "n < 4096"
  shows "get_frame_start (a + word_of_nat n) = a"
proof -
  have "4096 dvd unat a" using assms(1) by (simp add: page_frame_unat)
  then have "unat (get_frame_start (a + word_of_nat n)) = unat a"
    using assms by (auto simp: unat_frame_start unat_page_offset elim!: dvdE)
  then show ?thesis by (simp add: word_unat_eq_iff)
qed

lemma in_page:
  assumes "page_frame a" and "get_frame_start x = a"
  obtains n where "n < 4096" and "x = a + word_of_nat n"
proof -
  have *: "unat a + unat x mod 4096 = unat x"
    using assms(2) unat_frame_start [of x] by auto
  have "unat (a + word_of_nat (unat x mod 4096)) = unat x"
    using unat_page_offset [OF assms(1), of "unat x mod 4096"] * by simp
  then have "x = a + word_of_nat (unat x mod 4096)"
    by (simp only: word_unat_eq_iff)
  with that [of "unat x mod 4096"] show ?thesis by simp
qed

text \<open>The words of a page and the bytes of a word.\<close>

lemma addrs4_page:
  assumes "page_frame a" and "n + 3 < 4096" and "x \<in> addrs4 (a + word_of_nat n)"
  obtains k where "n \<le> k" "k < n + 4" and "x = a + word_of_nat k"
proof -
  have "x = a + word_of_nat n \<or> x = a + word_of_nat (n + 1) \<or> x = a + word_of_nat (n + 2)
      \<or> x = a + word_of_nat (n + 3)"
    using assms(3) by (auto simp: addrs4_def algebra_simps)
  then show ?thesis
    using that [of n] that [of "n + 1"] that [of "n + 2"] that [of "n + 3"] by auto
qed

lemma page_offset_inj:
  assumes "page_frame a" and "i < 4096" and "j < 4096"
  shows "a + word_of_nat i = a + word_of_nat j \<longleftrightarrow> i = j"
  using unat_page_offset [OF assms(1,2)] unat_page_offset [OF assms(1,3)]
  by (auto simp: word_unat_eq_iff)

lemma addrs4_page_disjoint:
  assumes "page_frame a" and "i + 3 < 4096" "j + 3 < 4096" and "i + 4 \<le> j \<or> j + 4 \<le> i"
  shows "addrs4 (a + word_of_nat i) \<inter> addrs4 (a + word_of_nat j) = {}"
proof -
  have False if x: "x \<in> addrs4 (a + word_of_nat i)" "x \<in> addrs4 (a + word_of_nat j)" for x
  proof -
    obtain k where k: "i \<le> k" "k < i + 4" "x = a + word_of_nat k"
      using addrs4_page [OF assms(1,2) x(1)] .
    obtain l where l: "j \<le> l" "l < j + 4" "x = a + word_of_nat l"
      using addrs4_page [OF assms(1,3) x(2)] .
    have "k = l" using k l assms(2,3) page_offset_inj [OF assms(1), of k l] by simp
    with k l assms(4) show False by linarith
  qed
  then show ?thesis by blast
qed

lemma addrs4_in_page:
  assumes "page_frame a" "n + 3 < 4096" "x \<in> addrs4 (a + word_of_nat n)"
  shows "get_frame_start x = a"
  by (rule addrs4_page [OF assms]) (use assms in \<open>simp add: frame_start_offset\<close>)

lemma addrs4_other_page:
  assumes "page_frame a" "page_frame b" "a \<noteq> b" "i + 3 < 4096" "j + 3 < 4096"
  shows "addrs4 (a + word_of_nat i) \<inter> addrs4 (b + word_of_nat j) = {}"
  using addrs4_in_page [OF assms(1,4)] addrs4_in_page [OF assms(2,5)] assms(3) by blast

subsection \<open>The frame allocator\<close>

lemma byte_of_zero [simp]: "byte_of k 0 = 0"
  by (simp add: byte_of_def)

lemma wr32_zero: "wr32 a 0 m x = (if x \<in> addrs4 a then 0 else m x)"
  by (simp add: wr32_def addrs4_def)

lemma addrs4_offset:
  "x \<in> addrs4 (a + word_of_nat n :: u32) \<longleftrightarrow> (\<exists>k. n \<le> k \<and> k < n + 4 \<and> x = a + word_of_nat k)"
proof -
  have "(\<exists>k. n \<le> k \<and> k < n + 4 \<and> x = a + word_of_nat k) \<longleftrightarrow>
      x = a + word_of_nat n \<or> x = a + word_of_nat (n + 1) \<or> x = a + word_of_nat (n + 2)
      \<or> x = a + word_of_nat (n + 3)" (is "?L = ?R")
  proof
    assume ?L
    then obtain k where k: "n \<le> k" "k < n + 4" "x = a + word_of_nat k" by auto
    from k(1,2) have "k = n \<or> k = n + 1 \<or> k = n + 2 \<or> k = n + 3" by linarith
    with k(3) show ?R by blast
  next
    assume ?R
    moreover have "n \<le> n + i \<and> n + i < n + 4" if "i < 4" for i using that by simp
    moreover have "n \<le> n \<and> n < n + 4" by simp
    ultimately show ?L by (metis numeral_less_iff one_less_numeral_iff semiring_norm(76,78,79,81))
  qed
  then show ?thesis by (simp add: addrs4_def algebra_simps)
qed

lemma if_or: "(if P then c else if Q then c else d) = (if P \<or> Q then c else d)"
  by simp

lemma zero_frame_upto:
  "for_upto 0 n (\<lambda>i. wr32 (a + 4 * word_of_nat i) 0) f (x :: u32) =
     (if \<exists>k < 4 * n. x = a + word_of_nat k then 0 else f x)"
proof (induction n)
  case 0
  then show ?case by simp
next
  case (Suc n)
  have addr: "a + 4 * word_of_nat n = a + word_of_nat (4 * n)" by simp
  have lt: "k < 4 * Suc n \<longleftrightarrow> (4 * n \<le> k \<and> k < 4 * n + 4) \<or> k < 4 * n" for k by auto
  have ex: "(\<exists>k < 4 * Suc n. x = a + word_of_nat k) \<longleftrightarrow>
      x \<in> addrs4 (a + word_of_nat (4 * n)) \<or> (\<exists>k < 4 * n. x = a + word_of_nat k)"
    unfolding addrs4_offset lt by blast
  show ?case
    unfolding ex if_or [symmetric] Suc.IH [symmetric]
    by (subst for_upto_Suc [OF le0]) (simp only: addr wr32_zero)
qed

lemma zero_frame_page:
  assumes "page_frame a"
  shows "zero_frame a f x = (if get_frame_start x = a then 0 else f x)"
proof -
  have "(\<exists>k < 4096. x = a + word_of_nat k) \<longleftrightarrow> get_frame_start x = a"
    using in_page [OF assms] frame_start_offset [OF assms] by blast
  then show ?thesis by (simp add: zero_frame_def zero_frame_upto)
qed

text \<open>The page frames the kernel hands out and the invariant of the stack: \<open>A\<close> is the set of frames
  that are allocated.\<close>

definition frame_at :: "nat \<Rightarrow> u32" where
  "frame_at i = 0xa08f0000 + 4096 * word_of_nat i"

definition frames :: "u32 set" where
  "frames = frame_at ` {..<FRAME_NUM}"

definition free_frames :: "mm_t \<Rightarrow> u32 set" where
  "free_frames m = empty_frame m ` {frame_top m..<FRAME_NUM}"

definition mm_inv :: "mm_t \<Rightarrow> u32 set \<Rightarrow> bool" where
  "mm_inv m A \<longleftrightarrow>
     inj_on (empty_frame m) {frame_top m..<FRAME_NUM} \<and> A \<inter> free_frames m = {} \<and>
     A \<union> free_frames m = frames \<and> card A = frame_top m \<and> frame_top m < FRAME_NUM"

lemma unat_frame_at: "i < FRAME_NUM \<Longrightarrow> unat (frame_at i) = 2693726208 + 4096 * i"
proof -
  assume i: "i < FRAME_NUM"
  have "frame_at i = word_of_nat (2693726208 + 4096 * i)" by (simp add: frame_at_def)
  also have "unat \<dots> = 2693726208 + 4096 * i" using i by (subst unat_of_nat_u32) auto
  finally show ?thesis .
qed

lemma inj_frame_at: "inj_on frame_at {..<FRAME_NUM}"
proof (rule inj_onI)
  fix i j assume "i \<in> {..<FRAME_NUM}" "j \<in> {..<FRAME_NUM}" "frame_at i = frame_at j"
  then have "2693726208 + 4096 * i = 2693726208 + 4096 * j"
    using unat_frame_at [of i] unat_frame_at [of j] by (metis lessThan_iff)
  then show "i = j" by simp
qed

lemma frames_page: "a \<in> frames \<Longrightarrow> page_frame a"
proof -
  assume "a \<in> frames"
  then obtain i where "i < FRAME_NUM" "a = frame_at i" unfolding frames_def by blast
  then have "unat a = 4096 * (657648 + i)" by (simp add: unat_frame_at)
  then show ?thesis by (simp add: page_frame_unat)
qed

lemma frames_nonzero: "a \<in> frames \<Longrightarrow> a \<noteq> 0"
proof -
  assume "a \<in> frames"
  then obtain i where "i < FRAME_NUM" "a = frame_at i" unfolding frames_def by blast
  then have "unat a \<noteq> 0" by (simp add: unat_frame_at)
  then show ?thesis by auto
qed

lemma finite_frames: "finite frames"
  by (simp add: frames_def)

lemma mm_invD:
  assumes "mm_inv m A"
  shows "A \<subseteq> frames" "finite A" "card A = frame_top m"
  using assms finite_subset [OF _ finite_frames, of A] by (auto simp: mm_inv_def)

lemma do_mem_init_frames:
  "for_upto 0 n (\<lambda>i (fr, start). (fr(i := start), start + PAGE_SIZE)) (fr, frame_at 0) =
     (\<lambda>i. if i < n then frame_at i else fr i, frame_at n)"
  by (induction n) (auto simp: for_upto_Suc fun_eq_iff frame_at_def algebra_simps less_Suc_eq)

lemma do_mem_init_inv: "mm_inv (do_mem_init m) {}"
proof -
  have "frame_at 0 = 0xa08f0000" by (simp add: frame_at_def)
  then have m: "empty_frame (do_mem_init m) = (\<lambda>i. if i < FRAME_NUM then frame_at i else empty_frame m i)"
    "frame_top (do_mem_init m) = 0"
    using do_mem_init_frames [of FRAME_NUM "empty_frame m"] by (simp_all add: do_mem_init_def)
  have "inj_on (empty_frame (do_mem_init m)) {0..<FRAME_NUM}"
    using inj_frame_at by (auto simp: m inj_on_def)
  then show ?thesis
    by (auto simp: mm_inv_def free_frames_def frames_def m atLeast0LessThan)
qed

lemma kalloc_fresh:
  assumes inv: "mm_inv m A" and cap: "card A < FRAME_NUM - 1"
  obtains a m' where "kalloc m = Some (a, m')" and "a = empty_frame m (frame_top m)"
    and "a \<notin> A" and "a \<in> frames"
    and "mm_inv m' (insert a A)" and "empty_frame m' = empty_frame m" and "frame_top m' = Suc (frame_top m)"
    and "\<And>x. mem m' x = (if get_frame_start x = a then 0 else mem m x)"
proof -
  define a where "a = empty_frame m (frame_top m)"
  define m' where "m' = m\<lparr>mem := zero_frame a (mem m), frame_top := frame_top m + 1\<rparr>"
  have m': "empty_frame m' = empty_frame m" "frame_top m' = Suc (frame_top m)" "mem m' = zero_frame a (mem m)"
    by (simp_all add: m'_def)
  from inv cap have lt: "frame_top m < FRAME_NUM - 1" by (simp add: mm_inv_def)
  then have split: "{frame_top m..<FRAME_NUM} = insert (frame_top m) {frame_top m'..<FRAME_NUM}"
    unfolding m' by auto
  have inj: "inj_on (empty_frame m) (insert (frame_top m) {frame_top m'..<FRAME_NUM})"
    using inv by (simp only: mm_inv_def split)
  have free: "free_frames m = insert a (free_frames m')"
    unfolding free_frames_def split by (simp add: a_def m')
  have fresh: "a \<notin> free_frames m'"
    using inj lt by (auto simp: free_frames_def a_def m' inj_on_def)
  have a: "a \<notin> A" "a \<in> frames"
    using inv free by (auto simp: mm_inv_def)
  have inj': "inj_on (empty_frame m') {frame_top m'..<FRAME_NUM}"
    using inj by (simp add: m' inj_on_def)
  have "finite A" "card A = frame_top m" using mm_invD [OF inv] by simp_all
  then have card: "card (insert a A) = frame_top m'" using a by (simp add: m')
  have "insert a A \<inter> free_frames m' = {}" "insert a A \<union> free_frames m' = frames"
    using inv free fresh by (auto simp: mm_inv_def)
  with inj' card lt have inv': "mm_inv m' (insert a A)" by (simp add: mm_inv_def m')
  have "kalloc m = Some (a, m')" using lt by (simp add: kalloc_def a_def m'_def Let_def)
  moreover have "mem m' x = (if get_frame_start x = a then 0 else mem m x)" for x
    using zero_frame_page [OF frames_page [OF a(2)]] by (simp add: m')
  ultimately show ?thesis using that a inv' m' a_def by blast
qed

lemma kfree_inv:
  assumes inv: "mm_inv m A" and a: "a \<in> A"
  shows "mm_inv (kfree a m) (A - {a})" "mem (kfree a m) = mem m"
proof -
  have fin: "finite A" "card A = frame_top m" using mm_invD [OF inv] by simp_all
  with a have top_pos: "0 < frame_top m" using card_gt_0_iff [of A] by auto
  then obtain k where k: "frame_top m = Suc k" by (cases "frame_top m") auto
  have m': "kfree a m = m\<lparr>frame_top := k, empty_frame := (empty_frame m)(k := a)\<rparr>"
    by (simp add: kfree_def paddr_ok_def k)
  have lt: "k < FRAME_NUM" "Suc k < FRAME_NUM" using inv by (simp_all add: mm_inv_def k)
  have split: "{k..<FRAME_NUM} = insert k {Suc k..<FRAME_NUM}" using lt by auto
  have img: "(empty_frame m)(k := a) ` {Suc k..<FRAME_NUM} = free_frames m"
    by (auto simp: free_frames_def k)
  have "a \<notin> free_frames m" using inv a by (auto simp: mm_inv_def)
  then have "inj_on ((empty_frame m)(k := a)) {k..<FRAME_NUM}"
    using inv img by (auto simp: split mm_inv_def k inj_on_def)
  moreover have free: "free_frames (kfree a m) = insert a (free_frames m)"
    by (auto simp: m' free_frames_def split k image_iff)
  moreover have "card (A - {a}) = k" using fin a k by simp
  ultimately show "mm_inv (kfree a m) (A - {a})"
    using inv a lt by (auto simp: mm_inv_def m')
  show "mem (kfree a m) = mem m" by (simp add: m')
qed

interpretation mm: allocator kalloc kfree mm_inv "FRAME_NUM - 1"
proof
  fix m A assume "mm_inv m A" "card A < FRAME_NUM - 1"
  then obtain a m' where "kalloc m = Some (a, m')" "a \<notin> A" "mm_inv m' (insert a A)"
    by (rule kalloc_fresh)
  then show "\<exists>a m'. kalloc m = Some (a, m') \<and> a \<notin> A \<and> mm_inv m' (insert a A)"
    by (intro exI conjI)
next
  fix m A assume "mm_inv m A" "FRAME_NUM - 1 \<le> card A"
  then show "kalloc m = None" by (simp add: kalloc_def mm_inv_def)
next
  fix m A and a :: u32 assume "mm_inv m A" "a \<in> A"
  then show "mm_inv (kfree a m) (A - {a})" by (rule kfree_inv)
next
  fix m A assume "mm_inv m A"
  then show "finite A" by (rule mm_invD)
qed

subsection \<open>Page tables\<close>

definition pt_ok :: "kstate \<Rightarrow> u32 set \<Rightarrow> nat \<Rightarrow> bool" where
  "pt_ok s A q \<longleftrightarrow>
     (\<forall>i < FIRST_PTE_NUM. secondary_pt (pcb s q) i \<noteq> 0 \<longrightarrow> secondary_pt (pcb s q) i \<in> A) \<and>
     (\<forall>i < FIRST_PTE_NUM. \<forall>j < FIRST_PTE_NUM. secondary_pt (pcb s q) i = secondary_pt (pcb s q) j \<longrightarrow>
        secondary_pt (pcb s q) i \<noteq> 0 \<longrightarrow> i = j)"

definition entry_of :: "u32 \<Rightarrow> u32" where
  "entry_of f = COMPRESS_ENTRYLO (get_pfn (get_paddr f)) 2 1 1 0"

lemma pt_okD: "pt_ok s A q \<Longrightarrow> i < FIRST_PTE_NUM \<Longrightarrow> secondary_pt (pcb s q) i \<noteq> 0 \<Longrightarrow>
   secondary_pt (pcb s q) i \<in> A"
  by (simp add: pt_ok_def)

lemma pt_ok_inj:
  "pt_ok s A q \<Longrightarrow> i < FIRST_PTE_NUM \<Longrightarrow> j < FIRST_PTE_NUM \<Longrightarrow>
     secondary_pt (pcb s q) i = secondary_pt (pcb s q) j \<Longrightarrow> secondary_pt (pcb s q) i \<noteq> 0 \<Longrightarrow> i = j"
  unfolding pt_ok_def by blast

definition set_second :: "nat \<Rightarrow> nat \<Rightarrow> u32 \<Rightarrow> kstate \<Rightarrow> kstate" where
  "set_second q i t = upd_pcb q (\<lambda>p. p\<lparr>secondary_pt := (secondary_pt p)(i := t)\<rparr>)"

lemma set_second_simps [simp]:
  "secondary_pt (pcb (set_second q i t s) q) = (secondary_pt (pcb s q))(i := t)"
  "status (pcb (set_second q i t s) k) = status (pcb s k)"
  "get_proc_by_pid p (set_second q i t s) = get_proc_by_pid p s"
  by (simp_all add: set_second_def upd_pcb_def get_proc_by_pid_def)

lemma set_second_same: "secondary_pt (pcb s q) i = t \<Longrightarrow> set_second q i t s = s"
proof -
  assume "secondary_pt (pcb s q) i = t"
  then have "(pcb s)(q := (pcb s q)\<lparr>secondary_pt := (secondary_pt (pcb s q))(i := t)\<rparr>) = pcb s"
    by (simp add: fun_eq_iff)
  then show ?thesis by (simp add: set_second_def upd_pcb_def)
qed

lemma add_page_spec:
  assumes inv: "mm_inv m A" and pt: "pt_ok s A q" and cap: "card A + 2 \<le> FRAME_NUM - 1"
    and i: "unat (get_first_level_index (get_vpn base)) = i" "i < FIRST_PTE_NUM"
  obtains m' t f A' m1 where
    "add_page base q (s, m) = Some (set_second q i t s, m')"
    "mm_inv m' A'" "pt_ok (set_second q i t s) A' q" "A \<subseteq> A'" "card A' \<le> card A + 2"
    "t \<in> A'" "f \<in> A'" "f \<noteq> t" "f \<notin> A"
    "secondary_pt (pcb s q) i \<noteq> 0 \<Longrightarrow> t = secondary_pt (pcb s q) i"
    "secondary_pt (pcb s q) i = 0 \<Longrightarrow> t \<notin> A"
    "mem m' = wr32 (pte_addr t (get_vpn base) + 4) (entry_of f) (wr32 (pte_addr t (get_vpn base)) (get_vpn base) m1)"
    "\<And>x. get_frame_start x \<in> A \<Longrightarrow> m1 x = mem m x"
    "empty_frame m' = empty_frame m" "frame_top m' \<le> frame_top m + 2"
    "\<exists>k < 2. f = empty_frame m (frame_top m + k)"
proof (cases "secondary_pt (pcb s q) i = 0")
  case True
  have cap0: "card A < FRAME_NUM - 1" using cap by simp
  obtain t m1 where t: "kalloc m = Some (t, m1)" "t = empty_frame m (frame_top m)" "t \<notin> A" "t \<in> frames"
    "mm_inv m1 (insert t A)" "empty_frame m1 = empty_frame m" "frame_top m1 = Suc (frame_top m)"
    "\<And>x. mem m1 x = (if get_frame_start x = t then 0 else mem m x)"
    by (rule kalloc_fresh [OF inv cap0]) (rule that, assumption+)
  have "finite A" using mm_invD [OF inv] by simp
  then have cap1: "card (insert t A) < FRAME_NUM - 1" using cap t(3) by simp
  obtain f m2 where f: "kalloc m1 = Some (f, m2)" "f = empty_frame m1 (frame_top m1)"
    "f \<notin> insert t A" "f \<in> frames"
    "mm_inv m2 (insert f (insert t A))" "empty_frame m2 = empty_frame m1" "frame_top m2 = Suc (frame_top m1)"
    "\<And>x. mem m2 x = (if get_frame_start x = f then 0 else mem m1 x)"
    by (rule kalloc_fresh [OF t(5) cap1]) (rule that, assumption+)
  define a where "a = pte_addr t (get_vpn base)"
  define m' where "m' = m2\<lparr>mem := wr32 (a + 4) (entry_of f) (wr32 a (get_vpn base) (mem m2))\<rparr>"
  have m': "mem m' = wr32 (a + 4) (entry_of f) (wr32 a (get_vpn base) (mem m2))"
    "empty_frame m' = empty_frame m2" "frame_top m' = frame_top m2"
    by (simp_all add: m'_def)
  show ?thesis
  proof (rule that [of t m' "insert f (insert t A)" f "mem m2"])
    show "add_page base q (s, m) = Some (set_second q i t s, m')"
      using i True t(1) f(1)
      by (simp add: add_page_def first_level_def Let_def set_second_def upd_pcb_def m'_def a_def entry_of_def)
    show "mm_inv m' (insert f (insert t A))" using f(5) by (simp add: mm_inv_def free_frames_def m')
    show "pt_ok (set_second q i t s) (insert f (insert t A)) q"
      unfolding pt_ok_def set_second_simps using pt t(3)
      by (auto simp: pt_okD dest: pt_ok_inj [OF pt])
    show "card (insert f (insert t A)) \<le> card A + 2" using \<open>finite A\<close> by (simp add: card_insert_if)
    show "\<exists>k < 2. f = empty_frame m (frame_top m + k)" using f(2) t(6,7) by (intro exI [of _ 1]) simp
    fix x assume "get_frame_start x \<in> A"
    then show "mem m2 x = mem m x" using f(3,8) t(3,8) by auto
  qed (use t f m' True in \<open>auto simp: a_def\<close>)
next
  case False
  define t where "t = secondary_pt (pcb s q) i"
  have tA: "t \<in> A" using pt_okD [OF pt i(2)] False by (simp add: t_def)
  have cap1: "card A < FRAME_NUM - 1" using cap by simp
  obtain f m2 where f: "kalloc m = Some (f, m2)" "f = empty_frame m (frame_top m)"
    "f \<notin> A" "f \<in> frames"
    "mm_inv m2 (insert f A)" "empty_frame m2 = empty_frame m" "frame_top m2 = Suc (frame_top m)"
    "\<And>x. mem m2 x = (if get_frame_start x = f then 0 else mem m x)"
    by (rule kalloc_fresh [OF inv cap1]) (rule that, assumption+)
  define a where "a = pte_addr t (get_vpn base)"
  define m' where "m' = m2\<lparr>mem := wr32 (a + 4) (entry_of f) (wr32 a (get_vpn base) (mem m2))\<rparr>"
  have m': "mem m' = wr32 (a + 4) (entry_of f) (wr32 a (get_vpn base) (mem m2))"
    "empty_frame m' = empty_frame m2" "frame_top m' = frame_top m2"
    by (simp_all add: m'_def)
  have same: "set_second q i t s = s" by (rule set_second_same) (simp add: t_def)
  show ?thesis
  proof (rule that [of t m' "insert f A" f "mem m2"])
    show "add_page base q (s, m) = Some (set_second q i t s, m')"
      unfolding same using i False f(1)
      by (simp add: add_page_def first_level_def Let_def t_def [symmetric] m'_def a_def entry_of_def)
    show "mm_inv m' (insert f A)" using f(5) by (simp add: mm_inv_def free_frames_def m')
    show "pt_ok (set_second q i t s) (insert f A) q" using pt by (simp add: same pt_ok_def)
    show "card (insert f A) \<le> card A + 2" using card_insert_le_m1 [of "card A + 2" A f] by simp
    show "\<exists>k < 2. f = empty_frame m (frame_top m + k)" using f(2) by (intro exI [of _ 0]) simp
    fix x assume "get_frame_start x \<in> A"
    then show "mem m2 x = mem m x" using f(3,8) by auto
  qed (use tA f m' False in \<open>auto simp: a_def t_def\<close>)
qed

text \<open>The two virtual page numbers of a pair and the place of their entries.\<close>

lemma vpn_pair:
  assumes "unat vpn2 < 262144"
  shows "unat (get_vpn (push_bit 13 vpn2)) = 2 * unat vpn2"
    and "unat (get_vpn (push_bit 13 vpn2 + PAGE_SIZE)) = 2 * unat vpn2 + 1"
proof -
  have base: "unat (push_bit 13 vpn2) = 8192 * unat vpn2"
    using assms by (simp add: push_bit_eq_mult unat_word_ariths)
  then show "unat (get_vpn (push_bit 13 vpn2)) = 2 * unat vpn2"
    by (simp only: get_vpn_def unat_drop_12)
  have "unat (push_bit 13 vpn2 + PAGE_SIZE) = 8192 * unat vpn2 + 4096"
    using assms base by (subst unat_add_u32) simp_all
  then show "unat (get_vpn (push_bit 13 vpn2 + PAGE_SIZE)) = 2 * unat vpn2 + 1"
    by (simp only: get_vpn_def unat_drop_12)
qed

lemma unat_first_index: "unat (get_first_level_index vpn) = unat vpn div 512"
  unfolding get_first_level_index_def by (simp only: unat_drop_bit_eq) (simp add: drop_bit_eq_div)

lemma unat_second_index: "unat (get_second_level_index vpn) = unat vpn mod 512"
proof -
  have "get_second_level_index vpn = take_bit 9 vpn"
    by (simp add: get_second_level_index_def take_bit_eq_mask mask_eq_exp_minus_1)
  then show ?thesis by (simp only: unsigned_take_bit_eq) (simp add: take_bit_eq_mod)
qed

lemma pte_addr_page: "pte_addr t vpn = t + word_of_nat (8 * (unat vpn mod 512))"
proof -
  have "word_of_nat (8 * unat (get_second_level_index vpn)) = 8 * get_second_level_index vpn" by simp
  then show ?thesis by (simp only: pte_addr_def unat_second_index)
qed

lemma pte_addr_page4: "pte_addr t vpn + 4 = t + word_of_nat (8 * (unat vpn mod 512) + 4)"
  by (simp add: pte_addr_page)

lemma pte_bounds: "8 * (k mod 512) + 3 < (4096 :: nat)" "8 * (k mod 512) + 4 + 3 < (4096 :: nat)"
  using mod_less_divisor [of 512 k] by linarith+

text \<open>Reading an entry that was written, and entries of other pages.\<close>

definition write_pte :: "u32 \<Rightarrow> u32 \<Rightarrow> u32 \<Rightarrow> (u32 \<Rightarrow> u8) \<Rightarrow> u32 \<Rightarrow> u8" where
  "write_pte t vpn e f = wr32 (pte_addr t vpn + 4) e (wr32 (pte_addr t vpn) vpn f)"

lemma read_written_pte:
  assumes "page_frame t"
  shows "rd32 (write_pte t vpn e f) (pte_addr t vpn) = vpn"
    and "rd32 (write_pte t vpn e f) (pte_addr t vpn + 4) = e"
proof -
  have "addrs4 (pte_addr t vpn) \<inter> addrs4 (pte_addr t vpn + 4) = {}"
    unfolding pte_addr_page4 unfolding pte_addr_page
    by (rule addrs4_page_disjoint [OF assms pte_bounds]) simp
  then show "rd32 (write_pte t vpn e f) (pte_addr t vpn) = vpn"
    by (simp add: write_pte_def rd32_wr32_other)
  show "rd32 (write_pte t vpn e f) (pte_addr t vpn + 4) = e"
    by (simp add: write_pte_def)
qed

lemma read_other_pte:
  assumes t: "page_frame t" and n: "unat vpn mod 512 \<noteq> unat vpn' mod 512"
  shows "rd32 (write_pte t vpn e f) (pte_addr t vpn') = rd32 f (pte_addr t vpn')"
    and "rd32 (write_pte t vpn e f) (pte_addr t vpn' + 4) = rd32 f (pte_addr t vpn' + 4)"
proof -
  let ?k = "8 * (unat vpn mod 512)" and ?k' = "8 * (unat vpn' mod 512)"
  have far: "?k + 8 \<le> ?k' \<or> ?k' + 8 \<le> ?k" using n by linarith
  note bounds = pte_bounds [of "unat vpn"] pte_bounds [of "unat vpn'"]
  have "addrs4 (t + word_of_nat i) \<inter> addrs4 (t + word_of_nat j) = {}"
    if "i = ?k' \<or> i = ?k' + 4" "j = ?k \<or> j = ?k + 4" for i j
    by (rule addrs4_page_disjoint [OF t]) (use that far bounds in linarith)+
  then show "rd32 (write_pte t vpn e f) (pte_addr t vpn') = rd32 f (pte_addr t vpn')"
    "rd32 (write_pte t vpn e f) (pte_addr t vpn' + 4) = rd32 f (pte_addr t vpn' + 4)"
    unfolding write_pte_def pte_addr_page4 unfolding pte_addr_page
    by (simp_all only: rd32_wr32_other simp_thms)
qed

lemma write_pte_outside: "page_frame t \<Longrightarrow> get_frame_start x \<noteq> t \<Longrightarrow> write_pte t vpn e f x = f x"
  unfolding write_pte_def pte_addr_page4 unfolding pte_addr_page
  using addrs4_in_page [of t _ x] pte_bounds [of "unat vpn"] by (metis wr32_outside)

text \<open>The page \<open>vpn\<close> of process \<open>p\<close> is mapped to the frame \<open>f\<close>.\<close>

definition maps :: "kstate \<Rightarrow> mm_t \<Rightarrow> int \<Rightarrow> u32 \<Rightarrow> u32 \<Rightarrow> bool" where
  "maps s m p vpn f \<longleftrightarrow>
     (case querry_PTE vpn p s of
        Some (Some a) \<Rightarrow> rd32 (mem m) a = vpn \<and> rd32 (mem m) (a + 4) = entry_of f
      | _ \<Rightarrow> False)"

lemma querry_PTE_eq:
  assumes "get_proc_by_pid p s = Some q" and "unat vpn div 512 < FIRST_PTE_NUM"
  shows "querry_PTE vpn p s =
    Some (if secondary_pt (pcb s q) (unat vpn div 512) \<noteq> 0
          then Some (pte_addr (secondary_pt (pcb s q) (unat vpn div 512)) vpn) else None)"
  using assms by (simp add: querry_PTE_def first_level_def unat_first_index Let_def)

lemma maps_iff:
  assumes "get_proc_by_pid p s = Some q"
  shows "maps s m p vpn f \<longleftrightarrow> unat vpn div 512 < FIRST_PTE_NUM \<and>
    (let t = secondary_pt (pcb s q) (unat vpn div 512)
     in t \<noteq> 0 \<and> rd32 (mem m) (pte_addr t vpn) = vpn \<and> rd32 (mem m) (pte_addr t vpn + 4) = entry_of f)"
proof (cases "unat vpn div 512 < FIRST_PTE_NUM")
  case True
  then show ?thesis by (simp add: maps_def querry_PTE_eq [OF assms] Let_def)
next
  case False
  then show ?thesis
    using assms by (simp add: maps_def querry_PTE_def first_level_def unat_first_index Let_def)
qed

lemma rd32_same_page:
  assumes "page_frame t" "n + 3 < 4096" "\<And>x. get_frame_start x = t \<Longrightarrow> f x = g x"
  shows "rd32 f (t + word_of_nat n) = rd32 g (t + word_of_nat n)"
  by (rule rd32_cong) (use addrs4_in_page [OF assms(1,2)] assms(3) in blast)

lemma read_pte_cong:
  assumes "page_frame t" "\<And>x. get_frame_start x = t \<Longrightarrow> f x = g x"
  shows "rd32 f (pte_addr t vpn) = rd32 g (pte_addr t vpn)"
    and "rd32 f (pte_addr t vpn + 4) = rd32 g (pte_addr t vpn + 4)"
proof -
  show "rd32 f (pte_addr t vpn) = rd32 g (pte_addr t vpn)"
    unfolding pte_addr_page by (rule rd32_same_page [OF assms(1) pte_bounds(1) assms(2)])
  show "rd32 f (pte_addr t vpn + 4) = rd32 g (pte_addr t vpn + 4)"
    unfolding pte_addr_page4 by (rule rd32_same_page [OF assms(1) pte_bounds(2) assms(2)])
qed

text \<open>Writing the entry of one page keeps the mappings of all others.\<close>

lemma maps_kept:
  assumes inv: "mm_inv m A" and pt: "pt_ok s A q" and proc: "get_proc_by_pid p s = Some q"
    and i: "unat vpn div 512 = i" "i < FIRST_PTE_NUM" and t: "t \<in> frames"
    and told: "secondary_pt (pcb s q) i \<noteq> 0 \<Longrightarrow> t = secondary_pt (pcb s q) i"
    and tnew: "secondary_pt (pcb s q) i = 0 \<Longrightarrow> t \<notin> A"
    and m': "mem m' = write_pte t vpn e m1" and m1: "\<And>x. get_frame_start x \<in> A \<Longrightarrow> m1 x = mem m x"
    and v: "maps s m p v g" "v \<noteq> vpn"
  shows "maps (set_second q i t s) m' p v g"
proof -
  let ?j = "unat v div 512"
  define u where "u = secondary_pt (pcb s q) ?j"
  have old: "?j < FIRST_PTE_NUM" "u \<noteq> 0" "rd32 (mem m) (pte_addr u v) = v"
    "rd32 (mem m) (pte_addr u v + 4) = entry_of g"
    using v(1) by (simp_all add: maps_iff [OF proc] u_def Let_def)
  have u: "u \<in> A" using pt_okD [OF pt old(1)] old(2) by (simp add: u_def)
  have pu: "page_frame u" and ptf: "page_frame t"
    using u mm_invD(1) [OF inv] t frames_page by blast+
  have same: "rd32 (mem m) (pte_addr u v) = rd32 m1 (pte_addr u v)"
      "rd32 (mem m) (pte_addr u v + 4) = rd32 m1 (pte_addr u v + 4)"
    using read_pte_cong [OF pu, of "mem m" m1] m1 u by simp_all
  have new: "secondary_pt (pcb (set_second q i t s) q) ?j = u"
    using told old(2) by (auto simp: u_def)
  have "rd32 (mem m') (pte_addr u v) = v \<and> rd32 (mem m') (pte_addr u v + 4) = entry_of g"
  proof (cases "t = u")
    case True
    have "?j = i"
    proof (cases "secondary_pt (pcb s q) i = 0")
      case False
      then show ?thesis
        using pt_ok_inj [OF pt i(2) old(1)] told True by (simp add: u_def)
    qed (use tnew True u in blast)
    then have "unat vpn mod 512 \<noteq> unat v mod 512"
      using v(2) i by (metis div_mult_mod_eq word_unat_eq_iff)
    then show ?thesis
      using read_other_pte [OF ptf] old same by (simp add: m' True)
  next
    case False
    then have "mem m' x = m1 x" if "get_frame_start x = u" for x
      using that write_pte_outside [OF ptf] by (simp add: m')
    then show ?thesis
      using read_pte_cong [OF pu, of "mem m'" m1] old same by simp
  qed
  then show ?thesis
    using old(1,2) new proc by (simp add: maps_iff [of p _ q] Let_def)
qed

lemma add_page_maps:
  assumes inv: "mm_inv m A" and pt: "pt_ok s A q" and cap: "card A + 2 \<le> FRAME_NUM - 1"
    and proc: "get_proc_by_pid p s = Some q" and i: "unat (get_vpn base) div 512 < FIRST_PTE_NUM"
  obtains s' m' A' f where
    "add_page base q (s, m) = Some (s', m')" "mm_inv m' A'" "pt_ok s' A' q"
    "A \<subseteq> A'" "card A' \<le> card A + 2" "f \<in> A'" "f \<notin> A"
    "get_proc_by_pid p s' = Some q" "maps s' m' p (get_vpn base) f"
    "\<forall>v g. v \<noteq> get_vpn base \<longrightarrow> maps s m p v g \<longrightarrow> maps s' m' p v g"
    "empty_frame m' = empty_frame m" "frame_top m' \<le> frame_top m + 2"
    "\<exists>k < 2. f = empty_frame m (frame_top m + k)"
    "f \<noteq> secondary_pt (pcb s' q) (unat (get_vpn base) div 512)"
    "\<forall>j. secondary_pt (pcb s q) j \<noteq> 0 \<longrightarrow> secondary_pt (pcb s' q) j = secondary_pt (pcb s q) j"
proof -
  let ?vpn = "get_vpn base"
  define i where "i = unat ?vpn div 512"
  have ii: "unat (get_first_level_index ?vpn) = i" "i < FIRST_PTE_NUM"
    using assms(5) by (simp_all add: i_def unat_first_index)
  obtain m' t f A' m1 where
    ok: "add_page base q (s, m) = Some (set_second q i t s, m')"
    and inv': "mm_inv m' A'" and pt': "pt_ok (set_second q i t s) A' q"
    and A': "A \<subseteq> A'" "card A' \<le> card A + 2"
    and tf: "t \<in> A'" "f \<in> A'" "f \<noteq> t" "f \<notin> A"
    and t: "secondary_pt (pcb s q) i \<noteq> 0 \<Longrightarrow> t = secondary_pt (pcb s q) i"
      "secondary_pt (pcb s q) i = 0 \<Longrightarrow> t \<notin> A"
    and m': "mem m' = wr32 (pte_addr t ?vpn + 4) (entry_of f) (wr32 (pte_addr t ?vpn) ?vpn m1)"
    and m1: "\<And>x. get_frame_start x \<in> A \<Longrightarrow> m1 x = mem m x"
    and st: "empty_frame m' = empty_frame m" "frame_top m' \<le> frame_top m + 2"
      "\<exists>k < 2. f = empty_frame m (frame_top m + k)"
    by (rule add_page_spec [OF inv pt cap ii]) (rule that, assumption+)
  have tF: "t \<in> frames" using tf(1) mm_invD(1) [OF inv'] by blast
  have w: "mem m' = write_pte t ?vpn (entry_of f) m1" by (simp add: m' write_pte_def)
  have proc': "get_proc_by_pid p (set_second q i t s) = Some q" using proc by simp
  have "maps (set_second q i t s) m' p ?vpn f"
    unfolding maps_iff [OF proc'] i_def [symmetric]
    using ii(2) frames_nonzero [OF tF] read_written_pte [OF frames_page [OF tF]]
    by (simp add: w Let_def)
  moreover have "\<forall>v g. v \<noteq> ?vpn \<longrightarrow> maps s m p v g \<longrightarrow> maps (set_second q i t s) m' p v g"
    using maps_kept [OF inv pt proc i_def [symmetric] ii(2) tF t w m1] by blast
  moreover have "\<forall>j. secondary_pt (pcb s q) j \<noteq> 0 \<longrightarrow>
      secondary_pt (pcb (set_second q i t s) q) j = secondary_pt (pcb s q) j" using t(1) by auto
  ultimately show ?thesis
    using that [OF ok inv' pt' A' tf(2,4) proc'] st tf(3) by (simp add: i_def)
qed

text \<open>The table of the process that holds the entry of a page.\<close>

abbreviation table_of :: "kstate \<Rightarrow> nat \<Rightarrow> u32 \<Rightarrow> u32" where
  "table_of s q vpn \<equiv> secondary_pt (pcb s q) (unat vpn div 512)"

lemma add_2_page_spec:
  assumes inv: "mm_inv m A" and pt: "pt_ok s A q" and cap: "card A + 4 \<le> FRAME_NUM - 1"
    and proc: "get_proc_by_pid p s = Some q" and v: "unat vpn2 < 262144"
  obtains s' m' A' f0 f1 where "add_2_page vpn2 p (s, m) = Some (s', m')"
    "mm_inv m' A'" "pt_ok s' A' q" "A \<subseteq> A'" "f0 \<in> A' - A" "f1 \<in> A' - A" "f0 \<noteq> f1"
    "get_proc_by_pid p s' = Some q"
    "maps s' m' p (get_vpn (push_bit 13 vpn2)) f0"
    "maps s' m' p (get_vpn (push_bit 13 vpn2 + PAGE_SIZE)) f1"
    "\<forall>w g. unat w div 2 \<noteq> unat vpn2 \<and> maps s m p w g \<longrightarrow> maps s' m' p w g"
    "f0 \<noteq> table_of s' q (get_vpn (push_bit 13 vpn2))"
    "f1 \<noteq> table_of s' q (get_vpn (push_bit 13 vpn2 + PAGE_SIZE))"
    "\<exists>k < 4. f0 = empty_frame m (frame_top m + k)" "\<exists>k < 4. f1 = empty_frame m (frame_top m + k)"
proof -
  let ?b0 = "push_bit 13 vpn2" and ?b1 = "push_bit 13 vpn2 + PAGE_SIZE"
  note vpn = vpn_pair [OF v]
  have cap0: "card A + 2 \<le> FRAME_NUM - 1" using cap by simp
  have i0: "unat (get_vpn ?b0) div 512 < FIRST_PTE_NUM" using vpn(1) v by simp
  have i1: "unat (get_vpn ?b1) div 512 < FIRST_PTE_NUM" using vpn(2) v by simp
  obtain s1 m1 A1 f0 where one: "add_page ?b0 q (s, m) = Some (s1, m1)" "mm_inv m1 A1" "pt_ok s1 A1 q"
    "A \<subseteq> A1" "card A1 \<le> card A + 2" "f0 \<in> A1" "f0 \<notin> A"
    "get_proc_by_pid p s1 = Some q" "maps s1 m1 p (get_vpn ?b0) f0"
    "\<forall>v g. v \<noteq> get_vpn ?b0 \<longrightarrow> maps s m p v g \<longrightarrow> maps s1 m1 p v g"
    "empty_frame m1 = empty_frame m" "frame_top m1 \<le> frame_top m + 2"
    "\<exists>k < 2. f0 = empty_frame m (frame_top m + k)" "f0 \<noteq> table_of s1 q (get_vpn ?b0)"
    by (rule add_page_maps [OF inv pt cap0 proc i0])
  have cap1: "card A1 + 2 \<le> FRAME_NUM - 1" using cap one(5) by simp
  obtain s2 m2 A2 f1 where two: "add_page ?b1 q (s1, m1) = Some (s2, m2)" "mm_inv m2 A2" "pt_ok s2 A2 q"
    "A1 \<subseteq> A2" "f1 \<in> A2" "f1 \<notin> A1"
    "get_proc_by_pid p s2 = Some q" "maps s2 m2 p (get_vpn ?b1) f1"
    "\<forall>v g. v \<noteq> get_vpn ?b1 \<longrightarrow> maps s1 m1 p v g \<longrightarrow> maps s2 m2 p v g"
    "\<exists>k < 2. f1 = empty_frame m1 (frame_top m1 + k)" "f1 \<noteq> table_of s2 q (get_vpn ?b1)"
    "\<forall>j. secondary_pt (pcb s1 q) j \<noteq> 0 \<longrightarrow> secondary_pt (pcb s2 q) j = secondary_pt (pcb s1 q) j"
    by (rule add_page_maps [OF one(2,3) cap1 one(8) i1])
  have ne: "get_vpn ?b0 \<noteq> get_vpn ?b1" using vpn by auto
  have "table_of s1 q (get_vpn ?b0) \<noteq> 0" using one(9) by (simp add: maps_iff [OF one(8)] Let_def)
  then have t0: "f0 \<noteq> table_of s2 q (get_vpn ?b0)" using two(12) one(14) by simp
  have k0: "\<exists>k < 4. f0 = empty_frame m (frame_top m + k)"
  proof -
    obtain k where k: "k < 2" "f0 = empty_frame m (frame_top m + k)" using one(13) by blast
    from k(1) have "k < 4" by simp
    with k(2) show ?thesis by blast
  qed
  have k1: "\<exists>k < 4. f1 = empty_frame m (frame_top m + k)"
  proof -
    obtain k where k: "k < 2" "f1 = empty_frame m (frame_top m1 + k)"
      using two(10) unfolding one(11) by blast
    have "frame_top m \<le> frame_top m1"
      using mm_invD [OF inv] mm_invD [OF one(2)] card_mono [OF mm_invD(2) [OF one(2)] one(4)] by simp
    then obtain d where "frame_top m1 = frame_top m + d" using le_Suc_ex by blast
    then have "f1 = empty_frame m (frame_top m + (d + k))" "d + k < 4"
      using k one(12) by (simp_all add: add.assoc)
    then show ?thesis by blast
  qed
  have "add_2_page vpn2 p (s, m) = Some (s2, m2)"
    using proc one(1) two(1) by (simp add: add_2_page_def)
  moreover have "maps s2 m2 p (get_vpn ?b0) f0" using two(9) one(9) ne by blast
  moreover have "\<forall>w g. unat w div 2 \<noteq> unat vpn2 \<and> maps s m p w g \<longrightarrow> maps s2 m2 p w g"
  proof (intro allI impI)
    fix w g assume w: "unat w div 2 \<noteq> unat vpn2 \<and> maps s m p w g"
    then have "w \<noteq> get_vpn ?b0" "w \<noteq> get_vpn ?b1" using vpn by auto
    then show "maps s2 m2 p w g" using w one(10) two(9) by blast
  qed
  moreover have "A \<subseteq> A2" "f0 \<in> A2 - A" "f1 \<in> A2 - A" "f0 \<noteq> f1"
    using one(4,6,7) two(4-6) by auto
  ultimately show ?thesis using that two(2,3,7,8,11) t0 k0 k1 by blast
qed

text \<open>
  C27: \<open>add_2_page\<close> maps a pair of pages. With four frames left, for a live process whose page
  tables are allocated frames and a page number of the user half of the address space, the call
  succeeds; both pages of the pair are then found by \<open>querry_PTE\<close>, with valid entries for two
  different fresh frames, the allocator and the page tables stay consistent, and every mapping of
  the process outside the pair is kept.
\<close>

theorem add_2_page_maps:
  assumes inv: "mm_inv m A" and pt: "pt_ok s A q" and cap: "card A + 4 \<le> FRAME_NUM - 1"
    and proc: "get_proc_by_pid p s = Some q" and v: "unat vpn2 < 262144"
  shows "\<exists>s' m' A' f0 f1. add_2_page vpn2 p (s, m) = Some (s', m') \<and>
    mm_inv m' A' \<and> pt_ok s' A' q \<and> A \<subseteq> A' \<and> {f0, f1} \<subseteq> A' - A \<and> f0 \<noteq> f1 \<and>
    maps s' m' p (get_vpn (push_bit 13 vpn2)) f0 \<and>
    maps s' m' p (get_vpn (push_bit 13 vpn2 + PAGE_SIZE)) f1 \<and>
    (\<forall>w g. unat w div 2 \<noteq> unat vpn2 \<and> maps s m p w g \<longrightarrow> maps s' m' p w g)"
proof -
  obtain s' m' A' f0 f1 where "add_2_page vpn2 p (s, m) = Some (s', m')"
    "mm_inv m' A'" "pt_ok s' A' q" "A \<subseteq> A'" "f0 \<in> A' - A" "f1 \<in> A' - A" "f0 \<noteq> f1"
    "maps s' m' p (get_vpn (push_bit 13 vpn2)) f0"
    "maps s' m' p (get_vpn (push_bit 13 vpn2 + PAGE_SIZE)) f1"
    "\<forall>w g. unat w div 2 \<noteq> unat vpn2 \<and> maps s m p w g \<longrightarrow> maps s' m' p w g"
    by (rule add_2_page_spec [OF assms])
  then show ?thesis
    by (intro exI [of _ s'] exI [of _ m'] exI [of _ A'] exI [of _ f0] exI [of _ f1]) simp
qed

subsection \<open>Address translation\<close>

lemma masks_u32: "(63 :: u32) = mask 6" "(0xfff :: u32) = mask 12" "(0xffffff :: u32) = mask 24"
  by (simp_all add: mask_eq_exp_minus_1)

lemma bit_22_small: "bit (22 :: u32) n \<Longrightarrow> n < 6"
proof -
  have "(22 :: u32) = take_bit 6 22" by simp
  then show "bit (22 :: u32) n \<Longrightarrow> n < 6" by (metis bit_take_bit_iff)
qed

lemma entry_of_bits: "entry_of f = push_bit 6 (drop_bit 12 (take_bit 24 f)) OR 22"
proof -
  have "entry_of f = push_bit 6 (drop_bit 12 (f AND 0xffffff)) OR
      (push_bit 3 2 OR push_bit 2 1 OR push_bit 1 1 OR 0)"
    by (simp only: entry_of_def COMPRESS_ENTRYLO_def get_pfn_def get_paddr_def or.assoc)
  also have "(push_bit 3 2 OR push_bit 2 1 OR push_bit 1 1 OR 0 :: u32) = 22" by simp
  finally show ?thesis unfolding masks_u32 take_bit_eq_mask .
qed

lemma clear_low_bits:
  assumes "\<And>n. bit c n \<Longrightarrow> n < 6"
  shows "push_bit 6 ((push_bit 6 x OR c) AND NOT (mask 6)) = push_bit 12 (x :: u32)"
  by (rule bit_word_eqI)
    (auto simp: bit_push_bit_iff bit_and_iff bit_or_iff bit_not_iff bit_mask_iff possible_bit_def
      dest: assms)

lemma entry_frame: "push_bit 6 (entry_of f AND NOT 63) = push_bit 12 (drop_bit 12 (take_bit 24 f))"
  unfolding entry_of_bits masks_u32 by (rule clear_low_bits) (rule bit_22_small)

lemma unmapped_of_entry:
  "unmapped_of (entry_of f) v = push_bit 12 (drop_bit 12 (take_bit 24 f)) OR take_bit 12 v OR 0xa0000000"
  unfolding unmapped_of_def entry_frame by (simp only: masks_u32 take_bit_eq_mask or.assoc)

text \<open>A frame of the first sixteen megabytes is reached again from its page table entry.\<close>

lemma low_frame_bits:
  assumes "page_frame f" and "drop_bit 24 f = 0xa0"
  shows "push_bit 12 (drop_bit 12 (take_bit 24 f)) OR 0xa0000000 = f"
proof -
  have hi: "(0xa0000000 :: u32) = push_bit 24 (drop_bit 24 f)" unfolding assms(2) by simp
  have "f = push_bit 12 (drop_bit 12 f)" using assms(1) by (simp add: page_frame_def frame_start_shift)
  then have lo: "bit f n \<Longrightarrow> 12 \<le> n" for n by (metis bit_push_bit_iff)
  show ?thesis unfolding hi
  proof (rule bit_word_eqI)
    fix n assume "n < LENGTH(32)"
    consider "n < 12" | "12 \<le> n" "n < 24" | "24 \<le> n" by linarith
    then show "bit (push_bit 12 (drop_bit 12 (take_bit 24 f)) OR push_bit 24 (drop_bit 24 f)) n = bit f n"
      by cases (use lo [of n] \<open>n < LENGTH(32)\<close> in
        \<open>auto simp: bit_or_iff bit_push_bit_iff bit_drop_bit_eq bit_take_bit_iff\<close>)
  qed
qed

lemma or_offset:
  assumes "page_frame f"
  shows "f OR take_bit 12 v = f + word_of_nat (unat v mod 4096)"
proof -
  have "f = push_bit 12 (drop_bit 12 f)" using assms by (simp add: page_frame_def frame_start_shift)
  then have "bit f n \<Longrightarrow> 12 \<le> n" for n by (metis bit_push_bit_iff)
  then have "f AND take_bit 12 v = 0"
    by (intro bit_word_eqI) (force simp: bit_and_iff bit_take_bit_iff)
  then have "f OR take_bit 12 v = f + take_bit 12 v" by (simp add: disjunctive_add_eq_or)
  moreover have "unat (take_bit 12 v) = unat v mod 4096"
    by (simp only: unsigned_take_bit_eq) (simp add: take_bit_eq_mod)
  ultimately show ?thesis by (metis word_of_nat_unat)
qed

lemma low_frame_translation:
  assumes "page_frame f" and "drop_bit 24 f = 0xa0"
  shows "unmapped_of (entry_of f) v = f + word_of_nat (unat v mod 4096)"
proof -
  have "unmapped_of (entry_of f) v =
      (push_bit 12 (drop_bit 12 (take_bit 24 f)) OR 0xa0000000) OR take_bit 12 v"
    unfolding unmapped_of_entry by (simp only: or.assoc or.commute or.left_commute)
  then show ?thesis unfolding low_frame_bits [OF assms] or_offset [OF assms(1)] .
qed

lemma drop_24_frame:
  assumes "f \<in> frames" and "f < 0xa1000000"
  shows "drop_bit 24 f = 0xa0"
proof -
  obtain i where i: "i < FRAME_NUM" "f = frame_at i" using assms(1) unfolding frames_def by blast
  have "unat f < unat (0xa1000000 :: u32)" using assms(2) by (simp only: word_less_nat_alt)
  then have "2693726208 + 4096 * i < 2701131776" using i unat_frame_at [of i] by simp
  then have "unat f div 16777216 = 160" using i unat_frame_at [of i] by simp
  moreover have "unat (drop_bit 24 f) = unat f div 16777216"
    by (simp only: unat_drop_bit_eq) (simp add: drop_bit_eq_div)
  ultimately have "unat (drop_bit 24 f) = unat (0xa0 :: u32)" by simp
  then show ?thesis by (simp only: word_unat_eq_iff)
qed

subsection \<open>Copies\<close>

lemma store_run:
  assumes "page_frame f" and "off + sz \<le> 4096"
  shows "i < sz \<Longrightarrow> for_upto 0 sz (\<lambda>i g. g(f + word_of_nat off + word_of_nat i := src i)) g
      (f + word_of_nat off + word_of_nat i) = src i"
    and "get_frame_start x \<noteq> f \<Longrightarrow>
      for_upto 0 sz (\<lambda>i g. g(f + word_of_nat off + word_of_nat i := src i)) g x = g x"
proof -
  have addr: "f + word_of_nat off + word_of_nat i = f + word_of_nat (off + i)" for i by simp
  have inj: "(word_of_nat (off + i) :: u32) = word_of_nat (off + j) \<longleftrightarrow> i = j" if "i < sz" "j < sz" for i j
    using page_offset_inj [OF assms(1), of "off + i" "off + j"] that assms(2) by simp
  have "n \<le> sz \<Longrightarrow> i < n \<Longrightarrow> for_upto 0 n (\<lambda>i g. g(f + word_of_nat (off + i) := src i)) g
      (f + word_of_nat (off + i)) = src i" for n i
    by (induction n) (auto simp: for_upto_Suc inj less_Suc_eq simp del: of_nat_add)
  then show "i < sz \<Longrightarrow> for_upto 0 sz (\<lambda>i g. g(f + word_of_nat off + word_of_nat i := src i)) g
      (f + word_of_nat off + word_of_nat i) = src i" unfolding addr by blast
  have "n \<le> sz \<Longrightarrow> get_frame_start x \<noteq> f \<Longrightarrow>
      for_upto 0 n (\<lambda>i g. g(f + word_of_nat (off + i) := src i)) g x = g x" for n
  proof (induction n)
    case (Suc n)
    have "x \<noteq> f + word_of_nat (off + n)"
      using frame_start_offset [OF assms(1), of "off + n"] Suc.prems assms(2) by auto
    with Suc show ?case by (simp add: for_upto_Suc del: of_nat_add)
  qed simp
  then show "get_frame_start x \<noteq> f \<Longrightarrow>
      for_upto 0 sz (\<lambda>i g. g(f + word_of_nat off + word_of_nat i := src i)) g x = g x"
    unfolding addr by blast
qed

lemma load_run: "for_upto 0 sz (\<lambda>i d. d(i := v i)) d = (\<lambda>i. if i < sz then v i else d i)"
  by (induction sz) (auto simp: for_upto_Suc fun_eq_iff less_Suc_eq)

text \<open>On a mapped page a store is followed by a load that returns the stored bytes.\<close>

lemma store_user_mapped:
  assumes proc: "get_proc_by_pid p s = Some q" and maps: "maps s m p (drop_bit 12 dest) f"
    and f: "f \<in> frames" "f < 0xa1000000" and t: "table_of s q (drop_bit 12 dest) \<in> frames"
    and ne: "f \<noteq> table_of s q (drop_bit 12 dest)" and fit: "unat dest mod 4096 + sz \<le> 4096"
  obtains m' where "store_user src dest p sz (s, m) = Some (s, m')" "maps s m' p (drop_bit 12 dest) f"
    "\<forall>d. copy_from_user dest d p sz (s, m') = Some (\<lambda>i. if i < sz then src i else d i)"
proof -
  let ?vpn = "drop_bit 12 dest" and ?off = "unat dest mod 4096"
  define t where "t = table_of s q ?vpn"
  define a where "a = pte_addr t ?vpn"
  define u where "u = f + word_of_nat ?off"
  define m' where "m' = m\<lparr>mem := for_upto 0 sz (\<lambda>i g. g(u + word_of_nat i := src i)) (mem m)\<rparr>"
  have idx: "unat ?vpn div 512 < FIRST_PTE_NUM" and t0: "t \<noteq> 0"
    and old: "rd32 (mem m) a = ?vpn" "rd32 (mem m) (a + 4) = entry_of f"
    using maps by (simp_all add: maps_iff [OF proc] Let_def t_def a_def)
  have q: "querry_PTE ?vpn p s = Some (Some a)"
    using querry_PTE_eq [OF proc idx] t0 by (simp add: t_def a_def)
  have pf: "page_frame f" "page_frame t" using f(1) t frames_page by (simp_all add: t_def)
  have tr: "unmapped_of (entry_of f) dest = u"
    using low_frame_translation [OF pf(1) drop_24_frame [OF f]] by (simp add: u_def)
  have stored: "store_user src dest p sz (s, m) = Some (s, m')"
    by (simp add: store_user_def q old tr m'_def Let_def)
  have keep: "mem m' x = mem m x" if "get_frame_start x = t" for x
    using store_run(2) [OF pf(1) fit, of x] that ne by (simp add: m'_def u_def t_def)
  have new: "rd32 (mem m') a = ?vpn" "rd32 (mem m') (a + 4) = entry_of f"
    using read_pte_cong [OF pf(2), of "mem m'" "mem m" ?vpn] keep old by (simp_all add: a_def)
  have "maps s m' p ?vpn f"
    using idx t0 new by (simp add: maps_iff [OF proc] Let_def t_def a_def)
  moreover have "copy_from_user dest d p sz (s, m') = Some (\<lambda>i. if i < sz then src i else d i)" for d
  proof -
    have "mem m' (u + word_of_nat i) = src i" if "i < sz" for i
      using store_run(1) [OF pf(1) fit that] by (simp add: m'_def u_def)
    then have "(\<lambda>i. if i < sz then mem m' (u + word_of_nat i) else d i) =
        (\<lambda>i. if i < sz then src i else d i)" by (simp add: fun_eq_iff)
    then show ?thesis
      by (simp add: copy_from_user_def q new(2) tr Let_def) (simp add: load_run)
  qed
  ultimately show ?thesis using that stored by blast
qed

text \<open>
  C28: A copy to a user page that has no page table yet allocates the page and can be read back. For
  a live process, a user address, four free frames that all lie below \<open>0xa1000000\<close> and a block that
  does not cross the end of its page, \<open>copy_to_user\<close> succeeds and \<open>copy_from_user\<close> then returns
  exactly the bytes that were copied.
\<close>

theorem copy_user_roundtrip:
  assumes inv: "mm_inv m A" and pt: "pt_ok s A q" and cap: "card A + 4 \<le> FRAME_NUM - 1"
    and proc: "get_proc_by_pid p s = Some q" and user: "unat dest < 2147483648"
    and unmapped: "table_of s q (drop_bit 12 dest) = 0"
    and low: "\<forall>k < 4. empty_frame m (frame_top m + k) < 0xa1000000"
    and fit: "unat dest mod 4096 + sz \<le> 4096"
  shows "\<exists>st. copy_to_user src dest p sz (s, m) = Some st \<and>
    (\<forall>d. copy_from_user dest d p sz st = Some (\<lambda>i. if i < sz then src i else d i))"
proof -
  let ?vpn = "drop_bit 12 dest" and ?vpn2 = "drop_bit 13 dest"
  have vpn: "unat ?vpn = unat dest div 4096" by (rule unat_drop_12)
  have vpn2: "unat ?vpn2 = unat dest div 8192" by (simp only: unat_drop_bit_eq) (simp add: drop_bit_eq_div)
  then have v: "unat ?vpn2 < 262144" using user by simp
  obtain s' m' A' f0 f1 where add: "add_2_page ?vpn2 p (s, m) = Some (s', m')"
    and inv': "mm_inv m' A'" and pt': "pt_ok s' A' q" "A \<subseteq> A'" "f0 \<in> A' - A" "f1 \<in> A' - A" "f0 \<noteq> f1"
    and proc': "get_proc_by_pid p s' = Some q"
    and maps: "maps s' m' p (get_vpn (push_bit 13 ?vpn2)) f0"
      "maps s' m' p (get_vpn (push_bit 13 ?vpn2 + PAGE_SIZE)) f1"
      "\<forall>w g. unat w div 2 \<noteq> unat ?vpn2 \<and> maps s m p w g \<longrightarrow> maps s' m' p w g"
    and ne: "f0 \<noteq> table_of s' q (get_vpn (push_bit 13 ?vpn2))"
      "f1 \<noteq> table_of s' q (get_vpn (push_bit 13 ?vpn2 + PAGE_SIZE))"
    and k: "\<exists>k < 4. f0 = empty_frame m (frame_top m + k)" "\<exists>k < 4. f1 = empty_frame m (frame_top m + k)"
    by (rule add_2_page_spec [OF inv pt cap proc v])
  have "unat dest div 4096 = 2 * (unat dest div 8192) \<or> unat dest div 4096 = 2 * (unat dest div 8192) + 1"
    by linarith
  then have "?vpn = get_vpn (push_bit 13 ?vpn2) \<or> ?vpn = get_vpn (push_bit 13 ?vpn2 + PAGE_SIZE)"
    using vpn_pair [OF v] vpn vpn2 by (simp only: word_unat_eq_iff)
  then obtain f where f: "f \<in> A'" "f < 0xa1000000" "maps s' m' p ?vpn f" "f \<noteq> table_of s' q ?vpn"
    using maps(1,2) ne k low pt'(3,4) by (metis DiffD1)
  have idx: "unat ?vpn div 512 < FIRST_PTE_NUM" and t0: "table_of s' q ?vpn \<noteq> 0"
    using f(3) by (simp_all add: maps_iff [OF proc'] Let_def)
  have F: "f \<in> frames" "table_of s' q ?vpn \<in> frames"
    using f(1) pt_okD [OF pt'(1) idx t0] mm_invD(1) [OF inv'] by blast+
  obtain m2 where m2: "store_user src dest p sz (s', m') = Some (s', m2)"
    "\<forall>d. copy_from_user dest d p sz (s', m2) = Some (\<lambda>i. if i < sz then src i else d i)"
    by (rule store_user_mapped [OF proc' f(3) F(1) f(2) F(2) f(4) fit])
  have "querry_PTE ?vpn p s = Some None" using querry_PTE_eq [OF proc idx] unmapped by simp
  then have "copy_to_user src dest p sz (s, m) = Some (s', m2)"
    by (simp add: copy_to_user_def add m2(1))
  with m2(2) show ?thesis by blast
qed

subsection \<open>Boot, exhaustion and the frames above sixteen megabytes\<close>

text \<open>
  The frame stack is a correct allocator. When \<open>A\<close> is the set of allocated frames and fewer than
  2047 are allocated, \<open>kalloc\<close> returns a frame outside \<open>A\<close>, clears all of its 4096 bytes and no
  other byte; freeing an allocated frame gives a consistent stack without it, leaves memory alone
  and makes it the next frame to be allocated.
\<close>

theorem kalloc_kfree_correct:
  assumes inv: "mm_inv m A"
  shows "(card A < FRAME_NUM - 1 \<longrightarrow>
      (\<exists>a m'. kalloc m = Some (a, m') \<and> a \<notin> A \<and> page_frame a \<and> mm_inv m' (insert a A) \<and>
        (\<forall>x. mem m' x = (if get_frame_start x = a then 0 else mem m x)))) \<and>
    (\<forall>a \<in> A. mm_inv (kfree a m) (A - {a}) \<and> mem (kfree a m) = mem m \<and>
      map_option fst (kalloc (kfree a m)) = Some a)"
proof (intro conjI impI ballI)
  assume cap: "card A < FRAME_NUM - 1"
  obtain a m' where "kalloc m = Some (a, m')" "a = empty_frame m (frame_top m)" "a \<notin> A" "a \<in> frames"
    "mm_inv m' (insert a A)" "empty_frame m' = empty_frame m" "frame_top m' = Suc (frame_top m)"
    "\<And>x. mem m' x = (if get_frame_start x = a then 0 else mem m x)"
    by (rule kalloc_fresh [OF inv cap]) (rule that, assumption+)
  then show "\<exists>a m'. kalloc m = Some (a, m') \<and> a \<notin> A \<and> page_frame a \<and> mm_inv m' (insert a A) \<and>
      (\<forall>x. mem m' x = (if get_frame_start x = a then 0 else mem m x))"
    using frames_page by (intro exI [of _ a] exI [of _ m']) auto
next
  fix a assume a: "a \<in> A"
  show "mm_inv (kfree a m) (A - {a})" "mem (kfree a m) = mem m" by (rule kfree_inv [OF inv a])+
  have "0 < card A" using mm_invD(2) [OF inv] a card_gt_0_iff by blast
  then have "0 < frame_top m" "frame_top m < FRAME_NUM" using inv by (simp_all add: mm_inv_def)
  then show "map_option fst (kalloc (kfree a m)) = Some a"
    by (simp add: kfree_def paddr_ok_def kalloc_def Let_def)
qed

text \<open>
  From boot, 2047 calls of \<open>kalloc\<close> in a row succeed and return pairwise different page frames;
  one more call runs off the end of the function although a frame is left on the stack.
\<close>

theorem boot_frames:
  "(\<exists>as m'. alloc_many kalloc (FRAME_NUM - 1) (do_mem_init m) = Some (as, m') \<and>
     length as = FRAME_NUM - 1 \<and> distinct as \<and> mm_inv m' (set as)) \<and>
   alloc_many kalloc FRAME_NUM (do_mem_init m) = None"
  using mm.alloc_many_distinct [OF do_mem_init_inv, of "FRAME_NUM - 1" m]
    mm.alloc_many_exhausts [OF do_mem_init_inv, of FRAME_NUM m] by auto

definition blank_mm :: mm_t where
  "blank_mm = \<lparr>empty_frame = (\<lambda>_. 0), frame_top = 0, mem = (\<lambda>_. 255)\<rparr>"

lemma boot_stack: "i < FRAME_NUM \<Longrightarrow> empty_frame (do_mem_init m) i = frame_at i"
  "frame_top (do_mem_init m) = 0"
  using do_mem_init_frames [of FRAME_NUM "empty_frame m"] by (simp_all add: do_mem_init_def frame_at_def)

lemma demo_pt: "pt_ok demo_state {} 0" "get_proc_by_pid 0 demo_state = Some 0"
  by (simp_all add: pt_ok_def demo_state_def blank_pcb_def get_proc_by_pid_def)

theorem kalloc_kfree_correct_witness:
  "card ({} :: u32 set) < FRAME_NUM - 1 \<and>
   (\<exists>a m'. kalloc (do_mem_init blank_mm) = Some (a, m') \<and> mm_inv m' {a} \<and> page_frame a)"
  using kalloc_kfree_correct [OF do_mem_init_inv [of blank_mm]] by auto

theorem add_2_page_maps_witness:
  "\<exists>s' m' f. add_2_page 0x20000 0 (demo_state, do_mem_init blank_mm) = Some (s', m') \<and>
     maps s' m' 0 (get_vpn (push_bit 13 0x20000)) f"
proof -
  have "unat (0x20000 :: u32) < 262144" by simp
  then show ?thesis
    using add_2_page_maps [OF do_mem_init_inv demo_pt(1) _ demo_pt(2), of "0x20000" blank_mm] by auto
qed

theorem copy_user_roundtrip_witness:
  "\<exists>st. copy_to_user (\<lambda>i. word_of_nat (65 + i)) 0x40000ff8 0 8 (demo_state, do_mem_init blank_mm) = Some st \<and>
     (\<forall>d. copy_from_user 0x40000ff8 d 0 8 st = Some (\<lambda>i. if i < 8 then word_of_nat (65 + i) else d i))"
proof (rule copy_user_roundtrip [OF do_mem_init_inv demo_pt(1) _ demo_pt(2)])
  show "table_of demo_state 0 (drop_bit 12 0x40000ff8) = 0"
    by (simp add: demo_state_def blank_pcb_def)
  have "empty_frame (do_mem_init blank_mm) k < 0xa1000000" if "k < 4" for k
    using that unat_frame_at [of k] by (simp add: boot_stack word_less_nat_alt)
  then show "\<forall>k<4. empty_frame (do_mem_init blank_mm) (frame_top (do_mem_init blank_mm) + k) < 0xa1000000"
    by (simp add: boot_stack)
qed simp_all

text \<open>
  The frames with index 1808 to 2047 lie at \<open>0xa1000000\<close> and above. \<open>get_paddr\<close> keeps only 24
  address bits, so that the page table entry made for such a frame leads back to an address
  sixteen megabytes lower, which is not in a page frame at all.
\<close>

theorem high_frames_mistranslated:
  assumes "1808 \<le> i" and "i < FRAME_NUM"
  shows "unmapped_of (COMPRESS_ENTRYLO (get_pfn (get_paddr (frame_at i))) 2 1 1 0) v =
      frame_at i - 0x1000000 + word_of_nat (unat v mod 4096) \<and>
    frame_at i - 0x1000000 \<notin> frames"
proof -
  define g where "g = frame_at i - 0x1000000"
  have ui: "unat (frame_at i) = 2693726208 + 4096 * i" by (rule unat_frame_at [OF assms(2)])
  have "g = word_of_nat (2676948992 + 4096 * i)"
    by (simp add: g_def frame_at_def)
  then have ug: "unat g = 2676948992 + 4096 * i"
    using assms(2) by (simp only:) (subst unat_of_nat_u32, auto)
  have "unat g = 4096 * (653552 + i)" using ug by simp
  then have pf: "page_frame g" by (simp add: page_frame_unat)
  have "unat (drop_bit 24 g) = unat g div 16777216"
    by (simp only: unat_drop_bit_eq) (simp add: drop_bit_eq_div)
  then have "unat (drop_bit 24 g) = unat (0xa0 :: u32)" using assms ug by simp
  then have d: "drop_bit 24 g = 0xa0" by (simp only: word_unat_eq_iff)
  have "unat (take_bit 24 (frame_at i)) = unat (take_bit 24 g)"
    by (simp only: unsigned_take_bit_eq ui ug) (simp add: take_bit_eq_mod mod_eq_dvd_iff_nat)
  then have "take_bit 24 (frame_at i) = take_bit 24 g" by (simp only: word_unat_eq_iff)
  then have "entry_of (frame_at i) = entry_of g" by (simp only: entry_of_bits)
  then have "unmapped_of (entry_of (frame_at i)) v = g + word_of_nat (unat v mod 4096)"
    using low_frame_translation [OF pf d] by simp
  moreover have "g \<notin> frames"
  proof
    assume "g \<in> frames"
    then obtain j where "j < FRAME_NUM" "g = frame_at j" unfolding frames_def by blast
    then have "unat g = 2693726208 + 4096 * j" by (simp add: unat_frame_at)
    with ug assms(2) show False by simp
  qed
  ultimately show ?thesis by (simp add: g_def entry_of_def)
qed

theorem high_frames_mistranslated_witness:
  "unmapped_of (COMPRESS_ENTRYLO (get_pfn (get_paddr (frame_at 1808))) 2 1 1 0) 0 = 0xa0000000"
  using high_frames_mistranslated [of 1808 0] by (simp add: frame_at_def)

end
