(* ===== verification/Tlb.thy ===== *)
theory Tlb
  imports Mm
begin

text \<open>
  The functions of \<^verbatim>\<open>kernel/mm/memory.c\<close> that write the TLB, \<open>do_page_table_static_init\<close>, which uses one of them, the
  clearing of the TLB in \<^verbatim>\<open>kernel/sched/sched.c\<close>, and the TLB exception handler of \<^verbatim>\<open>arch/mips/kernel/entry.S\<close>. The
  inline assembly loads the registers of coprocessor 0 and executes \<open>tlbwi\<close> or \<open>tlbwr\<close>: the entry at the index, or at an
  index that the processor chooses (an argument here), is replaced. \<open>tlb_phys\<close> is what an entry of the TLB makes of an
  address according to the architecture.
\<close>

subsection \<open>Operations\<close>

record tlb_entry =
  entry_hi :: u32
  entry_lo0 :: u32
  entry_lo1 :: u32
  page_mask :: u32

type_synonym tlb = "nat \<Rightarrow> tlb_entry"

abbreviation "TLB_ENTRIES \<equiv> (32 :: nat)"

text \<open>The registers that both functions load, for the entries at the addresses \<open>a\<close> and \<open>b\<close>.\<close>

definition load_entry :: "u32 \<Rightarrow> u32 \<Rightarrow> kstate \<times> mm_t \<Rightarrow> tlb_entry option" where
  "load_entry a b st = do {
     c \<leftarrow> current_running (fst st);
     let ehi = push_bit 13 (drop_bit 1 (rd32 (mem (snd st)) a)) OR (word_of_int (pid (pcb (fst st) c)) AND 0xff);
     let lo0 = rd32 (mem (snd st)) (a + 4);
     let lo1 = rd32 (mem (snd st)) (b + 4);
     Some \<lparr>entry_hi = ehi, entry_lo0 = lo0, entry_lo1 = lo1, page_mask = 0\<rparr> }"

text \<open>A hit of an entry, as the architecture defines it: the pair of pages agrees, and the address space does or the entry is
  global. \<open>tlbp\<close> gives the index of the entry that \<open>ehi\<close> hits, or sets the highest bit.\<close>

definition tlb_hit :: "tlb_entry \<Rightarrow> u32 \<Rightarrow> bool" where
  "tlb_hit e ehi \<longleftrightarrow> drop_bit 13 (entry_hi e) = drop_bit 13 ehi \<and>
     (entry_hi e AND 0xff = ehi AND 0xff \<or> bit (entry_lo0 e) 0 \<and> bit (entry_lo1 e) 0)"

definition tlbp :: "u32 \<Rightarrow> tlb \<Rightarrow> u32" where
  "tlbp ehi t = (case first_index 0 TLB_ENTRIES (\<lambda>i. tlb_hit (t i) ehi) of None \<Rightarrow> 0x80000000 | Some i \<Rightarrow> word_of_nat i)"

definition kprintk :: "u8 list \<Rightarrow> va_arg list \<Rightarrow> kstate \<Rightarrow> kstate option" where
  "kprintk fmt va s = do { x \<leftarrow> printk fmt va (scr s); Some (s\<lparr>scr := x\<rparr>) }"

definition write_TLB_index :: "u32 \<Rightarrow> u32 \<Rightarrow> u32 \<Rightarrow> kstate \<times> mm_t \<Rightarrow> tlb \<Rightarrow> (kstate \<times> tlb) option" where
  "write_TLB_index a b index st t = do {
     e \<leftarrow> load_entry a b st;
     t1 \<leftarrow> (if unat index < TLB_ENTRIES then Some (t(unat index := e)) else None);
     let check_index = tlbp (entry_hi e) t1;
     s1 \<leftarrow> (if check_index AND 0x80000000 \<noteq> 0 then kprintk (cs ''Error in write_TLB_index()'' @ [10]) [] (fst st)
            else if check_index \<noteq> index then kprintk (cs ''Error in write_TLB_index()'' @ [10]) [] (fst st)
            else kprintk (cs ''TLB write correct.'' @ [10]) [] (fst st));
     Some (s1, t1) }"

definition write_TLB_rand :: "u32 \<Rightarrow> u32 \<Rightarrow> nat \<Rightarrow> kstate \<times> mm_t \<Rightarrow> tlb \<Rightarrow> (kstate \<times> tlb) option" where
  "write_TLB_rand a b random st t = do {
     e \<leftarrow> load_entry a b st;
     t1 \<leftarrow> (if random < TLB_ENTRIES then Some (t(random := e)) else None);
     let check_index = tlbp (entry_hi e) t1;
     s1 \<leftarrow> (if check_index AND 0x80000000 \<noteq> 0 then kprintk (cs ''Error in write_TLB_rand()'' @ [10]) [] (fst st)
            else do {
              s1 \<leftarrow> kprintk (cs ''TLB write rand correct.'' @ [10]) [] (fst st);
              s2 \<leftarrow> kprintk (cs ''Entry hi: %x'' @ [10]) [VInt (entry_hi e)] s1;
              s3 \<leftarrow> kprintk (cs ''Entry lo0: %x'' @ [10]) [VInt (entry_lo0 e)] s2;
              kprintk (cs ''Entry lo1: %x'' @ [10]) [VInt (entry_lo1 e)] s3 });
     Some (s1, t1) }"

text \<open>One half of \<open>do_page_table_static_init\<close>. The second level page is replaced whether there was one or not.\<close>

definition static_page :: "u32 \<Rightarrow> kstate \<times> mm_t \<Rightarrow> (kstate \<times> mm_t) option" where
  "static_page base st = do {
     let (s, m) = st;
     (page, m1) \<leftarrow> kalloc m;
     (frame, m2) \<leftarrow> kalloc m1;
     let vpn = get_vpn base;
     let entry = COMPRESS_ENTRYLO (get_pfn (get_paddr (get_frame_start frame))) 2 1 1 1;
     let i = unat (get_first_level_index vpn);
     c \<leftarrow> current_running s;
     let a = pte_addr page vpn;
     if i < FIRST_PTE_NUM
     then Some (upd_pcb c (\<lambda>p. p\<lparr>secondary_pt := (secondary_pt p)(i := page)\<rparr>) s,
                m2\<lparr>mem := wr32 (a + 4) entry (wr32 a vpn (mem m2))\<rparr>)
     else None }"

text \<open>\<open>querry_PTE\<close> expects a process id, but it is called with the pointer \<open>current_running\<close>, whose value is \<open>self\<close>.\<close>

definition do_page_table_static_init :: "int \<Rightarrow> (kstate \<times> mm_t) \<Rightarrow> tlb \<Rightarrow> ((kstate \<times> mm_t) \<times> tlb) option" where
  "do_page_table_static_init self st t = do {
     st1 \<leftarrow> static_page 0x40000000 st;
     pte1 \<leftarrow> querry_PTE (get_vpn 0x40000000) self (fst st1);
     st2 \<leftarrow> static_page (0x40000000 + PAGE_SIZE) st1;
     pte2 \<leftarrow> querry_PTE (get_vpn (0x40000000 + PAGE_SIZE)) self (fst st2);
     a \<leftarrow> pte1;
     b \<leftarrow> pte2;
     (s3, t1) \<leftarrow> write_TLB_index a b 10 st2 t;
     Some ((s3, snd st2), t1) }"

text \<open>
  The clearing of the TLB at the end of \<open>scheduler\<close>: \<open>mask\<close> is what the register PageMask holds.
\<close>

definition clear_TLB :: "u32 \<Rightarrow> tlb \<Rightarrow> tlb" where
  "clear_TLB pmask = for_upto 0 TLB_ENTRIES (\<lambda>i t. t(i := \<lparr>entry_hi = 0, entry_lo0 = 0, entry_lo1 = 0, page_mask = pmask\<rparr>))"

subsection \<open>The exception handler\<close>

text \<open>
  \<open>TLB_exception_handler_entry\<close> of \<^verbatim>\<open>arch/mips/kernel/entry.S\<close>, on the registers of coprocessor 0 and the entries.
  \<open>tlbwi\<close> has no defined effect when the index is not the one of an entry; the highest bit of Index is not a part of it.
\<close>

record cp0_t =
  badvaddr :: u32
  index_reg :: u32
  regs :: tlb_entry
  entries :: tlb

definition tlbwi :: "cp0_t \<Rightarrow> cp0_t option" where
  "tlbwi c = (let i = unat (index_reg c AND 63) in if i < TLB_ENTRIES then Some (c\<lparr>entries := (entries c)(i := regs c)\<rparr>) else None)"

definition tlbwr :: "nat \<Rightarrow> cp0_t \<Rightarrow> cp0_t" where
  "tlbwr random c = c\<lparr>entries := (entries c)(random mod TLB_ENTRIES := regs c)\<rparr>"

definition probe :: "cp0_t \<Rightarrow> cp0_t" where
  "probe c = c\<lparr>index_reg := tlbp (entry_hi (regs c)) (entries c)\<rparr>"

definition tlbr :: "cp0_t \<Rightarrow> cp0_t" where
  "tlbr c = c\<lparr>regs := entries c (unat (index_reg c AND 63))\<rparr>"

definition TLB_exception_handler_entry :: "nat \<Rightarrow> kstate \<times> mm_t \<Rightarrow> cp0_t \<Rightarrow> ((kstate \<times> mm_t) \<times> cp0_t) option" where
  "TLB_exception_handler_entry random st c = do {
     q \<leftarrow> current_running (fst st);
     let va = badvaddr c;
     let i = unat (drop_bit 21 va);
     second \<leftarrow> (if i < FIRST_PTE_NUM then Some (secondary_pt (pcb (fst st) q) i) else None);
     if second = 0
     then do { st1 \<leftarrow> page_miss_handler (drop_bit 13 va) st; Some (st1, c) }
     else do {
       let a = second + 8 * (drop_bit 13 va AND 510);
       if rd32 (mem (snd st)) a = 0
       then do { c1 \<leftarrow> tlbwi c; Some (st, c1) }
       else do {
         let ehi = ((va AND 0xffffe000) OR word_of_int (pid (pcb (fst st) q))) AND 0xffffe0ff;
         let c1 = probe (c\<lparr>regs := \<lparr>entry_hi = ehi, entry_lo0 = rd32 (mem (snd st)) (a + 4),
                                   entry_lo1 = rd32 (mem (snd st)) (a + 12), page_mask = 0\<rparr>\<rparr>);
         if drop_bit 31 (index_reg c1) = 0
         then do { c2 \<leftarrow> tlbwi c1; Some (st, c2) }
         else Some (st, tlbr (probe (tlbwr random c1))) } } }"

subsection \<open>What an entry of the TLB means\<close>

definition tlb_phys :: "tlb_entry \<Rightarrow> u32 \<Rightarrow> u32 option" where
  "tlb_phys e va =
     (let lo = (if bit va 12 then entry_lo1 e else entry_lo0 e)
      in if bit lo 1 then Some (push_bit 12 (drop_bit 6 lo) OR (va AND 0xfff)) else None)"

lemma frame_bits: "push_bit 12 (drop_bit 6 l) = push_bit 6 (l AND NOT 63 :: u32)"
proof -
  have m: "(63 :: u32) = mask 6" by (simp add: mask_eq_exp_minus_1)
  have "n < 32 \<Longrightarrow> bit (push_bit 12 (drop_bit 6 l)) n = bit (push_bit 6 (l AND NOT (mask 6))) n" for n
    by (cases "12 \<le> n") (auto simp: bit_push_bit_iff bit_drop_bit_eq bit_and_iff bit_not_iff bit_mask_iff)
  then show ?thesis unfolding m by (intro bit_word_eqI) simp
qed

text \<open>The TLB and the kernel's own translation of a page table entry agree.\<close>

lemma tlb_phys_unmapped:
  assumes "bit (if bit va 12 then entry_lo1 e else entry_lo0 e) 1"
  shows "\<exists>pa. tlb_phys e va = Some pa \<and> pa OR 0xa0000000 = unmapped_of (if bit va 12 then entry_lo1 e else entry_lo0 e) va"
  using assms by (simp add: tlb_phys_def unmapped_of_def frame_bits Let_def)

lemma entry_valid: "bit (entry_of f) 1"
  by (simp add: entry_of_def COMPRESS_ENTRYLO_def bit_or_iff bit_push_bit_iff bit_simps)

lemma hi_bits:
  "drop_bit 13 (push_bit 13 (drop_bit 13 va) OR (w AND 0xff) :: u32) = drop_bit 13 va"
  "(push_bit 13 (drop_bit 13 va) OR (w AND 0xff) :: u32) AND 0xff = w AND 0xff"
proof -
  have m: "(0xff :: u32) = mask 8" by (simp add: mask_eq_exp_minus_1)
  show "drop_bit 13 (push_bit 13 (drop_bit 13 va) OR (w AND 0xff)) = drop_bit 13 va"
    unfolding m by (rule bit_word_eqI) (auto simp: bit_simps dest: bit_imp_le_length)
  show "(push_bit 13 (drop_bit 13 va) OR (w AND 0xff)) AND 0xff = w AND 0xff"
    unfolding m by (rule bit_word_eqI) (auto simp: bit_simps)
qed

text \<open>An entry made of the page table entries of the frames \<open>f0\<close> and \<open>f1\<close> for the pair of pages of \<open>va0\<close> and the process \<open>p\<close>.\<close>

definition pair_entry :: "u32 \<Rightarrow> int \<Rightarrow> u32 \<Rightarrow> u32 \<Rightarrow> tlb_entry" where
  "pair_entry va0 p f0 f1 = \<lparr>entry_hi = push_bit 13 (get_vpn2 va0) OR (word_of_int p AND 0xff),
     entry_lo0 = entry_of f0, entry_lo1 = entry_of f1, page_mask = 0\<rparr>"

lemma pair_entry_hit: "get_vpn2 va = get_vpn2 va0 \<Longrightarrow>
  tlb_hit (pair_entry va0 p f0 f1) (push_bit 13 (get_vpn2 va) OR (word_of_int p AND 0xff))"
  by (simp add: tlb_hit_def pair_entry_def)

lemma pair_entry_phys:
  obtains pa where "tlb_phys (pair_entry va0 p f0 f1) va = Some pa"
    "pa OR 0xa0000000 = unmapped_of (entry_of (if bit va 12 then f1 else f0)) va"
proof -
  let ?e = "pair_entry va0 p f0 f1"
  have lo: "(if bit va 12 then entry_lo1 ?e else entry_lo0 ?e) = entry_of (if bit va 12 then f1 else f0)"
    by (simp add: pair_entry_def)
  show ?thesis
    using that tlb_phys_unmapped [of va ?e] unfolding lo by (auto simp: entry_valid [unfolded One_nat_def])
qed

lemma vpn2_of_vpn: "get_vpn2 x = drop_bit 1 (get_vpn x)"
  by (simp add: get_vpn2_def get_vpn_def)

text \<open>
  When two neighbouring pages are mapped, the entry that \<open>write_TLB_index\<close> makes of their page table entries is hit by every
  address of the two pages in the address space of the current process, and gives the frame of the page.
\<close>

theorem tlb_entry_agrees:
  assumes c: "current_running s = Some c" and q: "querry_PTE (get_vpn va0) p s = Some (Some a)" "querry_PTE (get_vpn va1) p s = Some (Some b)"
    and mp: "maps s m p (get_vpn va0) f0" "maps s m p (get_vpn va1) f1" and i: "unat index < TLB_ENTRIES"
    and va: "get_vpn va = get_vpn va0 \<and> \<not> bit va 12 \<or> get_vpn va = get_vpn va1 \<and> bit va 12" "get_vpn2 va0 = get_vpn2 va1"
  shows "\<exists>s1 t1 pa. write_TLB_index a b index (s, m) t = Some (s1, t1) \<and>
    tlb_hit (t1 (unat index)) (push_bit 13 (get_vpn2 va) OR (word_of_int (pid (pcb s c)) AND 0xff)) \<and>
    tlb_phys (t1 (unat index)) va = Some pa \<and> pa OR 0xa0000000 = unmapped_of (entry_of (if bit va 12 then f1 else f0)) va"
proof -
  let ?e = "pair_entry va0 (pid (pcb s c)) f0 f1"
  have r: "rd32 (mem m) a = get_vpn va0" "rd32 (mem m) (a + 4) = entry_of f0" "rd32 (mem m) (b + 4) = entry_of f1"
    using mp q by (simp_all add: maps_def)
  have l: "load_entry a b (s, m) = Some ?e" using c r by (simp add: load_entry_def pair_entry_def vpn2_of_vpn)
  have "\<exists>x. kprintk fmt [] s = Some x" if "args_ok fmt []" for fmt
    using mini_vsnprintf_total [OF that, of 256] by (auto simp: kprintk_def printk_def)
  then obtain x y where "kprintk (cs ''Error in write_TLB_index()'' @ [10]) [] s = Some x" "kprintk (cs ''TLB write correct.'' @ [10]) [] s = Some y"
    by fastforce
  then have "\<exists>s1. write_TLB_index a b index (s, m) t = Some (s1, t(unat index := ?e))"
    using l i by (simp add: write_TLB_index_def Let_def del: cs_Cons)
  moreover have "get_vpn2 va = get_vpn2 va0" using va by (auto simp: vpn2_of_vpn)
  ultimately show ?thesis using pair_entry_hit by (metis fun_upd_same pair_entry_phys)
qed

text \<open>After the scheduler has cleared the TLB, no entry translates an address.\<close>

lemma clear_TLB_eq: "clear_TLB pmask t i =
  (if i < TLB_ENTRIES then \<lparr>entry_hi = 0, entry_lo0 = 0, entry_lo1 = 0, page_mask = pmask\<rparr> else t i)"
proof -
  have "for_upto 0 n (\<lambda>i t. t(i := e)) t i = (if i < n then e else t i)" for n and e :: tlb_entry
    by (induction n) (auto simp: for_upto_Suc)
  then show ?thesis by (simp add: clear_TLB_def)
qed

theorem cleared_TLB_translates_nothing: "i < TLB_ENTRIES \<Longrightarrow> tlb_phys (clear_TLB pmask t i) va = None"
  by (simp add: clear_TLB_eq tlb_phys_def)

subsection \<open>The handler\<close>

text \<open>The page whose entry the handler uses for the even page of the pair of \<open>va\<close>.\<close>

definition refill_vpn :: "u32 \<Rightarrow> u32" where
  "refill_vpn va = word_of_nat (512 * (unat va div 2097152) + 2 * (unat va div 16384 mod 256))"

lemma unat_refill_vpn: "unat va < 2147483648 \<Longrightarrow>
  unat (refill_vpn va) = 512 * (unat va div 2097152) + 2 * (unat va div 16384 mod 256)"
proof -
  assume "unat va < 2147483648"
  then have "unat va div 2097152 < 1024" by simp
  moreover have "unat va div 16384 mod 256 < 256" by simp
  ultimately show ?thesis unfolding refill_vpn_def by (subst unat_of_nat_u32) simp_all
qed

lemma unat_drop_u32: "unat (drop_bit n (x :: u32)) = unat x div 2 ^ n"
  by (simp only: unat_drop_bit_eq) (simp add: drop_bit_eq_div)

lemma refill_offset: "unat (drop_bit 13 va AND 510 :: u32) = 2 * (unat va div 16384 mod 256)"
proof -
  have m: "(510 :: u32) = push_bit 1 (mask 8)" by (simp add: mask_eq_exp_minus_1)
  have "drop_bit 13 va AND 510 = push_bit 1 (take_bit 8 (drop_bit 14 va))"
  proof (rule bit_word_eqI)
    fix n assume "n < LENGTH(32)"
    then show "bit (drop_bit 13 va AND 510) n = bit (push_bit 1 (take_bit 8 (drop_bit 14 va))) n"
      unfolding m bit_and_iff bit_push_bit_iff bit_drop_bit_eq bit_take_bit_iff bit_mask_iff o_apply
      by (cases n) auto
  qed
  also have "unat \<dots> = 2 * unat (take_bit 8 (drop_bit 14 va))"
  proof -
    have "unat (take_bit 8 (drop_bit 14 va)) < 256"
      by (simp only: unsigned_take_bit_eq) (simp add: take_bit_eq_mod)
    then show ?thesis by (simp add: push_bit_eq_mult unat_word_ariths)
  qed
  also have "unat (take_bit 8 (drop_bit 14 va)) = unat va div 16384 mod 256"
    by (simp only: unsigned_take_bit_eq unat_drop_u32) (simp add: take_bit_eq_mod)
  finally show ?thesis .
qed

lemma refill_hi:
  assumes "0 \<le> p" "p < 256"
  shows "((va AND 0xffffe000) OR word_of_int p) AND 0xffffe0ff = push_bit 13 (get_vpn2 va) OR (word_of_int p AND 0xff :: u32)"
proof -
  have m: "(0xffffe000 :: u32) = NOT (mask 13)" "(0xffffe0ff :: u32) = NOT (mask 13) OR mask 8" "(0xff :: u32) = mask 8"
    by (simp_all add: mask_eq_exp_minus_1)
  have "take_bit 8 p = p" using assms by (simp add: take_bit_int_eq_self)
  then have b: "bit p n \<Longrightarrow> n < 8" for n by (metis bit_take_bit_iff)
  show ?thesis unfolding m get_vpn2_def by (rule bit_word_eqI) (auto simp: bit_simps dest: b)
qed

text \<open>The address of the page table entry that the handler reads is the one of \<^const>\<open>refill_vpn\<close>.\<close>

lemma refill_address:
  assumes "unat va < 2147483648"
  shows "t + 8 * (drop_bit 13 va AND 510) = pte_addr t (refill_vpn va)"
    and "t + 8 * (drop_bit 13 va AND 510) + 12 = pte_addr t (refill_vpn va + 1) + 4"
    and "unat (drop_bit 21 va) = unat (refill_vpn va) div 512" "unat (refill_vpn va + 1) = unat (refill_vpn va) + 1"
    "unat (refill_vpn va + 1) div 512 = unat (refill_vpn va) div 512"
proof -
  define k where "k = unat va div 16384 mod 256"
  have k: "k < 256" by (simp add: k_def)
  have i: "unat va div 2097152 < 1024" using assms by simp
  have u: "unat (refill_vpn va) = 512 * (unat va div 2097152) + 2 * k"
    using unat_refill_vpn [OF assms] by (simp add: k_def)
  then have d: "unat (refill_vpn va) div 512 = unat va div 2097152" "unat (refill_vpn va) mod 512 = 2 * k" using k by auto
  show n: "unat (refill_vpn va + 1) = unat (refill_vpn va) + 1" using u k i by (subst unat_add_u32) auto
  then have d1: "unat (refill_vpn va + 1) div 512 = unat va div 2097152" "unat (refill_vpn va + 1) mod 512 = 2 * k + 1"
    using u k by auto
  have o: "drop_bit 13 va AND 510 = word_of_nat (2 * k)"
    using refill_offset [of va] k unfolding k_def [symmetric] word_unat_eq_iff by (subst unat_of_nat_u32) simp_all
  show "t + 8 * (drop_bit 13 va AND 510) = pte_addr t (refill_vpn va)"
    unfolding pte_addr_page d(2) o by simp
  show "t + 8 * (drop_bit 13 va AND 510) + 12 = pte_addr t (refill_vpn va + 1) + 4"
    unfolding pte_addr_page d1(2) o by (simp add: algebra_simps)
  show "unat (drop_bit 21 va) = unat (refill_vpn va) div 512" by (simp add: unat_drop_u32 d)
  show "unat (refill_vpn va + 1) div 512 = unat (refill_vpn va) div 512" using d(1) d1(1) by simp
qed

lemma tlbp_cases:
  obtains "tlbp ehi t = 0x80000000" | i where "i < TLB_ENTRIES" "tlbp ehi t = word_of_nat i"
proof (cases "first_index 0 TLB_ENTRIES (\<lambda>i. tlb_hit (t i) ehi)")
  case None
  then show ?thesis using that(1) by (simp add: tlbp_def)
next
  case (Some i)
  then have "tlbp ehi t = word_of_nat i" "i < TLB_ENTRIES" by (simp add: tlbp_def) (use Some in \<open>simp add: first_index_Some\<close>)
  then show ?thesis using that(2) by blast
qed

text \<open>The handler writes the entry of the pair \<^const>\<open>refill_vpn\<close> for the pair of the faulting address.\<close>

lemma refill_writes:
  assumes c: "current_running s = Some q" and proc: "get_proc_by_pid (pid (pcb s q)) s = Some q"
    and p: "0 \<le> pid (pcb s q)" "pid (pcb s q) < 256" and va: "unat (badvaddr c) < 2147483648" "2097152 \<le> unat (badvaddr c)"
    and mp: "maps s m (pid (pcb s q)) (refill_vpn (badvaddr c)) f0" "maps s m (pid (pcb s q)) (refill_vpn (badvaddr c) + 1) f1"
  obtains c' i where "TLB_exception_handler_entry random (s, m) c = Some ((s, m), c')" "i < TLB_ENTRIES"
    "entries c' i = pair_entry (badvaddr c) (pid (pcb s q)) f0 f1" "badvaddr c' = badvaddr c"
proof -
  let ?va = "badvaddr c" and ?e = "pair_entry (badvaddr c) (pid (pcb s q)) f0 f1"
  note ra = refill_address [OF va(1)]
  define t where "t = secondary_pt (pcb s q) (unat (drop_bit 21 ?va))"
  define c1 where "c1 = probe (c\<lparr>regs := ?e\<rparr>)"
  have t: "table_of s q (refill_vpn ?va) = t" by (simp add: t_def ra(3))
  have i: "unat (drop_bit 21 ?va) < FIRST_PTE_NUM" and t0: "t \<noteq> 0"
    and rd: "rd32 (mem m) (t + 8 * (drop_bit 13 ?va AND 510)) = refill_vpn ?va"
      "rd32 (mem m) (t + 8 * (drop_bit 13 ?va AND 510) + 4) = entry_of f0"
    using mp(1) unfolding maps_iff [OF proc] Let_def t ra(1,3) by simp_all
  have rd1: "rd32 (mem m) (t + 8 * (drop_bit 13 ?va AND 510) + 12) = entry_of f1"
    using mp(2) unfolding maps_iff [OF proc] Let_def ra(2,5) t by simp
  have "unat (refill_vpn ?va) \<noteq> 0" using va by (simp add: unat_refill_vpn div_greater_zero_iff)
  then have nz: "refill_vpn ?va \<noteq> 0" by auto
  have run: "TLB_exception_handler_entry random (s, m) c =
      (if drop_bit 31 (index_reg c1) = 0 then do { c2 \<leftarrow> tlbwi c1; Some ((s, m), c2) }
       else Some ((s, m), tlbr (probe (tlbwr random c1))))"
    using c i t0 nz
    by (simp add: TLB_exception_handler_entry_def Let_def t_def [symmetric] rd rd1 refill_hi [OF p] c1_def pair_entry_def)
  have r: "regs c1 = ?e" "badvaddr c1 = ?va" "index_reg c1 = tlbp (entry_hi ?e) (entries c)" by (simp_all add: c1_def probe_def)
  show ?thesis
  proof (rule tlbp_cases [of "entry_hi ?e" "entries c"])
    assume "tlbp (entry_hi ?e) (entries c) = 0x80000000"
    then have "TLB_exception_handler_entry random (s, m) c = Some ((s, m), tlbr (probe (tlbwr random c1)))"
      using run r by simp
    then show ?thesis using that [of "tlbr (probe (tlbwr random c1))" "random mod TLB_ENTRIES"] r
      by (simp add: tlbr_def probe_def tlbwr_def)
  next
    fix j assume j: "j < TLB_ENTRIES" "tlbp (entry_hi ?e) (entries c) = word_of_nat j"
    then have u: "unat (word_of_nat j :: u32) = j" by (simp add: unat_of_nat_u32)
    have "(63 :: u32) = mask 6" by (simp add: mask_eq_exp_minus_1)
    then have "unat (word_of_nat j AND 63 :: u32) = j"
      using j(1) u by (simp only: take_bit_eq_mask [symmetric] unsigned_take_bit_eq) (simp add: take_bit_eq_mod)
    moreover have "drop_bit 31 (word_of_nat j :: u32) = 0"
      using j(1) u by (simp add: word_unat_eq_iff unat_drop_u32)
    ultimately have "TLB_exception_handler_entry random (s, m) c = Some ((s, m), c1\<lparr>entries := (entries c1)(j := ?e)\<rparr>)"
      using run r j by (simp add: tlbwi_def Let_def)
    then show ?thesis using that [of "c1\<lparr>entries := (entries c1)(j := ?e)\<rparr>" j] j(1) r by simp
  qed
qed

lemma odd_page: "bit va 12 \<longleftrightarrow> odd (unat (va :: u32) div 4096)"
proof -
  have "bit (unat va) 12 \<longleftrightarrow> bit va 12" by (simp add: bit_unsigned_iff)
  then show ?thesis by (simp add: bit_iff_odd)
qed

lemma vpn_of_pair:
  assumes "unat va < 2147483648"
  shows "get_vpn va = (if bit va 12 then get_vpn (push_bit 13 (drop_bit 13 va) + PAGE_SIZE) else get_vpn (push_bit 13 (drop_bit 13 va)))"
proof -
  have v: "unat (drop_bit 13 va) < 262144" using assms by (simp add: unat_drop_u32)
  have "unat va div 8192 = unat va div 4096 div 2" by (simp add: div_mult2_eq [symmetric])
  then show ?thesis
    using vpn_pair [OF v] unfolding odd_page word_unat_eq_iff by (auto simp: get_vpn_def unat_drop_u32)
qed

lemma add_page_keeps: "add_page b q (s, m) = Some (s1, m1) \<Longrightarrow> current_running s1 = current_running s \<and> pid (pcb s1 x) = pid (pcb s x)"
  by (auto simp: add_page_def Let_def upd_pcb_def split: if_splits bind_splits)

lemma add_2_page_keeps:
  assumes "add_2_page v p (s, m) = Some (s1, m1)"
  shows "current_running s1 = current_running s" "pid (pcb s1 x) = pid (pcb s x)"
  using assms add_page_keeps [of _ _ s m _ _ x] add_page_keeps [of _ _ _ _ s1 m1 x]
  by (auto simp: add_2_page_def Let_def split: bind_splits)


text \<open>
  C39: The handler shifts the address by thirteen instead of twelve bits to find the entry in the second level table, so that other
  addresses of a region are given the frames of other pages: an access to the pages \<open>0x40002000\<close> and \<open>0x40003000\<close> reaches the
  frames of the pages \<open>0x40000000\<close> and \<open>0x40001000\<close>, whatever the page table says about the former.
\<close>

theorem refill_aliases:
  assumes c: "current_running s = Some q" and proc: "get_proc_by_pid (pid (pcb s q)) s = Some q"
    and p: "0 \<le> pid (pcb s q)" "pid (pcb s q) < 256" and va: "get_vpn2 (badvaddr c) = 0x20001"
    and mp: "maps s m (pid (pcb s q)) 0x40000 f0" "maps s m (pid (pcb s q)) 0x40001 f1"
  shows "\<exists>c' i pa. TLB_exception_handler_entry random (s, m) c = Some ((s, m), c') \<and> i < TLB_ENTRIES \<and>
    tlb_hit (entries c' i) (push_bit 13 (get_vpn2 (badvaddr c)) OR (word_of_int (pid (pcb s q)) AND 0xff)) \<and>
    tlb_phys (entries c' i) (badvaddr c) = Some pa \<and>
    pa OR 0xa0000000 = unmapped_of (entry_of (if bit (badvaddr c) 12 then f1 else f0)) (badvaddr c)"
proof -
  let ?va = "badvaddr c" and ?p = "pid (pcb s q)"
  have "unat ?va div 8192 = 131073"
    using va unat_drop_u32 [of 13 ?va] by (simp add: get_vpn2_def)
  then have r: "1073750016 \<le> unat ?va" "unat ?va < 1073758208" by simp_all
  then have "unat ?va div 2097152 = 512" "unat ?va div 16384 = 65536" by simp_all
  then have w: "refill_vpn ?va = 0x40000" by (simp add: refill_vpn_def)
  obtain c2 j where "TLB_exception_handler_entry random (s, m) c = Some ((s, m), c2)" "j < TLB_ENTRIES"
    "entries c2 j = pair_entry ?va ?p f0 f1"
    by (rule refill_writes [OF c proc p, of c m f0 f1 random]) (use r mp in \<open>simp_all add: w\<close>)
  then show ?thesis using pair_entry_hit [OF refl, of ?va ?p f0 f1] by (metis (no_types, lifting) pair_entry_phys)
qed

definition demo_cp0 :: "u32 \<Rightarrow> cp0_t" where
  "demo_cp0 va = (let e = \<lparr>entry_hi = 0, entry_lo0 = 0, entry_lo1 = 0, page_mask = 0\<rparr>
     in \<lparr>badvaddr = va, index_reg = 0, regs = e, entries = \<lambda>_. e\<rparr>)"

lemma demo_cp0_va [simp]: "badvaddr (demo_cp0 va) = va"
  by (simp add: demo_cp0_def Let_def)

lemma demo_running: "current_running demo_state = Some 0" "pid (pcb demo_state 0) = 0" "secondary_pt (pcb demo_state 0) i = 0"
  by (simp_all add: demo_state_def blank_pcb_def)


definition aliased_mm :: mm_t where
  "aliased_mm = blank_mm\<lparr>mem := write_pte 0xa08f0000 0x40001 (entry_of 0xa08f2000) (write_pte 0xa08f0000 0x40000 (entry_of 0xa08f1000) (\<lambda>_. 0))\<rparr>"

definition aliased_state :: kstate where
  "aliased_state = set_second 0 512 0xa08f0000 demo_state"

lemma aliased_maps: "maps aliased_state aliased_mm 0 0x40000 0xa08f1000" "maps aliased_state aliased_mm 0 0x40001 0xa08f2000"
proof -
  have p: "page_frame 0xa08f0000" by (simp add: page_frame_unat)
  have g: "get_proc_by_pid 0 aliased_state = Some 0" by (simp add: aliased_state_def demo_pt)
  show "maps aliased_state aliased_mm 0 0x40000 0xa08f1000" "maps aliased_state aliased_mm 0 0x40001 0xa08f2000"
    unfolding maps_iff [OF g] aliased_mm_def Let_def
    by (simp_all add: aliased_state_def read_written_pte [OF p] read_other_pte [OF p])
qed

theorem refill_aliases_witness:
  "\<exists>c' i pa. TLB_exception_handler_entry 3 (aliased_state, aliased_mm) (demo_cp0 0x40002004) = Some ((aliased_state, aliased_mm), c') \<and>
     tlb_phys (entries c' i) 0x40002004 = Some pa \<and> pa OR 0xa0000000 = 0xa08f1004"
proof -
  have r: "current_running aliased_state = Some 0" "pid (pcb aliased_state 0) = 0" "get_proc_by_pid 0 aliased_state = Some 0"
    by (simp_all add: aliased_state_def demo_running demo_pt) (simp_all add: set_second_def upd_pcb_def demo_running)
  have "unmapped_of (entry_of 0xa08f1000) 0x40002004 = 0xa08f1004"
    by (simp add: unmapped_of_def entry_of_def COMPRESS_ENTRYLO_def get_pfn_def get_paddr_def)
  then show ?thesis
    using refill_aliases [OF r(1), of "demo_cp0 0x40002004" aliased_mm "0xa08f1000" "0xa08f2000" 3] aliased_maps
    by (auto simp: r get_vpn2_def)
qed

end
