(* ===== verification/Irq.thy ===== *)
theory Irq
  imports Sync
begin

text \<open>
  \<^verbatim>\<open>kernel/irq/irq.c\<close> and the part of \<^verbatim>\<open>drivers/mac.c\<close> that blocks and wakes processes: the dispatch of interrupts, the
  timer interrupt, the interrupt of the network device and the wait for a packet.

  An interrupt handler that calls \<open>do_scheduler\<close> gives up the processor there. What it does before is
  \<open>interrupt_helper\<close>; what it does when its process is resumed is \<open>interrupt_resume\<close>. The registers that the
  handler reads (the cause and status registers, the counter, the status of the interrupt controller) are
  arguments.
\<close>

subsection \<open>Operations\<close>

abbreviation "LS1C_MAC_IRQ \<equiv> (8 :: u32)"

text \<open>The handler that the network code installs; \<open>clear_interrupt\<close> writes device registers only.\<close>

definition mac_irq_handle_recv :: "kstate \<Rightarrow> kstate option" where
  "mac_irq_handle_recv s =
     (case kq_dequeue RecvQ s of
        (None, s1) \<Rightarrow> Some s1
      | (Some proc, s1) \<Rightarrow> invoke_blocked_proc (Some proc) s1)"

text \<open>\<open>do_wait_recv_package\<close>: registering the descriptor, and one round of the loop.\<close>

definition recv_wait :: "nat \<Rightarrow> kstate \<Rightarrow> (bool \<times> kstate) option" where
  "recv_wait desc s =
     (if desc_tdes0 s desc AND 0x80000000 \<noteq> 0
      then do { s1 \<leftarrow> do_block RecvQ s; Some (False, s1) }
      else Some (True, s))"

definition do_wait_recv_package :: "nat \<Rightarrow> kstate \<Rightarrow> (bool \<times> kstate) option" where
  "do_wait_recv_package desc s = do {
     c \<leftarrow> current_running s;
     recv_wait desc (upd_pcb c (\<lambda>p. p\<lparr>waiting_desc := Some desc\<rparr>) s) }"

definition irq_timer :: "kstate \<Rightarrow> kstate option" where
  "irq_timer s = do {
     x \<leftarrow> screen_reflush (scr s);
     do_scheduler (s\<lparr>scr := x\<rparr>) }"

definition irq_device :: "(kstate \<Rightarrow> kstate option) option \<Rightarrow> u32 \<Rightarrow> kstate \<Rightarrow> kstate option" where
  "irq_device mac_int_handler int_sr s =
     (if int_sr AND LS1C_MAC_IRQ \<noteq> 0
      then (case mac_int_handler of
              Some h \<Rightarrow> h s
            | None \<Rightarrow> do { x \<leftarrow> printk (cs ''[ERROR] Uinitialized mac irq handler'') [] (scr s); Some (s\<lparr>scr := x\<rparr>) })
      else Some s)"

definition pending :: "u32 \<Rightarrow> u32 \<Rightarrow> u32" where
  "pending sr cause = drop_bit 8 (cause AND sr) AND 255"

definition device_part :: "(kstate \<Rightarrow> kstate option) option \<Rightarrow> u32 \<Rightarrow> u32 \<Rightarrow> kstate \<Rightarrow> kstate option" where
  "device_part mac_int_handler int_sr ip s =
     (if ip AND 8 \<noteq> 0 then irq_device mac_int_handler int_sr s else Some s)"

text \<open>The Boolean says that the handler stopped in the scheduler.\<close>

definition interrupt_helper ::
  "(kstate \<Rightarrow> kstate option) option \<Rightarrow> u32 \<Rightarrow> u32 \<Rightarrow> u32 \<Rightarrow> kstate \<Rightarrow> (bool \<times> kstate) option" where
  "interrupt_helper mac_int_handler int_sr sr cause s =
     (let ip = pending sr cause
      in if ip AND 128 \<noteq> 0 then do { s1 \<leftarrow> irq_timer s; Some (True, s1) }
         else do { s1 \<leftarrow> device_part mac_int_handler int_sr ip s; Some (False, s1) })"

definition interrupt_resume ::
  "(kstate \<Rightarrow> kstate option) option \<Rightarrow> u32 \<Rightarrow> u32 \<Rightarrow> u32 \<Rightarrow> u32 \<Rightarrow> kstate \<Rightarrow> kstate option" where
  "interrupt_resume mac_int_handler int_sr ticks sr cause s =
     device_part mac_int_handler int_sr (pending sr cause) (update_time_stamp ticks s)"

subsection \<open>The invariant\<close>

lemma sched_inv_frame:
  assumes "sched_inv s Q"
  shows "sched_inv (s\<lparr>scr := x\<rparr>) Q" "sched_inv (update_time_stamp n s) Q"
  by (rule sched_inv_sync_update [OF assms]; simp add: update_time_stamp_def Let_def)+

lemma mac_irq_inv:
  assumes inv: "sched_inv s Q" and cur: "current_running s = Some c" "status (pcb s c) \<noteq> TASK_BLOCKED"
  shows "\<exists>s' Q'. mac_irq_handle_recv s = Some s' \<and> sched_inv s' Q' \<and>
    (case Q RecvQ of [] \<Rightarrow> s' = s \<and> Q' = Q | p # ps \<Rightarrow> Q' = wake s p (Q(RecvQ := ps)) \<and> waked {p} s s')"
proof (cases "Q RecvQ")
  case Nil
  then show ?thesis
    using inv kq_dequeue_Nil [OF sched_invD(1) [OF inv] Nil] by (simp add: mac_irq_handle_recv_def)
next
  case (Cons p ps)
  note D = sched_invD [OF inv]
  have "awake_time_update (\<lambda>x. x) = (\<lambda>y :: pcb_t. y)" by (simp add: fun_eq_iff)
  then have id: "upd_pcb p (awake_time_update (\<lambda>x. x)) s1 = s1" for s1 unfolding upd_pcb_def by simp
  obtain s1 s' where s': "kq_dequeue RecvQ s = (Some p, s1)" "invoke_blocked_proc (Some p) s1 = Some s'"
    "queues_wf s' (wake s p (Q(RecvQ := ps)))" "waked {p} s s'"
    using wake_queue_head [OF D(1) Cons D(6), of "\<lambda>x. x"] unfolding id by blast
  have "distinct (p # ps)" using queues_wf_distinct [OF D(1), of RecvQ] Cons by simp
  then have "sched_inv s' (wake s p (Q(RecvQ := ps)))"
    using Cons by (intro sched_inv_wake_one [OF inv cur _ _ s'(4,3)]) simp_all
  then show ?thesis using s' Cons by (simp add: mac_irq_handle_recv_def)
qed

lemma irq_timer_inv:
  assumes "sched_inv s Q"
  shows "\<exists>s' Q'. irq_timer s = Some s' \<and> sched_inv s' Q' \<and>
    (\<forall>p. p \<in> queued Q \<or> current_running s = Some p \<longrightarrow> status (pcb s p) \<noteq> TASK_EXITED \<longrightarrow>
       p \<in> queued Q' \<or> current_running s' = Some p)"
proof -
  obtain x where x: "screen_reflush (scr s) = Some x" using screen_reflush_total [of "scr s"] by blast
  from sched_inv_scheduler [OF sched_inv_frame(1) [OF assms, of x]] show ?thesis by (simp add: irq_timer_def x)
qed

lemma device_part_inv:
  assumes inv: "sched_inv s Q" and cur: "current_running s = Some c" "status (pcb s c) \<noteq> TASK_BLOCKED"
    and h: "h = None \<or> h = Some mac_irq_handle_recv"
  shows "\<exists>s' Q'. device_part h int_sr ip s = Some s' \<and> sched_inv s' Q' \<and> current_running s' = Some c \<and>
    queued Q' = queued Q \<and> (ip AND 8 = 0 \<or> int_sr AND LS1C_MAC_IRQ = 0 \<longrightarrow> s' = s)"
proof -
  obtain out where o: "mini_vsnprintf 256 (cs ''[ERROR] Uinitialized mac irq handler'') [] = Some out"
    using mini_vsnprintf_total by force
  obtain s' Q' where m: "mac_irq_handle_recv s = Some s'" "sched_inv s' Q'"
    "case Q RecvQ of [] \<Rightarrow> s' = s \<and> Q' = Q | p # ps \<Rightarrow> Q' = wake s p (Q(RecvQ := ps)) \<and> waked {p} s s'"
    using mac_irq_inv [OF inv cur] by blast
  have "queued (wake s p (Q(RecvQ := ps))) = queued Q" if "Q RecvQ = p # ps" for p ps
    using queued_remove_head [where Q = Q and q = RecvQ, OF that] by simp
  then have "current_running s' = Some c" "queued Q' = queued Q"
    using m(3) cur(1) by (auto dest: waked_frame split: list.splits)
  moreover have "\<exists>Q'. sched_inv (s\<lparr>scr := port_write out (scr s)\<rparr>) Q' \<and> queued Q' = queued Q"
    by (intro exI [of _ Q] conjI sched_inv_frame inv refl)
  ultimately show ?thesis
    using h m(1,2) inv cur(1) by (auto simp: device_part_def irq_device_def printk_def o simp del: cs_Cons)
qed

lemma sched_inv_set_desc:
  assumes inv: "sched_inv s Q"
  shows "sched_inv (upd_pcb c (\<lambda>p. p\<lparr>waiting_desc := Some d\<rparr>) s) Q"
  using inv unfolding sched_inv_def by (auto simp: pick_ok_def)

lemma and_bit: "x AND 8 = 0 \<longleftrightarrow> \<not> bit x 3" "x AND 128 = 0 \<longleftrightarrow> \<not> bit x 7" "x AND 0x80000000 = 0 \<longleftrightarrow> \<not> bit x 31" for x :: u32
  using and_exp_eq_0_iff_not_bit [of x 3] and_exp_eq_0_iff_not_bit [of x 7] and_exp_eq_0_iff_not_bit [of x 31] by simp_all

lemma bit_pending: "k < 8 \<Longrightarrow> bit (pending sr cause) k \<longleftrightarrow> bit (cause AND sr) (k + 8)"
proof -
  assume k: "k < 8"
  have m: "bit (255 :: u32) k"
  proof -
    have "bit (mask 8 :: u32) k" using k unfolding bit_mask_iff by simp
    then show ?thesis by (simp add: mask_eq_exp_minus_1)
  qed
  show ?thesis unfolding pending_def by (simp only: m bit_and_iff bit_drop_bit_eq o_apply add.commute [of 8] simp_thms)
qed

subsection \<open>Properties\<close>



text \<open>
  Waiting for a packet. The call returns at once exactly if the device has already handed the descriptor back;
  otherwise the process blocks and the scheduler picks another one. Either way the invariant holds and the
  calling process is running or queued.
\<close>

theorem wait_recv_keeps_invariant:
  assumes "sched_inv s Q" "current_running s = Some c" "status (pcb s c) \<noteq> TASK_BLOCKED"
  shows "\<exists>got s' Q'. do_wait_recv_package d s = Some (got, s') \<and> sched_inv s' Q' \<and>
    (got \<longleftrightarrow> \<not> bit (desc_tdes0 s d) 31) \<and> (got \<longrightarrow> current_running s' = Some c) \<and>
    (c \<in> queued Q' \<or> current_running s' = Some c)"
proof -
  let ?s = "upd_pcb c (\<lambda>p. p\<lparr>waiting_desc := Some d\<rparr>) s"
  have w: "do_wait_recv_package d s = recv_wait d ?s" by (simp add: do_wait_recv_package_def assms(2))
  note inv = sched_inv_set_desc [OF assms(1), of c d]
  show ?thesis
  proof (cases "bit (desc_tdes0 s d) 31")
    case True
    obtain s' Q' where "do_block RecvQ ?s = Some s'" "sched_inv s' Q'" "c \<in> queued Q' \<or> current_running s' = Some c"
      using sched_inv_do_block [OF inv, of c RecvQ] assms(2,3) by auto
    then show ?thesis using True
      by (intro exI [of _ False] exI [of _ s'] exI [of _ Q']) (simp add: w recv_wait_def and_bit)
  next
    case False
    then show ?thesis using inv assms(2)
      by (intro exI [of _ True] exI [of _ ?s] exI [of _ Q]) (simp add: w recv_wait_def and_bit)
  qed
qed

theorem wait_recv_keeps_invariant_witness:
  "\<exists>s'. do_wait_recv_package 0 (demo_state\<lparr>desc_tdes0 := \<lambda>_. 0x80000000\<rparr>) = Some (False, s')"
proof -
  let ?s = "demo_state\<lparr>desc_tdes0 := \<lambda>_. 0x80000000\<rparr>"
  have inv: "sched_inv ?s demo_queues" by (rule sched_inv_sync_update [OF demo_inv]) simp_all
  have c: "current_running ?s = Some 0" "status (pcb ?s 0) \<noteq> TASK_BLOCKED" "bit (desc_tdes0 ?s 0) 31"
    by (simp_all add: demo_state_def)
  from wait_recv_keeps_invariant [OF inv c(1,2), of 0] c(3) show ?thesis by auto
qed

end
