(* ===== verification/Proc.thy ===== *)
theory Proc
  imports Sync
begin

text \<open>
  The life of a process, from \<^verbatim>\<open>kernel/sched/sched.c\<close> and \<^verbatim>\<open>init/main.c\<close>: resetting and
  creating PCBs, spawn, exit, kill, waitpid, the process table and the set-up at boot. The
  addresses the linker chooses (\<open>exception_handler_exit\<close>, the entry of the shell) and the array
  \<open>test_tasks\<close> are arguments. \<open>do_spawn\<close> ignores its \<open>arg\<close>: the code that would copy it is
  commented out.
\<close>

subsection \<open>Resetting\<close>

definition reset_reg_context :: "regs_context_t \<Rightarrow> regs_context_t" where
  "reset_reg_context r =
     r\<lparr>regs := for_upto 0 32 (\<lambda>i f. f(i := 0)) (regs r),
       cp0_badvaddr := 0, cp0_cause := 0, cp0_status := 0, hi := 0, lo := 0, pc := 0\<rparr>"

definition reset_pcb_fields :: "pcb_t \<Rightarrow> pcb_t" where
  "reset_pcb_fields p =
     p\<lparr>kernel_stack_top := 0, user_stack_top := 0, cursor_x := 0, ttype := USER_PROCESS,
       status := TASK_CREATE, pid := 0, awake_time := - 1, pname := cs ''unkown'', entry_point := 0,
       priority := 1,
       locks := for_upto 0 MAX_LOCK_NUM_FOR_A_PROC (\<lambda>i f. f(i := None)) (locks p),
       kernel_context := reset_reg_context (kernel_context p),
       user_context := reset_reg_context (user_context p)\<rparr>"

definition reset_pcb :: "nat \<Rightarrow> kstate \<Rightarrow> kstate" where
  "reset_pcb i s =
     (upd_pcb i reset_pcb_fields s)
       \<lparr>klinks := set_prev i None (set_next i None (klinks s)),
        queues := (queues s)(ProcQ i := \<lparr>q_head = None, q_tail = None\<rparr>)\<rparr>"

text \<open>Both stack pointers of both contexts set to the stack tops.\<close>

definition reset_stacks :: "pcb_t \<Rightarrow> pcb_t" where
  "reset_stacks p =
     p\<lparr>kernel_context := (kernel_context p)
         \<lparr>regs := (regs (kernel_context p))(30 := kernel_stack_top p, 29 := kernel_stack_top p)\<rparr>,
       user_context := (user_context p)
         \<lparr>regs := (regs (user_context p))(30 := user_stack_top p, 29 := user_stack_top p)\<rparr>\<rparr>"

subsection \<open>Creation\<close>

definition free_pcb :: "kstate \<Rightarrow> nat \<Rightarrow> bool" where
  "free_pcb s i \<longleftrightarrow> status (pcb s i) = TASK_CREATE \<or> status (pcb s i) = TASK_EXITED"

definition create_proc_with_priority :: "u32 \<Rightarrow> kstate \<Rightarrow> nat option \<times> kstate" where
  "create_proc_with_priority p s =
     (let pr = clamp_priority p;
          ret = first_index 0 NUM_MAX_TASK (free_pcb s);
          s1 = (case ret of
                  None \<Rightarrow> s
                | Some i \<Rightarrow> upd_pcb i (\<lambda>x. reset_stacks (x\<lparr>pid := int i, status := TASK_READY,
                                                         priority := pr\<rparr>)) s)
      in (ret, increase_priority_upper_bound pr s1))"

definition create_proc :: "kstate \<Rightarrow> nat option \<times> kstate" where
  "create_proc s = create_proc_with_priority 1 s"

definition do_spawn_with_priority :: "u32 \<Rightarrow> task_info_t \<Rightarrow> int \<Rightarrow> kstate \<Rightarrow> kstate option" where
  "do_spawn_with_priority exc_exit task prio s =
     (case create_proc_with_priority (word_of_int prio) s of
        (None, s1) \<Rightarrow> Some s1
      | (Some tmp, s1) \<Rightarrow>
          if prio < 0 \<or> MAX_PRIORITY_NUM \<le> prio then None
          else do {
            s2 \<leftarrow> kq_push (ReadyQ prio) tmp s1;
            Some (upd_pcb tmp (\<lambda>x. x
              \<lparr>entry_point := task_entry_point task, ttype := task_type task,
               kernel_context := (kernel_context x)\<lparr>regs := (regs (kernel_context x))(31 := exc_exit)\<rparr>,
               user_context := (user_context x)\<lparr>cp0_epc := task_entry_point task\<rparr>,
               pname := task_name task,
               cursor_x := screen_cursor_x (scr s2), cursor_y := screen_cursor_y (scr s2)\<rparr>) s2) })"

definition do_spawn :: "u32 \<Rightarrow> task_info_t \<Rightarrow> kstate \<Rightarrow> kstate option" where
  "do_spawn exc_exit task s = do_spawn_with_priority exc_exit task 1 s"

definition do_exec :: "u32 \<Rightarrow> task_info_t list \<Rightarrow> int \<Rightarrow> kstate \<Rightarrow> kstate option" where
  "do_exec exc_exit test_tasks task_id s =
     (if task_id < 0 \<or> int (length test_tasks) \<le> task_id then Some s
      else do_spawn exc_exit (test_tasks ! nat task_id) s)"

subsection \<open>Exit, kill, waitpid\<close>

definition retire :: "pcb_t \<Rightarrow> pcb_t" where
  "retire p =
     (reset_stacks (p\<lparr>user_context := reset_reg_context (user_context p),
        kernel_context := reset_reg_context (kernel_context p), awake_time := - 1\<rparr>))
       \<lparr>status := TASK_EXITED, entry_point := 0, pname := cs ''unknown'', priority := 1\<rparr>"

text \<open>One round of the loop that releases the locks in the slots of process \<open>p\<close>.\<close>

definition release_slot :: "nat \<Rightarrow> nat \<Rightarrow> kstate \<Rightarrow> kstate option" where
  "release_slot p i s =
     (case locks (pcb s p) i of
        None \<Rightarrow> Some s
      | Some l \<Rightarrow> do {
          s1 \<leftarrow> do_mutex_lock_release l s;
          Some (upd_pcb p (\<lambda>x. x\<lparr>locks := (locks x)(i := None)\<rparr>) s1) })"

text \<open>The loop that wakes the processes waiting for \<open>p\<close> to exit.\<close>

partial_function (option) wake_waiters :: "nat \<Rightarrow> kstate \<Rightarrow> kstate option" where
  "wake_waiters p s =
     (case kq_dequeue (ProcQ p) s of
        (None, s1) \<Rightarrow> Some s1
      | (Some cur, s1) \<Rightarrow>
          if status (pcb s1 cur) \<noteq> TASK_EXITED
          then (case invoke_blocked_proc (Some cur) (upd_pcb cur (status_update (\<lambda>_. TASK_RUNNING)) s1) of
                  None \<Rightarrow> None
                | Some s2 \<Rightarrow> wake_waiters p s2)
          else wake_waiters p s1)"

definition do_exit :: "kstate \<Rightarrow> kstate option" where
  "do_exit s = do {
     c \<leftarrow> current_running s;
     let s1 = upd_pcb c retire s;
     s2 \<leftarrow> for_upto_opt 0 MAX_LOCK_NUM_FOR_A_PROC (release_slot c) s1;
     s3 \<leftarrow> wake_waiters c s2;
     let s4 = decrease_priority_upper_bound (priority (pcb s3 c)) s3;
     x \<leftarrow> screen_reflush (scr s4);
     do_scheduler (s4\<lparr>scr := x\<rparr>) }"

definition kill_msg :: "u8 list" where
  "kill_msg = cs ''Kill process '' @ [34] @ cs ''%s'' @ [34] @ cs '' whose pid = %d.'' @ [10]"

definition do_kill :: "int \<Rightarrow> kstate \<Rightarrow> kstate option" where
  "do_kill p s =
     (case get_proc_by_pid p s of
        None \<Rightarrow> kprintks (cs ''Invalid pid.'' @ [10] @ cs ''Do nothing.'' @ [10]) [] s
      | Some proc \<Rightarrow>
          if ttype (pcb s proc) = KERNEL_PROCESS
          then kprintks (cs ''Cannot kill a kernel process.'' @ [10]) [] s
          else do {
            s1 \<leftarrow> kprintks kill_msg [VStr (pname (pcb s proc)), VInt (word_of_int (pid (pcb s proc)))] s;
            let s2 = upd_pcb proc retire s1;
            s3 \<leftarrow> for_upto_opt 0 MAX_LOCK_NUM_FOR_A_PROC (release_slot proc) s2;
            s4 \<leftarrow> wake_waiters proc s3;
            let s5 = decrease_priority_upper_bound (priority (pcb s4 proc)) s4;
            x \<leftarrow> screen_reflush (scr s5);
            Some (s5\<lparr>scr := x\<rparr>) })"

definition do_get_pid :: "u32 \<Rightarrow> kstate \<Rightarrow> int" where
  "do_get_pid entry s =
     (case first_index 0 NUM_MAX_TASK (\<lambda>i. entry_point (pcb s i) = entry) of
        None \<Rightarrow> - 1 | Some i \<Rightarrow> pid (pcb s i))"

definition do_waitpid :: "int \<Rightarrow> kstate \<Rightarrow> kstate option" where
  "do_waitpid p s =
     (if p \<le> 0 \<or> int NUM_MAX_TASK < p then Some s
      else (case get_proc_by_pid p s of None \<Rightarrow> Some s | Some proc \<Rightarrow> do_block (ProcQ proc) s))"

subsection \<open>The process table\<close>

text \<open>For a process that is blocked or was never created the code prints an uninitialised pointer.\<close>

definition status_name :: "task_status_t \<Rightarrow> u8 list option" where
  "status_name st =
     (case st of
        TASK_READY \<Rightarrow> Some (cs ''ready'')
      | TASK_RUNNING \<Rightarrow> Some (cs ''running'')
      | TASK_EXITED \<Rightarrow> Some (cs ''exited'')
      | _ \<Rightarrow> None)"

definition do_print_proc_info :: "nat \<Rightarrow> kstate \<Rightarrow> kstate option" where
  "do_print_proc_info proc s = do {
     let p = pcb s proc;
     st \<leftarrow> status_name (status p);
     kprintks (cs ''PID: %d'' @ [9] @ cs ''NAME: %s'' @ [9] @ cs ''PRIORITY: %d'' @ [9] @
         cs ''STATUS: %s'' @ [10])
       [VInt (word_of_int (pid p)), VStr (pname p), VInt (priority p), VStr st] s }"

partial_function (option) ps_walk :: "nat option \<Rightarrow> nat \<times> kstate \<Rightarrow> (nat \<times> kstate) option" where
  "ps_walk cur st =
     (case cur of
        None \<Rightarrow> Some st
      | Some p \<Rightarrow>
          (case Option.bind (kprintks (cs ''[%d] '') [VInt (word_of_nat (fst st))] (snd st)) (do_print_proc_info p) of
             None \<Rightarrow> None
           | Some s1 \<Rightarrow> ps_walk (next_of (klinks s1) p) (fst st + 1, s1)))"

definition do_ps :: "kstate \<Rightarrow> kstate option" where
  "do_ps s = do {
     s1 \<leftarrow> kprintks (cs ''[PROCESS TABLE]'' @ [10]) [] s;
     s2 \<leftarrow> kprintks (cs ''[%d] '') [VInt 0] s1;
     c \<leftarrow> current_running s2;
     s3 \<leftarrow> do_print_proc_info c s2;
     (_, s4) \<leftarrow> for_upto_opt 0 (nat MAX_PRIORITY_NUM)
       (\<lambda>i st. ps_walk (q_head (queues (snd st) (ReadyQ (int i)))) st) (1, s3);
     Some s4 }"

subsection \<open>Set-up at boot\<close>

definition init_pready_queue :: "kstate \<Rightarrow> kstate" where
  "init_pready_queue s =
     for_upto 0 (nat MAX_PRIORITY_NUM)
       (\<lambda>i s. s\<lparr>priority_ready_queue_counter := (priority_ready_queue_counter s)(int i := 0),
                priority_ready_queue_counter_uppper_bound :=
                  (priority_ready_queue_counter_uppper_bound s)(int i := 0)\<rparr>) s"

definition STK_UNMAPPED_BASE :: u32 where "STK_UNMAPPED_BASE = 0xa0f00000"
definition STK_MAX_KER_PROC_OCC :: u32 where "STK_MAX_KER_PROC_OCC = 16 * 1024"
definition STK_MAX_USR_PROC_OCC :: u32 where "STK_MAX_USR_PROC_OCC = 16 * 1024"

definition init_one_pcb :: "nat \<Rightarrow> kstate \<Rightarrow> kstate" where
  "init_one_pcb i s =
     upd_pcb i (\<lambda>p. reset_stacks (p
       \<lparr>kernel_stack_top := STK_UNMAPPED_BASE - word_of_nat i * STK_MAX_KER_PROC_OCC,
        user_stack_top := STK_UNMAPPED_BASE - word_of_nat NUM_MAX_TASK * STK_MAX_KER_PROC_OCC
          - word_of_nat i * STK_MAX_USR_PROC_OCC\<rparr>))
       (reset_pcb i s)"

definition init_pcb :: "u32 \<Rightarrow> u32 \<Rightarrow> kstate \<Rightarrow> kstate option" where
  "init_pcb exc_exit shell s =
     (let s1 = (for_upto 0 NUM_MAX_TASK init_one_pcb s)\<lparr>current_running := None\<rparr>;
          (tmp, s2) = create_proc_with_priority 0 s1;
          s3 = (case tmp of
                  None \<Rightarrow> s2
                | Some i \<Rightarrow> upd_pcb i (\<lambda>p. p\<lparr>ttype := KERNEL_PROCESS, pname := cs ''kernel''\<rparr>)
                              (s2\<lparr>current_running := Some i\<rparr>))
      in do_spawn_with_priority exc_exit
           \<lparr>task_name = cs ''shell'', task_entry_point = shell, task_type = USER_PROCESS\<rparr> 0 s3)"

declare wake_waiters.simps [code] ps_walk.simps [code]

subsection \<open>Boot\<close>

lemma queues_wf_empty: "queues_wf s (\<lambda>_. []) \<longleftrightarrow> (\<forall>q. q_head (queues s q) = None \<and> q_tail (queues s q) = None)"
  by (auto simp: queues_wf_def)

text \<open>\<open>booting n s\<close>: the state after the first \<open>n\<close> PCBs have been initialised, when all queues are
  empty.\<close>

definition booting :: "nat \<Rightarrow> kstate \<Rightarrow> bool" where
  "booting n s \<longleftrightarrow> queues_wf s (\<lambda>_. []) \<and> pick_ok s \<and> (\<forall>p. uint (priority (pcb s p)) < 5) \<and>
     (\<forall>p<n. status (pcb s p) = TASK_CREATE)"

lemma pick_ok_update [simp]:
  "pick_ok (upd_pcb i f s) = pick_ok s" "pick_ok (s\<lparr>klinks := h\<rparr>) = pick_ok s"
  "pick_ok (s\<lparr>queues := q\<rparr>) = pick_ok s" "pick_ok (s\<lparr>current_running := c\<rparr>) = pick_ok s"
  "pick_ok (s\<lparr>scr := x\<rparr>) = pick_ok s"
  by (simp_all add: pick_ok_def)

lemma pick_ok_bound [simp]:
  "pick_ok (increase_priority_upper_bound p s) = pick_ok s"
  "pick_ok (decrease_priority_upper_bound p s) = pick_ok s"
  using pick_ok_cong [of s "increase_priority_upper_bound p s"]
    pick_ok_cong [of s "decrease_priority_upper_bound p s"] by simp_all

lemma reset_stacks_simps [simp]:
  "status (reset_stacks p) = status p" "priority (reset_stacks p) = priority p"
  "waiting_desc (reset_stacks p) = waiting_desc p" "locks (reset_stacks p) = locks p"
  by (simp_all add: reset_stacks_def)

lemma booting_step: "booting n s \<Longrightarrow> booting (Suc n) (init_one_pcb n s)"
  by (auto simp: booting_def init_one_pcb_def reset_pcb_def reset_pcb_fields_def queues_wf_empty less_Suc_eq)

lemma booting_loop: "booting 0 s \<Longrightarrow> booting n (for_upto 0 n init_one_pcb s)"
  by (induction n) (simp_all add: for_upto_Suc booting_step)

lemma booting_ready_queue:
  assumes "booting 0 s"
  shows "booting 0 (init_pready_queue s)"
  unfolding init_pready_queue_def
  by (rule for_upto_inv [where I = "\<lambda>_. booting 0"])
      (use assms in \<open>auto simp: booting_def queues_wf_empty pick_ok_def\<close>)

lemma first_free_create:
  assumes "\<And>i. i < n \<Longrightarrow> \<not> free_pcb s i" "free_pcb s n" "n < NUM_MAX_TASK"
  shows "first_index 0 NUM_MAX_TASK (free_pcb s) = Some n"
  using assms by (subst first_index_Some) (auto simp: not_less)

lemma spawn_on_empty:
  assumes wf: "queues_wf s (\<lambda>_. [])" and ok: "pick_ok s" and pr: "\<And>p. uint (priority (pcb s p)) < 5"
    and cur: "current_running s = Some c" "status (pcb s c) = TASK_READY"
    and n: "first_index 0 NUM_MAX_TASK (free_pcb s) = Some n"
  shows "\<exists>s'. do_spawn_with_priority e task 0 s = Some s' \<and> current_running s' = Some c \<and>
    sched_inv s' ((\<lambda>_. [])(ReadyQ 0 := [n])) \<and> pname (pcb s' n) = task_name task"
proof -
  let ?f = "\<lambda>x. reset_stacks (x\<lparr>pid := int n, status := TASK_READY, priority := 0\<rparr>)"
  have cl: "clamp_priority 0 = 0" by (simp add: clamp_priority_def)
  define s1 where "s1 = increase_priority_upper_bound 0 (upd_pcb n ?f s)"
  have cr: "create_proc_with_priority 0 s = (Some n, s1)"
    using n by (simp add: create_proc_with_priority_def Let_def s1_def cl)
  have "queues_wf s1 (\<lambda>_. [])" using wf by (simp add: s1_def)
  moreover have "n \<notin> queued (\<lambda>_. [])" by (simp add: queued_def)
  ultimately obtain s2 where push: "kq_push (ReadyQ 0) n s1 = Some s2" and oq: "only_queues s1 s2"
    and wf2: "queues_wf s2 ((\<lambda>_. [])(ReadyQ 0 := [n]))"
    using kq_push_wf [of s1 "\<lambda>_. []" n "ReadyQ 0"] by auto
  let ?Q = "(\<lambda>_. [])(ReadyQ 0 := [n])"
  let ?g = "\<lambda>x. x\<lparr>entry_point := task_entry_point task, ttype := task_type task,
      kernel_context := (kernel_context x)\<lparr>regs := (regs (kernel_context x))(31 := e)\<rparr>,
      user_context := (user_context x)\<lparr>cp0_epc := task_entry_point task\<rparr>,
      pname := task_name task,
      cursor_x := screen_cursor_x (scr s2), cursor_y := screen_cursor_y (scr s2)\<rparr>"
  define s' where "s' = upd_pcb n ?g s2"
  have "do_spawn_with_priority e task 0 s = Some s'"
    using cr push by (simp add: do_spawn_with_priority_def s'_def)
  moreover have cur': "current_running s' = Some c" using oq cur(1)
    by (simp add: s'_def s1_def increase_priority_upper_bound_def Let_def)
  moreover have "sched_inv s' ?Q"
  proof -
    have st: "status (pcb s' p) = (if p = n then TASK_READY else status (pcb s p))"
      and p5: "uint (priority (pcb s' p)) < 5" for p
      using oq pr by (simp_all add: s'_def s1_def)
    have "pick_ok s2" using ok oq by (simp add: pick_ok_def s1_def increase_priority_upper_bound_def Let_def clamp_priority_def)
    then have pk: "pick_ok s'" by (simp add: s'_def)
    have q: "queued ?Q = {n}" by (simp add: queued_upd)
    have "n \<noteq> c" using n cur(2) by (auto simp: first_index_Some free_pcb_def)
    then have "c \<in> queued ?Q \<longleftrightarrow> status (pcb s' c) = TASK_BLOCKED" using cur(2) q by (simp add: st)
    moreover have "queues_wf s' ?Q" using wf2 by (simp add: s'_def)
    moreover have pn: "p = n" and "is_ready_q q" if "p \<in> set (?Q q)" for p q
      using that by (auto split: if_splits)
    moreover have "status (pcb s' p) \<noteq> TASK_BLOCKED" if "p \<in> set (?Q q)" for p q
      using pn [OF that] by (simp add: st)
    moreover have "?Q RecvQ = []" by simp
    ultimately show ?thesis
      unfolding sched_inv_def using pk cur' p5 by (metis empty_iff list.set(1))
  qed
  moreover have "pname (pcb s' n) = task_name task" by (simp add: s'_def)
  ultimately show ?thesis by blast
qed

subsection \<open>Retiring a process\<close>

lemma retire_simps [simp]:
  "status (retire p) = TASK_EXITED" "priority (retire p) = 1" "waiting_desc (retire p) = waiting_desc p"
  "locks (retire p) = locks p"
  by (simp_all add: retire_def)

lemma sched_inv_retire:
  assumes inv: "sched_inv s Q" and cur: "current_running s = Some c" "status (pcb s c) \<noteq> TASK_BLOCKED"
  shows "sched_inv (upd_pcb p retire s) Q"
proof -
  note D = sched_invD [OF inv]
  define s' where "s' = upd_pcb p retire s"
  have st: "status (pcb s' q) = (if q = p then TASK_EXITED else status (pcb s q))"
    and pr: "uint (priority (pcb s' q)) < 5" and wd: "waiting_desc (pcb s' q) = waiting_desc (pcb s q)" for q
    using D(6) by (simp_all add: s'_def)
  have "c \<notin> queued Q" using D(3) cur by auto
  then have "c \<in> queued Q \<longleftrightarrow> status (pcb s' c) = TASK_BLOCKED" using cur by (simp add: st)
  moreover have "current_running s' = Some c" using cur by (simp add: s'_def)
  moreover have "queues_wf s' Q" "pick_ok s'" using D(1,2) by (simp_all add: s'_def)
  moreover have "status (pcb s' q) \<noteq> TASK_BLOCKED" if "q \<in> set (Q r)" "is_ready_q r" for q r
    using D(4) [OF that] by (simp add: st)
  moreover have "status (pcb s' q) = TASK_BLOCKED \<or> status (pcb s' q) = TASK_EXITED"
    if "q \<in> set (Q r)" "\<not> is_ready_q r" for q r
    using D(5) [OF that] by (simp add: st)
  moreover have "waiting_desc (pcb s' q) \<noteq> None" if "q \<in> set (Q RecvQ)" for q
    using D(7) [OF that] by (simp add: wd)
  ultimately show ?thesis unfolding s'_def [symmetric] sched_inv_def using pr by blast
qed

lemma release_locks:
  assumes "do_mutex_lock_release l s = Some s'"
  shows "locks (pcb s' q) i = locks (pcb s q) i \<or> locks (pcb s q) i = Some l \<and> locks (pcb s' q) i = None"
proof -
  obtain c where "do_unblock_one (LockQ l) (forget_lock c l (set_mutex l UNLOCKED s)) = Some s'"
    using assms by (auto simp: do_mutex_lock_release_def Option.bind_eq_Some_conv Let_def)
  then have "locks (pcb s' q) = locks (pcb (forget_lock c l (set_mutex l UNLOCKED s)) q)"
    using do_unblock_one_sync by (simp add: sync_frame_def)
  then show ?thesis by (auto simp: forget_lock_def first_index_Some split: option.splits)
qed

text \<open>The state between two rounds of the loop over the lock slots of \<open>p\<close>, which started in \<open>s0\<close>:
  every lock in a slot of \<open>p\<close> is unlocked or its slot is still to come.\<close>

definition releasing :: "nat \<Rightarrow> nat \<Rightarrow> kstate \<Rightarrow> nat \<Rightarrow> kstate \<Rightarrow> bool" where
  "releasing c p s0 k s \<longleftrightarrow> (\<exists>Q. sched_inv s Q) \<and> current_running s = Some c \<and>
     status (pcb s c) \<noteq> TASK_BLOCKED \<and> (\<forall>q. exited s0 q \<longrightarrow> exited s q) \<and>
     (\<forall>i<k. locks (pcb s p) i = None) \<and>
     (\<forall>i l. locks (pcb s0 p) i = Some l \<longrightarrow>
        locks (pcb s p) i = Some l \<and> k \<le> i \<or> lock_status (mutexes s l) = UNLOCKED)"

lemma release_slot_step:
  assumes R: "releasing c p s0 k s"
  shows "\<exists>s'. release_slot p k s = Some s' \<and> releasing c p s0 (Suc k) s'"
proof (cases "locks (pcb s p) k")
  case None
  have "locks (pcb s p) i = Some l \<and> Suc k \<le> i \<or> lock_status (mutexes s l) = UNLOCKED"
    if "locks (pcb s0 p) i = Some l" for i l
  proof -
    have "locks (pcb s p) i = Some l \<and> k \<le> i \<or> lock_status (mutexes s l) = UNLOCKED"
      using R that by (simp add: releasing_def)
    then show ?thesis using None by (cases "i = k") auto
  qed
  then have "releasing c p s0 (Suc k) s"
    using R None by (auto simp: releasing_def less_Suc_eq)
  then show ?thesis using None by (simp add: release_slot_def)
next
  case (Some l)
  obtain Q where inv: "sched_inv s Q" using R by (auto simp: releasing_def)
  have cur: "current_running s = Some c" "status (pcb s c) \<noteq> TASK_BLOCKED" using R by (auto simp: releasing_def)
  obtain s1 Q1 where rel: "do_mutex_lock_release l s = Some s1" and inv1: "sched_inv s1 Q1"
    and l1: "lock_status (mutexes s1 l) = UNLOCKED" and cur1: "current_running s1 = Some c"
    "status (pcb s1 c) \<noteq> TASK_BLOCKED" and ex: "\<forall>q. exited s q \<longrightarrow> exited s1 q"
    using release_effect [OF inv cur, of l] by blast
  define s' where "s' = upd_pcb p (\<lambda>x. x\<lparr>locks := (locks x)(k := None)\<rparr>) s1"
  have s': "status (pcb s' q) = status (pcb s1 q)" "mutexes s' = mutexes s1" for q
    by (simp_all add: s'_def)
  have lk: "locks (pcb s' p) i = (if i = k then None else locks (pcb s1 p) i)" for i
    by (simp add: s'_def)
  have inv': "sched_inv s' Q1"
    by (rule sched_inv_sync_update [OF inv1]) (simp_all add: s'_def)
  have "locks (pcb s' p) i = Some m \<and> Suc k \<le> i \<or> lock_status (mutexes s' m) = UNLOCKED"
    if m: "locks (pcb s0 p) i = Some m" for i m
  proof (cases "m = l \<or> lock_status (mutexes s m) = UNLOCKED")
    case True
    then show ?thesis using l1 release_sync(2) [OF rel] by (auto simp: s')
  next
    case False
    then have "locks (pcb s p) i = Some m" "k \<le> i" using R m by (auto simp: releasing_def)
    then show ?thesis using release_locks [OF rel, of p i] False Some by (auto simp: lk le_less)
  qed
  moreover have "locks (pcb s1 p) i = None" if "i < k" for i
    using R release_locks [OF rel, of p i] that by (auto simp: releasing_def)
  then have "\<forall>i<Suc k. locks (pcb s' p) i = None" by (auto simp: lk less_Suc_eq)
  moreover have "current_running s' = Some c" using cur1 by (simp add: s'_def)
  moreover have "\<forall>q. exited s0 q \<longrightarrow> exited s' q"
    using R ex by (auto simp: releasing_def exited_def s')
  ultimately have "releasing c p s0 (Suc k) s'"
    using inv' cur1(2) by (auto simp: releasing_def s')
  moreover have "release_slot p k s = Some s'" using Some rel by (simp add: release_slot_def s'_def)
  ultimately show ?thesis by blast
qed

lemma upd_status_twice:
  "upd_pcb p (status_update (\<lambda>_. st)) (upd_pcb p (status_update (\<lambda>_. st')) s) =
     upd_pcb p (status_update (\<lambda>_. st)) s"
  by (simp add: upd_pcb_def)

lemma invoke_running_idem:
  "invoke_blocked_proc (Some p) (upd_pcb p (status_update (\<lambda>_. TASK_RUNNING)) s) =
     invoke_blocked_proc (Some p) s"
  by (simp add: invoke_blocked_proc_def upd_status_twice)

lemma upd_awake_id: "upd_pcb p (awake_time_update (\<lambda>x. x)) s = s"
proof -
  have "awake_time_update (\<lambda>x. x) = (\<lambda>y :: pcb_t. y)" by (simp add: fun_eq_iff)
  then show ?thesis unfolding upd_pcb_def by simp
qed

lemma wake_waiters_wf:
  assumes "queues_wf s Q" "\<And>q. uint (priority (pcb s q)) < 5"
  shows "\<exists>s'. wake_waiters p s = Some s' \<and>
    queues_wf s' (wake_list s (filter (\<lambda>q. \<not> exited s q) (Q (ProcQ p))) (Q(ProcQ p := []))) \<and>
    waked (set (filter (\<lambda>q. \<not> exited s q) (Q (ProcQ p)))) s s'"
  using assms
proof (induction "Q (ProcQ p)" arbitrary: s Q)
  case Nil
  note e = Nil.hyps [symmetric]
  have "kq_dequeue (ProcQ p) s = (None, s)" by (rule kq_dequeue_Nil [OF Nil.prems(1) e])
  then have "wake_waiters p s = Some s" by (subst wake_waiters.simps) simp
  moreover have "Q(ProcQ p := []) = Q" using e by (simp add: fun_upd_idem)
  ultimately show ?case using Nil.prems(1) e by (simp add: wake_list_def)
next
  case (Cons x xs)
  note wf = Cons.prems(1) and Q = Cons.hyps(2) [symmetric]
  show ?case
  proof (cases "exited s x")
    case True
    obtain s1 where deq: "kq_dequeue (ProcQ p) s = (Some x, s1)" and oq: "only_queues s s1"
      and wf1: "queues_wf s1 (Q(ProcQ p := xs))" using kq_dequeue_Cons [OF wf Q] by blast
    have e: "exited s1 = exited s" using oq by (simp add: exited_def fun_eq_iff)
    have "wake s1 = wake s" using oq by (simp add: wake_def to_ready_def fun_eq_iff)
    then have w: "wake_list s1 = wake_list s" by (intro ext) (simp only: wake_list_def)
    obtain s' where s': "wake_waiters p s1 = Some s'"
      "queues_wf s' (wake_list s (filter (\<lambda>q. \<not> exited s q) xs) (Q(ProcQ p := [])))"
      "waked (set (filter (\<lambda>q. \<not> exited s q) xs)) s1 s'"
      using Cons.hyps(1) [of "Q(ProcQ p := xs)" s1] wf1 Cons.prems(2) oq unfolding e w by auto
    have "wake_waiters p s = Some s'"
      using deq True s'(1) oq by (subst wake_waiters.simps) (simp add: exited_def)
    then show ?thesis
      using s' waked_trans [OF waked_only_queues [OF oq] s'(3)] True Q by simp
  next
    case False
    obtain s1 s2 where deq: "kq_dequeue (ProcQ p) s = (Some x, s1)"
      and inv: "invoke_blocked_proc (Some x) s1 = Some s2"
      and wf2: "queues_wf s2 (wake s x (Q(ProcQ p := xs)))" and wk: "waked {x} s s2"
      using wake_queue_head [OF wf Q Cons.prems(2), of "\<lambda>x. x"] unfolding upd_awake_id by blast
    let ?Q = "wake s x (Q(ProcQ p := xs))"
    have Qp: "?Q (ProcQ p) = xs" by (simp add: wake_queue_other)
    have comm: "?Q(ProcQ p := []) = wake s x (Q(ProcQ p := []))" by (simp add: wake_upd_commute)
    have "x \<notin> set xs" using queues_wf_distinct [OF wf, of "ProcQ p"] Q by simp
    then have flt: "filter (\<lambda>q. \<not> exited s2 q) xs = filter (\<lambda>q. \<not> exited s q) xs"
      by (rule filter_exited_waked [OF wk])
    have w: "wake_list s2 = wake_list s" by (intro ext) (simp only: wake_list_def waked_abs [OF wk])
    obtain s' where s': "wake_waiters p s2 = Some s'"
      "queues_wf s' (wake_list s (filter (\<lambda>q. \<not> exited s q) xs) (wake s x (Q(ProcQ p := []))))"
      "waked (set (filter (\<lambda>q. \<not> exited s q) xs)) s2 s'"
      using Cons.hyps(1) [of ?Q s2] wf2 Cons.prems(2) unfolding w Qp flt comm
      by (auto simp: waked_pcb [OF wk])
    have "status (pcb s1 x) \<noteq> TASK_EXITED"
      using False kq_dequeue_Cons [OF wf Q] deq by (auto simp: exited_def)
    then have "wake_waiters p s = Some s'"
      using deq inv s'(1) by (subst wake_waiters.simps) (simp add: invoke_running_idem)
    then show ?thesis
      using s' waked_trans [OF wk s'(3)] False Q by (simp add: wake_list_def)
  qed
qed

lemma sched_inv_wake_waiters:
  assumes inv: "sched_inv s Q" and cur: "current_running s = Some c" "status (pcb s c) \<noteq> TASK_BLOCKED"
  shows "\<exists>s'. wake_waiters p s = Some s' \<and>
    sched_inv s' (wake_list s (filter (\<lambda>q. \<not> exited s q) (Q (ProcQ p))) (Q(ProcQ p := []))) \<and>
    waked (set (filter (\<lambda>q. \<not> exited s q) (Q (ProcQ p)))) s s'"
proof -
  note D = sched_invD [OF inv]
  obtain s' where s': "wake_waiters p s = Some s'"
    and wf: "queues_wf s' (wake_list s (filter (\<lambda>q. \<not> exited s q) (Q (ProcQ p))) (Q(ProcQ p := [])))"
    and wk: "waked (set (filter (\<lambda>q. \<not> exited s q) (Q (ProcQ p)))) s s'"
    using wake_waiters_wf [OF D(1) D(6), of p] by blast
  have "sched_inv s' (wake_list s (filter (\<lambda>q. \<not> exited s q) (Q (ProcQ p))) (Q(ProcQ p := [])))"
    by (rule sched_inv_wake_list [OF inv cur _ wk wf]) simp
  with s' wk show ?thesis by blast
qed

text \<open>What \<open>do_exit\<close> and \<open>do_kill\<close> have in common: process \<open>p\<close> is retired, its locks are released, the
  processes that wait for it are woken, and the screen is refreshed.\<close>

definition finish_proc :: "nat \<Rightarrow> kstate \<Rightarrow> kstate option" where
  "finish_proc p s = do {
     s2 \<leftarrow> for_upto_opt 0 MAX_LOCK_NUM_FOR_A_PROC (release_slot p) (upd_pcb p retire s);
     s3 \<leftarrow> wake_waiters p s2;
     let s4 = decrease_priority_upper_bound (priority (pcb s3 p)) s3;
     x \<leftarrow> screen_reflush (scr s4);
     Some (s4\<lparr>scr := x\<rparr>) }"

lemma do_exit_eq:
  "current_running s = Some c \<Longrightarrow> do_exit s = Option.bind (finish_proc c s) scheduler"
  by (cases "for_upto_opt 0 MAX_LOCK_NUM_FOR_A_PROC (release_slot c) (upd_pcb c retire s)")
    (auto simp: do_exit_def finish_proc_def Let_def split: Option.bind_splits)

lemma screen_reflush_defined: "\<exists>x. screen_reflush y = Some x"
  using screen_reflush_total [of y] by blast

lemma finish_proc_effect:
  assumes inv: "sched_inv s Q" and cur: "current_running s = Some c" "status (pcb s c) \<noteq> TASK_BLOCKED"
  shows "\<exists>s' Q'. finish_proc p s = Some s' \<and> sched_inv s' Q' \<and> current_running s' = Some c \<and>
    status (pcb s' c) \<noteq> TASK_BLOCKED \<and> status (pcb s' p) = TASK_EXITED \<and> Q' (ProcQ p) = [] \<and>
    (\<forall>i<8. \<forall>l. locks (pcb s p) i = Some l \<longrightarrow>
       lock_status (mutexes s' l) = UNLOCKED \<and> locks (pcb s' p) i = None)"
proof -
  let ?s1 = "upd_pcb p retire s"
  have inv1: "sched_inv ?s1 Q" by (rule sched_inv_retire [OF inv cur])
  have st1: "status (pcb ?s1 c) \<noteq> TASK_BLOCKED" using cur(2) by simp
  have R0: "releasing c p ?s1 0 ?s1"
    unfolding releasing_def using inv1 cur(1) st1 by auto
  obtain s2 where s2: "for_upto_opt 0 8 (release_slot p) ?s1 = Some s2" and R: "releasing c p ?s1 8 s2"
    using for_upto_opt_inv [of "releasing c p ?s1" 0 ?s1 8 "release_slot p"] R0 release_slot_step by blast
  obtain Q2 where inv2: "sched_inv s2 Q2" using R by (auto simp: releasing_def)
  have cur2: "current_running s2 = Some c" "status (pcb s2 c) \<noteq> TASK_BLOCKED" and ex2: "exited s2 p"
    using R by (auto simp: releasing_def exited_def)
  let ?ps = "filter (\<lambda>q. \<not> exited s2 q) (Q2 (ProcQ p))"
  let ?Q3 = "wake_list s2 ?ps (Q2(ProcQ p := []))"
  obtain s3 where s3: "wake_waiters p s2 = Some s3" and inv3: "sched_inv s3 ?Q3" and wk: "waked (set ?ps) s2 s3"
    using sched_inv_wake_waiters [OF inv2 cur2, of p] by blast
  have ex3: "status (pcb s3 p) = TASK_EXITED" using waked_pcb(6) [OF wk, of p] ex2 by (simp add: exited_def)
  have "c \<notin> queued Q2" using sched_invD(3) [OF inv2] cur2 by auto
  then have "c \<notin> set ?ps" by (auto simp: queued_def)
  then have st3: "status (pcb s3 c) \<noteq> TASK_BLOCKED" using waked_pcb(6) [OF wk, of c] cur2 by simp
  let ?s4 = "decrease_priority_upper_bound (priority (pcb s3 p)) s3"
  obtain x where x: "screen_reflush (scr ?s4) = Some x" using screen_reflush_defined by blast
  define s' where "s' = ?s4\<lparr>scr := x\<rparr>"
  have p': "pcb s' = pcb s3" and c': "current_running s' = Some c" and m': "mutexes s' = mutexes s3"
    using cur2 waked_frame [OF wk] by (simp_all add: s'_def decrease_priority_upper_bound_def Let_def)
  have inv': "sched_inv s' ?Q3"
    by (rule sched_inv_cong [OF inv3]) (use sched_invD(1,2) [OF inv3] cur2 c' waked_frame [OF wk] in \<open>simp_all add: s'_def\<close>)
  have locks: "lock_status (mutexes s' l) = UNLOCKED \<and> locks (pcb s' p) i = None"
    if "i < 8" "locks (pcb s p) i = Some l" for i l
  proof -
    have "locks (pcb s2 p) i = None" using R that(1) by (simp add: releasing_def)
    moreover have "lock_status (mutexes s2 l) = UNLOCKED"
      using R that by (fastforce simp: releasing_def)
    ultimately show ?thesis using waked_frame [OF wk] by (simp add: p' m' waked_pcb(5) [OF wk])
  qed
  have "finish_proc p s = Some s'" using s2 s3 x by (simp add: finish_proc_def s'_def Let_def)
  moreover have "?Q3 (ProcQ p) = []" by simp
  ultimately show ?thesis using inv' c' st3 ex3 locks
    by (intro exI [of _ s'] exI [of _ ?Q3]) (simp add: p')
qed

subsection \<open>Properties\<close>

lemma boot_effect:
  assumes "queues_wf s (\<lambda>_. [])" "pick_ok s" "\<And>p. uint (priority (pcb s p)) < 5"
  shows "\<exists>s'. init_pcb exc_exit shell (init_pready_queue s) = Some s' \<and>
    current_running s' = Some 0 \<and> pname (pcb s' 1) = cs ''shell'' \<and>
    sched_inv s' ((\<lambda>_. [])(ReadyQ 0 := [1]))"
proof -
  let ?task = "\<lparr>task_name = cs ''shell'', task_entry_point = shell, task_type = USER_PROCESS\<rparr>"
  have "booting 0 s" using assms by (simp add: booting_def)
  then have b: "booting 16 (for_upto 0 16 init_one_pcb (init_pready_queue s))"
    by (intro booting_loop booting_ready_queue)
  define s1 where "s1 = (for_upto 0 16 init_one_pcb (init_pready_queue s))\<lparr>current_running := None\<rparr>"
  have wf1: "queues_wf s1 (\<lambda>_. [])" and ok1: "pick_ok s1" and pr1: "\<And>p. uint (priority (pcb s1 p)) < 5"
    and st1: "\<And>p. p < 16 \<Longrightarrow> status (pcb s1 p) = TASK_CREATE"
    using b by (auto simp: booting_def s1_def)
  have i0: "first_index 0 NUM_MAX_TASK (free_pcb s1) = Some 0"
    by (rule first_free_create) (simp_all add: free_pcb_def st1)
  define s2 where "s2 = increase_priority_upper_bound 0
      (upd_pcb 0 (\<lambda>x. reset_stacks (x\<lparr>pid := 0, status := TASK_READY, priority := 0\<rparr>)) s1)"
  have cr: "create_proc_with_priority 0 s1 = (Some 0, s2)"
    using i0 by (simp add: create_proc_with_priority_def Let_def s2_def clamp_priority_def)
  define s3 where "s3 = upd_pcb 0 (\<lambda>p. p\<lparr>ttype := KERNEL_PROCESS, pname := cs ''kernel''\<rparr>)
      (s2\<lparr>current_running := Some 0\<rparr>)"
  have p3: "status (pcb s3 p) = (if p = 0 then TASK_READY else status (pcb s1 p))"
    "uint (priority (pcb s3 p)) < 5" for p
    using pr1 by (simp_all add: s3_def s2_def)
  have "first_index 0 NUM_MAX_TASK (free_pcb s3) = Some 1"
    by (rule first_free_create) (simp_all add: free_pcb_def p3 st1)
  moreover have "queues_wf s3 (\<lambda>_. [])" using wf1 by (simp add: s3_def s2_def)
  moreover have "pick_ok s3" using ok1 by (simp add: s3_def s2_def)
  moreover have "current_running s3 = Some 0" by (simp add: s3_def)
  ultimately obtain s' where s': "do_spawn_with_priority exc_exit ?task 0 s3 = Some s'"
    "current_running s' = Some 0" "sched_inv s' ((\<lambda>_. [])(ReadyQ 0 := [1]))" "pname (pcb s' 1) = cs ''shell''"
    using spawn_on_empty [of s3 0 1 exc_exit ?task] p3 by (auto simp del: cs_Cons)
  have "init_pcb exc_exit shell (init_pready_queue s) = do_spawn_with_priority exc_exit ?task 0 s3"
    unfolding init_pcb_def Let_def using cr by (simp add: s1_def [symmetric] s3_def)
  then show ?thesis using s' by (simp del: cs_Cons)
qed

text \<open>
  C9: The kernel boots into the scheduler's invariant. From zeroed globals, \<open>init_pready_queue\<close> and
  \<open>init_pcb\<close> are defined; afterwards process 0 is current, the ready queue 0 holds exactly the
  shell, process 1, every other queue is empty, and the invariant holds.
\<close>

theorem boot_invariant:
  assumes "queues_wf s (\<lambda>_. [])" "pick_ok s" "\<And>p. uint (priority (pcb s p)) < 5"
  shows "\<exists>s'. init_pcb exc_exit shell (init_pready_queue s) = Some s' \<and>
    current_running s' = Some 0 \<and> pname (pcb s' 1) = cs ''shell'' \<and>
    sched_inv s' ((\<lambda>_. [])(ReadyQ 0 := [1]))"
  by (rule boot_effect [OF assms])

definition zeroed :: kstate where
  "zeroed = demo_state\<lparr>pcb := (\<lambda>_. blank_pcb\<lparr>status := TASK_BLOCKED, priority := 0\<rparr>),
     klinks := \<lparr>next_of = (\<lambda>_. None), prev_of = (\<lambda>_. None)\<rparr>,
     queues := (\<lambda>_. \<lparr>q_head = None, q_tail = None\<rparr>), current_running := None\<rparr>"

theorem boot_invariant_witness:
  "\<exists>s'. init_pcb 0x80000000 0x80002000 (init_pready_queue zeroed) = Some s' \<and>
    current_running s' = Some 0 \<and> pname (pcb s' 1) = cs ''shell'' \<and>
    sched_inv s' ((\<lambda>_. [])(ReadyQ 0 := [1]))"
  by (rule boot_invariant) (simp_all add: zeroed_def queues_wf_empty pick_ok_def demo_state_def)

lemma exit_effect:
  assumes inv: "sched_inv s Q" and cur: "current_running s = Some c" "status (pcb s c) \<noteq> TASK_BLOCKED"
  shows "\<exists>s' Q'. do_exit s = Some s' \<and> sched_inv s' Q' \<and> status (pcb s' c) = TASK_EXITED \<and>
    c \<notin> queued Q' \<and>
    (\<forall>i<8. \<forall>l. locks (pcb s c) i = Some l \<longrightarrow>
       lock_status (mutexes s' l) = UNLOCKED \<and> locks (pcb s' c) i = None)"
proof -
  obtain s1 Q1 where f: "finish_proc c s = Some s1" and inv1: "sched_inv s1 Q1"
    and c1: "current_running s1 = Some c" and st1: "status (pcb s1 c) = TASK_EXITED"
    and lk: "\<forall>i<8. \<forall>l. locks (pcb s c) i = Some l \<longrightarrow>
       lock_status (mutexes s1 l) = UNLOCKED \<and> locks (pcb s1 c) i = None"
    using finish_proc_effect [OF inv cur, of c] by blast
  have cq: "c \<notin> queued Q1" using sched_invD(3) [OF inv1] c1 st1 by auto
  obtain s' where sc: "scheduler s1 = Some s'" and stc: "\<exists>Q'. sched_inv s' Q' \<and> c \<notin> queued Q'"
    "status (pcb s' c) = TASK_EXITED"
    using scheduler_exited [OF inv1 c1 st1] by blast
  have "sync_frame s1 s'" by (rule scheduler_sync [OF sc])
  then have "\<forall>i<8. \<forall>l. locks (pcb s c) i = Some l \<longrightarrow>
       lock_status (mutexes s' l) = UNLOCKED \<and> locks (pcb s' c) i = None"
    using lk by (simp add: sync_frame_def)
  moreover have "do_exit s = Some s'" using do_exit_eq [OF cur(1)] f sc by simp
  ultimately show ?thesis using stc by blast
qed


definition holder_state :: kstate where
  "holder_state = upd_pcb 0 (locks_update (\<lambda>_. (\<lambda>_. None)(2 := Some 0))) demo_state"


lemma kill_args: "args_ok kill_msg [VStr a, VInt b]"
  by (simp add: kill_msg_def)

text \<open>
  Killing. With the screen cursor in range, \<open>do_kill\<close> is defined in every state of the invariant and
  keeps it. An unknown pid or a kernel process leaves all processes as they are; any other
  process is marked exited and the locks in its slots are unlocked.
\<close>

theorem do_kill_effect:
  assumes inv: "sched_inv s Q" and cur: "current_running s = Some c" "status (pcb s c) \<noteq> TASK_BLOCKED"
    and scr: "cursor_ok (scr s)"
  shows "\<exists>s' Q'. do_kill n s = Some s' \<and> sched_inv s' Q' \<and>
    (case get_proc_by_pid n s of
       None \<Rightarrow> pcb s' = pcb s
     | Some p \<Rightarrow> if ttype (pcb s p) = KERNEL_PROCESS then pcb s' = pcb s
                else status (pcb s' p) = TASK_EXITED \<and>
                  (\<forall>i<8. \<forall>l. locks (pcb s p) i = Some l \<longrightarrow> lock_status (mutexes s' l) = UNLOCKED))"
proof -
  have scr_inv: "sched_inv (s\<lparr>scr := x\<rparr>) Q" for x
    by (rule sched_inv_cong [OF inv]) (use sched_invD(1,2) [OF inv] in simp_all)
  have quiet: "\<exists>s' Q'. kprintks fmt [] s = Some s' \<and> sched_inv s' Q' \<and> pcb s' = pcb s"
    if "args_ok fmt []" for fmt
    using kprintks_ok [OF that scr] scr_inv by fastforce
  have a1: "args_ok (cs ''Invalid pid.'' @ [10] @ cs ''Do nothing.'' @ [10]) []"
    and a2: "args_ok (cs ''Cannot kill a kernel process.'' @ [10]) []" by simp_all
  show ?thesis
  proof (cases "get_proc_by_pid n s")
    case None
    then show ?thesis using quiet [OF a1] by (simp add: do_kill_def del: cs_Cons)
  next
    case (Some p)
    show ?thesis
    proof (cases "ttype (pcb s p) = KERNEL_PROCESS")
      case True
      then show ?thesis using Some quiet [OF a2] by (simp add: do_kill_def del: cs_Cons)
    next
      case False
      obtain x where pr: "kprintks kill_msg [VStr (pname (pcb s p)), VInt (word_of_int (pid (pcb s p)))] s =
          Some (s\<lparr>scr := x\<rparr>)" using kprintks_ok [OF kill_args scr] by blast
      obtain s' Q' where f: "finish_proc p (s\<lparr>scr := x\<rparr>) = Some s'" "sched_inv s' Q'"
        "status (pcb s' p) = TASK_EXITED"
        "\<forall>i<8. \<forall>l. locks (pcb s p) i = Some l \<longrightarrow> lock_status (mutexes s' l) = UNLOCKED"
        using finish_proc_effect [OF scr_inv, of x c p] cur by auto
      have "do_kill n s = finish_proc p (s\<lparr>scr := x\<rparr>)"
        using Some False pr by (simp add: do_kill_def finish_proc_def Let_def)
      then show ?thesis using Some False f by auto
    qed
  qed
qed

theorem do_kill_effect_witness:
  "\<exists>s' Q'. do_kill 3 demo_state = Some s' \<and> sched_inv s' Q' \<and>
    (case get_proc_by_pid 3 demo_state of
       None \<Rightarrow> pcb s' = pcb demo_state
     | Some p \<Rightarrow> if ttype (pcb demo_state p) = KERNEL_PROCESS then pcb s' = pcb demo_state
                else status (pcb s' p) = TASK_EXITED \<and>
                  (\<forall>i<8. \<forall>l. locks (pcb demo_state p) i = Some l \<longrightarrow> lock_status (mutexes s' l) = UNLOCKED))"
  by (rule do_kill_effect [OF demo_inv, where c = 0]) (simp_all add: demo_state_def cursor_ok_def)


text \<open>Processes 1 and 2 are queued at priority 1, and process 1 has just been killed.\<close>

definition killed_state :: kstate where
  "killed_state = demo_state
     \<lparr>pcb := (\<lambda>_. blank_pcb\<lparr>status := TASK_READY\<rparr>)(1 := blank_pcb\<lparr>status := TASK_EXITED\<rparr>),
      klinks := \<lparr>next_of = (\<lambda>_. None)(1 := Some 2), prev_of = (\<lambda>_. None)(2 := Some 1)\<rparr>,
      queues := (\<lambda>_. \<lparr>q_head = None, q_tail = None\<rparr>)(ReadyQ 1 := \<lparr>q_head = Some 1, q_tail = Some 2\<rparr>)\<rparr>"


end
