(* ===== verification/Fs_Disk.thy ===== *)
theory Fs_Disk
  imports Sched Bytes
begin

text \<open>
  The lower half of \<^verbatim>\<open>kernel/fs/fs.c\<close>: the layout of the medium, inodes, directory entries and
  the super block as bytes, the two bit maps, the inode table in memory and its write-back, making
  and mounting a file system.

  The driver of the SD card (\<open>sdread\<close>, \<open>sdwrite\<close>) is linked from a binary library. It is an
  argument \<open>dev\<close> of every operation that reaches the card; \<open>sd_ok\<close> states what the code relies
  on: a read returns the bytes that were written last. A \<open>char *\<close> that may be NULL is a
  \<^typ>\<open>buffer option\<close>. An \<open>inode_t *\<close> is the index of the inode in \<open>nodes\<close>; accessing an inode outside
  the table has no defined outcome. The contents of an uninitialised array on the stack is an argument
  \<open>junk\<close>.
\<close>

subsection \<open>Data\<close>

abbreviation "MAGIC_NUMER \<equiv> (0x666 :: u32)"
abbreviation "BLOCK_SIZE \<equiv> (4096 :: nat)"
abbreviation "MAX_NAME_LEN \<equiv> (24 :: nat)"
abbreviation "FS_START \<equiv> (134217728 :: u32)"
abbreviation "BLK_BIT_MAP_START \<equiv> (134218240 :: u32)"
abbreviation "INODE_BIT_MAP_SIZE \<equiv> (1024 :: nat)"
abbreviation "INODE_MAX_NUMBER \<equiv> (8192 :: nat)"
abbreviation "DATA_BLOCK_BIT_MAP_SIZE \<equiv> (32768 :: nat)"
abbreviation "DATA_BLOCK_MAX_NUMBER \<equiv> (262144 :: nat)"
abbreviation "INODE_SIZE \<equiv> (128 :: nat)"
abbreviation "DENTRY_SIZE \<equiv> (32 :: nat)"
abbreviation "DENTRY_NUM \<equiv> (128 :: nat)"

text \<open>\<open>enum entry_type\<close>; the fields that hold it are 32-bit words.\<close>

abbreviation "notype \<equiv> (0 :: u32)"
abbreviation "file_type \<equiv> (1 :: u32)"
abbreviation "dir_type \<equiv> (2 :: u32)"
abbreviation "soft_link_type \<equiv> (3 :: u32)"

record inode_t =
  entry_num :: u32
  itype :: u32
  isize :: u32
  link_cnt :: u32
  link_to :: u32
  direct :: "nat \<Rightarrow> u32"
  indirect :: u32
  double_indrect :: u32
  triple_indrect :: u32
  owner :: buffer
  hash :: buffer

record super_block_t =
  magic :: u32
  data_block_num :: u32
  data_block_size :: u32
  inode_num :: u32
  inode_size :: u32
  blk_bit_map_start :: u32
  ind_bit_map_start :: u32
  ind_start :: u32
  data_start :: u32

text \<open>The card: the bytes \<open>sdread\<close> stores for a device, an offset and a size, and the device after
  \<open>sdwrite\<close> of a buffer of a given size.\<close>

record 'd sd_dev =
  sdread :: "'d \<Rightarrow> u32 \<Rightarrow> nat \<Rightarrow> buffer"
  sdwrite :: "buffer \<Rightarrow> u32 \<Rightarrow> nat \<Rightarrow> 'd \<Rightarrow> 'd"

record 'd fs_t =
  kst :: kstate
  disk :: 'd
  block_bit_map :: buffer
  inode_bit_map :: buffer
  nodes :: "nat \<Rightarrow> inode_t"
  inode_dirty :: "nat \<Rightarrow> u8"
  cwd :: nat
  root :: nat
  cwd_str :: buffer
  super_block :: super_block_t
  fwrite_wbuf :: buffer
  fread_rbuf :: buffer

subsection \<open>Access to the card\<close>

definition do_fs_write :: "'d sd_dev \<Rightarrow> u32 \<Rightarrow> buffer \<Rightarrow> nat \<Rightarrow> 'd fs_t \<Rightarrow> 'd fs_t" where
  "do_fs_write dev offset wbuf sz f = f\<lparr>disk := sdwrite dev wbuf offset sz (disk f)\<rparr>"

text \<open>The buffer after a read: the bytes beyond \<open>sz\<close> are those of the old buffer.\<close>

definition do_fs_read :: "'d sd_dev \<Rightarrow> u32 \<Rightarrow> buffer \<Rightarrow> nat \<Rightarrow> 'd fs_t \<Rightarrow> buffer" where
  "do_fs_read dev offset rbuf sz f =
     (\<lambda>i. if i < sz then sdread dev (disk f) offset sz i else rbuf i)"

definition fs_printks :: "u8 list \<Rightarrow> va_arg list \<Rightarrow> 'd fs_t \<Rightarrow> 'd fs_t option" where
  "fs_printks fmt va f = do { k \<leftarrow> kprintks fmt va (kst f); Some (f\<lparr>kst := k\<rparr>) }"

definition upd_node :: "nat \<Rightarrow> (inode_t \<Rightarrow> inode_t) \<Rightarrow> 'd fs_t \<Rightarrow> 'd fs_t" where
  "upd_node i g f = f\<lparr>nodes := (nodes f)(i := g (nodes f i))\<rparr>"

definition node_at :: "nat \<Rightarrow> 'd fs_t \<Rightarrow> inode_t option" where
  "node_at i f = (if i < INODE_MAX_NUMBER then Some (nodes f i) else None)"

subsection \<open>Bytes of the structures\<close>

text \<open>An inode as it lies in memory and on the card: 32-bit words at the offsets of the struct, then the
  two arrays of \<open>info_t\<close>.\<close>

definition inode_word :: "inode_t \<Rightarrow> nat \<Rightarrow> u32" where
  "inode_word n k =
     (if k = 0 then entry_num n else if k = 1 then itype n else if k = 2 then isize n
      else if k = 3 then link_cnt n else if k = 4 then link_to n
      else if k < 21 then direct n (k - 5)
      else if k = 21 then indirect n else if k = 22 then double_indrect n else triple_indrect n)"

definition inode_bytes :: "inode_t \<Rightarrow> buffer" where
  "inode_bytes n i =
     (if i < 96 then byte_of (i mod 4) (inode_word n (i div 4))
      else if i < 112 then owner n (i - 96) else if i < 128 then hash n (i - 112) else 0)"

definition inode_of :: "buffer \<Rightarrow> nat \<Rightarrow> inode_t" where
  "inode_of b o' =
     \<lparr>entry_num = rd32 b o', itype = rd32 b (o' + 4), isize = rd32 b (o' + 8),
      link_cnt = rd32 b (o' + 12), link_to = rd32 b (o' + 16),
      direct = (\<lambda>k. if k < 16 then rd32 b (o' + 20 + 4 * k) else 0),
      indirect = rd32 b (o' + 84), double_indrect = rd32 b (o' + 88), triple_indrect = rd32 b (o' + 92),
      owner = (\<lambda>k. if k < 16 then b (o' + 96 + k) else 0),
      hash = (\<lambda>k. if k < 16 then b (o' + 112 + k) else 0)\<rparr>"

text \<open>The table \<open>nodes\<close> as the memory it occupies.\<close>

definition nodes_bytes :: "(nat \<Rightarrow> inode_t) \<Rightarrow> buffer" where
  "nodes_bytes ns i = inode_bytes (ns (i div INODE_SIZE)) (i mod INODE_SIZE)"

definition super_word :: "super_block_t \<Rightarrow> nat \<Rightarrow> u32" where
  "super_word sb k =
     (if k = 0 then magic sb else if k = 1 then data_block_num sb else if k = 2 then data_block_size sb
      else if k = 3 then inode_num sb else if k = 4 then inode_size sb
      else if k = 5 then blk_bit_map_start sb else if k = 6 then ind_bit_map_start sb
      else if k = 7 then ind_start sb else data_start sb)"

definition super_bytes :: "super_block_t \<Rightarrow> buffer" where
  "super_bytes sb i = (if i < 36 then byte_of (i mod 4) (super_word sb (i div 4)) else 0)"

definition super_of :: "buffer \<Rightarrow> super_block_t" where
  "super_of b =
     \<lparr>magic = rd32 b 0, data_block_num = rd32 b 4, data_block_size = rd32 b 8, inode_num = rd32 b 12,
      inode_size = rd32 b 16, blk_bit_map_start = rd32 b 20, ind_bit_map_start = rd32 b 24,
      ind_start = rd32 b 28, data_start = rd32 b 32\<rparr>"

text \<open>Fields of entry \<open>i\<close> of a block of directory entries.\<close>

definition de_type :: "buffer \<Rightarrow> nat \<Rightarrow> u32" where "de_type b i = rd32 b (DENTRY_SIZE * i)"
definition de_inode_num :: "buffer \<Rightarrow> nat \<Rightarrow> u32" where "de_inode_num b i = rd32 b (DENTRY_SIZE * i + 4)"
abbreviation de_name :: "nat \<Rightarrow> nat" where "de_name i \<equiv> DENTRY_SIZE * i + 8"
definition set_de_type :: "nat \<Rightarrow> u32 \<Rightarrow> buffer \<Rightarrow> buffer" where
  "set_de_type i v = wr32 (DENTRY_SIZE * i) v"
definition set_de_inode_num :: "nat \<Rightarrow> u32 \<Rightarrow> buffer \<Rightarrow> buffer" where
  "set_de_inode_num i v = wr32 (DENTRY_SIZE * i + 4) v"

text \<open>\<open>strcpy\<close> into the name of an entry. The copy may run over the following entries of the block, but not
  over the end of the block.\<close>

definition strcpy_name :: "nat \<Rightarrow> buffer \<Rightarrow> nat \<Rightarrow> buffer \<Rightarrow> buffer option" where
  "strcpy_name i src j b = do {
     n \<leftarrow> strlen src j;
     if de_name i + n < BLOCK_SIZE then strcpy b (de_name i) src j else None }"

subsection \<open>Bit maps\<close>

text \<open>The test \<open>buf[b] & (1 << r)\<close> of bit \<open>k\<close>.\<close>

definition test_bit :: "buffer \<Rightarrow> u32 \<Rightarrow> bool" where
  "test_bit buf k \<longleftrightarrow>
     buf (unat (drop_bit 3 k)) AND push_bit (unat (k AND 7)) 1 \<noteq> 0"

definition set_bit_map :: "buffer \<Rightarrow> u32 \<Rightarrow> buffer" where
  "set_bit_map buf k =
     (let b = unat (drop_bit 3 k) in buf(b := buf b OR push_bit (unat (k AND 7)) 1))"

definition clear_bit :: "buffer \<Rightarrow> u32 \<Rightarrow> buffer" where
  "clear_bit buf k =
     (let b = unat (drop_bit 3 k) in buf(b := buf b AND NOT (push_bit (unat (k AND 7)) 1)))"

text \<open>The number of the first zero bit; with no zero bit the code falls off the end of the function.\<close>

definition find_first_zero_bit :: "buffer \<Rightarrow> nat \<Rightarrow> u32 option" where
  "find_first_zero_bit buf byte_sz =
     map_option word_of_nat (first_index 0 (8 * byte_sz) (\<lambda>i. \<not> test_bit buf (word_of_nat i)))"

text \<open>The hash of an inode is the time, four times.\<close>

definition time_hash :: "kstate \<Rightarrow> buffer \<Rightarrow> buffer" where
  "time_hash k h = for_upto 0 4 (\<lambda>i. for_upto 0 4 (\<lambda>j h. h(4 * i + j := byte_of j (get_timer k)))) h"

definition allocate_inode :: "u32 \<Rightarrow> 'd fs_t \<Rightarrow> nat option \<times> 'd fs_t" where
  "allocate_inode n f =
     (if word_of_nat INODE_MAX_NUMBER \<le> n then (None, f)
      else if test_bit (inode_bit_map f) n then (None, f)
      else (Some (unat n),
            upd_node (unat n) (hash_update (time_hash (kst f)))
              (f\<lparr>inode_bit_map := set_bit_map (inode_bit_map f) n\<rparr>)))"

definition allocate_data_block :: "u32 \<Rightarrow> 'd fs_t \<Rightarrow> bool \<times> 'd fs_t" where
  "allocate_data_block n f =
     (if word_of_nat DATA_BLOCK_MAX_NUMBER \<le> n then (False, f)
      else if test_bit (block_bit_map f) n then (False, f)
      else (True, f\<lparr>block_bit_map := set_bit_map (block_bit_map f) n\<rparr>))"

definition get_data_block_offset :: "u32 \<Rightarrow> 'd fs_t \<Rightarrow> u32" where
  "get_data_block_offset n f = data_start (super_block f) + n * 4096"

definition get_data_block_number :: "u32 \<Rightarrow> 'd fs_t \<Rightarrow> u32" where
  "get_data_block_number offset f = (offset - data_start (super_block f)) div 4096"

subsection \<open>Writing back\<close>

definition mark_inode_dirty :: "u32 \<Rightarrow> 'd fs_t \<Rightarrow> 'd fs_t" where
  "mark_inode_dirty n f =
     (let node_num_per_block = (4096 + 16) div 128
      in f\<lparr>inode_dirty := (inode_dirty f)(unat (n div node_num_per_block) := 1)\<rparr>)"

definition update_inode_block :: "'d sd_dev \<Rightarrow> nat \<Rightarrow> 'd fs_t \<Rightarrow> 'd fs_t" where
  "update_inode_block dev i f =
     (if inode_dirty f i \<noteq> 0
      then (let node_num_per_block = (4096 + 16) div 128;
                wrt_st = 128 * i * node_num_per_block
            in do_fs_write dev (ind_start (super_block f) + 128 * word_of_nat i * word_of_nat node_num_per_block)
                 (\<lambda>k. nodes_bytes (nodes f) (wrt_st + k)) BLOCK_SIZE
                 (f\<lparr>inode_dirty := (inode_dirty f)(i := 0)\<rparr>))
      else f)"

definition update_inode :: "'d sd_dev \<Rightarrow> 'd fs_t \<Rightarrow> 'd fs_t" where
  "update_inode dev f = for_upto 0 (INODE_MAX_NUMBER div (BLOCK_SIZE div INODE_SIZE)) (update_inode_block dev) f"

definition update_bit_map :: "'d sd_dev \<Rightarrow> 'd fs_t \<Rightarrow> 'd fs_t" where
  "update_bit_map dev f =
     (let f1 = do_fs_write dev (ind_bit_map_start (super_block f)) (inode_bit_map f) INODE_BIT_MAP_SIZE f
      in do_fs_write dev (blk_bit_map_start (super_block f1)) (block_bit_map f1) DATA_BLOCK_BIT_MAP_SIZE f1)"

subsection \<open>Making and mounting a file system\<close>

definition std_super :: super_block_t where
  "std_super =
     (let bs = BLK_BIT_MAP_START; is = bs + word_of_nat DATA_BLOCK_BIT_MAP_SIZE;
          ns = is + word_of_nat INODE_BIT_MAP_SIZE
      in \<lparr>magic = MAGIC_NUMER, data_block_num = word_of_nat DATA_BLOCK_MAX_NUMBER,
          data_block_size = word_of_nat BLOCK_SIZE, inode_num = word_of_nat INODE_MAX_NUMBER,
          inode_size = word_of_nat INODE_SIZE, blk_bit_map_start = bs, ind_bit_map_start = is,
          ind_start = ns, data_start = ns + word_of_nat INODE_SIZE * word_of_nat INODE_MAX_NUMBER\<rparr>)"

definition do_print_fs_info :: "'d sd_dev \<Rightarrow> buffer \<Rightarrow> 'd fs_t \<Rightarrow> 'd fs_t option" where
  "do_print_fs_info dev junk f = do {
     f1 \<leftarrow> fs_printks (cs ''Reading FS meta data...'' @ [10]) [] f;
     let spblk = super_of (do_fs_read dev FS_START junk 512 f1);
     if magic spblk \<noteq> MAGIC_NUMER then fs_printks (cs ''No valid FS here.'' @ [10]) [] f1
     else do {
       f2 \<leftarrow> fs_printks ([9] @ cs ''Magic number: 0x%x'' @ [10]) [VInt (magic spblk)] f1;
       f3 \<leftarrow> fs_printks ([9] @ cs ''Data block number: 0x%x'' @ [10]) [VInt (data_block_num spblk)] f2;
       f4 \<leftarrow> fs_printks ([9] @ cs ''Data block size: 0x%x'' @ [10]) [VInt (data_block_size spblk)] f3;
       f5 \<leftarrow> fs_printks ([9] @ cs ''Inode number: 0x%x'' @ [10]) [VInt (inode_num spblk)] f4;
       fs_printks ([9] @ cs ''Inode size: 0x%x'' @ [10]) [VInt (inode_size spblk)] f5 } }"

text \<open>The two entries every directory starts with.\<close>

definition dot_entries :: "u32 \<Rightarrow> u32 \<Rightarrow> buffer \<Rightarrow> buffer option" where
  "dot_entries self parent b = do {
     b1 \<leftarrow> strcpy_name 0 (buf_of (cs ''.'')) 0 (set_de_inode_num 0 self (set_de_type 0 dir_type b));
     strcpy_name 1 (buf_of (cs ''..'')) 0 (set_de_inode_num 1 parent (set_de_type 1 dir_type b1)) }"

definition do_mkfs :: "'d sd_dev \<Rightarrow> buffer \<Rightarrow> 'd fs_t \<Rightarrow> 'd fs_t option" where
  "do_mkfs dev junk f = do {
     let f1 = f\<lparr>super_block := std_super\<rparr>;
     let buf = memcpy junk 0 (super_bytes (super_block f1)) 0 36;
     let f2 = do_fs_write dev FS_START buf 512 f1;
     let f3 = f2\<lparr>block_bit_map := memset (block_bit_map f2) 0 0 DATA_BLOCK_BIT_MAP_SIZE,
                inode_bit_map := memset (inode_bit_map f2) 0 0 INODE_BIT_MAP_SIZE\<rparr>;
     let buf = memset buf 0 0 BLOCK_SIZE;
     root_inode_num \<leftarrow> find_first_zero_bit (inode_bit_map f3) INODE_BIT_MAP_SIZE;
     let (r, f4) = allocate_inode root_inode_num f3;
     r \<leftarrow> r;
     let f5 = upd_node r (\<lambda>n. n\<lparr>entry_num := 2, link_cnt := 1\<rparr>) (f4\<lparr>root := r\<rparr>);
     blk \<leftarrow> find_first_zero_bit (block_bit_map f5) DATA_BLOCK_BIT_MAP_SIZE;
     let (ok, f6) = allocate_data_block blk f5;
     let f7 = upd_node r (\<lambda>n. n\<lparr>direct := (direct n)(0 := get_data_block_offset blk f6)\<rparr>) f6;
     buf \<leftarrow> (if ok then dot_entries root_inode_num root_inode_num buf else None);
     let f8 = do_fs_write dev (direct (nodes f7 r) 0) buf BLOCK_SIZE f7;
     let f9 = update_inode dev (mark_inode_dirty root_inode_num (update_bit_map dev f8));
     str \<leftarrow> strcpy (cwd_str f9) 0 (buf_of (cs ''/'')) 0;
     do_print_fs_info dev junk (f9\<lparr>root := 0, cwd := 0, cwd_str := str\<rparr>) }"

definition mount_fs :: "'d sd_dev \<Rightarrow> buffer \<Rightarrow> 'd fs_t \<Rightarrow> 'd fs_t option" where
  "mount_fs dev junk f = do {
     f1 \<leftarrow> fs_printks (cs ''Reading FS meta data...'' @ [10]) [] f;
     let spblk = super_of (do_fs_read dev FS_START junk 512 f1);
     f2 \<leftarrow> (if magic spblk \<noteq> MAGIC_NUMER
           then do {
             x \<leftarrow> printk (cs ''No valid FS.'' @ [10]) [] (scr (kst f1));
             do_mkfs dev junk (f1\<lparr>kst := (kst f1)\<lparr>scr := x\<rparr>\<rparr>) }
           else Some f1);
     let f3 = f2\<lparr>super_block := spblk\<rparr>;
     let f4 = f3\<lparr>inode_bit_map :=
       do_fs_read dev (ind_bit_map_start (super_block f3)) (inode_bit_map f3) INODE_BIT_MAP_SIZE f3\<rparr>;
     let f5 = f4\<lparr>block_bit_map :=
       do_fs_read dev (blk_bit_map_start (super_block f4)) (block_bit_map f4) DATA_BLOCK_BIT_MAP_SIZE f4\<rparr>;
     let b = do_fs_read dev (ind_start (super_block f5)) (nodes_bytes (nodes f5))
       (INODE_SIZE * INODE_MAX_NUMBER) f5;
     let f6 = f5\<lparr>nodes := (\<lambda>i. if i < INODE_MAX_NUMBER then inode_of b (INODE_SIZE * i) else nodes f5 i)\<rparr>;
     str \<leftarrow> strcpy (cwd_str f6) 0 (buf_of (cs ''/'')) 0;
     Some (f6\<lparr>root := 0, cwd := 0, cwd_str := str\<rparr>) }"

section \<open>Theory of the lower half\<close>

subsection \<open>What the code relies on of the card\<close>

definition disk_byte :: "'d sd_dev \<Rightarrow> 'd \<Rightarrow> u32 \<Rightarrow> u8" where
  "disk_byte dev d a = sdread dev d a 1 0"

definition sd_ok :: "'d sd_dev \<Rightarrow> bool" where
  "sd_ok dev \<longleftrightarrow>
     (\<forall>d a n i. i < n \<longrightarrow> sdread dev d a n i = disk_byte dev d (a + word_of_nat i)) \<and>
     (\<forall>b a n d x. n < 4294967296 \<longrightarrow> disk_byte dev (sdwrite dev b a n d) x =
        (if unat (x - a) < n then b (unat (x - a)) else disk_byte dev d x))"

text \<open>A card in memory.\<close>

definition ram_dev :: "(u32 \<Rightarrow> u8) sd_dev" where
  "ram_dev = \<lparr>sdread = (\<lambda>d a n i. d (a + word_of_nat i)),
     sdwrite = (\<lambda>b a n d x. if unat (x - a) < n then b (unat (x - a)) else d x)\<rparr>"

lemma ram_byte [simp]: "disk_byte ram_dev d a = d a"
  by (simp add: disk_byte_def ram_dev_def)

lemma ram_ok: "sd_ok ram_dev"
  by (simp add: sd_ok_def) (simp add: ram_dev_def)

lemma do_fs_read_eq:
  "sd_ok dev \<Longrightarrow> do_fs_read dev a b n f =
     (\<lambda>i. if i < n then disk_byte dev (disk f) (a + word_of_nat i) else b i)"
  by (simp add: do_fs_read_def sd_ok_def fun_eq_iff)

lemma do_fs_read_upd [simp]:
  "do_fs_read dev a b n (f\<lparr>super_block := sb\<rparr>) = do_fs_read dev a b n f"
  "do_fs_read dev a b n (f\<lparr>inode_bit_map := m\<rparr>) = do_fs_read dev a b n f"
  "do_fs_read dev a b n (f\<lparr>block_bit_map := m\<rparr>) = do_fs_read dev a b n f"
  "do_fs_read dev a b n (f\<lparr>nodes := ns\<rparr>) = do_fs_read dev a b n f"
  "do_fs_read dev a b n (f\<lparr>kst := k\<rparr>) = do_fs_read dev a b n f"
  "do_fs_read dev a b n (f\<lparr>inode_dirty := y\<rparr>) = do_fs_read dev a b n f"
  "do_fs_read dev a b n (f\<lparr>cwd := c\<rparr>) = do_fs_read dev a b n f"
  "do_fs_read dev a b n (f\<lparr>cwd_str := str\<rparr>) = do_fs_read dev a b n f"
  "do_fs_read dev a b n (upd_node i u f) = do_fs_read dev a b n f"
  by (simp_all add: do_fs_read_def upd_node_def fun_eq_iff)

lemma disk_byte_write:
  "sd_ok dev \<Longrightarrow> n < 4294967296 \<Longrightarrow> disk_byte dev (sdwrite dev b a n d) x =
     (if unat (x - a) < n then b (unat (x - a)) else disk_byte dev d x)"
  by (simp add: sd_ok_def)

text \<open>Addresses \<open>a + i\<close> inside and outside of a write at \<open>o'\<close>, when nothing wraps around.\<close>

lemma unat_plus_small: "unat (a :: u32) + i < 4294967296 \<Longrightarrow> unat (a + word_of_nat i) = unat a + i"
  by (subst unat_add_u32) (auto simp: unat_of_nat_u32)

lemma unat_diff_in:
  "unat a \<le> unat x \<Longrightarrow> unat (x - a :: u32) = unat x - unat a"
  by (simp add: unat_sub_if_size)

lemma unat_diff_out:
  assumes "unat x < unat (a :: u32)" "unat a + n \<le> 4294967296"
  shows "\<not> unat (x - a) < n"
  using assms unat_sub_if_size [of x a] by (simp add: word_size)

lemma in_range_iff:
  assumes "unat (a :: u32) + n \<le> 4294967296"
  shows "unat (x - a) < n \<longleftrightarrow> unat a \<le> unat x \<and> unat x < unat a + n"
  using unat_diff_out [OF _ assms, of x] unat_diff_in [of a x] by (cases "unat a \<le> unat x") auto

subsection \<open>The layout\<close>

lemma std_super_simps [simp]:
  "magic std_super = 0x666" "blk_bit_map_start std_super = 134218240"
  "ind_bit_map_start std_super = 134251008" "ind_start std_super = 134252032"
  "data_start std_super = 135300608" "data_block_num std_super = 262144"
  "data_block_size std_super = 4096" "inode_num std_super = 8192" "inode_size std_super = 128"
  by (simp_all add: std_super_def)

text \<open>Where a byte of the card belongs.\<close>

definition in_super :: "u32 \<Rightarrow> bool" where
  "in_super x \<longleftrightarrow> 134217728 \<le> unat x \<and> unat x < 134218240"
definition in_blk_map :: "u32 \<Rightarrow> bool" where
  "in_blk_map x \<longleftrightarrow> 134218240 \<le> unat x \<and> unat x < 134251008"
definition in_ind_map :: "u32 \<Rightarrow> bool" where
  "in_ind_map x \<longleftrightarrow> 134251008 \<le> unat x \<and> unat x < 134252032"
definition in_table :: "u32 \<Rightarrow> bool" where
  "in_table x \<longleftrightarrow> 134252032 \<le> unat x \<and> unat x < 135300608"
definition in_block :: "nat \<Rightarrow> u32 \<Rightarrow> bool" where
  "in_block k x \<longleftrightarrow> 135300608 + 4096 * k \<le> unat x \<and> unat x < 135300608 + 4096 * k + 4096"

lemmas region_defs = in_super_def in_blk_map_def in_ind_map_def in_table_def in_block_def

definition blk_offset :: "nat \<Rightarrow> u32" where
  "blk_offset k = 135300608 + word_of_nat k * 4096"

lemma unat_blk_offset: "k < DATA_BLOCK_MAX_NUMBER \<Longrightarrow> unat (blk_offset k) = 135300608 + 4096 * k"
proof -
  assume k: "k < DATA_BLOCK_MAX_NUMBER"
  have "blk_offset k = word_of_nat (135300608 + 4096 * k)" by (simp add: blk_offset_def)
  then show ?thesis using k by (simp only:) (subst unat_of_nat_u32, auto)
qed

lemma in_block_iff:
  "k < DATA_BLOCK_MAX_NUMBER \<Longrightarrow> unat (x - blk_offset k) < 4096 \<longleftrightarrow> in_block k x"
  by (subst in_range_iff) (auto simp: unat_blk_offset in_block_def)

lemma in_block_addr:
  "k < DATA_BLOCK_MAX_NUMBER \<Longrightarrow> i < BLOCK_SIZE \<Longrightarrow>
     in_block k (blk_offset k + word_of_nat i) \<and>
     unat (blk_offset k + word_of_nat i) = 135300608 + 4096 * k + i"
  by (subst unat_plus_small; simp add: unat_blk_offset in_block_def)
    (simp add: unat_plus_small unat_blk_offset)

lemma in_block_unique: "in_block k x \<Longrightarrow> in_block l x \<Longrightarrow> k = l"
  by (auto simp: in_block_def)

subsection \<open>Structures and their bytes\<close>

lemma rd32_bytes:
  "b o' = byte_of 0 v \<Longrightarrow> b (o' + 1) = byte_of 1 v \<Longrightarrow> b (o' + 2) = byte_of 2 v \<Longrightarrow> b (o' + 3) = byte_of 3 v \<Longrightarrow>
     rd32 b (o' :: nat) = v"
  using le32_bytes [of v] by (simp add: rd32_def)

lemma rd32_words:
  assumes "\<And>i. i < 4 * m \<Longrightarrow> b (o' + i) = byte_of (i mod 4) (w (i div 4))" and "k < m"
  shows "rd32 b (o' + 4 * k) = w k"
proof -
  have "b (o' + 4 * k + i) = byte_of i (w k)" if "i < 4" for i
    using assms(1) [of "4 * k + i"] assms(2) that by (simp add: add.assoc)
  from this [of 0] this [of 1] this [of 2] this [of 3] show ?thesis by (intro rd32_bytes) simp_all
qed

definition inode_wf :: "inode_t \<Rightarrow> bool" where
  "inode_wf n \<longleftrightarrow> (\<forall>k \<ge> 16. direct n k = 0 \<and> owner n k = 0 \<and> hash n k = 0)"

lemma inode_codec:
  assumes wf: "inode_wf n" and b: "\<And>i. i < 128 \<Longrightarrow> b (o' + i) = inode_bytes n i"
  shows "inode_of b o' = n"
proof -
  have w: "rd32 b (o' + 4 * k) = inode_word n k" if "k < 24" for k
    by (rule rd32_words [of 24]) (use that b in \<open>auto simp: inode_bytes_def\<close>)
  have d: "rd32 b (o' + 20 + 4 * k) = direct n k" if "k < 16" for k
    using w [of "5 + k"] that by (simp add: inode_word_def add.assoc)
  have own: "b (o' + 96 + k) = owner n k" "b (o' + 112 + k) = hash n k" if "k < 16" for k
    using b [of "96 + k"] b [of "112 + k"] that by (simp_all add: inode_bytes_def add.assoc)
  have arrays: "(\<lambda>k. if k < 16 then rd32 b (o' + 20 + 4 * k) else 0) = direct n"
    "(\<lambda>k. if k < 16 then b (o' + 96 + k) else 0) = owner n"
    "(\<lambda>k. if k < 16 then b (o' + 112 + k) else 0) = hash n"
    using wf d own by (auto simp: fun_eq_iff inode_wf_def not_less)
  show ?thesis
    unfolding inode_of_def arrays
    using w [of 0] w [of 1] w [of 2] w [of 3] w [of 4] w [of 21] w [of 22] w [of 23]
    by (simp add: inode_word_def)
qed

lemma super_codec:
  assumes b: "\<And>i. i < 36 \<Longrightarrow> b i = super_bytes sb i"
  shows "super_of b = sb"
proof -
  have w: "rd32 b (4 * k) = super_word sb k" if "k < 9" for k
    using rd32_words [of 9 b 0 "super_word sb" k] that b by (auto simp: super_bytes_def)
  show ?thesis
    unfolding super_of_def
    using w [of 0] w [of 1] w [of 2] w [of 3] w [of 4] w [of 5] w [of 6] w [of 7] w [of 8]
    by (simp add: super_word_def)
qed

subsection \<open>Writing back\<close>

lemma update_bit_map_spec:
  assumes dev: "sd_ok dev" and sb: "super_block f = std_super"
  obtains d where "update_bit_map dev f = f\<lparr>disk := d\<rparr>"
    "\<And>x. disk_byte dev d x =
       (if in_blk_map x then block_bit_map f (unat x - 134218240)
        else if in_ind_map x then inode_bit_map f (unat x - 134251008)
        else disk_byte dev (disk f) x)"
proof
  let ?d1 = "sdwrite dev (inode_bit_map f) 134251008 1024 (disk f)"
  let ?d2 = "sdwrite dev (block_bit_map f) 134218240 32768 ?d1"
  show "update_bit_map dev f = f\<lparr>disk := ?d2\<rparr>"
    by (simp add: update_bit_map_def do_fs_write_def sb Let_def)
  fix x
  have "unat (x - 134251008) < 1024 \<longleftrightarrow> in_ind_map x" "unat (x - 134218240) < 32768 \<longleftrightarrow> in_blk_map x"
    by (subst in_range_iff; simp add: region_defs)+
  moreover have "in_ind_map x \<Longrightarrow> unat (x - 134251008) = unat x - 134251008"
    "in_blk_map x \<Longrightarrow> unat (x - 134218240) = unat x - 134218240"
    by (subst unat_diff_in; simp add: region_defs)+
  ultimately show "disk_byte dev ?d2 x =
       (if in_blk_map x then block_bit_map f (unat x - 134218240)
        else if in_ind_map x then inode_bit_map f (unat x - 134251008)
        else disk_byte dev (disk f) x)"
    by (simp add: disk_byte_write [OF dev])
qed

lemma update_inode_block_disk:
  assumes dev: "sd_ok dev" and sb: "super_block f = std_super" and k: "k < 256"
  obtains d where "update_inode_block dev k f =
      f\<lparr>disk := d, inode_dirty := (inode_dirty f)(k := 0)\<rparr>"
    "\<And>x. disk_byte dev d x =
       (if in_table x \<and> (unat x - 134252032) div 4096 = k \<and> inode_dirty f k \<noteq> 0
        then nodes_bytes (nodes f) (unat x - 134252032) else disk_byte dev (disk f) x)"
proof (cases "inode_dirty f k = 0")
  case True
  show ?thesis
  proof (rule that [of "disk f"])
    have "(inode_dirty f)(k := 0) = inode_dirty f" using True by auto
    then show "update_inode_block dev k f = f\<lparr>disk := disk f, inode_dirty := (inode_dirty f)(k := 0)\<rparr>"
      using True by (simp add: update_inode_block_def)
  qed (simp add: True)
next
  case False
  let ?a = "134252032 + 4096 * word_of_nat k :: u32"
  let ?d = "sdwrite dev (\<lambda>j. nodes_bytes (nodes f) (4096 * k + j)) ?a 4096 (disk f)"
  have "?a = word_of_nat (134252032 + 4096 * k)" by simp
  then have a: "unat ?a = 134252032 + 4096 * k"
    using k by (simp only:) (subst unat_of_nat_u32, auto)
  show ?thesis
  proof (rule that [of ?d])
    have "128 * k * 32 = 4096 * k" "(128 * word_of_nat k * 32 :: u32) = 4096 * word_of_nat k" by simp_all
    then show "update_inode_block dev k f = f\<lparr>disk := ?d, inode_dirty := (inode_dirty f)(k := 0)\<rparr>"
      using False by (simp add: update_inode_block_def do_fs_write_def sb Let_def)
    fix x
    have "unat (x - ?a) < 4096 \<longleftrightarrow> 134252032 + 4096 * k \<le> unat x \<and> unat x < 134252032 + 4096 * k + 4096"
      using k by (subst in_range_iff) (simp_all add: a)
    also have "\<dots> \<longleftrightarrow> in_table x \<and> (unat x - 134252032) div 4096 = k"
    proof
      assume l: "134252032 + 4096 * k \<le> unat x \<and> unat x < 134252032 + 4096 * k + 4096"
      then have "4096 * k \<le> unat x - 134252032" "unat x - 134252032 < 4096 * Suc k" by auto
      then have "(unat x - 134252032) div 4096 = k" by (simp add: div_nat_eqI mult.commute)
      with l k show "in_table x \<and> (unat x - 134252032) div 4096 = k" by (auto simp: in_table_def)
    next
      assume r: "in_table x \<and> (unat x - 134252032) div 4096 = k"
      then show "134252032 + 4096 * k \<le> unat x \<and> unat x < 134252032 + 4096 * k + 4096"
        using div_times_less_eq_dividend [of "unat x - 134252032" 4096]
          dividend_less_div_times [of 4096 "unat x - 134252032"] by (auto simp: in_table_def)
    qed
    finally have in_iff: "unat (x - ?a) < 4096 \<longleftrightarrow> in_table x \<and> (unat x - 134252032) div 4096 = k" .
    have pos: "4096 * k + unat (x - ?a) = unat x - 134252032" if "unat (x - ?a) < 4096"
    proof -
      have "unat ?a \<le> unat x" using that unat_diff_out [of x ?a 4096] k by (cases "unat ?a \<le> unat x") (auto simp: a)
      then show ?thesis using unat_diff_in [of ?a x] by (simp add: a)
    qed
    show "disk_byte dev ?d x =
       (if in_table x \<and> (unat x - 134252032) div 4096 = k \<and> inode_dirty f k \<noteq> 0
        then nodes_bytes (nodes f) (unat x - 134252032) else disk_byte dev (disk f) x)"
      using False in_iff pos by (simp add: disk_byte_write [OF dev])
  qed
qed

text \<open>All dirty blocks of the inode table go to the card, nothing else changes.\<close>

lemma update_inode_spec:
  assumes dev: "sd_ok dev" and sb: "super_block f = std_super"
  obtains d where
    "update_inode dev f = f\<lparr>disk := d, inode_dirty := (\<lambda>j. if j < 256 then 0 else inode_dirty f j)\<rparr>"
    "\<And>x. disk_byte dev d x =
       (if in_table x \<and> inode_dirty f ((unat x - 134252032) div 4096) \<noteq> 0
        then nodes_bytes (nodes f) (unat x - 134252032) else disk_byte dev (disk f) x)"
proof -
  define I where "I k g \<longleftrightarrow>
      g = f\<lparr>disk := disk g, inode_dirty := (\<lambda>j. if j < k then 0 else inode_dirty f j)\<rparr> \<and>
      (\<forall>x. disk_byte dev (disk g) x =
        (if in_table x \<and> (unat x - 134252032) div 4096 < k \<and> inode_dirty f ((unat x - 134252032) div 4096) \<noteq> 0
         then nodes_bytes (nodes f) (unat x - 134252032) else disk_byte dev (disk f) x))" for k and g :: "'a fs_t"
  have "I 256 (for_upto 0 256 (update_inode_block dev) f)"
  proof (rule for_upto_inv)
    show "I 0 f" by (simp add: I_def)
    fix k g assume "k < 256" and I: "I k g"
    define d where "d = disk g"
    from I have g: "g = f\<lparr>disk := d, inode_dirty := (\<lambda>j. if j < k then 0 else inode_dirty f j)\<rparr>"
      and dg: "\<And>x. disk_byte dev d x =
        (if in_table x \<and> (unat x - 134252032) div 4096 < k \<and> inode_dirty f ((unat x - 134252032) div 4096) \<noteq> 0
         then nodes_bytes (nodes f) (unat x - 134252032) else disk_byte dev (disk f) x)"
      by (simp_all add: I_def d_def)
    have sbg: "super_block g = std_super" and ng: "nodes g = nodes f" and dirty: "inode_dirty g k = inode_dirty f k"
      by (simp_all add: g sb)
    obtain d' where upd: "update_inode_block dev k g = g\<lparr>disk := d', inode_dirty := (inode_dirty g)(k := 0)\<rparr>"
      and d': "\<And>x. disk_byte dev d' x =
       (if in_table x \<and> (unat x - 134252032) div 4096 = k \<and> inode_dirty g k \<noteq> 0
        then nodes_bytes (nodes g) (unat x - 134252032) else disk_byte dev (disk g) x)"
      by (rule update_inode_block_disk [OF dev sbg \<open>k < 256\<close>]) (rule that, assumption+)
    have "g\<lparr>disk := d', inode_dirty := (inode_dirty g)(k := 0)\<rparr> =
        f\<lparr>disk := d', inode_dirty := (\<lambda>j. if j < Suc k then 0 else inode_dirty f j)\<rparr>"
      by (auto simp: g fun_eq_iff less_Suc_eq intro!: arg_cong [where f = "\<lambda>z. f\<lparr>disk := d', inode_dirty := z\<rparr>"])
    then show "I (Suc k) (update_inode_block dev k g)"
      unfolding I_def upd using d' dg by (auto simp: ng dirty d_def [symmetric] less_Suc_eq)
  qed simp
  then have I: "I 256 (update_inode dev f)" by (simp add: update_inode_def)
  show ?thesis
  proof (rule that [of "disk (update_inode dev f)"])
    show "update_inode dev f = f\<lparr>disk := disk (update_inode dev f),
        inode_dirty := (\<lambda>j. if j < 256 then 0 else inode_dirty f j)\<rparr>"
      using I by (simp add: I_def)
    fix x
    have "in_table x \<Longrightarrow> (unat x - 134252032) div 4096 < 256" by (simp add: in_table_def less_diff_conv2 less_mult_imp_div_less)
    then show "disk_byte dev (disk (update_inode dev f)) x =
       (if in_table x \<and> inode_dirty f ((unat x - 134252032) div 4096) \<noteq> 0
        then nodes_bytes (nodes f) (unat x - 134252032) else disk_byte dev (disk f) x)"
      using I by (auto simp: I_def)
  qed
qed

subsection \<open>Persistence\<close>

definition super_on_disk :: "'d sd_dev \<Rightarrow> 'd \<Rightarrow> bool" where
  "super_on_disk dev d \<longleftrightarrow>
     (\<forall>i < 36. disk_byte dev d (FS_START + word_of_nat i) = super_bytes std_super i)"

text \<open>The blocks of the inode table that are not marked dirty agree with the card.\<close>

definition table_synced :: "'d sd_dev \<Rightarrow> 'd fs_t \<Rightarrow> bool" where
  "table_synced dev f \<longleftrightarrow>
     (\<forall>x. in_table x \<longrightarrow> inode_dirty f ((unat x - 134252032) div 4096) = 0 \<longrightarrow>
        disk_byte dev (disk f) x = nodes_bytes (nodes f) (unat x - 134252032))"

text \<open>The card holds the bit maps and the inode table of \<open>f\<close>.\<close>

definition meta_on_disk :: "'d sd_dev \<Rightarrow> 'd fs_t \<Rightarrow> 'd \<Rightarrow> bool" where
  "meta_on_disk dev f d \<longleftrightarrow>
     super_on_disk dev d \<and>
     (\<forall>x. in_blk_map x \<longrightarrow> disk_byte dev d x = block_bit_map f (unat x - 134218240)) \<and>
     (\<forall>x. in_ind_map x \<longrightarrow> disk_byte dev d x = inode_bit_map f (unat x - 134251008)) \<and>
     (\<forall>x. in_table x \<longrightarrow> disk_byte dev d x = nodes_bytes (nodes f) (unat x - 134252032))"

lemma super_region: "i < 36 \<Longrightarrow> in_super (FS_START + word_of_nat i)"
  by (simp add: in_super_def unat_plus_small)

lemma super_on_disk_cong:
  assumes "super_on_disk dev d" "\<And>x. in_super x \<Longrightarrow> disk_byte dev d' x = disk_byte dev d x"
  shows "super_on_disk dev d'"
  using assms super_region by (simp add: super_on_disk_def)

lemma regions_disjoint:
  "in_super x \<Longrightarrow> \<not> in_blk_map x \<and> \<not> in_ind_map x \<and> \<not> in_table x \<and> \<not> in_block k x"
  "in_blk_map x \<Longrightarrow> \<not> in_ind_map x \<and> \<not> in_table x \<and> \<not> in_block k x"
  "in_ind_map x \<Longrightarrow> \<not> in_table x \<and> \<not> in_block k x"
  "in_table x \<Longrightarrow> \<not> in_block k x"
  by (auto simp: region_defs)

lemma flush_spec:
  assumes dev: "sd_ok dev" and sb: "super_block f = std_super"
  obtains d where "update_inode dev (update_bit_map dev f) =
      f\<lparr>disk := d, inode_dirty := (\<lambda>j. if j < 256 then 0 else inode_dirty f j)\<rparr>"
    "super_on_disk dev (disk f) \<Longrightarrow> table_synced dev f \<Longrightarrow> meta_on_disk dev f d"
    "\<And>x k. in_block k x \<Longrightarrow> disk_byte dev d x = disk_byte dev (disk f) x"
proof -
  obtain d1 where d1: "update_bit_map dev f = f\<lparr>disk := d1\<rparr>"
    "\<And>x. disk_byte dev d1 x =
       (if in_blk_map x then block_bit_map f (unat x - 134218240)
        else if in_ind_map x then inode_bit_map f (unat x - 134251008)
        else disk_byte dev (disk f) x)"
    by (rule update_bit_map_spec [OF dev sb]) (rule that, assumption+)
  let ?f = "f\<lparr>disk := d1\<rparr>"
  have sb1: "super_block ?f = std_super" using sb by simp
  obtain d where d: "update_inode dev ?f = ?f\<lparr>disk := d, inode_dirty := (\<lambda>j. if j < 256 then 0 else inode_dirty ?f j)\<rparr>"
    "\<And>x. disk_byte dev d x =
       (if in_table x \<and> inode_dirty ?f ((unat x - 134252032) div 4096) \<noteq> 0
        then nodes_bytes (nodes ?f) (unat x - 134252032) else disk_byte dev (disk ?f) x)"
    by (rule update_inode_spec [OF dev sb1]) (rule that, assumption+)
  note bytes = d(2) d1(2)
  show ?thesis
  proof (rule that [of d])
    show "update_inode dev (update_bit_map dev f) =
      f\<lparr>disk := d, inode_dirty := (\<lambda>j. if j < 256 then 0 else inode_dirty f j)\<rparr>"
      using d(1) unfolding d1(1) by (simp cong: if_cong)
    assume super: "super_on_disk dev (disk f)" and tab: "table_synced dev f"
    have "super_on_disk dev d"
      by (rule super_on_disk_cong [OF super]) (use bytes regions_disjoint in simp)
    then show "meta_on_disk dev f d"
      using tab bytes regions_disjoint by (auto simp: meta_on_disk_def table_synced_def)
  next
    fix x k assume "in_block k x"
    then show "disk_byte dev d x = disk_byte dev (disk f) x"
      using bytes regions_disjoint by auto
  qed
qed

lemma fs_printks_ok:
  assumes "args_ok fmt va" "cursor_ok (scr (kst f))"
  obtains x where "fs_printks fmt va f = Some (f\<lparr>kst := (kst f)\<lparr>scr := x\<rparr>\<rparr>)" "cursor_ok x"
  using kprintks_ok [OF assms] that by (auto simp: fs_printks_def)

lemma slash_str: "\<exists>str. strcpy b 0 (buf_of (cs ''/'')) 0 = Some str \<and> cstr str 0 (cs ''/'')"
proof -
  have "cstr (buf_of (cs ''/'')) 0 (cs ''/'')" by (rule cstr_buf_of) simp
  from strcpy_cstr [OF this] show ?thesis by simp
qed

lemma time_hash_high: "16 \<le> j \<Longrightarrow> time_hash k h j = h j"
  by (simp add: time_hash_def for_upto_def upt_conv_Cons)

lemma mount_restores:
  assumes dev: "sd_ok dev" and meta: "meta_on_disk dev f (disk g)"
    and wf: "\<And>i. i < INODE_MAX_NUMBER \<Longrightarrow> inode_wf (nodes f i)" and cur: "cursor_ok (scr (kst g))"
  obtains h where "mount_fs dev junk g = Some h" "super_block h = std_super" "disk h = disk g"
    "\<And>i. i < INODE_MAX_NUMBER \<Longrightarrow> nodes h i = nodes f i"
    "\<And>i. i < DATA_BLOCK_BIT_MAP_SIZE \<Longrightarrow> block_bit_map h i = block_bit_map f i"
    "\<And>i. i < INODE_BIT_MAP_SIZE \<Longrightarrow> inode_bit_map h i = inode_bit_map f i"
    "root h = 0" "cwd h = 0" "cstr (cwd_str h) 0 (cs ''/'')" "\<exists>x. kst h = (kst g)\<lparr>scr := x\<rparr> \<and> cursor_ok x"
proof -
  have "args_ok (cs ''Reading FS meta data...'' @ [10]) []" by simp
  then obtain x where pr: "fs_printks (cs ''Reading FS meta data...'' @ [10]) [] g =
      Some (g\<lparr>kst := (kst g)\<lparr>scr := x\<rparr>\<rparr>)" and cur': "cursor_ok x"
    using fs_printks_ok [OF _ cur] by blast
  define g1 where "g1 = g\<lparr>kst := (kst g)\<lparr>scr := x\<rparr>\<rparr>"
  have dg: "disk g1 = disk g" by (simp add: g1_def)
  have sb: "super_of (do_fs_read dev FS_START junk 512 g1) = std_super"
    by (rule super_codec) (use meta in \<open>simp add: do_fs_read_eq [OF dev] dg meta_on_disk_def super_on_disk_def\<close>)
  obtain str where str: "strcpy (cwd_str g1) 0 (buf_of (cs ''/'')) 0 = Some str" "cstr str 0 (cs ''/'')" using slash_str by blast
  let ?rd = "\<lambda>a b n. do_fs_read dev a b n g1"
  define b where "b = ?rd 134252032 (nodes_bytes (nodes g1)) 1048576"
  define h where "h = g1\<lparr>super_block := std_super,
     inode_bit_map := ?rd 134251008 (inode_bit_map g1) 1024,
     block_bit_map := ?rd 134218240 (block_bit_map g1) 32768,
     nodes := (\<lambda>i. if i < INODE_MAX_NUMBER then inode_of b (128 * i) else nodes g1 i),
     root := 0, cwd := 0, cwd_str := str\<rparr>"
  have mnt: "mount_fs dev junk g = Some h"
    unfolding mount_fs_def pr g1_def [symmetric] Option.bind.bind_lunit Let_def sb
    using str(1) by (simp add: h_def b_def del: cs_Cons cong: if_cong)
  have nds: "nodes h i = nodes f i" if i: "i < INODE_MAX_NUMBER" for i
  proof -
    have "b (128 * i + j) = inode_bytes (nodes f i) j" if j: "j < 128" for j
    proof -
      have lt: "128 * i + j < 1048576" using i j by simp
      have u: "unat (134252032 + word_of_nat (128 * i + j) :: u32) = 134252032 + (128 * i + j)"
        using lt by (subst unat_plus_small) simp_all
      then have "in_table (134252032 + word_of_nat (128 * i + j))" using lt unfolding in_table_def by linarith
      then show ?thesis using meta lt u j
        by (simp add: meta_on_disk_def b_def do_fs_read_eq [OF dev] dg nodes_bytes_def del: of_nat_add of_nat_mult)
    qed
    then have "inode_of b (128 * i) = nodes f i" by (intro inode_codec wf i)
    then show ?thesis using i by (simp add: h_def)
  qed
  have bm: "block_bit_map h i = block_bit_map f i" if "i < 32768" for i
  proof -
    have u: "unat (134218240 + word_of_nat i :: u32) = 134218240 + i" using that by (subst unat_plus_small) simp_all
    then have "in_blk_map (134218240 + word_of_nat i)" using that unfolding in_blk_map_def by linarith
    then show ?thesis using meta that u by (simp add: meta_on_disk_def h_def do_fs_read_eq [OF dev] dg)
  qed
  have im: "inode_bit_map h i = inode_bit_map f i" if "i < 1024" for i
  proof -
    have u: "unat (134251008 + word_of_nat i :: u32) = 134251008 + i" using that by (subst unat_plus_small) simp_all
    then have "in_ind_map (134251008 + word_of_nat i)" using that unfolding in_ind_map_def by linarith
    then show ?thesis using meta that u by (simp add: meta_on_disk_def h_def do_fs_read_eq [OF dev] dg)
  qed
  have scr: "\<exists>x. kst h = (kst g)\<lparr>scr := x\<rparr> \<and> cursor_ok x" using cur' by (intro exI [of _ x]) (simp add: h_def g1_def)
  have rest: "super_block h = std_super" "disk h = disk g" "root h = 0" "cwd h = 0" "cwd_str h = str"
    by (simp_all add: h_def g1_def)
  show ?thesis by (rule that [OF mnt rest(1,2) nds bm im rest(3,4) _ scr]) (use rest(5) str(2) in simp_all)
qed

subsection \<open>Bit maps\<close>

lemma unat_shift3: "unat (drop_bit 3 (k :: u32)) = unat k div 8"
  by (simp only: unat_drop_bit_eq) (simp add: drop_bit_eq_div)

lemma unat_and7: "unat (k AND 7 :: u32) = unat k mod 8"
proof -
  have "k AND 7 = take_bit 3 k" by (simp add: take_bit_eq_mask mask_eq_exp_minus_1)
  then show ?thesis by (simp only: unsigned_take_bit_eq) (simp add: take_bit_eq_mod)
qed

lemma and_bit_nonzero: "(b :: u8) AND 2 ^ r \<noteq> 0 \<longleftrightarrow> bit b r"
proof
  assume "b AND 2 ^ r \<noteq> 0"
  then obtain n where "bit (b AND 2 ^ r) n" using bit_eq_iff [of "b AND 2 ^ r" 0] by auto
  then show "bit b r" by (auto simp: bit_and_iff bit_exp_iff)
next
  assume "bit b r"
  then have "bit (b AND 2 ^ r) r" by (auto simp: bit_and_iff bit_exp_iff possible_bit_def dest: bit_imp_le_length)
  then show "b AND 2 ^ r \<noteq> 0" by auto
qed

lemma test_bit_iff: "test_bit buf k \<longleftrightarrow> bit (buf (unat k div 8)) (unat k mod 8)"
  by (simp add: test_bit_def and_bit_nonzero unat_shift3 unat_and7)

lemma same_bit: "unat (j :: u32) div 8 = unat k div 8 \<Longrightarrow> unat j mod 8 = unat k mod 8 \<longleftrightarrow> j = k"
  by (metis div_mult_mod_eq word_unat_eq_iff)

lemma test_set_bit: "test_bit (set_bit_map buf k) j \<longleftrightarrow> j = k \<or> test_bit buf j"
proof -
  have "unat k mod 8 < 8" by simp
  then show ?thesis
    using same_bit [of j k]
    by (auto simp: test_bit_iff set_bit_map_def Let_def unat_shift3 unat_and7 bit_or_iff
        bit_exp_iff possible_bit_def)
qed

lemma test_clear_bit: "test_bit (clear_bit buf k) j \<longleftrightarrow> j \<noteq> k \<and> test_bit buf j"
proof -
  have "unat k mod 8 < 8" by simp
  then show ?thesis
    using same_bit [of j k]
    by (auto simp: test_bit_iff clear_bit_def Let_def unat_shift3 unat_and7 bit_and_iff bit_not_iff
        bit_exp_iff possible_bit_def dest: bit_imp_le_length)
qed

text \<open>The numbers that are in use in a map of \<open>n\<close> bytes.\<close>

definition used_bits :: "nat \<Rightarrow> buffer \<Rightarrow> u32 set" where
  "used_bits n buf = {k. unat k < 8 * n \<and> test_bit buf k}"

definition bit_alloc :: "nat \<Rightarrow> buffer \<Rightarrow> (u32 \<times> buffer) option" where
  "bit_alloc n buf = do { k \<leftarrow> find_first_zero_bit buf n; Some (k, set_bit_map buf k) }"

lemma find_first_zero_bit_Some:
  assumes "find_first_zero_bit buf n = Some k" "8 * n < 4294967296"
  shows "unat k < 8 * n" "\<not> test_bit buf k" "\<And>j. unat j < unat k \<Longrightarrow> test_bit buf j"
proof -
  obtain i where i: "first_index 0 (8 * n) (\<lambda>i. \<not> test_bit buf (word_of_nat i)) = Some i" "k = word_of_nat i"
    using assms(1) by (auto simp: find_first_zero_bit_def)
  then have "i < 8 * n" by (simp add: first_index_Some)
  then have u: "unat k = i" using i(2) assms(2) by (simp add: unat_of_nat_u32)
  show "unat k < 8 * n" "\<not> test_bit buf k" using i u by (auto simp: first_index_Some)
  fix j :: u32 assume "unat j < unat k"
  then have "test_bit buf (word_of_nat (unat j))" using i(1) u unfolding first_index_Some by blast
  then show "test_bit buf j" by (simp only: word_of_nat_unat)
qed

lemma find_first_zero_bit_None:
  assumes "find_first_zero_bit buf n = None"
  shows "used_bits n buf = {k. unat k < 8 * n}"
proof -
  have "test_bit buf k" if "unat k < 8 * n" for k
    using assms that by (auto simp: find_first_zero_bit_def first_index_None dest!: spec [of _ "unat k"])
  then show ?thesis by (auto simp: used_bits_def)
qed

lemma card_numbers: "m < 4294967296 \<Longrightarrow> finite {k :: u32. unat k < m} \<and> card {k :: u32. unat k < m} = m"
proof -
  assume m: "m < 4294967296"
  have "{k :: u32. unat k < m} = word_of_nat ` {..<m}"
    using m by (force simp: unat_of_nat_u32 image_iff intro: bexI [of _ "unat _"])
  moreover have "inj_on (word_of_nat :: nat \<Rightarrow> u32) {..<m}"
    using m by (intro inj_onI) (metis lessThan_iff order_less_trans unat_of_nat_u32)
  ultimately show ?thesis by (simp add: card_image)
qed

lemma bit_map_laws:
  assumes n: "8 * n < 4294967296"
  shows "allocator (bit_alloc n) (\<lambda>k buf. clear_bit buf k) (\<lambda>buf A. A = used_bits n buf) (8 * n)"
proof
  fix buf :: buffer and A :: "u32 set"
  assume A: "A = used_bits n buf"
  have sub: "A \<subseteq> {k. unat k < 8 * n}" by (auto simp: A used_bits_def)
  then show "finite A" using card_numbers [OF n] finite_subset by blast
  { assume "card A < 8 * n"
    then have "A \<noteq> {k. unat k < 8 * n}" using card_numbers [OF n] by auto
    then obtain k where k: "find_first_zero_bit buf n = Some k"
      using find_first_zero_bit_None [of buf n] A by (cases "find_first_zero_bit buf n") auto
    note facts = find_first_zero_bit_Some [OF k n]
    have "bit_alloc n buf = Some (k, set_bit_map buf k)" by (simp add: bit_alloc_def k)
    moreover have "k \<notin> A" using facts by (simp add: A used_bits_def)
    moreover have "insert k A = used_bits n (set_bit_map buf k)"
      using facts by (auto simp: A used_bits_def test_set_bit)
    ultimately show "\<exists>k buf'. bit_alloc n buf = Some (k, buf') \<and> k \<notin> A \<and> insert k A = used_bits n buf'"
      by blast }
  { assume "8 * n \<le> card A"
    then have "A = {k. unat k < 8 * n}" using card_numbers [OF n] sub by (intro card_seteq) auto
    then show "bit_alloc n buf = None"
      using find_first_zero_bit_Some(1,2) [of buf n _, OF _ n]
      by (cases "find_first_zero_bit buf n") (auto simp: bit_alloc_def A used_bits_def) }
  { fix k assume "k \<in> A"
    show "A - {k} = used_bits n (clear_bit buf k)"
      by (auto simp: A used_bits_def test_clear_bit) }
qed

interpretation blk_map: allocator "bit_alloc DATA_BLOCK_BIT_MAP_SIZE" "\<lambda>k buf. clear_bit buf k"
    "\<lambda>buf A. A = used_bits DATA_BLOCK_BIT_MAP_SIZE buf" "8 * DATA_BLOCK_BIT_MAP_SIZE"
  by (rule bit_map_laws) simp

interpretation ind_map: allocator "bit_alloc INODE_BIT_MAP_SIZE" "\<lambda>k buf. clear_bit buf k"
    "\<lambda>buf A. A = used_bits INODE_BIT_MAP_SIZE buf" "8 * INODE_BIT_MAP_SIZE"
  by (rule bit_map_laws) simp

lemma find_bit_zero: "\<not> test_bit buf 0 \<Longrightarrow> 0 < n \<Longrightarrow> find_first_zero_bit buf n = Some 0"
proof -
  assume "\<not> test_bit buf 0" "0 < n"
  then have "first_index 0 (8 * n) (\<lambda>i. \<not> test_bit buf (word_of_nat i)) = Some 0"
    by (simp add: first_index_Some)
  then show ?thesis by (simp add: find_first_zero_bit_def)
qed

lemma used_bits_cleared: "used_bits n (memset b 0 0 n) = {}"
proof -
  have "\<not> test_bit (memset b 0 0 n) k" if "unat k < 8 * n" for k
  proof -
    have "unat k div 8 < n" using that by (simp add: div_less_iff_less_mult)
    then show ?thesis by (simp add: test_bit_iff memset_eq)
  qed
  then show ?thesis by (auto simp: used_bits_def)
qed

lemma used_bits_set: "unat k < 8 * n \<Longrightarrow> used_bits n (set_bit_map b k) = insert k (used_bits n b)"
  by (auto simp: used_bits_def test_set_bit)

lemma allocate_data_block_found:
  assumes "find_first_zero_bit (block_bit_map f) DATA_BLOCK_BIT_MAP_SIZE = Some k"
  shows "allocate_data_block k f = (True, f\<lparr>block_bit_map := set_bit_map (block_bit_map f) k\<rparr>)"
  using find_first_zero_bit_Some [OF assms]
  by (simp add: allocate_data_block_def word_le_nat_alt)

lemma allocate_inode_found:
  assumes "find_first_zero_bit (inode_bit_map f) INODE_BIT_MAP_SIZE = Some k"
  shows "allocate_inode k f = (Some (unat k), upd_node (unat k) (hash_update (time_hash (kst f)))
           (f\<lparr>inode_bit_map := set_bit_map (inode_bit_map f) k\<rparr>))"
  using find_first_zero_bit_Some [OF assms]
  by (simp add: allocate_inode_def word_le_nat_alt)

subsection \<open>Directory entries\<close>

definition put_name :: "nat \<Rightarrow> u8 list \<Rightarrow> buffer \<Rightarrow> buffer" where
  "put_name i xs b = (\<lambda>k. if de_name i \<le> k \<and> k < de_name i + length xs then xs ! (k - de_name i)
     else if k = de_name i + length xs then 0 else b k)"

definition set_dentry :: "nat \<Rightarrow> u8 list \<Rightarrow> u32 \<Rightarrow> u32 \<Rightarrow> buffer \<Rightarrow> buffer" where
  "set_dentry i xs ty n b = put_name i xs (set_de_inode_num i n (set_de_type i ty b))"

text \<open>Entry \<open>i\<close> of a block has this name, type and inode number.\<close>

definition dentry :: "buffer \<Rightarrow> nat \<Rightarrow> u8 list \<Rightarrow> u32 \<Rightarrow> u32 \<Rightarrow> bool" where
  "dentry b i xs ty n \<longleftrightarrow>
     length xs < MAX_NAME_LEN \<and> cstr b (de_name i) xs \<and> de_type b i = ty \<and> de_inode_num b i = n"

lemma strcpy_name_eq:
  assumes "cstr src j xs" "de_name i + length xs < BLOCK_SIZE"
  shows "strcpy_name i src j b = Some (put_name i xs b)"
  using assms strcpy_cstr [OF assms(1), of b "de_name i"] by (simp add: strcpy_name_def put_name_def)

lemma put_name_outside: "k < de_name i \<or> de_name i + length xs < k \<Longrightarrow> put_name i xs b k = b k"
  by (auto simp: put_name_def)

lemma addrs4_nat: "x \<in> addrs4 (a :: nat) \<longleftrightarrow> a \<le> x \<and> x < a + 4"
  by (auto simp: addrs4_def)

lemma dentry_cong:
  assumes "\<And>k. DENTRY_SIZE * i \<le> k \<Longrightarrow> k < DENTRY_SIZE * i + DENTRY_SIZE \<Longrightarrow> b k = b' k"
  shows "dentry b i xs ty n = dentry b' i xs ty n"
proof -
  have "de_type b i = de_type b' i" "de_inode_num b i = de_inode_num b' i"
    unfolding de_type_def de_inode_num_def by (rule rd32_cong; simp add: addrs4_nat assms)+
  moreover have "cstr b (de_name i) xs = cstr b' (de_name i) xs" if "length xs < 24"
    by (rule cstr_cong) (use that assms in simp)
  ultimately show ?thesis by (auto simp: dentry_def)
qed

lemma set_dentry_outside:
  assumes "length xs < MAX_NAME_LEN" "k < DENTRY_SIZE * i \<or> DENTRY_SIZE * i + DENTRY_SIZE \<le> k"
  shows "set_dentry i xs ty n b k = b k"
  using assms
  by (simp add: set_dentry_def set_de_inode_num_def set_de_type_def)
    (subst put_name_outside; (simp add: wr32_outside addrs4_nat)?; auto simp: wr32_outside addrs4_nat)

lemma dentry_set_same:
  assumes "length xs < MAX_NAME_LEN" "0 \<notin> set xs"
  shows "dentry (set_dentry i xs ty n b) i xs ty n"
proof -
  let ?b = "set_de_inode_num i n (set_de_type i ty b)"
  have "cstr (put_name i xs ?b) (de_name i) xs"
    by (rule cstrI) (use assms in \<open>auto simp: put_name_def\<close>)
  moreover have "de_type (put_name i xs ?b) i = de_type ?b i"
    "de_inode_num (put_name i xs ?b) i = de_inode_num ?b i"
    unfolding de_type_def de_inode_num_def by (rule rd32_cong; simp add: addrs4_nat put_name_outside)+
  moreover have "de_inode_num ?b i = n" by (simp add: de_inode_num_def set_de_inode_num_def)
  moreover have "de_type ?b i = ty"
    by (simp add: de_type_def set_de_inode_num_def set_de_type_def rd32_wr32_other addrs4_nat_disjoint)
  ultimately show ?thesis using assms by (simp add: dentry_def set_dentry_def)
qed

lemma dentry_set_other:
  assumes "i \<noteq> j" "length xs < MAX_NAME_LEN"
  shows "dentry (set_dentry i xs ty n b) j ys ty' n' = dentry b j ys ty' n'"
  by (rule dentry_cong, rule set_dentry_outside) (use assms in auto)

text \<open>A block holds this list of entries (name, type, inode number), with room for the list.\<close>

definition dir_rep :: "buffer \<Rightarrow> (u8 list \<times> u32 \<times> u32) list \<Rightarrow> bool" where
  "dir_rep b es \<longleftrightarrow> length es \<le> DENTRY_NUM \<and>
     (\<forall>i < length es. dentry b i (fst (es ! i)) (fst (snd (es ! i))) (snd (snd (es ! i))))"

lemma dir_rep_Nil [simp]: "dir_rep b []"
  by (simp add: dir_rep_def)

lemma dir_rep_snoc:
  assumes "dir_rep b es" "length es < DENTRY_NUM" "length xs < MAX_NAME_LEN" "0 \<notin> set xs"
  shows "dir_rep (set_dentry (length es) xs ty n b) (es @ [(xs, ty, n)])"
  using assms by (auto simp: dir_rep_def nth_append less_Suc_eq dentry_set_same dentry_set_other)

lemma dir_rep_cong:
  assumes "\<And>k. k < BLOCK_SIZE \<Longrightarrow> b k = b' k"
  shows "dir_rep b es = dir_rep b' es"
proof -
  have "dentry b i xs ty n = dentry b' i xs ty n" if "i < 128" for i xs ty n
    by (rule dentry_cong) (use that assms in auto)
  then show ?thesis by (auto simp: dir_rep_def)
qed

abbreviation dot_dirs :: "u32 \<Rightarrow> u32 \<Rightarrow> (u8 list \<times> u32 \<times> u32) list" where
  "dot_dirs self parent \<equiv> [(cs ''.'', dir_type, self), (cs ''..'', dir_type, parent)]"

lemma dot_entries_spec:
  "\<exists>b'. dot_entries self parent b = Some b' \<and> dir_rep b' (dot_dirs self parent)"
proof -
  let ?b1 = "set_dentry 0 (cs ''.'') dir_type self b"
  let ?b2 = "set_dentry 1 (cs ''..'') dir_type parent ?b1"
  have c: "cstr (buf_of (cs ''.'')) 0 (cs ''.'')" "cstr (buf_of (cs ''..'')) 0 (cs ''..'')"
    by (rule cstr_buf_of; simp)+
  have "dot_entries self parent b = Some ?b2"
    unfolding dot_entries_def set_dentry_def by (simp add: strcpy_name_eq [OF c(1)] strcpy_name_eq [OF c(2)] del: cs_Cons)
  moreover have "dir_rep ?b1 [(cs ''.'', dir_type, self)]"
    using dir_rep_snoc [OF dir_rep_Nil, of "cs ''.''" dir_type self b] by simp
  then have "dir_rep ?b2 (dot_dirs self parent)"
    using dir_rep_snoc [of ?b1 "[(cs ''.'', dir_type, self)]" "cs ''..''" dir_type parent] by simp
  ultimately show ?thesis by blast
qed

subsection \<open>Formatting\<close>

text \<open>The bytes of a data block on the card.\<close>

definition blk_bytes :: "'d sd_dev \<Rightarrow> 'd \<Rightarrow> nat \<Rightarrow> buffer" where
  "blk_bytes dev d k i = disk_byte dev d (blk_offset k + word_of_nat i)"

lemma fs_printks_seq:
  assumes "args_ok fmt va" "cursor_ok (scr (kst f))"
  shows "\<exists>x. fs_printks fmt va f = Some (f\<lparr>kst := (kst f)\<lparr>scr := x\<rparr>\<rparr>) \<and> cursor_ok x"
  by (rule fs_printks_ok [OF assms]) (intro exI conjI)

lemma do_print_fs_info_ok:
  assumes "cursor_ok (scr (kst f))"
  shows "\<exists>x. do_print_fs_info dev junk f = Some (f\<lparr>kst := (kst f)\<lparr>scr := x\<rparr>\<rparr>) \<and> cursor_ok x"
proof -
  let ?scr = "\<lambda>x. f\<lparr>kst := (kst f)\<lparr>scr := x\<rparr>\<rparr>"
  have step: "\<exists>y. fs_printks fmt va (?scr x) = Some (?scr y) \<and> cursor_ok y"
    if "cursor_ok x" "args_ok fmt va" for x fmt va
    using fs_printks_seq [of fmt va "?scr x"] that by simp
  have start: "?scr (scr (kst f)) = f" by simp
  define sp where "sp = super_of (do_fs_read dev FS_START junk 512 f)"
  have rd: "super_of (do_fs_read dev FS_START junk 512 (?scr x)) = sp" for x by (simp add: sp_def)
  obtain x1 where x1: "fs_printks (cs ''Reading FS meta data...'' @ [10]) [] f = Some (?scr x1)" "cursor_ok x1"
    using step [of "scr (kst f)" "cs ''Reading FS meta data...'' @ [10]" "[]"] assms start by auto
  show ?thesis
  proof (cases "magic sp = MAGIC_NUMER")
    case False
    obtain x2 where x2: "fs_printks (cs ''No valid FS here.'' @ [10]) [] (?scr x1) = Some (?scr x2)" "cursor_ok x2"
      using step [OF x1(2), of "cs ''No valid FS here.'' @ [10]" "[]"] by auto
    have "do_print_fs_info dev junk f = Some (?scr x2)"
      unfolding do_print_fs_info_def x1(1) Option.bind.bind_lunit Let_def rd
      using False x2(1) by (simp del: cs_Cons)
    with x2(2) show ?thesis by (intro exI conjI)
  next
    case True
    obtain x2 where x2: "fs_printks ([9] @ cs ''Magic number: 0x%x'' @ [10]) [VInt (magic sp)] (?scr x1) =
        Some (?scr x2)" "cursor_ok x2"
      using step [OF x1(2), of "[9] @ cs ''Magic number: 0x%x'' @ [10]" "[VInt (magic sp)]"] by auto
    obtain x3 where x3: "fs_printks ([9] @ cs ''Data block number: 0x%x'' @ [10]) [VInt (data_block_num sp)] (?scr x2) =
        Some (?scr x3)" "cursor_ok x3"
      using step [OF x2(2), of "[9] @ cs ''Data block number: 0x%x'' @ [10]" "[VInt (data_block_num sp)]"] by auto
    obtain x4 where x4: "fs_printks ([9] @ cs ''Data block size: 0x%x'' @ [10]) [VInt (data_block_size sp)] (?scr x3) =
        Some (?scr x4)" "cursor_ok x4"
      using step [OF x3(2), of "[9] @ cs ''Data block size: 0x%x'' @ [10]" "[VInt (data_block_size sp)]"] by auto
    obtain x5 where x5: "fs_printks ([9] @ cs ''Inode number: 0x%x'' @ [10]) [VInt (inode_num sp)] (?scr x4) =
        Some (?scr x5)" "cursor_ok x5"
      using step [OF x4(2), of "[9] @ cs ''Inode number: 0x%x'' @ [10]" "[VInt (inode_num sp)]"] by auto
    obtain x6 where x6: "fs_printks ([9] @ cs ''Inode size: 0x%x'' @ [10]) [VInt (inode_size sp)] (?scr x5) =
        Some (?scr x6)" "cursor_ok x6"
      using step [OF x5(2), of "[9] @ cs ''Inode size: 0x%x'' @ [10]" "[VInt (inode_size sp)]"] by auto
    have "do_print_fs_info dev junk f = Some (?scr x6)"
      unfolding do_print_fs_info_def x1(1) Option.bind.bind_lunit Let_def rd
      using True x2(1) x3(1) x4(1) x5(1) x6(1) by (simp del: cs_Cons append_Cons)
    with x6(2) show ?thesis by (intro exI conjI)
  qed
qed

text \<open>The state after \<open>do_mkfs\<close>: \<open>b\<close> is the block of the root directory.\<close>

definition mkfs_bytes :: "'d sd_dev \<Rightarrow> buffer \<Rightarrow> buffer \<Rightarrow> 'd fs_t \<Rightarrow> 'd fs_t \<Rightarrow> bool" where
  "mkfs_bytes dev junk b f g \<longleftrightarrow> (\<forall>y. disk_byte dev (disk g) y =
     (if in_table y \<and> ((inode_dirty f)(0 := 1)) ((unat y - 134252032) div 4096) \<noteq> 0
      then nodes_bytes (nodes g) (unat y - 134252032)
      else if in_blk_map y then block_bit_map g (unat y - 134218240)
      else if in_ind_map y then inode_bit_map g (unat y - 134251008)
      else if in_block 0 y then b (unat (y - blk_offset 0))
      else if in_super y then memcpy junk 0 (super_bytes std_super) 0 36 (unat (y - FS_START)) else disk_byte dev (disk f) y))"

definition mkfs_memory :: "'d fs_t \<Rightarrow> 'd fs_t \<Rightarrow> bool" where
  "mkfs_memory f g \<longleftrightarrow> super_block g = std_super \<and> root g = 0 \<and> cwd g = 0 \<and>
     block_bit_map g = set_bit_map (memset (block_bit_map f) 0 0 32768) 0 \<and>
     inode_bit_map g = set_bit_map (memset (inode_bit_map f) 0 0 1024) 0 \<and>
     nodes g = (nodes f)(0 := (hash_update (time_hash (kst f)) (nodes f 0))
       \<lparr>entry_num := 2, link_cnt := 1, direct := (direct (nodes f 0))(0 := blk_offset 0)\<rparr>)"

text \<open>The state in which \<open>do_mkfs\<close> starts to write the metadata; \<open>b\<close> is the block of the root directory.\<close>

definition mkfs_base :: "'d sd_dev \<Rightarrow> buffer \<Rightarrow> buffer \<Rightarrow> 'd fs_t \<Rightarrow> 'd fs_t" where
  "mkfs_base dev junk b f = f\<lparr>super_block := std_super,
     inode_bit_map := set_bit_map (memset (inode_bit_map f) 0 0 1024) 0, root := 0,
     block_bit_map := set_bit_map (memset (block_bit_map f) 0 0 32768) 0,
     nodes := (nodes f)(0 := (hash_update (time_hash (kst f)) (nodes f 0))
       \<lparr>entry_num := 2, link_cnt := 1, direct := (direct (nodes f 0))(0 := blk_offset 0)\<rparr>),
     disk := sdwrite dev b (blk_offset 0) 4096 (sdwrite dev (memcpy junk 0 (super_bytes std_super) 0 36) FS_START 512 (disk f))\<rparr>"

lemma do_mkfs_base:
  assumes b: "dot_entries 0 0 (memset (memcpy junk 0 (super_bytes std_super) 0 36) 0 0 4096) = Some b"
  shows "do_mkfs dev junk f = do {
    let u = update_inode dev (mark_inode_dirty 0 (update_bit_map dev (mkfs_base dev junk b f)));
    str \<leftarrow> strcpy (cwd_str u) 0 (buf_of (cs ''/'')) 0;
    do_print_fs_info dev junk (u\<lparr>root := 0, cwd := 0, cwd_str := str\<rparr>) }"
proof -
  define f3 where "f3 = f\<lparr>super_block := std_super, disk := sdwrite dev (memcpy junk 0 (super_bytes std_super) 0 36) FS_START 512 (disk f),
     block_bit_map := memset (block_bit_map f) 0 0 32768, inode_bit_map := memset (inode_bit_map f) 0 0 1024\<rparr>"
  have z: "\<not> test_bit (memset m 0 0 n) 0" if "0 < n" for m n
    using that by (simp add: test_bit_iff memset_eq)
  have fi: "find_first_zero_bit (inode_bit_map f3) 1024 = Some 0"
    by (rule find_bit_zero) (simp_all add: f3_def z)
  have fb: "find_first_zero_bit (block_bit_map f3) 32768 = Some 0"
    by (rule find_bit_zero) (simp_all add: f3_def z)
  have al: "allocate_inode 0 f3 = (Some 0, upd_node 0 (hash_update (time_hash (kst f3)))
      (f3\<lparr>inode_bit_map := set_bit_map (inode_bit_map f3) 0\<rparr>))"
    using allocate_inode_found [OF fi] by simp
  have ab: "allocate_data_block 0 g = (True, g\<lparr>block_bit_map := set_bit_map (block_bit_map g) 0\<rparr>)"
    if "block_bit_map g = block_bit_map f3" for g :: "'a fs_t"
    using allocate_data_block_found [of g 0] fb that by simp
  note run = fi [unfolded f3_def, simplified] al [unfolded f3_def, simplified] fb [unfolded f3_def, simplified] ab [unfolded f3_def, simplified]
  show ?thesis
    by (simp add: do_mkfs_def Let_def do_fs_write_def upd_node_def run b get_data_block_offset_def mkfs_base_def blk_offset_def)
qed

text \<open>Writing the metadata.\<close>

lemma mkfs_flush:
  assumes dev: "sd_ok dev"
  obtains d y where "update_inode dev (mark_inode_dirty 0 (update_bit_map dev (mkfs_base dev junk b f))) =
      (mkfs_base dev junk b f)\<lparr>disk := d, inode_dirty := y\<rparr>"
    "mkfs_bytes dev junk b f ((mkfs_base dev junk b f)\<lparr>disk := d, inode_dirty := y\<rparr>)"
proof -
  define f8 where "f8 = mkfs_base dev junk b f"
  have sb8: "super_block f8 = std_super" by (simp add: f8_def mkfs_base_def)
  obtain d1 where d1: "update_bit_map dev f8 = f8\<lparr>disk := d1\<rparr>"
    "\<And>x. disk_byte dev d1 x =
       (if in_blk_map x then block_bit_map f8 (unat x - 134218240)
        else if in_ind_map x then inode_bit_map f8 (unat x - 134251008)
        else disk_byte dev (disk f8) x)"
    by (rule update_bit_map_spec [OF dev sb8]) (rule that, assumption+)
  define f9 where "f9 = f8\<lparr>disk := d1, inode_dirty := (inode_dirty f8)(0 := 1)\<rparr>"
  have m: "mark_inode_dirty 0 (update_bit_map dev f8) = f9" by (simp add: mark_inode_dirty_def d1(1) f9_def Let_def)
  have sb9: "super_block f9 = std_super" by (simp add: f9_def sb8)
  obtain d where d: "update_inode dev f9 = f9\<lparr>disk := d, inode_dirty := (\<lambda>j. if j < 256 then 0 else inode_dirty f9 j)\<rparr>"
    "\<And>x. disk_byte dev d x =
       (if in_table x \<and> inode_dirty f9 ((unat x - 134252032) div 4096) \<noteq> 0
        then nodes_bytes (nodes f9) (unat x - 134252032) else disk_byte dev (disk f9) x)"
    by (rule update_inode_spec [OF dev sb9]) (rule that, assumption+)
  have sup: "unat (y - FS_START) < 512 \<longleftrightarrow> in_super y" for y by (subst in_range_iff) (simp_all add: in_super_def)
  have blk: "unat (y - blk_offset 0) < 4096 \<longleftrightarrow> in_block 0 y" for y by (rule in_block_iff) simp
  show ?thesis
  proof (rule that [of "\<lambda>j. if j < 256 then 0 else inode_dirty f9 j" d])
    show "update_inode dev (mark_inode_dirty 0 (update_bit_map dev (mkfs_base dev junk b f))) =
        (mkfs_base dev junk b f)\<lparr>disk := d, inode_dirty := (\<lambda>j. if j < 256 then 0 else inode_dirty f9 j)\<rparr>"
      unfolding f8_def [symmetric] m d(1) by (simp add: f9_def)
    show "mkfs_bytes dev junk b f ((mkfs_base dev junk b f)\<lparr>disk := d, inode_dirty := (\<lambda>j. if j < 256 then 0 else inode_dirty f9 j)\<rparr>)"
      unfolding mkfs_bytes_def using d(2) d1(2)
      by (simp add: f9_def f8_def mkfs_base_def disk_byte_write [OF dev] sup blk)
  qed
qed

lemma do_mkfs_run:
  assumes dev: "sd_ok dev" and cur: "cursor_ok (scr (kst f))"
  obtains b g where "do_mkfs dev junk f = Some g" "mkfs_memory f g" "mkfs_bytes dev junk b f g"
    "dir_rep b (dot_dirs 0 0)" "cursor_ok (scr (kst g))"
proof -
  obtain b where b: "dot_entries 0 0 (memset (memcpy junk 0 (super_bytes std_super) 0 36) 0 0 4096) = Some b" "dir_rep b (dot_dirs 0 0)"
    using dot_entries_spec by blast
  obtain d y where d: "update_inode dev (mark_inode_dirty 0 (update_bit_map dev (mkfs_base dev junk b f))) =
      (mkfs_base dev junk b f)\<lparr>disk := d, inode_dirty := y\<rparr>"
    "mkfs_bytes dev junk b f ((mkfs_base dev junk b f)\<lparr>disk := d, inode_dirty := y\<rparr>)"
    by (rule mkfs_flush [OF dev])
  obtain str where str: "strcpy (cwd_str f) 0 (buf_of (cs ''/'')) 0 = Some str" using slash_str by blast
  define f10 where "f10 = (mkfs_base dev junk b f)\<lparr>disk := d, inode_dirty := y, root := 0, cwd := 0, cwd_str := str\<rparr>"
  have "cursor_ok (scr (kst f10))" using cur by (simp add: f10_def mkfs_base_def)
  then obtain x where x: "do_print_fs_info dev junk f10 = Some (f10\<lparr>kst := (kst f10)\<lparr>scr := x\<rparr>\<rparr>)" "cursor_ok x"
    using do_print_fs_info_ok by blast
  have "cwd_str (mkfs_base dev junk b f) = cwd_str f" by (simp add: mkfs_base_def)
  then have "do_mkfs dev junk f = Some (f10\<lparr>kst := (kst f10)\<lparr>scr := x\<rparr>\<rparr>)"
    unfolding do_mkfs_base [OF b(1)] Let_def d(1) using str x(1) by (simp add: f10_def del: cs_Cons)
  then show ?thesis
    by (rule that [OF _ _ _ b(2)]) (use d(2) x(2) in \<open>simp_all add: f10_def mkfs_base_def mkfs_memory_def mkfs_bytes_def\<close>)
qed

lemma mkfs_super:
  assumes "mkfs_bytes dev junk b f g"
  shows "super_on_disk dev (disk g)"
  unfolding super_on_disk_def
proof (intro allI impI)
  fix i :: nat assume i: "i < 36"
  note reg = super_region [OF i]
  have "unat (FS_START + word_of_nat i - FS_START) = i" using i by (simp add: unat_of_nat_u32)
  then show "disk_byte dev (disk g) (FS_START + word_of_nat i) = super_bytes std_super i"
    using assms regions_disjoint(1) [OF reg] reg i by (simp add: mkfs_bytes_def memcpy_eq)
qed

lemma mkfs_root_dir:
  assumes "mkfs_bytes dev junk b f g" "dir_rep b (dot_dirs 0 0)"
  shows "dir_rep (blk_bytes dev (disk g) 0) (dot_dirs 0 0)"
proof -
  have "blk_bytes dev (disk g) 0 i = b i" if i: "i < 4096" for i
  proof -
    have ib: "in_block 0 (blk_offset 0 + word_of_nat i)" using in_block_addr [of 0 i] i by simp
    then have "\<not> in_table (blk_offset 0 + word_of_nat i)" "\<not> in_blk_map (blk_offset 0 + word_of_nat i)"
      "\<not> in_ind_map (blk_offset 0 + word_of_nat i)"
      using regions_disjoint by blast+
    then show ?thesis using assms(1) ib i by (simp add: mkfs_bytes_def blk_bytes_def unat_of_nat_u32)
  qed
  then show ?thesis using dir_rep_cong [of "blk_bytes dev (disk g) 0" b] assms(2) by blast
qed

lemma mkfs_meta:
  assumes bytes: "mkfs_bytes dev junk b f g" and mem: "mkfs_memory f g" and syn: "table_synced dev f"
  shows "meta_on_disk dev g (disk g)"
proof -
  have "disk_byte dev (disk g) y = nodes_bytes (nodes g) (unat y - 134252032)" if y: "in_table y" for y
  proof (cases "((inode_dirty f)(0 := 1)) ((unat y - 134252032) div 4096) = 0")
    case False
    then show ?thesis using bytes y by (simp add: mkfs_bytes_def)
  next
    case True
    then have z: "(unat y - 134252032) div 4096 \<noteq> 0" and clean: "inode_dirty f ((unat y - 134252032) div 4096) = 0"
      by (auto split: if_splits)
    have "(unat y - 134252032) div 128 \<noteq> 0" using z by (auto simp: div_eq_0_iff)
    then have "nodes_bytes (nodes g) (unat y - 134252032) = nodes_bytes (nodes f) (unat y - 134252032)"
      using mem by (simp add: nodes_bytes_def mkfs_memory_def)
    moreover have "\<not> in_blk_map y" "\<not> in_ind_map y" "\<not> in_super y" "\<not> in_block 0 y"
      using y regions_disjoint by blast+
    ultimately show ?thesis using bytes True y clean syn by (simp add: mkfs_bytes_def table_synced_def)
  qed
  moreover have "\<not> in_table y" if "in_blk_map y \<or> in_ind_map y" for y using that regions_disjoint by blast
  moreover have "\<not> in_blk_map y" if "in_ind_map y" for y using that regions_disjoint by blast
  ultimately show ?thesis using mkfs_super [OF bytes] bytes by (auto simp: meta_on_disk_def mkfs_bytes_def)
qed

lemma do_mkfs_spec:
  assumes dev: "sd_ok dev" and cur: "cursor_ok (scr (kst f))"
  obtains g where "do_mkfs dev junk f = Some g" "super_block g = std_super"
    "root g = 0" "cwd g = 0" "cursor_ok (scr (kst g))"
    "super_on_disk dev (disk g)"
    "used_bits INODE_BIT_MAP_SIZE (inode_bit_map g) = {0}"
    "used_bits DATA_BLOCK_BIT_MAP_SIZE (block_bit_map g) = {0}"
    "entry_num (nodes g 0) = 2" "link_cnt (nodes g 0) = 1" "direct (nodes g 0) 0 = blk_offset 0"
    "dir_rep (blk_bytes dev (disk g) 0) (dot_dirs 0 0)"
    "table_synced dev f \<Longrightarrow> meta_on_disk dev g (disk g)"
    "itype (nodes g 0) = itype (nodes f 0)"
    "(\<And>i. inode_wf (nodes f i)) \<Longrightarrow> (\<And>i. inode_wf (nodes g i))"
proof -
  obtain b g where g: "do_mkfs dev junk f = Some g" "mkfs_memory f g" "mkfs_bytes dev junk b f g" "dir_rep b (dot_dirs 0 0)"
    "cursor_ok (scr (kst g))"
    by (rule do_mkfs_run [OF dev cur]) (rule that, assumption+)
  note m = g(2) [unfolded mkfs_memory_def]
  have wf: "inode_wf (nodes g i)" if "\<And>i. inode_wf (nodes f i)" for i
    using that m by (simp add: inode_wf_def time_hash_high)
  show ?thesis
    by (rule that [OF g(1) _ _ _ g(5) mkfs_super [OF g(3)] _ _ _ _ _ mkfs_root_dir [OF g(3,4)] mkfs_meta [OF g(3,2)] _ wf])
      (use m in \<open>simp_all add: used_bits_set used_bits_cleared\<close>)
qed

section \<open>Properties\<close>

text \<open>A kernel with an empty memory and a blank card.\<close>

definition blank_inode :: inode_t where
  "blank_inode = \<lparr>entry_num = 0, itype = 0, isize = 0, link_cnt = 0, link_to = 0, direct = (\<lambda>_. 0),
     indirect = 0, double_indrect = 0, triple_indrect = 0, owner = (\<lambda>_. 0), hash = (\<lambda>_. 0)\<rparr>"

definition blank_fs :: "(u32 \<Rightarrow> u8) fs_t" where
  "blank_fs = \<lparr>kst = demo_state, disk = (\<lambda>_. 0), block_bit_map = (\<lambda>_. 0), inode_bit_map = (\<lambda>_. 0),
     nodes = (\<lambda>_. blank_inode), inode_dirty = (\<lambda>_. 0), cwd = 0, root = 0, cwd_str = (\<lambda>_. 0),
     super_block = std_super, fwrite_wbuf = (\<lambda>_. 0), fread_rbuf = (\<lambda>_. 0)\<rparr>"

lemma inode_word_blank: "inode_word blank_inode k = 0"
  by (simp add: inode_word_def blank_inode_def)

lemma blank_bytes: "inode_bytes blank_inode i = 0"
proof -
  have "inode_bytes blank_inode i = byte_of (i mod 4) 0 \<or> inode_bytes blank_inode i = 0"
    unfolding inode_bytes_def inode_word_blank by (simp add: blank_inode_def)
  then show ?thesis by (simp add: byte_of_def)
qed

lemma blank_synced: "table_synced ram_dev blank_fs"
  by (simp add: table_synced_def blank_fs_def nodes_bytes_def blank_bytes)

lemma blank_cursor: "cursor_ok (scr (kst blank_fs))"
  by (simp add: blank_fs_def demo_state_def cursor_ok_def)

text \<open>
  C17: Making a file system. On a card that returns what was written to it, \<open>do_mkfs\<close> succeeds from every
  memory state: the super block describes the layout and is on the card, exactly inode 0 and data block 0
  are in use, the root directory has the two entries \<open>.\<close> and \<open>..\<close> that both name inode 0, and when the
  clean blocks of the inode table agreed with the card, the card holds all bit maps and inodes.
\<close>

theorem mkfs_formats:
  assumes "sd_ok dev" "cursor_ok (scr (kst f))" "table_synced dev f"
  shows "\<exists>g. do_mkfs dev junk f = Some g \<and> super_block g = std_super \<and> root g = 0 \<and> cwd g = 0 \<and>
    used_bits INODE_BIT_MAP_SIZE (inode_bit_map g) = {0} \<and>
    used_bits DATA_BLOCK_BIT_MAP_SIZE (block_bit_map g) = {0} \<and>
    entry_num (nodes g 0) = 2 \<and> direct (nodes g 0) 0 = get_data_block_offset 0 g \<and>
    dir_rep (do_fs_read dev (direct (nodes g 0) 0) junk BLOCK_SIZE g)
      [(cs ''.'', dir_type, 0), (cs ''..'', dir_type, 0)] \<and>
    meta_on_disk dev g (disk g)"
proof -
  obtain g where g: "do_mkfs dev junk f = Some g" "super_block g = std_super"
    "root g = 0" "cwd g = 0"
    "used_bits INODE_BIT_MAP_SIZE (inode_bit_map g) = {0}"
    "used_bits DATA_BLOCK_BIT_MAP_SIZE (block_bit_map g) = {0}"
    "entry_num (nodes g 0) = 2" "direct (nodes g 0) 0 = blk_offset 0"
    "dir_rep (blk_bytes dev (disk g) 0) (dot_dirs 0 0)" "meta_on_disk dev g (disk g)"
    by (rule do_mkfs_spec [OF assms(1,2)]) (use assms(3) in blast)
  have "dir_rep (do_fs_read dev (direct (nodes g 0) 0) junk BLOCK_SIZE g) (dot_dirs 0 0) =
      dir_rep (blk_bytes dev (disk g) 0) (dot_dirs 0 0)"
    by (rule dir_rep_cong) (simp add: do_fs_read_eq [OF assms(1)] g(8) blk_bytes_def)
  moreover have "get_data_block_offset 0 g = blk_offset 0"
    by (simp add: get_data_block_offset_def blk_offset_def g(2))
  ultimately show ?thesis using g by (intro exI [of _ g]) simp
qed

theorem mkfs_formats_witness:
  "\<exists>g. do_mkfs ram_dev (\<lambda>_. 7) blank_fs = Some g \<and> entry_num (nodes g 0) = 2 \<and> cwd g = 0"
  using mkfs_formats [OF ram_ok blank_cursor blank_synced, of "\<lambda>_. 7"] by blast

text \<open>
  C19: A write-back survives a reboot. When the super block is on the card and the clean blocks of the inode
  table agree with it, then after \<open>update_bit_map\<close> and \<open>update_inode\<close> a \<open>mount_fs\<close> in any later memory
  state that has this card restores every inode and both bit maps exactly, without writing to the card.
\<close>

theorem flush_survives_reboot:
  assumes dev: "sd_ok dev" and sb: "super_block f = std_super" and super: "super_on_disk dev (disk f)"
    and tab: "table_synced dev f" and wf: "\<forall>i < INODE_MAX_NUMBER. inode_wf (nodes f i)"
    and g: "disk g = disk (update_inode dev (update_bit_map dev f))" "cursor_ok (scr (kst g))"
  shows "\<exists>h. mount_fs dev junk g = Some h \<and> super_block h = std_super \<and> disk h = disk g \<and>
    (\<forall>i < INODE_MAX_NUMBER. nodes h i = nodes f i) \<and>
    (\<forall>i < DATA_BLOCK_BIT_MAP_SIZE. block_bit_map h i = block_bit_map f i) \<and>
    (\<forall>i < INODE_BIT_MAP_SIZE. inode_bit_map h i = inode_bit_map f i)"
proof -
  obtain d where d: "update_inode dev (update_bit_map dev f) =
      f\<lparr>disk := d, inode_dirty := (\<lambda>j. if j < 256 then 0 else inode_dirty f j)\<rparr>"
    "meta_on_disk dev f d"
    by (rule flush_spec [OF dev sb]) (use super tab in blast)
  have m: "meta_on_disk dev f (disk g)" using d g(1) by simp
  have wf': "inode_wf (nodes f i)" if "i < INODE_MAX_NUMBER" for i using wf that by blast
  obtain h where "mount_fs dev junk g = Some h" "super_block h = std_super" "disk h = disk g"
    "\<And>i. i < INODE_MAX_NUMBER \<Longrightarrow> nodes h i = nodes f i"
    "\<And>i. i < DATA_BLOCK_BIT_MAP_SIZE \<Longrightarrow> block_bit_map h i = block_bit_map f i"
    "\<And>i. i < INODE_BIT_MAP_SIZE \<Longrightarrow> inode_bit_map h i = inode_bit_map f i"
    by (rule mount_restores [OF dev m wf' g(2)]) (assumption, rule that, assumption+)
  then show ?thesis by (intro exI [of _ h]) simp
qed

text \<open>
  C23: Data blocks. Whenever a bit of the block map is clear, \<open>find_first_zero_bit\<close> and
  \<open>allocate_data_block\<close> hand out a block that was free and mark exactly this one; its 4096 bytes lie on
  the card beyond the bit maps and the inode table and share no byte with another block;
  \<open>get_data_block_number\<close> recovers its number, and clearing the bit makes it free again.
\<close>

theorem block_alloc_fresh:
  assumes sb: "super_block f = std_super"
    and free: "used_bits DATA_BLOCK_BIT_MAP_SIZE (block_bit_map f) \<noteq> {k. unat k < DATA_BLOCK_MAX_NUMBER}"
  shows "\<exists>k f'. find_first_zero_bit (block_bit_map f) DATA_BLOCK_BIT_MAP_SIZE = Some k \<and>
    allocate_data_block k f = (True, f') \<and>
    k \<notin> used_bits DATA_BLOCK_BIT_MAP_SIZE (block_bit_map f) \<and>
    used_bits DATA_BLOCK_BIT_MAP_SIZE (block_bit_map f') =
      insert k (used_bits DATA_BLOCK_BIT_MAP_SIZE (block_bit_map f)) \<and>
    used_bits DATA_BLOCK_BIT_MAP_SIZE (clear_bit (block_bit_map f') k) =
      used_bits DATA_BLOCK_BIT_MAP_SIZE (block_bit_map f) \<and>
    get_data_block_number (get_data_block_offset k f) f = k \<and>
    (\<forall>i < BLOCK_SIZE. let x = get_data_block_offset k f + word_of_nat i in
       \<not> in_super x \<and> \<not> in_blk_map x \<and> \<not> in_ind_map x \<and> \<not> in_table x \<and>
       (\<forall>l. in_block l x \<longleftrightarrow> l = unat k))"
proof -
  let ?U = "used_bits DATA_BLOCK_BIT_MAP_SIZE"
  have "find_first_zero_bit (block_bit_map f) DATA_BLOCK_BIT_MAP_SIZE \<noteq> None"
    using find_first_zero_bit_None [of "block_bit_map f" DATA_BLOCK_BIT_MAP_SIZE] free by auto
  then obtain k where k: "find_first_zero_bit (block_bit_map f) DATA_BLOCK_BIT_MAP_SIZE = Some k" by blast
  note facts = find_first_zero_bit_Some [OF k]
  have lt: "unat k < DATA_BLOCK_MAX_NUMBER" using facts(1) by simp
  have new: "k \<notin> ?U (block_bit_map f)" using facts(2) by (simp add: used_bits_def)
  let ?m = "set_bit_map (block_bit_map f) k"
  have ins: "?U ?m = insert k (?U (block_bit_map f))" using lt by (intro used_bits_set) simp
  have "?U (clear_bit ?m k) = ?U ?m - {k}"
    using blk_map.free_inv [of "?U ?m" ?m k] ins by simp
  then have clr: "?U (clear_bit ?m k) = ?U (block_bit_map f)" using ins new by auto
  have off: "get_data_block_offset k f = blk_offset (unat k)"
    by (simp add: get_data_block_offset_def blk_offset_def sb)
  have "unat (k * 4096) = unat k * 4096" using lt by (simp add: unat_word_ariths)
  then have num: "get_data_block_number (get_data_block_offset k f) f = k"
    by (simp add: get_data_block_number_def get_data_block_offset_def word_unat_eq_iff unat_div)
  have "\<not> in_super x \<and> \<not> in_blk_map x \<and> \<not> in_ind_map x \<and> \<not> in_table x \<and> (\<forall>l. in_block l x \<longleftrightarrow> l = unat k)"
    if "i < BLOCK_SIZE" "x = get_data_block_offset k f + word_of_nat i" for i x
  proof -
    have "in_block (unat k) x" using in_block_addr [OF lt that(1)] that(2) off by simp
    then show ?thesis using regions_disjoint in_block_unique by blast
  qed
  then show ?thesis
    using k allocate_data_block_found [OF k] new ins clr num
    by (intro exI [of _ k] exI [of _ "f\<lparr>block_bit_map := ?m\<rparr>"]) (simp add: Let_def)
qed

theorem block_alloc_fresh_witness:
  "find_first_zero_bit (block_bit_map blank_fs) DATA_BLOCK_BIT_MAP_SIZE = Some 0 \<and>
   (\<exists>k f'. allocate_data_block k blank_fs = (True, f') \<and> get_data_block_number (get_data_block_offset k blank_fs) blank_fs = k)"
proof -
  have "(0 :: u32) \<notin> used_bits DATA_BLOCK_BIT_MAP_SIZE (block_bit_map blank_fs)"
    by (simp add: used_bits_def test_bit_iff blank_fs_def)
  then have "used_bits DATA_BLOCK_BIT_MAP_SIZE (block_bit_map blank_fs) \<noteq> {k. unat k < DATA_BLOCK_MAX_NUMBER}" by auto
  moreover have "super_block blank_fs = std_super" by (simp add: blank_fs_def)
  moreover have "find_first_zero_bit (block_bit_map blank_fs) DATA_BLOCK_BIT_MAP_SIZE = Some 0"
    by (rule find_bit_zero) (simp_all add: test_bit_iff blank_fs_def)
  ultimately show ?thesis using block_alloc_fresh [of blank_fs] by blast
qed

definition formatted_fs :: "(u32 \<Rightarrow> u8) fs_t" where
  "formatted_fs = blank_fs\<lparr>disk := sdwrite ram_dev (super_bytes std_super) FS_START 512 (\<lambda>_. 0)\<rparr>"

lemma formatted_super: "super_on_disk ram_dev (disk formatted_fs)"
  by (simp add: super_on_disk_def formatted_fs_def ram_dev_def disk_byte_def unat_of_nat_u32)

lemma formatted_synced: "table_synced ram_dev formatted_fs"
proof -
  have "disk_byte ram_dev (disk formatted_fs) x = 0" if "in_table x" for x
  proof -
    have "\<not> unat (x - FS_START) < 512" using that by (subst in_range_iff) (simp_all add: in_table_def)
    then show ?thesis by (simp add: formatted_fs_def) (simp add: ram_dev_def)
  qed
  then show ?thesis by (simp add: table_synced_def formatted_fs_def blank_fs_def nodes_bytes_def blank_bytes)
qed

theorem flush_survives_reboot_witness:
  "\<exists>h. mount_fs ram_dev (\<lambda>_. 0) (update_inode ram_dev (update_bit_map ram_dev formatted_fs)) = Some h \<and>
     super_block h = std_super"
proof -
  have sb: "super_block formatted_fs = std_super" by (simp add: formatted_fs_def blank_fs_def)
  have wf: "\<forall>i < INODE_MAX_NUMBER. inode_wf (nodes formatted_fs i)"
    by (simp add: formatted_fs_def blank_fs_def blank_inode_def inode_wf_def)
  obtain d where d: "update_inode ram_dev (update_bit_map ram_dev formatted_fs) = formatted_fs
      \<lparr>disk := d, inode_dirty := (\<lambda>j. if j < 256 then 0 else inode_dirty formatted_fs j)\<rparr>"
    by (rule flush_spec [OF ram_ok sb])
  have "cursor_ok (scr (kst (update_inode ram_dev (update_bit_map ram_dev formatted_fs))))"
    unfolding d using blank_cursor by (simp add: formatted_fs_def)
  from flush_survives_reboot [OF ram_ok sb formatted_super formatted_synced wf refl this]
  show ?thesis by blast
qed

text \<open>
  Mounting a card without a file system. \<open>mount_fs\<close> makes a file system and then copies the super block
  it had read before into memory: the card is formatted, but the kernel continues with the super block of the
  blank card, so that every later access uses wrong offsets.
\<close>

theorem mount_unformatted_stale:
  assumes dev: "sd_ok dev" and cur: "cursor_ok (scr (kst g))"
    and bad: "magic (super_of (do_fs_read dev FS_START junk 512 g)) \<noteq> MAGIC_NUMER"
  shows "\<exists>h. mount_fs dev junk g = Some h \<and> super_on_disk dev (disk h) \<and>
    super_block h = super_of (do_fs_read dev FS_START junk 512 g) \<and> super_block h \<noteq> std_super"
proof -
  define sp where "sp = super_of (do_fs_read dev FS_START junk 512 g)"
  have "args_ok (cs ''Reading FS meta data...'' @ [10]) []" by simp
  then obtain x where pr: "fs_printks (cs ''Reading FS meta data...'' @ [10]) [] g =
      Some (g\<lparr>kst := (kst g)\<lparr>scr := x\<rparr>\<rparr>)" "cursor_ok x"
    using fs_printks_ok [OF _ cur] by blast
  have rd: "super_of (do_fs_read dev FS_START junk 512 (g\<lparr>kst := k\<rparr>)) = sp" for k by (simp add: sp_def)
  have "args_ok (cs ''No valid FS.'' @ [10]) []" by simp
  then obtain out where out: "mini_vsnprintf 256 (cs ''No valid FS.'' @ [10]) [] = Some out"
    using mini_vsnprintf_total by blast
  define y where "y = port_write out x"
  have y: "printk (cs ''No valid FS.'' @ [10]) [] x = Some y"
    unfolding printk_def out by (simp add: y_def)
  have cy: "cursor_ok y"
    using pr(2) by (simp add: y_def port_write_def cursor_ok_def)
  define g1 where "g1 = g\<lparr>kst := (kst g)\<lparr>scr := y\<rparr>\<rparr>"
  have cg1: "cursor_ok (scr (kst g1))" using cy by (simp add: g1_def)
  obtain f where f: "do_mkfs dev junk g1 = Some f" "super_on_disk dev (disk f)"
    by (rule do_mkfs_spec [OF dev cg1]) (rule that, assumption+)
  obtain str where str: "strcpy (cwd_str f) 0 (buf_of (cs ''/'')) 0 = Some str" using slash_str by blast
  have kk: "kst (g\<lparr>kst := (kst g)\<lparr>scr := x\<rparr>\<rparr>) = (kst g)\<lparr>scr := x\<rparr>" "scr ((kst g)\<lparr>scr := x\<rparr>) = x"
    "g\<lparr>kst := (kst g)\<lparr>scr := x\<rparr>\<rparr>\<lparr>kst := (kst g)\<lparr>scr := x\<rparr>\<lparr>scr := y\<rparr>\<rparr> = g1" by (simp_all add: g1_def)
  have mg: "magic sp \<noteq> MAGIC_NUMER" using bad by (simp add: sp_def)
  have "\<exists>h. mount_fs dev junk g = Some h \<and> disk h = disk f \<and> super_block h = sp"
    unfolding mount_fs_def pr(1) Option.bind.bind_lunit Let_def rd kk y f(1)
    using mg str by (simp add: y kk f(1) del: cs_Cons)
  moreover have "sp \<noteq> std_super" using mg by auto
  ultimately show ?thesis using f(2) by (auto simp: sp_def)
qed

theorem mount_unformatted_stale_witness:
  "\<exists>h. mount_fs ram_dev (\<lambda>_. 0) blank_fs = Some h \<and> super_block h \<noteq> std_super"
proof -
  have "magic (super_of (do_fs_read ram_dev FS_START (\<lambda>_. 0) 512 blank_fs)) \<noteq> MAGIC_NUMER"
    by (simp add: do_fs_read_eq [OF ram_ok] super_of_def rd32_def le32_def blank_fs_def)
  from mount_unformatted_stale [OF ram_ok blank_cursor this] show ?thesis by blast
qed



end
