(* ===== verification/Fs_Path.thy ===== *)
theory Fs_Path
  imports Fs_Disk
begin

text \<open>
  Names and directories, from \<^verbatim>\<open>kernel/fs/fs.c\<close>: parsing a path, the commands on directories
  (\<open>ls\<close>, \<open>mkdir\<close>, \<open>touch\<close>, \<open>rm\<close>, \<open>cd\<close>, \<open>ln\<close>, \<open>find\<close>, \<open>mv\<close>, \<open>cat\<close>) and what they leave
  on the card.

  The name a command is called with is a buffer; what the command leaves in the caller's buffer is not part
  of its result. Accesses behind a block of directory entries have no defined outcome. The code also
  stores behind the end of \<open>block_bit_map\<close> (\<open>clear_bit\<close> with the number of a block that was never
  allocated); such a store changes memory that is not part of the model, and stays in the function
  beyond the bounds of the array, where no operation looks.
\<close>

subsection \<open>Names\<close>

abbreviation "SLASH \<equiv> (47 :: u8)"
abbreviation "PATH_MAX \<equiv> (240 :: nat)"

text \<open>The characters of a string, for a \<open>%s\<close> conversion.\<close>

definition str_bytes :: "buffer \<Rightarrow> nat \<Rightarrow> u8 list option" where
  "str_bytes nm p = do { n \<leftarrow> strlen nm p; Some (map (\<lambda>i. nm (p + i)) [0..<n]) }"

definition name_arg :: "buffer option \<Rightarrow> va_arg list option" where
  "name_arg nm = do { b \<leftarrow> nm; xs \<leftarrow> str_bytes b 0; Some [VStr xs] }"

text \<open>The empty name is read at index \<open>-1\<close>.\<close>

definition name_str_standrize :: "buffer option \<Rightarrow> buffer option option" where
  "name_str_standrize name =
     (case name of
        None \<Rightarrow> Some None
      | Some nm \<Rightarrow> do {
          len \<leftarrow> strlen nm 0;
          if len = 0 then None
          else Some (Some (if nm (len - 1) = SLASH then nm(len - 1 := 0) else nm)) })"

text \<open>The scan for the end of a component: whether the path ends there, and the length.\<close>

partial_function (option) comp_end :: "buffer \<Rightarrow> nat \<Rightarrow> nat \<Rightarrow> (bool \<times> nat) option" where
  "comp_end nm p len =
     (if nm (p + len) = 0 then Some (True, len)
      else if nm (p + len) = SLASH then Some (False, len)
      else comp_end nm p (Suc len))"

text \<open>A search loop whose test may have no defined outcome.\<close>

primrec find_opt :: "(nat \<Rightarrow> bool option) \<Rightarrow> nat list \<Rightarrow> nat option option" where
  "find_opt P [] = Some None"
| "find_opt P (i # is) =
     (case P i of None \<Rightarrow> None | Some r \<Rightarrow> if r then Some (Some i) else find_opt P is)"

definition name_match :: "buffer \<Rightarrow> nat \<Rightarrow> buffer \<Rightarrow> nat \<Rightarrow> bool option" where
  "name_match nm p buf i =
     (if i < DENTRY_NUM then map_option (\<lambda>d. d = 0) (strcmp nm p buf (de_name i)) else None)"

partial_function (option) name_walk ::
  "'d sd_dev \<Rightarrow> buffer \<Rightarrow> 'd fs_t \<Rightarrow> nat \<Rightarrow> buffer \<Rightarrow> nat \<Rightarrow> nat option option" where
  "name_walk dev junk f target nm p = do {
     t \<leftarrow> node_at target f;
     let buf = do_fs_read dev (direct t 0) junk BLOCK_SIZE f;
     (stop, len) \<leftarrow> comp_end nm p 0;
     let nm1 = nm(p + len := 0);
     r \<leftarrow> find_opt (name_match nm1 p buf) [0..<unat (entry_num t)];
     (case r of
        None \<Rightarrow> Some None
      | Some i \<Rightarrow>
          if stop then Some (Some (unat (de_inode_num buf i)))
          else name_walk dev junk f (unat (de_inode_num buf i)) nm1 (p + len + 1)) }"

text \<open>The end of \<open>name_parse\<close>: a soft link is followed when the hash of its target is unchanged.\<close>

definition follow_link :: "nat option \<Rightarrow> 'd fs_t \<Rightarrow> (nat option \<times> 'd fs_t) option" where
  "follow_link target f =
     (case target of
        None \<Rightarrow> Some (None, f)
      | Some t \<Rightarrow> do {
          n \<leftarrow> node_at t f;
          if itype n \<noteq> soft_link_type then Some (Some t, f)
          else do {
            m \<leftarrow> node_at (unat (link_to n)) f;
            if \<forall>i \<in> {..<16}. hash m i = hash n i then Some (Some (unat (link_to n)), f)
            else do { f1 \<leftarrow> fs_printks (cs ''Invalid soft link!'' @ [10]) [] f; Some (None, f1) } } })"

definition name_parse ::
  "'d sd_dev \<Rightarrow> buffer \<Rightarrow> buffer option \<Rightarrow> 'd fs_t \<Rightarrow> (nat option \<times> 'd fs_t) option" where
  "name_parse dev junk name f =
     (case name of
        None \<Rightarrow> follow_link (Some (cwd f)) f
      | Some nm \<Rightarrow> do {
          len \<leftarrow> strlen nm 0;
          if len < PATH_MAX then do {
            r \<leftarrow> (if nm 0 = SLASH then name_walk dev junk f (root f) nm 1
                 else name_walk dev junk f (cwd f) nm 0);
            follow_link r f }
          else None })"

definition has_slash :: "buffer \<Rightarrow> bool option" where
  "has_slash nm = do { xs \<leftarrow> str_bytes nm 0; Some (SLASH \<in> set xs) }"

subsection \<open>Listing\<close>

definition char_arg :: "u8 \<Rightarrow> va_arg list" where
  "char_arg c = [VInt (scast c)]"

definition ls_name :: "buffer \<Rightarrow> nat \<Rightarrow> 'd fs_t \<Rightarrow> 'd fs_t option" where
  "ls_name buf i f = do {
     (met_zero, f1) \<leftarrow> for_upto_opt 0 12
       (\<lambda>j (met_zero, g). do {
          let z = (met_zero \<or> buf (de_name i + j) = 0);
          g1 \<leftarrow> fs_printks (cs ''%c'') (char_arg (if z then 32 else buf (de_name i + j))) g;
          Some (z, g1) }) (False, f);
     Some f1 }"

definition ls_entry :: "buffer \<Rightarrow> nat \<Rightarrow> 'd fs_t \<Rightarrow> 'd fs_t option" where
  "ls_entry buf i f = do {
     f1 \<leftarrow> ls_name buf i f;
     let ty = de_type buf i;
     f2 \<leftarrow> (if ty = file_type then fs_printks (cs ''file        '') [] f1
           else if ty = dir_type then fs_printks (cs ''directory   '') [] f1
           else if ty = soft_link_type then fs_printks (cs ''soft link   '') [] f1
           else Some f1);
     if ty = file_type then do {
         n \<leftarrow> node_at (unat (de_inode_num buf i)) f2;
         fs_printks (cs ''%d'' @ [10]) [VInt (isize n)] f2 }
     else if ty = dir_type \<or> ty = soft_link_type then fs_printks [10] [] f2
     else Some f2 }"

text \<open>The loop reads the type of entry \<open>i\<close> before it compares \<open>i\<close> with the number of entries.\<close>

primrec ls_loop :: "buffer \<Rightarrow> nat \<Rightarrow> nat list \<Rightarrow> 'd fs_t \<Rightarrow> 'd fs_t option" where
  "ls_loop buf up [] f = None"
| "ls_loop buf up (i # is) f =
     (if de_type buf i \<noteq> notype \<and> i < up
      then (case ls_entry buf i f of None \<Rightarrow> None | Some f1 \<Rightarrow> ls_loop buf up is f1)
      else Some f)"

definition do_ls :: "'d sd_dev \<Rightarrow> buffer \<Rightarrow> buffer option \<Rightarrow> 'd fs_t \<Rightarrow> 'd fs_t option" where
  "do_ls dev junk name f = do {
     nm \<leftarrow> name_str_standrize name;
     (target, f1) \<leftarrow> name_parse dev junk nm f;
     (case target of
        None \<Rightarrow> do {
          va \<leftarrow> name_arg nm;
          fs_printks (cs ''No directory named %s'' @ [10]) va f1 }
      | Some t \<Rightarrow> do {
          n \<leftarrow> node_at t f1;
          let buf = do_fs_read dev (direct n 0) junk BLOCK_SIZE f1;
          f2 \<leftarrow> fs_printks (cs ''Name        Type        Size'' @ [10]) [] f1;
          ls_loop buf (unat (entry_num n)) [0..<DENTRY_NUM] f2 }) }"

definition do_cat :: "'d sd_dev \<Rightarrow> buffer \<Rightarrow> buffer option \<Rightarrow> 'd fs_t \<Rightarrow> 'd fs_t option" where
  "do_cat dev junk name f =
     (if name = None then fs_printks (cs ''[ERROR] No file name provided'' @ [10]) [] f
      else do {
        nm \<leftarrow> name_str_standrize name;
        (target, f1) \<leftarrow> name_parse dev junk nm f;
        (case target of
           None \<Rightarrow> do { va \<leftarrow> name_arg nm; fs_printks (cs ''No file named %s'' @ [10]) va f1 }
         | Some t \<Rightarrow> do {
             n \<leftarrow> node_at t f1;
             if itype n = dir_type then fs_printks (cs ''Please specify a file name'' @ [10]) [] f1
             else if itype n = file_type then
               (if isize n = 0 then Some f1
                else do {
                  let buf = do_fs_read dev (direct n 0) junk BLOCK_SIZE f1;
                  f2 \<leftarrow> for_upto_opt 0 (min (unat (isize n)) BLOCK_SIZE)
                    (\<lambda>i. fs_printks (cs ''%c'') (char_arg (buf i))) f1;
                  fs_printks [10] [] f2 })
             else Some f1 }) })"

subsection \<open>Creating\<close>

text \<open>A new entry at the end of the current directory, written to the card.\<close>

definition store_entry :: "nat \<Rightarrow> u32 \<Rightarrow> u32 \<Rightarrow> buffer \<Rightarrow> buffer \<Rightarrow> buffer option" where
  "store_entry i ty n nm b =
     (if i < DENTRY_NUM then strcpy_name i nm 0 (set_de_inode_num i n (set_de_type i ty b)) else None)"

definition do_mkdir :: "'d sd_dev \<Rightarrow> buffer \<Rightarrow> buffer option \<Rightarrow> 'd fs_t \<Rightarrow> 'd fs_t option" where
  "do_mkdir dev junk name f =
     (if name = None then fs_printks (cs ''[ERROR] Invalid directory name.'' @ [10]) [] f
      else do {
        std \<leftarrow> name_str_standrize name;
        nm \<leftarrow> std;
        c \<leftarrow> node_at (cwd f) f;
        let b = do_fs_read dev (direct c 0) junk BLOCK_SIZE f;
        let cnt = entry_num c;
        let f1 = upd_node (cwd f) (\<lambda>n. n\<lparr>entry_num := entry_num n + 1\<rparr>) f;
        k \<leftarrow> find_first_zero_bit (inode_bit_map f1) INODE_BIT_MAP_SIZE;
        let (new, f2) = allocate_inode k f1;
        b1 \<leftarrow> store_entry (unat cnt) dir_type k nm b;
        let f3 = do_fs_write dev (direct (nodes f2 (cwd f2)) 0) b1 BLOCK_SIZE f2;
        blk \<leftarrow> find_first_zero_bit (block_bit_map f3) DATA_BLOCK_BIT_MAP_SIZE;
        let (ok, f4) = allocate_data_block blk f3;
        nb \<leftarrow> (if ok then dot_entries k (word_of_nat (cwd f4)) junk else None);
        i \<leftarrow> new;
        let f5 = upd_node i (\<lambda>n. n\<lparr>entry_num := 2, itype := dir_type,
          direct := (direct n)(0 := data_start (super_block f4) + blk * 4096), link_cnt := 1\<rparr>) f4;
        let f6 = do_fs_write dev (direct (nodes f5 i) 0) nb BLOCK_SIZE f5;
        Some (update_inode dev (mark_inode_dirty k (mark_inode_dirty (word_of_nat (cwd f6))
          (update_bit_map dev f6)))) })"

definition do_touch :: "'d sd_dev \<Rightarrow> buffer \<Rightarrow> buffer option \<Rightarrow> 'd fs_t \<Rightarrow> 'd fs_t option" where
  "do_touch dev junk name f =
     (if name = None then fs_printks (cs ''[ERROR] No file name provided'' @ [10]) [] f
      else do {
        std \<leftarrow> name_str_standrize name;
        nm \<leftarrow> std;
        sl \<leftarrow> has_slash nm;
        if sl then fs_printks (cs ''Command '' @ [34] @ cs ''touch'' @ [34] @
          cs '' only supports relative path'' @ [10]) [] f
        else do {
          k \<leftarrow> find_first_zero_bit (inode_bit_map f) INODE_BIT_MAP_SIZE;
          let (new, f1) = allocate_inode k f;
          let f2 = mark_inode_dirty k f1;
          i \<leftarrow> new;
          let f3 = upd_node i (\<lambda>n. n\<lparr>isize := 0, itype := file_type, link_cnt := 1\<rparr>) f2;
          c \<leftarrow> node_at (cwd f3) f3;
          let b = do_fs_read dev (direct c 0) junk BLOCK_SIZE f3;
          b1 \<leftarrow> store_entry (unat (entry_num c)) file_type k nm b;
          let f4 = upd_node (cwd f3) (\<lambda>n. n\<lparr>entry_num := entry_num n + 1\<rparr>) f3;
          let f5 = mark_inode_dirty (word_of_nat (cwd f4)) f4;
          let f6 = do_fs_write dev (direct (nodes f5 (cwd f5)) 0) b1 BLOCK_SIZE f5;
          Some (update_bit_map dev (update_inode dev f6)) } })"

subsection \<open>Removing\<close>

definition free_inode :: "nat \<Rightarrow> 'd fs_t \<Rightarrow> 'd fs_t" where
  "free_inode i f =
     (let f1 = upd_node i (\<lambda>n. n\<lparr>entry_num := 0, isize := 0, link_cnt := 0, itype := notype,
            indirect := 0, double_indrect := 0, triple_indrect := 0,
            direct := for_upto 0 16 (\<lambda>k d. d(k := 0)) (direct n),
            hash := for_upto 0 16 (\<lambda>k h. h(k := 0)) (hash n)\<rparr>) (mark_inode_dirty (word_of_nat i) f)
      in f1\<lparr>inode_bit_map := clear_bit (inode_bit_map f1) (word_of_nat i)\<rparr>)"

definition free_block :: "u32 \<Rightarrow> 'd fs_t \<Rightarrow> 'd fs_t" where
  "free_block offset f = f\<lparr>block_bit_map := clear_bit (block_bit_map f) (get_data_block_number offset f)\<rparr>"

text \<open>The inodes named by the entries \<open>2\<close> to \<open>cnt - 1\<close> of a block of directory entries.\<close>

definition sub_inodes :: "buffer \<Rightarrow> nat \<Rightarrow> nat list option" where
  "sub_inodes buf cnt =
     (if cnt \<le> DENTRY_NUM then Some (map (\<lambda>i. unat (de_inode_num buf i)) [2..<cnt]) else None)"

text \<open>\<open>rm_recurse\<close> on a list of inodes, one after the other; the code calls it on a single inode, and from
  the loop over the entries of a directory.\<close>

partial_function (option) rm_recurse :: "'d sd_dev \<Rightarrow> buffer \<Rightarrow> nat list \<Rightarrow> 'd fs_t \<Rightarrow> 'd fs_t option" where
  "rm_recurse dev junk xs f =
     (case xs of
        [] \<Rightarrow> Some f
      | i # is \<Rightarrow> do {
          n \<leftarrow> node_at i f;
          let f1 = upd_node i (\<lambda>n. n\<lparr>link_cnt := link_cnt n - 1\<rparr>) f;
          f2 \<leftarrow>
            (if link_cnt n - 1 > 0 then Some (upd_node i (hash_update (time_hash (kst f1))) f1)
             else if itype n = dir_type then do {
               let buf = do_fs_read dev (direct n 0) junk BLOCK_SIZE f1;
               sub \<leftarrow> sub_inodes buf (unat (entry_num n));
               g \<leftarrow> rm_recurse dev junk sub f1;
               Some (free_inode i (free_block (direct (nodes g i) 0) g)) }
             else if itype n = file_type
             then Some (free_inode i (for_upto 0 16 (\<lambda>k g. free_block (direct (nodes g i) k) g) f1))
             else Some (free_inode i f1));
          rm_recurse dev junk is f2 })"

definition count_slashes :: "u8 list \<Rightarrow> nat" where
  "count_slashes xs = length (filter (\<lambda>c. c = SLASH) xs)"

text \<open>The position of the last slash, searched from the end.\<close>

definition last_slash :: "u8 list \<Rightarrow> nat" where
  "last_slash xs = length xs - 1 - length (takeWhile (\<lambda>c. c \<noteq> SLASH) (rev xs))"

text \<open>The entries behind entry \<open>th\<close> move up by one.\<close>

definition close_gap :: "nat \<Rightarrow> nat \<Rightarrow> buffer \<Rightarrow> buffer option" where
  "close_gap th up b =
     for_upto_opt (th + 1) up
       (\<lambda>i b. if i < DENTRY_NUM
         then Some (for_upto 0 DENTRY_SIZE (\<lambda>k b. b(DENTRY_SIZE * (i - 1) + k := b (DENTRY_SIZE * i + k))) b)
         else None) b"

definition remove_entry :: "'d sd_dev \<Rightarrow> buffer \<Rightarrow> nat \<Rightarrow> buffer \<Rightarrow> nat \<Rightarrow> 'd fs_t \<Rightarrow> 'd fs_t option" where
  "remove_entry dev junk parent nm p f = do {
     n \<leftarrow> node_at parent f;
     let buf = do_fs_read dev (direct n 0) junk BLOCK_SIZE f;
     r \<leftarrow> find_opt (name_match nm p buf) [2..<unat (entry_num n)];
     let th = (case r of None \<Rightarrow> 1000000 | Some i \<Rightarrow> i);
     buf1 \<leftarrow> close_gap th (unat (entry_num n)) buf;
     let f1 = upd_node parent (\<lambda>n. n\<lparr>entry_num := entry_num n - 1\<rparr>) f;
     let f2 = do_fs_write dev (direct (nodes f1 parent) 0) buf1 BLOCK_SIZE f1;
     Some (update_inode dev (update_bit_map dev f2)) }"

definition do_rm :: "'d sd_dev \<Rightarrow> buffer \<Rightarrow> buffer option \<Rightarrow> 'd fs_t \<Rightarrow> 'd fs_t option" where
  "do_rm dev junk name f = do {
     std \<leftarrow> name_str_standrize name;
     (target, f1) \<leftarrow> name_parse dev junk std f;
     nm \<leftarrow> std;
     (target2, f2) \<leftarrow>
       (case target of
          Some t \<Rightarrow> Some (Some t, f1)
        | None \<Rightarrow> do {
            g \<leftarrow> fs_printks (cs ''Only can remove a broken soft link in current working directory'' @ [10]) [] f1;
            c \<leftarrow> node_at (cwd g) g;
            let buf = do_fs_read dev (direct c 0) junk BLOCK_SIZE g;
            r \<leftarrow> find_opt (name_match nm 0 buf) [2..<unat (entry_num c)];
            Some (map_option (\<lambda>i. unat (de_inode_num buf i)) r, g) });
     (case target2 of
        None \<Rightarrow> do { va \<leftarrow> name_arg (Some nm); fs_printks (cs ''No file or directory named %s'' @ [10]) va f2 }
      | Some t \<Rightarrow> do {
          f3 \<leftarrow> rm_recurse dev junk [t] f2;
          xs \<leftarrow> str_bytes nm 0;
          let multi = (if count_slashes xs = 1 then nm 0 = SLASH else count_slashes xs \<noteq> 0);
          if \<not> multi then remove_entry dev junk (cwd f3) nm 0 f3
          else do {
            let len = last_slash xs;
            let nm1 = nm(len := 0);
            (parent, f4) \<leftarrow> name_parse dev junk (Some nm1) f3;
            par \<leftarrow> parent;
            remove_entry dev junk par nm1 (len + 1) f4 } }) }"

subsection \<open>The current directory\<close>

text \<open>The loop that looks for the slash in front of the last component of \<open>cwd_str\<close>; it leaves the array when
  there is none.\<close>

primrec back_to_slash :: "buffer \<Rightarrow> nat \<Rightarrow> nat option" where
  "back_to_slash str 0 = (if str 0 = SLASH then Some 0 else None)"
| "back_to_slash str (Suc n) = (if str (Suc n) = SLASH then Some (Suc n) else back_to_slash str n)"

definition push_component :: "buffer \<Rightarrow> nat \<Rightarrow> buffer \<times> nat \<Rightarrow> (buffer \<times> nat) option" where
  "push_component nm p st = do {
     let (str, len) = st;
     same \<leftarrow> strcmp nm p (buf_of (cs ''.'')) 0;
     up \<leftarrow> strcmp nm p (buf_of (cs ''..'')) 0;
     if same = 0 then Some (str, len)
     else if up = 0 then (if len = 0 then None else do {
       let str1 = str(len - 1 := 0);
       k \<leftarrow> back_to_slash str1 len;
       Some (str1(k := SLASH, k + 1 := 0), k + 1) })
     else do {
       delta \<leftarrow> strlen nm p;
       if len + delta + 1 < PATH_MAX then do {
         str1 \<leftarrow> strcpy str len nm p;
         Some (str1(len + delta := SLASH, len + delta + 1 := 0), len + delta + 1) }
       else None } }"

partial_function (option) cwd_walk ::
  "'d sd_dev \<Rightarrow> buffer \<Rightarrow> 'd fs_t \<Rightarrow> nat \<Rightarrow> buffer \<Rightarrow> nat \<Rightarrow> buffer \<times> nat \<Rightarrow> buffer option" where
  "cwd_walk dev junk f target nm p st = do {
     t \<leftarrow> node_at target f;
     let buf = do_fs_read dev (direct t 0) junk BLOCK_SIZE f;
     (stop, len) \<leftarrow> comp_end nm p 0;
     let nm1 = nm(p + len := 0);
     r \<leftarrow> find_opt (name_match nm1 p buf) [0..<unat (entry_num t)];
     (case r of
        None \<Rightarrow> Some (fst st)
      | Some i \<Rightarrow> do {
          st1 \<leftarrow> push_component nm1 p st;
          if stop then Some (fst st1)
          else cwd_walk dev junk f (unat (de_inode_num buf i)) nm1 (p + len + 1) st1 }) }"

definition update_cwd_str :: "'d sd_dev \<Rightarrow> buffer \<Rightarrow> buffer option \<Rightarrow> 'd fs_t \<Rightarrow> 'd fs_t option" where
  "update_cwd_str dev junk name f = do {
     cwd_str_len \<leftarrow> strlen (cwd_str f) 0;
     (case name of
        None \<Rightarrow> fs_printks (cs ''[ERROR] invalid directory name.'') [] f
      | Some nm \<Rightarrow> do {
          n \<leftarrow> strlen nm 0;
          if PATH_MAX \<le> n then None
          else if nm 0 = SLASH then
            (if n + 1 < PATH_MAX then do {
               str \<leftarrow> strcpy (cwd_str f) 0 nm 0;
               Some (f\<lparr>cwd_str := str(n := SLASH, n + 1 := 0)\<rparr>) }
             else None)
          else do {
            str \<leftarrow> cwd_walk dev junk f (cwd f) nm 0 (cwd_str f, cwd_str_len);
            Some (f\<lparr>cwd_str := str\<rparr>) } }) }"

definition do_cd :: "'d sd_dev \<Rightarrow> buffer \<Rightarrow> buffer option \<Rightarrow> 'd fs_t \<Rightarrow> 'd fs_t option" where
  "do_cd dev junk name f = do {
     nm \<leftarrow> name_str_standrize name;
     (target, f1) \<leftarrow> name_parse dev junk nm f;
     (case target of
        None \<Rightarrow> do { va \<leftarrow> name_arg nm; fs_printks (cs ''No directory named %s'' @ [10]) va f1 }
      | Some t \<Rightarrow> do { f2 \<leftarrow> update_cwd_str dev junk nm f1; Some (f2\<lparr>cwd := t\<rparr>) }) }"

subsection \<open>Links\<close>

abbreviation "SOFT_LINK \<equiv> (0 :: u32)"
abbreviation "HARD_LINK \<equiv> (3 :: u32)"

definition do_link ::
  "'d sd_dev \<Rightarrow> buffer \<Rightarrow> buffer option \<Rightarrow> buffer option \<Rightarrow> u32 \<Rightarrow> 'd fs_t \<Rightarrow> 'd fs_t option" where
  "do_link dev junk master_name servant_name link_type f = do {
     ms \<leftarrow> name_str_standrize master_name;
     sv \<leftarrow> name_str_standrize servant_name;
     (master, f1) \<leftarrow> name_parse dev junk ms f;
     servant \<leftarrow> sv;
     sl \<leftarrow> has_slash servant;
     if sl then fs_printks (cs ''Only can make link in cwd'' @ [10]) [] f1
     else if link_type = HARD_LINK then do {
       m \<leftarrow> master;
       c \<leftarrow> node_at (cwd f1) f1;
       let b = do_fs_read dev (direct c 0) junk BLOCK_SIZE f1;
       mn \<leftarrow> node_at m f1;
       b1 \<leftarrow> store_entry (unat (entry_num c)) (itype mn) (word_of_nat m) servant b;
       let f2 = upd_node (cwd f1) (\<lambda>n. n\<lparr>entry_num := entry_num n + 1\<rparr>) f1;
       let f3 = upd_node m (\<lambda>n. n\<lparr>link_cnt := link_cnt n + 1\<rparr>) f2;
       let f4 = mark_inode_dirty (word_of_nat m) f3;
       Some (update_inode dev (do_fs_write dev (direct (nodes f4 (cwd f4)) 0) b1 BLOCK_SIZE f4)) }
     else if link_type = SOFT_LINK then do {
       m \<leftarrow> master;
       mn \<leftarrow> node_at m f1;
       if itype mn = soft_link_type
       then fs_printks (cs ''Cannot create a softlink of a softlink'' @ [10]) [] f1
       else do {
         k \<leftarrow> find_first_zero_bit (inode_bit_map f1) INODE_BIT_MAP_SIZE;
         let (new, f2) = allocate_inode k f1;
         i \<leftarrow> new;
         let f3 = upd_node i (\<lambda>n. n\<lparr>itype := soft_link_type, link_to := word_of_nat m\<rparr>) f2;
         let f4 = upd_node i (\<lambda>n. n\<lparr>hash := for_upto 0 16 (\<lambda>k h. h(k := hash (nodes f3 m) k)) (hash n)\<rparr>) f3;
         c \<leftarrow> node_at (cwd f4) f4;
         let b = do_fs_read dev (direct c 0) junk BLOCK_SIZE f4;
         b1 \<leftarrow> store_entry (unat (entry_num c)) (itype (nodes f4 i)) k servant b;
         let f5 = upd_node (cwd f4) (\<lambda>n. n\<lparr>entry_num := entry_num n + 1\<rparr>) f4;
         let f6 = mark_inode_dirty (word_of_nat m) f5;
         Some (update_inode dev (do_fs_write dev (direct (nodes f6 (cwd f6)) 0) b1 BLOCK_SIZE f6)) } }
     else Some f1 }"

definition do_rename ::
  "'d sd_dev \<Rightarrow> buffer \<Rightarrow> buffer option \<Rightarrow> buffer option \<Rightarrow> 'd fs_t \<Rightarrow> 'd fs_t option" where
  "do_rename dev junk old_name new_name f = do {
     old \<leftarrow> name_str_standrize old_name;
     new \<leftarrow> name_str_standrize new_name;
     c \<leftarrow> node_at (cwd f) f;
     let buf = do_fs_read dev (direct c 0) junk BLOCK_SIZE f;
     r \<leftarrow> find_opt (\<lambda>i. Option.bind old (\<lambda>nm. name_match nm 0 buf i)) [2..<unat (entry_num c)];
     buf1 \<leftarrow> (case r of
                None \<Rightarrow> Some buf
              | Some i \<Rightarrow> Option.bind new (\<lambda>nm. strcpy_name i nm 0 buf));
     Some (do_fs_write dev (direct c 0) buf1 BLOCK_SIZE f) }"

subsection \<open>Finding\<close>

text \<open>The loop of \<open>print_absolute_path\<close>: the names from the directory up to the root.\<close>

partial_function (option) path_names ::
  "'d sd_dev \<Rightarrow> buffer \<Rightarrow> 'd fs_t \<Rightarrow> buffer \<Rightarrow> u32 \<Rightarrow> u8 list list \<Rightarrow> u8 list list option" where
  "path_names dev junk f buf cur acc =
     (if de_inode_num buf 1 = cur then Some acc
      else do {
        p \<leftarrow> node_at (unat (de_inode_num buf 1)) f;
        let buf1 = do_fs_read dev (direct p 0) buf BLOCK_SIZE f;
        r \<leftarrow> find_opt (\<lambda>i. if i < DENTRY_NUM then Some (de_inode_num buf1 i = cur) else None)
               [0..<unat (entry_num p)];
        (case r of
           None \<Rightarrow> path_names dev junk f buf1 cur acc
         | Some i \<Rightarrow> do {
             nm \<leftarrow> str_bytes buf1 (de_name i);
             if length acc < 10 \<and> length nm < MAX_NAME_LEN
             then path_names dev junk f buf1 (de_inode_num buf 1) (nm # acc) else None }) })"

definition print_absolute_path :: "'d sd_dev \<Rightarrow> buffer \<Rightarrow> nat \<Rightarrow> 'd fs_t \<Rightarrow> 'd fs_t option" where
  "print_absolute_path dev junk ind f = do {
     n \<leftarrow> node_at ind f;
     names \<leftarrow> path_names dev junk f (do_fs_read dev (direct n 0) junk BLOCK_SIZE f) (word_of_nat ind) [];
     f1 \<leftarrow> fs_printks (cs ''/'') [] f;
     f2 \<leftarrow> fold_opt (\<lambda>nm. fs_printks (cs ''%s/'') [VStr nm]) names f1;
     fs_printks [10] [] f2 }"

definition find_in_dir ::
  "'d sd_dev \<Rightarrow> buffer \<Rightarrow> nat \<Rightarrow> buffer \<Rightarrow> buffer \<Rightarrow> nat \<Rightarrow> nat list \<times> 'd fs_t \<Rightarrow> (nat list \<times> 'd fs_t) option" where
  "find_in_dir dev junk path nm buf i st =
     (if DENTRY_NUM \<le> i then None
      else if de_type buf i = dir_type then
        (if length (fst st) < 100 then Some (fst st @ [unat (de_inode_num buf i)], snd st) else None)
      else if de_type buf i = file_type then do {
        d \<leftarrow> strcmp buf (de_name i) nm 0;
        if d = 0 then do { g \<leftarrow> print_absolute_path dev junk path (snd st); Some (fst st, g) } else Some st }
      else Some st)"

partial_function (option) find_recurse ::
  "'d sd_dev \<Rightarrow> buffer \<Rightarrow> buffer \<Rightarrow> nat list \<Rightarrow> 'd fs_t \<Rightarrow> 'd fs_t option" where
  "find_recurse dev junk nm paths f =
     (case paths of
        [] \<Rightarrow> Some f
      | path # rest \<Rightarrow> do {
          n \<leftarrow> node_at path f;
          let buf = do_fs_read dev (direct n 0) junk BLOCK_SIZE f;
          (subs, f1) \<leftarrow> for_upto_opt 2 (unat (entry_num n)) (find_in_dir dev junk path nm buf) ([], f);
          f2 \<leftarrow> find_recurse dev junk nm subs f1;
          find_recurse dev junk nm rest f2 })"

definition do_find :: "'d sd_dev \<Rightarrow> buffer \<Rightarrow> buffer option \<Rightarrow> buffer \<Rightarrow> 'd fs_t \<Rightarrow> 'd fs_t option" where
  "do_find dev junk path nm f = do {
     std \<leftarrow> name_str_standrize path;
     (target, f1) \<leftarrow> name_parse dev junk std f;
     t \<leftarrow> target;
     n \<leftarrow> node_at t f1;
     if itype n = file_type then fs_printks (cs ''Please specify a directory name'' @ [10]) [] f1
     else find_recurse dev junk nm [t] f1 }"

declare comp_end.simps [code] name_walk.simps [code] rm_recurse.simps [code] cwd_walk.simps [code]
  path_names.simps [code] find_recurse.simps [code]

section \<open>Paths\<close>

subsection \<open>Components\<close>

text \<open>A component of a path, and a path as its components.\<close>

definition component :: "u8 list \<Rightarrow> bool" where
  "component c \<longleftrightarrow> 0 \<notin> set c \<and> SLASH \<notin> set c"

fun join :: "u8 list list \<Rightarrow> u8 list" where
  "join [] = []"
| "join [c] = c"
| "join (c # d # ps) = c @ SLASH # join (d # ps)"

lemma join_Cons: "join (c # ps) = (if ps = [] then c else c @ SLASH # join ps)"
  by (cases ps) auto

lemma cstr_append: "cstr s j (xs @ ys) \<longleftrightarrow> 0 \<notin> set xs \<and> (\<forall>i < length xs. s (j + i) = xs ! i) \<and> cstr s (j + length xs) ys"
proof (induction xs arbitrary: j)
  case Nil
  then show ?case by simp
next
  case (Cons x xs)
  have "(\<forall>i < length (x # xs). s (j + i) = (x # xs) ! i) \<longleftrightarrow> s j = x \<and> (\<forall>i < length xs. s (Suc j + i) = xs ! i)"
    by (auto simp: less_Suc_eq_0_disj)
  with Cons show ?case by auto
qed

lemma comp_end_scan:
  assumes "component c" "\<And>i. i < length c \<Longrightarrow> nm (p + i) = c ! i"
    and "nm (p + length c) = 0 \<or> nm (p + length c) = SLASH" and "k \<le> length c"
  shows "comp_end nm p k = Some (nm (p + length c) = 0, length c)"
  using assms(4)
proof (induction "length c - k" arbitrary: k)
  case 0
  then show ?case using assms(3) by (subst comp_end.simps) auto
next
  case (Suc d)
  then have k: "k < length c" by simp
  then have "nm (p + k) = c ! k" "c ! k \<in> set c" using assms(2) by auto
  then have "nm (p + k) \<noteq> 0" "nm (p + k) \<noteq> SLASH" using assms(1) by (auto simp: component_def)
  then show ?case using Suc.hyps(1) [of "Suc k"] Suc.hyps(2) k by (subst comp_end.simps) simp
qed

lemma find_opt_total: "(\<And>i. i \<in> set is \<Longrightarrow> P i = Some (Q i)) \<Longrightarrow> find_opt P is = Some (List.find Q is)"
  by (induction "is") auto

text \<open>The first entry of a directory with a name.\<close>

definition dir_find :: "(u8 list \<times> u32 \<times> u32) list \<Rightarrow> u8 list \<Rightarrow> (u8 list \<times> u32 \<times> u32) option" where
  "dir_find es c = List.find (\<lambda>e. fst e = c) es"

lemma find_index: "map_option (\<lambda>i. es ! i) (List.find (\<lambda>i. Q (es ! i)) [0..<length es]) = List.find Q es"
proof -
  have "map_option (\<lambda>i. es ! i) (List.find (Q \<circ> (!) es) xs) = List.find Q (map ((!) es) xs)" for xs
    by (induction xs) auto
  from this [of "[0..<length es]"] show ?thesis by (simp add: map_nth comp_def)
qed

lemma name_match_dir:
  assumes "dir_rep b es" "cstr nm p c" "i < length es"
  shows "name_match nm p b i = Some (fst (es ! i) = c)"
proof -
  have i: "i < 128" and d: "cstr b (de_name i) (fst (es ! i))"
    using assms(1,3) by (auto simp: dir_rep_def dentry_def)
  obtain r where "strcmp nm p b (de_name i) = Some r" "r = 0 \<longleftrightarrow> c = fst (es ! i)"
    using strcmp_cstr [OF assms(2) d] by blast
  then show ?thesis using i by (auto simp: name_match_def)
qed

lemma find_name:
  assumes "dir_rep b es" "cstr nm p c"
  shows "find_opt (name_match nm p b) [0..<length es] = Some (List.find (\<lambda>i. fst (es ! i) = c) [0..<length es])"
  by (rule find_opt_total) (simp add: name_match_dir [OF assms])

subsection \<open>Directories on the card\<close>

text \<open>Inode \<open>i\<close> is a directory whose block \<open>k\<close> holds these entries.\<close>

definition dir_at :: "'d sd_dev \<Rightarrow> 'd fs_t \<Rightarrow> nat \<Rightarrow> nat \<Rightarrow> (u8 list \<times> u32 \<times> u32) list \<Rightarrow> bool" where
  "dir_at dev f i k es \<longleftrightarrow>
     i < INODE_MAX_NUMBER \<and> k < DATA_BLOCK_MAX_NUMBER \<and> direct (nodes f i) 0 = blk_offset k \<and>
     unat (entry_num (nodes f i)) = length es \<and> dir_rep (blk_bytes dev (disk f) k) es"

lemma dir_at_read:
  assumes "sd_ok dev" "dir_at dev f i k es"
  shows "dir_rep (do_fs_read dev (direct (nodes f i) 0) junk BLOCK_SIZE f) es"
proof -
  have "dir_rep (do_fs_read dev (direct (nodes f i) 0) junk BLOCK_SIZE f) es =
      dir_rep (blk_bytes dev (disk f) k) es"
    by (rule dir_rep_cong) (use assms in \<open>simp add: do_fs_read_eq blk_bytes_def dir_at_def\<close>)
  then show ?thesis using assms(2) by (simp add: dir_at_def)
qed

lemma dir_rep_inode: "dir_rep b es \<Longrightarrow> i < length es \<Longrightarrow> de_inode_num b i = snd (snd (es ! i))"
  by (simp add: dir_rep_def dentry_def)

text \<open>The specification of path lookup: a graph of directories, walked component by component.\<close>

fun lookup_path :: "(nat \<Rightarrow> (u8 list \<times> u32 \<times> u32) list) \<Rightarrow> nat \<Rightarrow> u8 list list \<Rightarrow> nat option" where
  "lookup_path D i [] = Some i"
| "lookup_path D i (c # ps) =
     (case dir_find (D i) c of None \<Rightarrow> None | Some e \<Rightarrow> lookup_path D (unat (snd (snd e))) ps)"

text \<open>Every inode that is searched on the way is a directory.\<close>

fun walk_dirs :: "'d sd_dev \<Rightarrow> 'd fs_t \<Rightarrow> (nat \<Rightarrow> (u8 list \<times> u32 \<times> u32) list) \<Rightarrow> nat \<Rightarrow> u8 list list \<Rightarrow> bool" where
  "walk_dirs dev f D i [] \<longleftrightarrow> True"
| "walk_dirs dev f D i (c # ps) \<longleftrightarrow> (\<exists>k. dir_at dev f i k (D i)) \<and>
     (case dir_find (D i) c of None \<Rightarrow> True | Some e \<Rightarrow> walk_dirs dev f D (unat (snd (snd e))) ps)"

lemma name_walk_lookup:
  assumes dev: "sd_ok dev"
  shows "ps \<noteq> [] \<Longrightarrow> \<forall>c \<in> set ps. component c \<Longrightarrow> cstr nm p (join ps) \<Longrightarrow> walk_dirs dev f D i ps \<Longrightarrow>
    name_walk dev junk f i nm p = Some (lookup_path D i ps)"
proof (induction ps arbitrary: i nm p)
  case (Cons c ps)
  obtain k where d: "dir_at dev f i k (D i)" using Cons.prems(4) by auto
  define buf where "buf = do_fs_read dev (direct (nodes f i) 0) junk BLOCK_SIZE f"
  have rep: "dir_rep buf (D i)" using dir_at_read [OF dev d] by (simp add: buf_def)
  have comp: "component c" using Cons.prems(2) by simp
  have chars: "nm (p + j) = c ! j" if "j < length c" for j
    using Cons.prems(3) that by (auto simp: join_Cons cstr_append cstr_nth nth_append split: if_splits)
  have trm: "nm (p + length c) = (if ps = [] then 0 else SLASH)"
    using Cons.prems(3) by (auto simp: join_Cons cstr_append cstr_end split: if_splits)
  have scan: "comp_end nm p 0 = Some (ps = [], length c)"
    using comp_end_scan [OF comp chars, of 0] trm by auto
  define nm1 where "nm1 = nm(p + length c := 0)"
  have c1: "cstr nm1 p c"
    by (rule cstrI) (use comp chars in \<open>auto simp: nm1_def component_def\<close>)
  define r where "r = List.find (\<lambda>j. fst (D i ! j) = c) [0..<length (D i)]"
  have found: "find_opt (name_match nm1 p buf) [0..<unat (entry_num (nodes f i))] = Some r"
    using find_name [OF rep c1] d by (simp add: r_def dir_at_def)
  have df: "dir_find (D i) c = map_option (\<lambda>j. D i ! j) r"
    using find_index [of "D i" "\<lambda>e. fst e = c"] by (simp add: dir_find_def r_def)
  have na: "node_at i f = Some (nodes f i)" using d by (simp add: node_at_def dir_at_def)
  have step: "name_walk dev junk f i nm p =
      (case r of None \<Rightarrow> Some None
       | Some j \<Rightarrow> if ps = [] then Some (Some (unat (de_inode_num buf j)))
                   else name_walk dev junk f (unat (de_inode_num buf j)) nm1 (p + length c + 1))"
    unfolding name_walk.simps [of dev junk f i nm p] na Option.bind.bind_lunit Let_def buf_def [symmetric]
      scan prod.case nm1_def [symmetric] found ..
  show ?case
  proof (cases r)
    case None
    then show ?thesis using step df by simp
  next
    case (Some j)
    then have "j < length (D i)" by (auto simp: r_def find_Some_iff)
    then have ino: "de_inode_num buf j = snd (snd (D i ! j))" by (rule dir_rep_inode [OF rep])
    show ?thesis
    proof (cases "ps = []")
      case True
      then show ?thesis using step df Some ino by simp
    next
      case False
      have "cstr nm (p + length c + 1) (join ps)"
        using Cons.prems(3) False by (simp add: join_Cons cstr_append)
      moreover have "cstr nm1 (p + length c + 1) (join ps) = cstr nm (p + length c + 1) (join ps)"
        by (rule cstr_cong) (simp add: nm1_def)
      ultimately have "name_walk dev junk f (unat (de_inode_num buf j)) nm1 (p + length c + 1) =
          Some (lookup_path D (unat (de_inode_num buf j)) ps)"
        using Cons.IH [OF False] Cons.prems(2,4) df Some ino by simp
      then show ?thesis using step df Some False ino by simp
    qed
  qed
qed simp

lemma follow_link_plain:
  "t < INODE_MAX_NUMBER \<Longrightarrow> itype (nodes f t) \<noteq> soft_link_type \<Longrightarrow> follow_link (Some t) f = Some (Some t, f)"
  by (simp add: follow_link_def node_at_def)

lemma name_parse_lookup:
  assumes dev: "sd_ok dev" and ps: "ps \<noteq> []" "\<forall>c \<in> set ps. component c"
    and nm: "cstr nm 0 ((if ab then [SLASH] else []) @ join ps)" "length (join ps) < 239"
    and rel: "\<not> ab \<Longrightarrow> hd ps \<noteq> [] \<or> length ps = 1"
    and walk: "walk_dirs dev f D (if ab then root f else cwd f) ps"
    and plain: "\<And>t. lookup_path D (if ab then root f else cwd f) ps = Some t \<Longrightarrow>
      t < INODE_MAX_NUMBER \<and> itype (nodes f t) \<noteq> soft_link_type"
  shows "name_parse dev junk (Some nm) f = Some (lookup_path D (if ab then root f else cwd f) ps, f)"
proof -
  have len: "strlen nm 0 = Some (length ((if ab then [SLASH] else []) @ join ps))" using nm(1) by (rule strlen_cstr)
  have w: "(if nm 0 = SLASH then name_walk dev junk f (root f) nm 1 else name_walk dev junk f (cwd f) nm 0) =
      Some (lookup_path D (if ab then root f else cwd f) ps)"
  proof (cases ab)
    case True
    then have "nm 0 = SLASH" "cstr nm 1 (join ps)" using nm(1) by simp_all
    then show ?thesis using name_walk_lookup [OF dev ps] walk True by simp
  next
    case False
    obtain c qs where c: "ps = c # qs" using ps(1) by (cases ps) auto
    have "nm 0 \<noteq> SLASH"
    proof (cases c)
      case Nil
      then show ?thesis using nm(1) False rel c by simp
    next
      case (Cons a as)
      then show ?thesis using nm(1) False ps(2) c by (auto simp: join_Cons component_def split: if_splits)
    qed
    then show ?thesis using name_walk_lookup [OF dev ps] nm(1) walk False by simp
  qed
  have "follow_link (lookup_path D (if ab then root f else cwd f) ps) f =
      Some (lookup_path D (if ab then root f else cwd f) ps, f)"
    using plain by (cases "lookup_path D (if ab then root f else cwd f) ps")
      (auto simp: follow_link_plain follow_link_def [of None])
  then show ?thesis using len w nm(2) by (simp add: name_parse_def)
qed

subsection \<open>Write-back of directories\<close>

lemma update_inode_bit_map_spec:
  assumes dev: "sd_ok dev" and sb: "super_block f = std_super"
  obtains d where "update_bit_map dev (update_inode dev f) =
      f\<lparr>disk := d, inode_dirty := (\<lambda>j. if j < 256 then 0 else inode_dirty f j)\<rparr>"
    "super_on_disk dev (disk f) \<Longrightarrow> table_synced dev f \<Longrightarrow> meta_on_disk dev f d"
    "\<And>x k. in_block k x \<Longrightarrow> disk_byte dev d x = disk_byte dev (disk f) x"
proof -
  obtain d1 where d1: "update_inode dev f = f\<lparr>disk := d1, inode_dirty := (\<lambda>j. if j < 256 then 0 else inode_dirty f j)\<rparr>"
    "\<And>x. disk_byte dev d1 x =
       (if in_table x \<and> inode_dirty f ((unat x - 134252032) div 4096) \<noteq> 0
        then nodes_bytes (nodes f) (unat x - 134252032) else disk_byte dev (disk f) x)"
    by (rule update_inode_spec [OF dev sb]) (rule that, assumption+)
  have sb1: "super_block (update_inode dev f) = std_super" using sb by (simp add: d1(1))
  obtain d where d: "update_bit_map dev (update_inode dev f) = (update_inode dev f)\<lparr>disk := d\<rparr>"
    "\<And>x. disk_byte dev d x =
       (if in_blk_map x then block_bit_map (update_inode dev f) (unat x - 134218240)
        else if in_ind_map x then inode_bit_map (update_inode dev f) (unat x - 134251008)
        else disk_byte dev (disk (update_inode dev f)) x)"
    by (rule update_bit_map_spec [OF dev sb1]) (rule that, assumption+)
  have same: "block_bit_map (update_inode dev f) = block_bit_map f"
    "inode_bit_map (update_inode dev f) = inode_bit_map f" "disk (update_inode dev f) = d1"
    by (simp_all add: d1(1))
  note bytes = d(2) [unfolded same] d1(2)
  show ?thesis
  proof (rule that [of d])
    show "update_bit_map dev (update_inode dev f) =
      f\<lparr>disk := d, inode_dirty := (\<lambda>j. if j < 256 then 0 else inode_dirty f j)\<rparr>"
      unfolding d(1) by (simp add: d1(1))
    assume super: "super_on_disk dev (disk f)" and tab: "table_synced dev f"
    have "super_on_disk dev d"
      by (rule super_on_disk_cong [OF super]) (use bytes regions_disjoint in simp)
    then show "meta_on_disk dev f d"
      using tab bytes regions_disjoint by (auto simp: meta_on_disk_def table_synced_def)
  next
    fix x k assume "in_block k x"
    then show "disk_byte dev d x = disk_byte dev (disk f) x"
      using bytes regions_disjoint by auto
  qed
qed

text \<open>Inodes may change in memory as long as their blocks are marked dirty.\<close>

lemma table_synced_upd:
  assumes "table_synced dev f"
    and "\<And>x. in_table x \<Longrightarrow> disk_byte dev (disk g) x = disk_byte dev (disk f) x"
    and "\<And>i. i < INODE_MAX_NUMBER \<Longrightarrow> nodes g i \<noteq> nodes f i \<Longrightarrow> inode_dirty g (i div 32) \<noteq> 0"
    and "\<And>j. inode_dirty f j \<noteq> 0 \<Longrightarrow> inode_dirty g j \<noteq> 0"
  shows "table_synced dev g"
  unfolding table_synced_def
proof (intro allI impI)
  fix x assume x: "in_table x" and clean: "inode_dirty g ((unat x - 134252032) div 4096) = 0"
  let ?p = "unat x - 134252032"
  have "?p div 128 div 32 = ?p div 4096" by (simp add: div_mult2_eq [symmetric])
  moreover have "?p div 128 < INODE_MAX_NUMBER" using x by (auto simp: in_table_def div_less_iff_less_mult)
  ultimately have "nodes g (?p div 128) = nodes f (?p div 128)" using assms(3) clean by metis
  then have "nodes_bytes (nodes g) ?p = nodes_bytes (nodes f) ?p" by (simp add: nodes_bytes_def)
  then show "disk_byte dev (disk g) x = nodes_bytes (nodes g) ?p"
    using assms(1,2) assms(4) x clean by (auto simp: table_synced_def)
qed

lemma mark_inode_dirty_eq:
  "n < INODE_MAX_NUMBER \<Longrightarrow> mark_inode_dirty (word_of_nat n) f = f\<lparr>inode_dirty := (inode_dirty f)(n div 32 := 1)\<rparr>"
proof -
  assume n: "n < INODE_MAX_NUMBER"
  have "unat (word_of_nat n div 32 :: u32) = n div 32" using n by (simp add: unat_div unat_of_nat_u32)
  then show ?thesis by (simp add: mark_inode_dirty_def)
qed

text \<open>Writing a block of directory entries changes this block only.\<close>

lemma blk_write:
  assumes dev: "sd_ok dev" and k: "k < DATA_BLOCK_MAX_NUMBER"
  shows "\<not> in_block k x \<Longrightarrow> disk_byte dev (sdwrite dev b (blk_offset k) 4096 d) x = disk_byte dev d x"
    and "i < BLOCK_SIZE \<Longrightarrow> blk_bytes dev (sdwrite dev b (blk_offset k) 4096 d) k i = b i"
    and "l < DATA_BLOCK_MAX_NUMBER \<Longrightarrow> l \<noteq> k \<Longrightarrow> i < BLOCK_SIZE \<Longrightarrow>
      blk_bytes dev (sdwrite dev b (blk_offset k) 4096 d) l i = blk_bytes dev d l i"
proof -
  show out: "\<not> in_block k x \<Longrightarrow> disk_byte dev (sdwrite dev b (blk_offset k) 4096 d) x = disk_byte dev d x" for x
    using in_block_iff [OF k, of x] by (simp add: disk_byte_write [OF dev])
  show "i < BLOCK_SIZE \<Longrightarrow> blk_bytes dev (sdwrite dev b (blk_offset k) 4096 d) k i = b i"
    using in_block_iff [OF k, of "blk_offset k + word_of_nat i"] in_block_addr [OF k, of i]
    by (simp add: disk_byte_write [OF dev] blk_bytes_def unat_of_nat_u32)
  show "l < DATA_BLOCK_MAX_NUMBER \<Longrightarrow> l \<noteq> k \<Longrightarrow> i < BLOCK_SIZE \<Longrightarrow>
      blk_bytes dev (sdwrite dev b (blk_offset k) 4096 d) l i = blk_bytes dev d l i"
    using in_block_addr [of l i] in_block_unique [of k "blk_offset l + word_of_nat i" l]
    by (auto simp: blk_bytes_def intro!: out)
qed

lemma blk_bytes_cong:
  assumes "\<And>x. in_block k x \<Longrightarrow> disk_byte dev d' x = disk_byte dev d x" "k < DATA_BLOCK_MAX_NUMBER" "i < BLOCK_SIZE"
  shows "blk_bytes dev d' k i = blk_bytes dev d k i"
  using assms in_block_addr [of k i] by (simp add: blk_bytes_def)

lemma store_entry_snoc:
  assumes "dir_rep b es" "length es < DENTRY_NUM" "cstr nm 0 xs" "length xs < MAX_NAME_LEN"
  shows "\<exists>b'. store_entry (length es) ty n nm b = Some b' \<and> dir_rep b' (es @ [(xs, ty, n)])"
proof -
  have "store_entry (length es) ty n nm b = Some (set_dentry (length es) xs ty n b)"
    using assms by (simp add: store_entry_def strcpy_name_eq [OF assms(3)] set_dentry_def)
  moreover have "dir_rep (set_dentry (length es) xs ty n b) (es @ [(xs, ty, n)])"
    by (rule dir_rep_snoc [OF assms(1,2,4) cstr_nz [OF assms(3)]])
  ultimately show ?thesis by blast
qed

lemma standrize_component:
  assumes "cstr nm 0 xs" "component xs" "xs \<noteq> []"
  shows "name_str_standrize (Some nm) = Some (Some nm)"
proof -
  have "nm (length xs - 1) = xs ! (length xs - 1)" using cstr_nth [OF assms(1), of "length xs - 1"] assms(3) by simp
  moreover have "xs ! (length xs - 1) \<in> set xs" using assms(3) by (intro nth_mem) simp
  ultimately have "nm (length xs - 1) \<noteq> SLASH" using assms(2) by (auto simp: component_def)
  then show ?thesis using strlen_cstr [OF assms(1)] assms(3) by (simp add: name_str_standrize_def)
qed

lemma has_slash_component: "cstr nm 0 xs \<Longrightarrow> component xs \<Longrightarrow> has_slash nm = Some False"
proof -
  assume c: "cstr nm 0 xs" "component xs"
  have "map (\<lambda>i. nm (0 + i)) [0..<length xs] = xs" using cstr_nth [OF c(1)] by (auto intro: nth_equalityI)
  then show ?thesis using c strlen_cstr [OF c(1)] by (simp add: has_slash_def str_bytes_def component_def)
qed

lemma lookup_new:
  "xs \<notin> fst ` set es \<Longrightarrow> dir_find (es @ [(xs, ty, n)]) xs = Some (xs, ty, n)"
proof -
  assume "xs \<notin> fst ` set es"
  then have "List.find (\<lambda>e. fst e = xs) es = None" by (force simp: find_None_iff image_iff)
  then show ?thesis by (induction es) (auto simp: dir_find_def split: if_splits)
qed

lemma dir_at_grown:
  assumes "dir_at dev f c b es" "length es < DENTRY_NUM" "dir_rep b1 (es @ [e])"
    and "\<And>i. i < BLOCK_SIZE \<Longrightarrow> blk_bytes dev (disk g) b i = b1 i"
    and "entry_num (nodes g c) = entry_num (nodes f c) + 1" "direct (nodes g c) 0 = direct (nodes f c) 0"
  shows "dir_at dev g c b (es @ [e])"
proof -
  have "dir_rep (blk_bytes dev (disk g) b) (es @ [e]) = dir_rep b1 (es @ [e])"
    by (rule dir_rep_cong) (rule assms(4))
  moreover have "unat (entry_num (nodes f c) + 1) = length es + 1"
    using assms(1,2) by (simp add: dir_at_def unat_add_u32)
  ultimately show ?thesis using assms(1,3,5,6) by (simp add: dir_at_def)
qed

lemma dir_at_kept:
  assumes "dir_at dev f i l es" "nodes g i = nodes f i"
    and "\<And>j. j < BLOCK_SIZE \<Longrightarrow> blk_bytes dev (disk g) l j = blk_bytes dev (disk f) l j"
  shows "dir_at dev g i l es"
proof -
  have "dir_rep (blk_bytes dev (disk g) l) es = dir_rep (blk_bytes dev (disk f) l) es"
    by (rule dir_rep_cong) (rule assms(3))
  then show ?thesis using assms(1,2) by (simp add: dir_at_def)
qed

text \<open>A name of one component is looked up in the current directory.\<close>

lemma name_parse_single:
  assumes "sd_ok dev" "dir_at dev f (cwd f) b es" "cstr nm 0 xs" "component xs" "xs \<noteq> []" "length xs < MAX_NAME_LEN"
    and "dir_find es xs = Some e" "unat (snd (snd e)) < INODE_MAX_NUMBER"
    "itype (nodes f (unat (snd (snd e)))) \<noteq> soft_link_type"
  shows "name_parse dev junk (Some nm) f = Some (Some (unat (snd (snd e))), f)"
  using name_parse_lookup [of dev "[xs]" nm False f "\<lambda>_. es" junk] assms by auto

lemma mark_unat: "unat k < INODE_MAX_NUMBER \<Longrightarrow>
    mark_inode_dirty k f = f\<lparr>inode_dirty := (inode_dirty f)(unat k div 32 := 1)\<rparr>"
  using mark_inode_dirty_eq [of "unat k" f] by simp

lemma do_touch_spec:
  assumes dev: "sd_ok dev" and sb: "super_block f = std_super"
    and d: "dir_at dev f (cwd f) b es" and room: "length es < DENTRY_NUM"
    and nm: "cstr nm 0 xs" "component xs" "xs \<noteq> []" "length xs < MAX_NAME_LEN"
    and k: "find_first_zero_bit (inode_bit_map f) INODE_BIT_MAP_SIZE = Some k" "unat k \<noteq> cwd f"
  obtains b1 h where "do_touch dev junk (Some nm) f = Some (update_bit_map dev (update_inode dev h))"
    "dir_rep b1 (es @ [(xs, file_type, k)])"
    "h = f\<lparr>inode_bit_map := set_bit_map (inode_bit_map f) k,
       nodes := (nodes f)(unat k := (hash_update (time_hash (kst f)) (nodes f (unat k)))
           \<lparr>isize := 0, itype := file_type, link_cnt := 1\<rparr>,
         cwd f := (nodes f (cwd f))\<lparr>entry_num := entry_num (nodes f (cwd f)) + 1\<rparr>),
       inode_dirty := (inode_dirty f)(unat k div 32 := 1, cwd f div 32 := 1),
       disk := sdwrite dev b1 (blk_offset b) 4096 (disk f)\<rparr>"
proof -
  have lt: "unat k < INODE_MAX_NUMBER" using find_first_zero_bit_Some(1) [OF k(1)] by simp
  have c: "cwd f < INODE_MAX_NUMBER" "direct (nodes f (cwd f)) 0 = blk_offset b"
    "unat (entry_num (nodes f (cwd f))) = length es" using d by (simp_all add: dir_at_def)
  obtain b1 where b1: "store_entry (length es) file_type k nm (do_fs_read dev (blk_offset b) junk BLOCK_SIZE f) = Some b1"
    "dir_rep b1 (es @ [(xs, file_type, k)])"
    using store_entry_snoc [OF dir_at_read [OF dev d, of junk] room nm(1,4), of file_type k] c by auto
  show ?thesis
  proof (rule that [OF _ b1(2) refl])
    show "do_touch dev junk (Some nm) f = Some (update_bit_map dev (update_inode dev
      (f\<lparr>inode_bit_map := set_bit_map (inode_bit_map f) k,
       nodes := (nodes f)(unat k := (hash_update (time_hash (kst f)) (nodes f (unat k)))
           \<lparr>isize := 0, itype := file_type, link_cnt := 1\<rparr>,
         cwd f := (nodes f (cwd f))\<lparr>entry_num := entry_num (nodes f (cwd f)) + 1\<rparr>),
       inode_dirty := (inode_dirty f)(unat k div 32 := 1, cwd f div 32 := 1),
       disk := sdwrite dev b1 (blk_offset b) 4096 (disk f)\<rparr>)))"
      using k(2) c b1(1)
      by (simp add: do_touch_def standrize_component [OF nm(1-3)] has_slash_component [OF nm(1,2)] k(1)
          allocate_inode_found [OF k(1)] mark_unat [OF lt] mark_inode_dirty_eq [OF c(1)]
          upd_node_def node_at_def do_fs_write_def Let_def)
  qed
qed

lemma mark_update_bit_map:
  "mark_inode_dirty n (update_bit_map dev f) = update_bit_map dev (mark_inode_dirty n f)"
  by (simp add: mark_inode_dirty_def update_bit_map_def do_fs_write_def Let_def)

lemma do_mkdir_spec:
  assumes dev: "sd_ok dev" and sb: "super_block f = std_super"
    and d: "dir_at dev f (cwd f) b es" and room: "length es < DENTRY_NUM"
    and nm: "cstr nm 0 xs" "component xs" "xs \<noteq> []" "length xs < MAX_NAME_LEN"
    and k: "find_first_zero_bit (inode_bit_map f) INODE_BIT_MAP_SIZE = Some k" "unat k \<noteq> cwd f"
    and l: "find_first_zero_bit (block_bit_map f) DATA_BLOCK_BIT_MAP_SIZE = Some l"
  obtains b1 b2 h where "do_mkdir dev junk (Some nm) f = Some (update_inode dev (update_bit_map dev h))"
    "dir_rep b1 (es @ [(xs, dir_type, k)])" "dir_rep b2 (dot_dirs k (word_of_nat (cwd f)))"
    "h = f\<lparr>inode_bit_map := set_bit_map (inode_bit_map f) k, block_bit_map := set_bit_map (block_bit_map f) l,
       nodes := (nodes f)(cwd f := (nodes f (cwd f))\<lparr>entry_num := entry_num (nodes f (cwd f)) + 1\<rparr>,
         unat k := (hash_update (time_hash (kst f)) (nodes f (unat k)))
           \<lparr>entry_num := 2, itype := dir_type,
            direct := (direct (nodes f (unat k)))(0 := blk_offset (unat l)), link_cnt := 1\<rparr>),
       disk := sdwrite dev b2 (blk_offset (unat l)) 4096 (sdwrite dev b1 (blk_offset b) 4096 (disk f)),
       inode_dirty := (inode_dirty f)(cwd f div 32 := 1, unat k div 32 := 1)\<rparr>"
proof -
  have lt: "unat k < INODE_MAX_NUMBER" using find_first_zero_bit_Some(1) [OF k(1)] by simp
  have c: "cwd f < INODE_MAX_NUMBER" "direct (nodes f (cwd f)) 0 = blk_offset b"
    "unat (entry_num (nodes f (cwd f))) = length es" using d by (simp_all add: dir_at_def)
  obtain b1 where b1: "store_entry (length es) dir_type k nm (do_fs_read dev (blk_offset b) junk BLOCK_SIZE f) = Some b1"
    "dir_rep b1 (es @ [(xs, dir_type, k)])"
    using store_entry_snoc [OF dir_at_read [OF dev d, of junk] room nm(1,4), of dir_type k] c by auto
  obtain b2 where b2: "dot_entries k (word_of_nat (cwd f)) junk = Some b2"
    "dir_rep b2 (dot_dirs k (word_of_nat (cwd f)))" using dot_entries_spec by blast
  define g1 where "g1 = f\<lparr>nodes := (nodes f)(cwd f := (nodes f (cwd f))\<lparr>entry_num := entry_num (nodes f (cwd f)) + 1\<rparr>)\<rparr>"
  have k1: "find_first_zero_bit (inode_bit_map g1) INODE_BIT_MAP_SIZE = Some k" using k(1) by (simp add: g1_def)
  define g3 where "g3 = g1\<lparr>inode_bit_map := set_bit_map (inode_bit_map f) k,
     nodes := (nodes g1)(unat k := hash_update (time_hash (kst f)) (nodes f (unat k))),
     disk := sdwrite dev b1 (blk_offset b) 4096 (disk f)\<rparr>"
  have l3: "find_first_zero_bit (block_bit_map g3) DATA_BLOCK_BIT_MAP_SIZE = Some l" using l by (simp add: g3_def g1_def)
  have alloc: "allocate_inode k g1 = (Some (unat k), g1\<lparr>inode_bit_map := set_bit_map (inode_bit_map f) k,
     nodes := (nodes g1)(unat k := hash_update (time_hash (kst f)) (nodes f (unat k)))\<rparr>)"
    unfolding allocate_inode_found [OF k1] using k(2) by (simp add: upd_node_def g1_def)
  have rd: "node_at (cwd f) f = Some (nodes f (cwd f))" using c by (simp add: node_at_def)
  have w: "do_fs_write dev (direct (nodes (g1\<lparr>inode_bit_map := set_bit_map (inode_bit_map f) k,
     nodes := (nodes g1)(unat k := hash_update (time_hash (kst f)) (nodes f (unat k)))\<rparr>) (cwd g1)) 0) b1 BLOCK_SIZE
     (g1\<lparr>inode_bit_map := set_bit_map (inode_bit_map f) k,
     nodes := (nodes g1)(unat k := hash_update (time_hash (kst f)) (nodes f (unat k)))\<rparr>) = g3"
    using k(2) c by (simp add: do_fs_write_def g3_def g1_def)
  have up: "upd_node (cwd f) (\<lambda>n. n\<lparr>entry_num := entry_num n + 1\<rparr>) f = g1" by (simp add: upd_node_def g1_def)
  have same: "cwd g3 = cwd f" "super_block g3 = std_super" "kst g3 = kst f" "cwd g1 = cwd f"
    "data_start (super_block f) = 135300608"
    by (simp_all add: g3_def g1_def sb)
  have off: "blk_offset (unat l) = 135300608 + l * 4096" by (simp add: blk_offset_def)
  show ?thesis
  proof (rule that [OF _ b1(2) b2(2) refl])
    show "do_mkdir dev junk (Some nm) f = Some (update_inode dev (update_bit_map dev
     (f\<lparr>inode_bit_map := set_bit_map (inode_bit_map f) k, block_bit_map := set_bit_map (block_bit_map f) l,
       nodes := (nodes f)(cwd f := (nodes f (cwd f))\<lparr>entry_num := entry_num (nodes f (cwd f)) + 1\<rparr>,
         unat k := (hash_update (time_hash (kst f)) (nodes f (unat k)))
           \<lparr>entry_num := 2, itype := dir_type,
            direct := (direct (nodes f (unat k)))(0 := blk_offset (unat l)), link_cnt := 1\<rparr>),
       disk := sdwrite dev b2 (blk_offset (unat l)) 4096 (sdwrite dev b1 (blk_offset b) 4096 (disk f)),
       inode_dirty := (inode_dirty f)(cwd f div 32 := 1, unat k div 32 := 1)\<rparr>)))"
      using b1(1) b2(1) c w
      by (simp add: do_mkdir_def standrize_component [OF nm(1-3)] rd up k1 alloc l3 same
          allocate_data_block_found [OF l3] Let_def mark_update_bit_map off)
        (simp add: upd_node_def do_fs_write_def mark_unat [OF lt] mark_inode_dirty_eq [OF c(1)] g3_def g1_def)
  qed
qed

lemma blk_write_meta:
  assumes "sd_ok dev" "k < DATA_BLOCK_MAX_NUMBER"
  shows "super_on_disk dev d \<Longrightarrow> super_on_disk dev (sdwrite dev b (blk_offset k) 4096 d)"
    and "in_table x \<Longrightarrow> disk_byte dev (sdwrite dev b (blk_offset k) 4096 d) x = disk_byte dev d x"
proof -
  show "super_on_disk dev d \<Longrightarrow> super_on_disk dev (sdwrite dev b (blk_offset k) 4096 d)"
    by (erule super_on_disk_cong) (simp add: blk_write(1) [OF assms] regions_disjoint(1))
  show "in_table x \<Longrightarrow> disk_byte dev (sdwrite dev b (blk_offset k) 4096 d) x = disk_byte dev d x"
    by (rule blk_write(1) [OF assms]) (simp add: regions_disjoint(4))
qed

text \<open>All inodes but those of \<open>I\<close> and all data blocks on the card but those of \<open>B\<close> are unchanged.\<close>

definition others_kept :: "'d sd_dev \<Rightarrow> nat set \<Rightarrow> nat set \<Rightarrow> 'd fs_t \<Rightarrow> 'd fs_t \<Rightarrow> bool" where
  "others_kept dev I B f g \<longleftrightarrow>
     (\<forall>i. i \<notin> I \<longrightarrow> nodes g i = nodes f i) \<and>
     (\<forall>l < DATA_BLOCK_MAX_NUMBER. l \<notin> B \<longrightarrow> (\<forall>j < BLOCK_SIZE. blk_bytes dev (disk g) l j = blk_bytes dev (disk f) l j)) \<and>
     super_block g = super_block f \<and> root g = root f \<and> cwd g = cwd f \<and> cwd_str g = cwd_str f \<and> kst g = kst f"

lemma others_kept_dir:
  "others_kept dev I B f g \<Longrightarrow> dir_at dev f i l es \<Longrightarrow> i \<notin> I \<Longrightarrow> l \<notin> B \<Longrightarrow> dir_at dev g i l es"
  by (rule dir_at_kept) (auto simp: others_kept_def dir_at_def)

lemma meta_on_disk_upd [simp]:
  "meta_on_disk dev (f\<lparr>disk := d'\<rparr>) d = meta_on_disk dev f d"
  "meta_on_disk dev (f\<lparr>inode_dirty := y\<rparr>) d = meta_on_disk dev f d"
  by (simp_all add: meta_on_disk_def)

text \<open>The two write-backs, in either order.\<close>

lemma flushed:
  assumes dev: "sd_ok dev" and sb: "super_block h = std_super"
    and g: "g = update_bit_map dev (update_inode dev h) \<or> g = update_inode dev (update_bit_map dev h)"
  obtains d y where "g = h\<lparr>disk := d, inode_dirty := y\<rparr>"
    "\<And>l j. l < DATA_BLOCK_MAX_NUMBER \<Longrightarrow> j < BLOCK_SIZE \<Longrightarrow> blk_bytes dev d l j = blk_bytes dev (disk h) l j"
    "super_on_disk dev (disk h) \<Longrightarrow> table_synced dev h \<Longrightarrow> meta_on_disk dev h d"
proof -
  let ?y = "\<lambda>j. if j < 256 then 0 else inode_dirty h j"
  have "\<exists>d. g = h\<lparr>disk := d, inode_dirty := ?y\<rparr> \<and>
      (super_on_disk dev (disk h) \<longrightarrow> table_synced dev h \<longrightarrow> meta_on_disk dev h d) \<and>
      (\<forall>x k. in_block k x \<longrightarrow> disk_byte dev d x = disk_byte dev (disk h) x)"
    using g
  proof
    assume "g = update_bit_map dev (update_inode dev h)"
    then show ?thesis by (simp only:) (rule update_inode_bit_map_spec [OF dev sb], intro exI conjI; blast)
  next
    assume "g = update_inode dev (update_bit_map dev h)"
    then show ?thesis by (simp only:) (rule flush_spec [OF dev sb], intro exI conjI; blast)
  qed
  then obtain d where d: "g = h\<lparr>disk := d, inode_dirty := ?y\<rparr>"
    "super_on_disk dev (disk h) \<longrightarrow> table_synced dev h \<longrightarrow> meta_on_disk dev h d"
    "\<forall>x k. in_block k x \<longrightarrow> disk_byte dev d x = disk_byte dev (disk h) x"
    by (elim exE conjE)
  have blocks: "\<And>x k. in_block k x \<Longrightarrow> disk_byte dev d x = disk_byte dev (disk h) x" using d(3) by blast
  show ?thesis by (rule that [OF d(1) blk_bytes_cong [OF blocks]]) (use d(2) in blast)+
qed

lemma free_bit:
  assumes "used_bits n buf \<noteq> {k. unat k < 8 * n}" "8 * n < 4294967296"
  obtains k where "find_first_zero_bit buf n = Some k" "unat k < 8 * n" "k \<notin> used_bits n buf"
    "used_bits n (set_bit_map buf k) = insert k (used_bits n buf)"
proof -
  obtain k where k: "find_first_zero_bit buf n = Some k" using find_first_zero_bit_None assms(1) by blast
  note fz = find_first_zero_bit_Some [OF k assms(2)]
  show ?thesis by (rule that [OF k fz(1) _ used_bits_set [OF fz(1)]]) (use fz(2) in \<open>simp add: used_bits_def\<close>)
qed

lemma used_other: "k \<notin> used_bits n buf \<Longrightarrow> word_of_nat c \<in> used_bits n buf \<Longrightarrow> unat k \<noteq> c"
  by (metis word_of_nat_unat)

subsection \<open>Removing\<close>

lemma copy_entry:
  "0 < i \<Longrightarrow> n \<le> DENTRY_SIZE \<Longrightarrow>
   for_upto 0 n (\<lambda>k b. b(DENTRY_SIZE * (i - 1) + k := b (DENTRY_SIZE * i + k))) b =
     (\<lambda>x. if DENTRY_SIZE * (i - 1) \<le> x \<and> x < DENTRY_SIZE * (i - 1) + n then b (x + DENTRY_SIZE) else b x)"
  by (induction n) (auto simp: for_upto_Suc fun_eq_iff less_Suc_eq algebra_simps Suc_diff_Suc dest!: gr0_implies_Suc)

lemma close_gap_eq:
  assumes "th < up" "up \<le> DENTRY_NUM"
  shows "close_gap th up b =
    Some (\<lambda>x. if DENTRY_SIZE * th \<le> x \<and> x < DENTRY_SIZE * (up - 1) then b (x + DENTRY_SIZE) else b x)"
proof -
  let ?I = "\<lambda>k b'. b' = (\<lambda>x. if DENTRY_SIZE * th \<le> x \<and> x < DENTRY_SIZE * (k - 1) then b (x + DENTRY_SIZE) else b x)"
  let ?f = "\<lambda>i b. if i < DENTRY_NUM
     then Some (for_upto 0 DENTRY_SIZE (\<lambda>k b. b(DENTRY_SIZE * (i - 1) + k := b (DENTRY_SIZE * i + k))) b) else None"
  have "\<exists>b'. for_upto_opt (th + 1) up ?f b = Some b' \<and> ?I up b'"
  proof (rule for_upto_opt_inv)
    fix k b' assume k: "th + 1 \<le> k" "k < up" "?I k b'"
    let ?b2 = "\<lambda>x. if DENTRY_SIZE * (k - 1) \<le> x \<and> x < DENTRY_SIZE * (k - 1) + DENTRY_SIZE then b' (x + DENTRY_SIZE) else b' x"
    have "?f k b' = Some ?b2" using copy_entry [of k DENTRY_SIZE b'] k assms by simp
    moreover have "DENTRY_SIZE * (k - 1) + DENTRY_SIZE = DENTRY_SIZE * k" "DENTRY_SIZE * th \<le> DENTRY_SIZE * (k - 1)"
      using k(1) by simp_all
    then have "?I (Suc k) ?b2" by (auto simp: k(3) fun_eq_iff)
    ultimately show "\<exists>b2. ?f k b' = Some b2 \<and> ?I (Suc k) b2" by blast
  qed (use assms in \<open>auto simp: fun_eq_iff\<close>)
  then show ?thesis by (simp add: close_gap_def)
qed

lemma cstr_shift: "cstr (\<lambda>x. s (x + d)) j xs = cstr s (j + d) xs"
  by (induction xs arbitrary: j) auto

lemma dentry_shift:
  assumes "\<And>x. DENTRY_SIZE * i \<le> x \<Longrightarrow> x < DENTRY_SIZE * i + DENTRY_SIZE \<Longrightarrow> b' x = b (x + DENTRY_SIZE)"
  shows "dentry b' i xs ty n = dentry b (Suc i) xs ty n"
proof -
  have "dentry b' i xs ty n = dentry (\<lambda>x. b (x + DENTRY_SIZE)) i xs ty n"
    by (rule dentry_cong) (rule assms)
  also have "\<dots> = dentry b (Suc i) xs ty n"
    by (simp add: dentry_def de_type_def de_inode_num_def rd32_def cstr_shift algebra_simps)
  finally show ?thesis .
qed

lemma close_gap_dir:
  assumes "dir_rep b es" "th < length es"
  shows "\<exists>b'. close_gap th (length es) b = Some b' \<and> dir_rep b' (take th es @ drop (Suc th) es)"
proof -
  let ?b = "\<lambda>x. if DENTRY_SIZE * th \<le> x \<and> x < DENTRY_SIZE * (length es - 1) then b (x + DENTRY_SIZE) else b x"
  let ?es = "take th es @ drop (Suc th) es"
  have len: "length es \<le> DENTRY_NUM" using assms(1) by (simp add: dir_rep_def)
  have ent: "dentry b i (fst (es ! i)) (fst (snd (es ! i))) (snd (snd (es ! i)))" if "i < length es" for i
    using assms(1) that by (simp add: dir_rep_def)
  have "dentry ?b i (fst (?es ! i)) (fst (snd (?es ! i))) (snd (snd (?es ! i)))" if "i < length ?es" for i
  proof (cases "i < th")
    case True
    then have e: "?es ! i = es ! i" using assms(2) by (simp add: nth_append)
    have "dentry ?b i xs ty n = dentry b i xs ty n" for xs ty n
      by (rule dentry_cong) (use True in auto)
    then show ?thesis using ent [of i] True assms(2) by (simp only: e)
  next
    case False
    then have e: "?es ! i = es ! Suc i" "Suc i < length es" using assms(2) that by (auto simp: nth_append)
    have "dentry ?b i xs ty n = dentry b (Suc i) xs ty n" for xs ty n
      by (rule dentry_shift) (use False e(2) in auto)
    then show ?thesis using ent [OF e(2)] by (simp only: e(1))
  qed
  then show ?thesis using close_gap_eq [OF assms(2) len, of b] len by (simp add: dir_rep_def)
qed

lemma free_blocks:
  "\<exists>m. for_upto 0 n (\<lambda>k g. free_block (direct (nodes g i) k) g) f = f\<lparr>block_bit_map := m\<rparr> \<and>
     (\<forall>j. test_bit m j \<longleftrightarrow> test_bit (block_bit_map f) j \<and> j \<notin> (\<lambda>k. get_data_block_number (direct (nodes f i) k) f) ` {..<n})"
proof (induction n)
  case 0
  then show ?case by (intro exI [of _ "block_bit_map f"]) simp
next
  case (Suc n)
  then obtain m where m: "for_upto 0 n (\<lambda>k g. free_block (direct (nodes g i) k) g) f = f\<lparr>block_bit_map := m\<rparr>"
    "\<forall>j. test_bit m j \<longleftrightarrow> test_bit (block_bit_map f) j \<and> j \<notin> (\<lambda>k. get_data_block_number (direct (nodes f i) k) f) ` {..<n}"
    by (elim exE conjE)
  have "for_upto 0 (Suc n) (\<lambda>k g. free_block (direct (nodes g i) k) g) f =
      f\<lparr>block_bit_map := clear_bit m (get_data_block_number (direct (nodes f i) n) f)\<rparr>"
    by (simp add: for_upto_Suc m(1)) (simp add: free_block_def get_data_block_number_def)
  then show ?case
    using m(2) by (intro exI [of _ "clear_bit m (get_data_block_number (direct (nodes f i) n) f)"])
      (auto simp: test_clear_bit lessThan_Suc)
qed

lemma rm_file:
  assumes "t < INODE_MAX_NUMBER" "itype (nodes f t) = file_type" "link_cnt (nodes f t) = 1"
  shows "\<exists>m v. rm_recurse dev junk [t] f =
      Some (f\<lparr>block_bit_map := m, nodes := (nodes f)(t := v), inode_dirty := (inode_dirty f)(t div 32 := 1),
        inode_bit_map := clear_bit (inode_bit_map f) (word_of_nat t)\<rparr>) \<and>
     (\<forall>j. test_bit m j \<longleftrightarrow> test_bit (block_bit_map f) j \<and> j \<notin> (\<lambda>k. get_data_block_number (direct (nodes f t) k) f) ` {..<16})"
proof -
  let ?f1 = "upd_node t (\<lambda>n. n\<lparr>link_cnt := link_cnt n - 1\<rparr>) f"
  obtain m where m: "for_upto 0 16 (\<lambda>k g. free_block (direct (nodes g t) k) g) ?f1 = ?f1\<lparr>block_bit_map := m\<rparr>"
    "\<forall>j. test_bit m j \<longleftrightarrow> test_bit (block_bit_map ?f1) j \<and> j \<notin> (\<lambda>k. get_data_block_number (direct (nodes ?f1 t) k) ?f1) ` {..<16}"
    using free_blocks [of 16 t ?f1] by (elim exE conjE)
  define g where "g = free_inode t (?f1\<lparr>block_bit_map := m\<rparr>)"
  have "g = f\<lparr>block_bit_map := m, nodes := (nodes f)(t := nodes g t), inode_dirty := (inode_dirty f)(t div 32 := 1),
        inode_bit_map := clear_bit (inode_bit_map f) (word_of_nat t)\<rparr>"
    using assms(1) by (simp add: g_def free_inode_def mark_inode_dirty_eq upd_node_def Let_def)
  moreover have "rm_recurse dev junk [t] f = Some g"
    using assms m(1) by (simp add: rm_recurse.simps [of _ _ "[t]"] rm_recurse.simps [of _ _ "[]"] node_at_def Let_def g_def)
  moreover have "\<forall>j. test_bit m j \<longleftrightarrow> test_bit (block_bit_map f) j \<and> j \<notin> (\<lambda>k. get_data_block_number (direct (nodes f t) k) f) ` {..<16}"
    using m(2) by (simp add: upd_node_def get_data_block_number_def)
  ultimately show ?thesis by (intro exI [of _ m] exI [of _ "nodes g t"]) (simp only: simp_thms)
qed

lemma find_only: "j \<in> set is \<Longrightarrow> (\<And>i. i \<in> set is \<Longrightarrow> P i \<longleftrightarrow> i = j) \<Longrightarrow> List.find P is = Some j"
  by (induction "is") auto

lemma name_only:
  "distinct (map fst es) \<Longrightarrow> j < length es \<Longrightarrow> i < length es \<Longrightarrow> fst (es ! i) = fst (es ! j) \<longleftrightarrow> i = j"
  using nth_eq_iff_index_eq [of "map fst es" i j] by simp

lemma remove_entry_spec:
  assumes dev: "sd_ok dev" and d: "dir_at dev f c b es" and j: "2 \<le> j" "j < length es"
    and dist: "distinct (map fst es)" and nm: "cstr nm p (fst (es ! j))"
  obtains b1 where "remove_entry dev junk c nm p f = Some (update_inode dev (update_bit_map dev
      (f\<lparr>nodes := (nodes f)(c := (nodes f c)\<lparr>entry_num := entry_num (nodes f c) - 1\<rparr>),
         disk := sdwrite dev b1 (blk_offset b) 4096 (disk f)\<rparr>)))"
    "dir_rep b1 (take j es @ drop (Suc j) es)"
proof -
  define buf where "buf = do_fs_read dev (direct (nodes f c) 0) junk BLOCK_SIZE f"
  have rep: "dir_rep buf es" using dir_at_read [OF dev d] by (simp add: buf_def)
  have c: "c < INODE_MAX_NUMBER" "direct (nodes f c) 0 = blk_offset b" "unat (entry_num (nodes f c)) = length es"
    using d by (simp_all add: dir_at_def)
  have "List.find (\<lambda>i. fst (es ! i) = fst (es ! j)) [2..<length es] = Some j"
    by (rule find_only) (use j name_only [OF dist j(2)] in auto)
  moreover have "find_opt (name_match nm p buf) [2..<length es] =
      Some (List.find (\<lambda>i. fst (es ! i) = fst (es ! j)) [2..<length es])"
    by (rule find_opt_total) (simp add: name_match_dir [OF rep nm])
  ultimately have fnd: "find_opt (name_match nm p buf) [2..<length es] = Some (Some j)" by simp
  obtain b1 where b1: "close_gap j (length es) buf = Some b1" "dir_rep b1 (take j es @ drop (Suc j) es)"
    using close_gap_dir [OF rep j(2)] by blast
  show ?thesis
    by (rule that [OF _ b1(2)])
      (use c fnd b1(1) in \<open>simp add: remove_entry_def node_at_def Let_def buf_def upd_node_def do_fs_write_def\<close>)
qed

section \<open>Properties\<close>

text \<open>
  C18: Path lookup. On a card whose directory blocks represent a graph \<open>D\<close> of directories, \<open>name_parse\<close>
  computes exactly the lookup in this graph, component by component, from the root for a name that starts
  with a slash and from the current directory otherwise: it returns the inode when every component is found
  and \<open>None\<close> (the code's NULL) when one is missing, terminates, and changes nothing.
\<close>

theorem path_lookup_refines:
  assumes "sd_ok dev" "ps \<noteq> []" "\<forall>c \<in> set ps. component c \<and> c \<noteq> []"
    and "cstr nm 0 ((if ab then [SLASH] else []) @ join ps)" "length (join ps) < 239"
    and "walk_dirs dev f D (if ab then root f else cwd f) ps"
    and "\<forall>t. lookup_path D (if ab then root f else cwd f) ps = Some t \<longrightarrow>
      t < INODE_MAX_NUMBER \<and> itype (nodes f t) \<noteq> soft_link_type"
  shows "name_parse dev junk (Some nm) f = Some (lookup_path D (if ab then root f else cwd f) ps, f)"
proof (rule name_parse_lookup [OF assms(1,2) _ assms(4,5) _ assms(6)])
  show "\<forall>c \<in> set ps. component c" "hd ps \<noteq> [] \<or> length ps = 1" using assms(2,3) by auto
qed (use assms(7) in blast)+

lemma formatted_root:
  obtains g where "do_mkfs ram_dev (\<lambda>_. 7) blank_fs = Some g" "super_block g = std_super" "root g = 0" "cwd g = 0"
    "dir_at ram_dev g 0 0 (dot_dirs 0 0)" "itype (nodes g 0) = 0"
    "used_bits INODE_BIT_MAP_SIZE (inode_bit_map g) = {0}"
    "used_bits DATA_BLOCK_BIT_MAP_SIZE (block_bit_map g) = {0}" "meta_on_disk ram_dev g (disk g)"
    "\<forall>i. inode_wf (nodes g i)"
proof -
  have wf: "inode_wf (nodes blank_fs i)" for i by (simp add: blank_fs_def blank_inode_def inode_wf_def)
  obtain g where g: "do_mkfs ram_dev (\<lambda>_. 7) blank_fs = Some g" "super_block g = std_super"
    "root g = 0" "cwd g = 0"
    "used_bits INODE_BIT_MAP_SIZE (inode_bit_map g) = {0}"
    "used_bits DATA_BLOCK_BIT_MAP_SIZE (block_bit_map g) = {0}"
    "entry_num (nodes g 0) = 2" "direct (nodes g 0) 0 = blk_offset 0"
    "dir_rep (blk_bytes ram_dev (disk g) 0) (dot_dirs 0 0)"
    "meta_on_disk ram_dev g (disk g)" "itype (nodes g 0) = itype (nodes blank_fs 0)" "\<forall>i. inode_wf (nodes g i)"
    by (rule do_mkfs_spec [OF ram_ok blank_cursor]) (use blank_synced wf in blast)
  have "dir_at ram_dev g 0 0 (dot_dirs 0 0)" using g by (simp add: dir_at_def)
  moreover have "itype (nodes g 0) = 0" using g(11) by (simp add: blank_fs_def blank_inode_def)
  ultimately show ?thesis using that g by blast
qed

theorem path_lookup_refines_witness:
  "\<exists>g. do_mkfs ram_dev (\<lambda>_. 7) blank_fs = Some g \<and>
     name_parse ram_dev (\<lambda>_. 7) (Some (buf_of (cs ''/./..''))) g = Some (Some 0, g)"
proof -
  obtain g where g: "do_mkfs ram_dev (\<lambda>_. 7) blank_fs = Some g" "super_block g = std_super" "root g = 0" "cwd g = 0"
    "dir_at ram_dev g 0 0 (dot_dirs 0 0)" "itype (nodes g 0) = 0"
    by (rule formatted_root) (rule that, assumption+)
  let ?ps = "[cs ''.'', cs ''..'']" and ?D = "\<lambda>_. dot_dirs 0 0"
  have look: "lookup_path ?D 0 ?ps = Some 0" by (simp add: dir_find_def)
  have walk: "walk_dirs ram_dev g ?D 0 ?ps" using g(5) by (auto simp: dir_find_def)
  have s: "cstr (buf_of (cs ''/./..'')) 0 ([SLASH] @ join ?ps)"
    using cstr_buf_of [of "cs ''/./..''"] by simp
  have "name_parse ram_dev (\<lambda>_. 7) (Some (buf_of (cs ''/./..''))) g = Some (lookup_path ?D 0 ?ps, g)"
    using path_lookup_refines [OF ram_ok, of ?ps "buf_of (cs ''/./..'')" True g ?D "\<lambda>_. 7"] s walk look g(3,6)
    by (simp add: component_def del: lookup_path.simps walk_dirs.simps)
  then show ?thesis using g(1) look by auto
qed

lemma do_touch_effect:
  assumes dev: "sd_ok dev" and sb: "super_block f = std_super"
    and d: "dir_at dev f (cwd f) b es" and room: "length es < DENTRY_NUM"
    and nm: "cstr nm 0 xs" "component xs" "xs \<noteq> []" "length xs < MAX_NAME_LEN" and new: "xs \<notin> fst ` set es"
    and free: "used_bits INODE_BIT_MAP_SIZE (inode_bit_map f) \<noteq> {k. unat k < INODE_MAX_NUMBER}"
    and used: "word_of_nat (cwd f) \<in> used_bits INODE_BIT_MAP_SIZE (inode_bit_map f)"
  obtains g k where "do_touch dev junk (Some nm) f = Some g"
    "k \<notin> used_bits INODE_BIT_MAP_SIZE (inode_bit_map f)"
    "used_bits INODE_BIT_MAP_SIZE (inode_bit_map g) = insert k (used_bits INODE_BIT_MAP_SIZE (inode_bit_map f))"
    "block_bit_map g = block_bit_map f"
    "dir_at dev g (cwd f) b (es @ [(xs, file_type, k)])"
    "itype (nodes g (unat k)) = file_type" "isize (nodes g (unat k)) = 0" "link_cnt (nodes g (unat k)) = 1"
    "others_kept dev {cwd f, unat k} {b} f g"
    "name_parse dev junk (Some nm) g = Some (Some (unat k), g)"
    "super_on_disk dev (disk f) \<Longrightarrow> table_synced dev f \<Longrightarrow> meta_on_disk dev g (disk g)"
    "kst g = kst f" "cwd_str g = cwd_str f" "unat k < INODE_MAX_NUMBER"
    "(\<And>i. inode_wf (nodes f i)) \<Longrightarrow> (\<And>i. inode_wf (nodes g i))"
proof -
  obtain k where k: "find_first_zero_bit (inode_bit_map f) INODE_BIT_MAP_SIZE = Some k" "unat k < INODE_MAX_NUMBER"
    "k \<notin> used_bits INODE_BIT_MAP_SIZE (inode_bit_map f)"
    "used_bits INODE_BIT_MAP_SIZE (set_bit_map (inode_bit_map f) k) = insert k (used_bits INODE_BIT_MAP_SIZE (inode_bit_map f))"
    using free_bit [of INODE_BIT_MAP_SIZE "inode_bit_map f"] free by auto
  have ne: "unat k \<noteq> cwd f" by (rule used_other [OF k(3) used])
  have b: "b < DATA_BLOCK_MAX_NUMBER" and c: "cwd f < INODE_MAX_NUMBER" using d by (simp_all add: dir_at_def)
  obtain b1 h where h: "do_touch dev junk (Some nm) f = Some (update_bit_map dev (update_inode dev h))"
    "dir_rep b1 (es @ [(xs, file_type, k)])"
    "h = f\<lparr>inode_bit_map := set_bit_map (inode_bit_map f) k,
       nodes := (nodes f)(unat k := (hash_update (time_hash (kst f)) (nodes f (unat k)))
           \<lparr>isize := 0, itype := file_type, link_cnt := 1\<rparr>,
         cwd f := (nodes f (cwd f))\<lparr>entry_num := entry_num (nodes f (cwd f)) + 1\<rparr>),
       inode_dirty := (inode_dirty f)(unat k div 32 := 1, cwd f div 32 := 1),
       disk := sdwrite dev b1 (blk_offset b) 4096 (disk f)\<rparr>"
    by (rule do_touch_spec [OF dev sb d room nm k(1) ne]) (rule that, assumption+)
  define g where "g = update_bit_map dev (update_inode dev h)"
  obtain dd y where g: "g = h\<lparr>disk := dd, inode_dirty := y\<rparr>"
    and blk: "\<And>l j. l < DATA_BLOCK_MAX_NUMBER \<Longrightarrow> j < BLOCK_SIZE \<Longrightarrow> blk_bytes dev dd l j = blk_bytes dev (disk h) l j"
    and meta: "super_on_disk dev (disk h) \<Longrightarrow> table_synced dev h \<Longrightarrow> meta_on_disk dev h dd"
    by (rule flushed [of dev h g]) (simp_all add: dev h(3) sb g_def)
  have dh: "disk h = sdwrite dev b1 (blk_offset b) 4096 (disk f)" by (simp add: h(3))
  have dir: "dir_at dev g (cwd f) b (es @ [(xs, file_type, k)])"
    by (rule dir_at_grown [OF d room h(2)]) (simp_all add: g blk b dh blk_write(2) [OF dev b] h(3))
  have kept: "others_kept dev {cwd f, unat k} {b} f g"
    by (auto simp: others_kept_def g blk dh blk_write(3) [OF dev b] h(3))
  have k': "nodes g (unat k) = (hash_update (time_hash (kst f)) (nodes f (unat k)))\<lparr>isize := 0, itype := file_type, link_cnt := 1\<rparr>"
    using ne by (simp add: g h(3))
  have look: "name_parse dev junk (Some nm) g = Some (Some (unat k), g)"
    using name_parse_single [of dev g b "es @ [(xs, file_type, k)]" nm xs "(xs, file_type, k)" junk]
      dev dir nm lookup_new [OF new] k(2) k' kept by (simp add: others_kept_def)
  have syn: "table_synced dev h" if "table_synced dev f"
    by (rule table_synced_upd [OF that]) (auto simp: h(3) blk_write_meta(2) [OF dev b] split: if_splits)
  have md: "meta_on_disk dev g (disk g)" if "super_on_disk dev (disk f)" "table_synced dev f"
    using meta [OF _ syn [OF that(2)]] that(1) by (simp add: dh blk_write_meta(1) [OF dev b] g)
  have maps: "inode_bit_map g = set_bit_map (inode_bit_map f) k" "block_bit_map g = block_bit_map f"
    by (simp_all add: g h(3))
  have rest: "kst g = kst f" "cwd_str g = cwd_str f" by (simp_all add: g h(3))
  have wf: "inode_wf (nodes g i)" if "\<And>i. inode_wf (nodes f i)" for i
    using that by (simp add: g h(3) inode_wf_def time_hash_high)
  show ?thesis
    by (rule that [OF h(1) [folded g_def] k(3) _ maps(2) dir _ _ _ kept look md rest k(2) wf]) (use k(4) k' maps in simp_all)
qed

text \<open>
  C20: Creating a file. In a current directory with room for an entry, \<open>do_touch\<close> with a new name of one
  component succeeds whenever an inode is free: the directory then has the old entries and the new one, the
  inode was free and is now an empty file with one link, no other inode and no other data block changes, and
  \<open>name_parse\<close> finds the file. When memory and card agreed before (up to dirty blocks), the card holds all
  metadata afterwards.
\<close>

theorem touch_then_lookup:
  assumes dev: "sd_ok dev" and sb: "super_block f = std_super"
    and d: "dir_at dev f (cwd f) b es" and room: "length es < DENTRY_NUM"
    and nm: "cstr nm 0 xs" "component xs" "xs \<noteq> []" "length xs < MAX_NAME_LEN" and new: "xs \<notin> fst ` set es"
    and free: "used_bits INODE_BIT_MAP_SIZE (inode_bit_map f) \<noteq> {k. unat k < INODE_MAX_NUMBER}"
    and used: "word_of_nat (cwd f) \<in> used_bits INODE_BIT_MAP_SIZE (inode_bit_map f)"
  shows "\<exists>g k. do_touch dev junk (Some nm) f = Some g \<and>
    k \<notin> used_bits INODE_BIT_MAP_SIZE (inode_bit_map f) \<and>
    used_bits INODE_BIT_MAP_SIZE (inode_bit_map g) = insert k (used_bits INODE_BIT_MAP_SIZE (inode_bit_map f)) \<and>
    block_bit_map g = block_bit_map f \<and>
    dir_at dev g (cwd f) b (es @ [(xs, file_type, k)]) \<and>
    itype (nodes g (unat k)) = file_type \<and> isize (nodes g (unat k)) = 0 \<and> link_cnt (nodes g (unat k)) = 1 \<and>
    others_kept dev {cwd f, unat k} {b} f g \<and>
    name_parse dev junk (Some nm) g = Some (Some (unat k), g) \<and>
    (super_on_disk dev (disk f) \<longrightarrow> table_synced dev f \<longrightarrow> meta_on_disk dev g (disk g))"
proof -
  obtain g k where g: "do_touch dev junk (Some nm) f = Some g"
    "k \<notin> used_bits INODE_BIT_MAP_SIZE (inode_bit_map f)"
    "used_bits INODE_BIT_MAP_SIZE (inode_bit_map g) = insert k (used_bits INODE_BIT_MAP_SIZE (inode_bit_map f))"
    "block_bit_map g = block_bit_map f"
    "dir_at dev g (cwd f) b (es @ [(xs, file_type, k)])"
    "itype (nodes g (unat k)) = file_type" "isize (nodes g (unat k)) = 0" "link_cnt (nodes g (unat k)) = 1"
    "others_kept dev {cwd f, unat k} {b} f g"
    "name_parse dev junk (Some nm) g = Some (Some (unat k), g)"
    "super_on_disk dev (disk f) \<Longrightarrow> table_synced dev f \<Longrightarrow> meta_on_disk dev g (disk g)"
    by (rule do_touch_effect [OF assms]) (rule that, assumption+)
  show ?thesis by (intro exI [of _ g] exI [of _ k] conjI impI g)
qed

lemma do_mkdir_effect:
  assumes dev: "sd_ok dev" and sb: "super_block f = std_super"
    and d: "dir_at dev f (cwd f) b es" and room: "length es < DENTRY_NUM"
    and nm: "cstr nm 0 xs" "component xs" "xs \<noteq> []" "length xs < MAX_NAME_LEN"
    and free: "used_bits INODE_BIT_MAP_SIZE (inode_bit_map f) \<noteq> {k. unat k < INODE_MAX_NUMBER}"
      "used_bits DATA_BLOCK_BIT_MAP_SIZE (block_bit_map f) \<noteq> {l. unat l < DATA_BLOCK_MAX_NUMBER}"
    and used: "word_of_nat (cwd f) \<in> used_bits INODE_BIT_MAP_SIZE (inode_bit_map f)"
      "word_of_nat b \<in> used_bits DATA_BLOCK_BIT_MAP_SIZE (block_bit_map f)"
  obtains g k l where "do_mkdir dev junk (Some nm) f = Some g"
    "k \<notin> used_bits INODE_BIT_MAP_SIZE (inode_bit_map f)" "l \<notin> used_bits DATA_BLOCK_BIT_MAP_SIZE (block_bit_map f)"
    "used_bits INODE_BIT_MAP_SIZE (inode_bit_map g) = insert k (used_bits INODE_BIT_MAP_SIZE (inode_bit_map f))"
    "used_bits DATA_BLOCK_BIT_MAP_SIZE (block_bit_map g) = insert l (used_bits DATA_BLOCK_BIT_MAP_SIZE (block_bit_map f))"
    "dir_at dev g (cwd f) b (es @ [(xs, dir_type, k)])"
    "dir_at dev g (unat k) (unat l) (dot_dirs k (word_of_nat (cwd f)))"
    "itype (nodes g (unat k)) = dir_type" "itype (nodes g (cwd f)) = itype (nodes f (cwd f))" "unat k \<noteq> cwd f"
    "others_kept dev {cwd f, unat k} {b, unat l} f g"
    "super_on_disk dev (disk f) \<Longrightarrow> table_synced dev f \<Longrightarrow> meta_on_disk dev g (disk g)"
proof -
  obtain k where k: "find_first_zero_bit (inode_bit_map f) INODE_BIT_MAP_SIZE = Some k" "unat k < INODE_MAX_NUMBER"
    "k \<notin> used_bits INODE_BIT_MAP_SIZE (inode_bit_map f)"
    "used_bits INODE_BIT_MAP_SIZE (set_bit_map (inode_bit_map f) k) = insert k (used_bits INODE_BIT_MAP_SIZE (inode_bit_map f))"
    using free_bit [of INODE_BIT_MAP_SIZE "inode_bit_map f"] free(1) by auto
  obtain l where l: "find_first_zero_bit (block_bit_map f) DATA_BLOCK_BIT_MAP_SIZE = Some l" "unat l < DATA_BLOCK_MAX_NUMBER"
    "l \<notin> used_bits DATA_BLOCK_BIT_MAP_SIZE (block_bit_map f)"
    "used_bits DATA_BLOCK_BIT_MAP_SIZE (set_bit_map (block_bit_map f) l) = insert l (used_bits DATA_BLOCK_BIT_MAP_SIZE (block_bit_map f))"
    using free_bit [of DATA_BLOCK_BIT_MAP_SIZE "block_bit_map f"] free(2) by auto
  have ne: "unat k \<noteq> cwd f" "unat l \<noteq> b"
    by (rule used_other [OF k(3) used(1)], rule used_other [OF l(3) used(2)])
  have b: "b < DATA_BLOCK_MAX_NUMBER" and c: "cwd f < INODE_MAX_NUMBER" using d by (simp_all add: dir_at_def)
  obtain b1 b2 h where h: "do_mkdir dev junk (Some nm) f = Some (update_inode dev (update_bit_map dev h))"
    "dir_rep b1 (es @ [(xs, dir_type, k)])" "dir_rep b2 (dot_dirs k (word_of_nat (cwd f)))"
    "h = f\<lparr>inode_bit_map := set_bit_map (inode_bit_map f) k, block_bit_map := set_bit_map (block_bit_map f) l,
       nodes := (nodes f)(cwd f := (nodes f (cwd f))\<lparr>entry_num := entry_num (nodes f (cwd f)) + 1\<rparr>,
         unat k := (hash_update (time_hash (kst f)) (nodes f (unat k)))
           \<lparr>entry_num := 2, itype := dir_type,
            direct := (direct (nodes f (unat k)))(0 := blk_offset (unat l)), link_cnt := 1\<rparr>),
       disk := sdwrite dev b2 (blk_offset (unat l)) 4096 (sdwrite dev b1 (blk_offset b) 4096 (disk f)),
       inode_dirty := (inode_dirty f)(cwd f div 32 := 1, unat k div 32 := 1)\<rparr>"
    by (rule do_mkdir_spec [OF dev sb d room nm k(1) ne(1) l(1)]) (rule that, assumption+)
  define g where "g = update_inode dev (update_bit_map dev h)"
  obtain dd y where g: "g = h\<lparr>disk := dd, inode_dirty := y\<rparr>"
    and blk: "\<And>l j. l < DATA_BLOCK_MAX_NUMBER \<Longrightarrow> j < BLOCK_SIZE \<Longrightarrow> blk_bytes dev dd l j = blk_bytes dev (disk h) l j"
    and meta: "super_on_disk dev (disk h) \<Longrightarrow> table_synced dev h \<Longrightarrow> meta_on_disk dev h dd"
    by (rule flushed [of dev h g]) (simp_all add: dev h(4) sb g_def)
  have dh: "disk h = sdwrite dev b2 (blk_offset (unat l)) 4096 (sdwrite dev b1 (blk_offset b) 4096 (disk f))"
    by (simp add: h(4))
  note wr = blk_write(2,3) [OF dev b] blk_write(2,3) [OF dev l(2)]
  have dir: "dir_at dev g (cwd f) b (es @ [(xs, dir_type, k)])"
    using ne by (intro dir_at_grown [OF d room h(2)]) (simp_all add: g blk b dh wr h(4))
  have "dir_rep (blk_bytes dev dd (unat l)) (dot_dirs k (word_of_nat (cwd f))) = dir_rep b2 (dot_dirs k (word_of_nat (cwd f)))"
    by (rule dir_rep_cong) (simp add: blk l(2) dh wr)
  then have sub: "dir_at dev g (unat k) (unat l) (dot_dirs k (word_of_nat (cwd f)))"
    using h(3) k(2) l(2) by (simp add: dir_at_def g h(4))
  have kept: "others_kept dev {cwd f, unat k} {b, unat l} f g"
    by (auto simp: others_kept_def g blk dh wr h(4))
  have k': "itype (nodes g (unat k)) = dir_type" and c': "itype (nodes g (cwd f)) = itype (nodes f (cwd f))"
    using ne(1) by (simp_all add: g h(4))
  have syn: "table_synced dev h" if "table_synced dev f"
    by (rule table_synced_upd [OF that])
      (auto simp: h(4) blk_write_meta(2) [OF dev b] blk_write_meta(2) [OF dev l(2)] split: if_splits)
  have md: "meta_on_disk dev g (disk g)" if "super_on_disk dev (disk f)" "table_synced dev f"
    using meta [OF _ syn [OF that(2)]] that(1)
    by (simp add: dh blk_write_meta(1) [OF dev b] blk_write_meta(1) [OF dev l(2)] g)
  have maps: "inode_bit_map g = set_bit_map (inode_bit_map f) k" "block_bit_map g = set_bit_map (block_bit_map f) l"
    by (simp_all add: g h(4))
  have k4: "used_bits INODE_BIT_MAP_SIZE (inode_bit_map g) = insert k (used_bits INODE_BIT_MAP_SIZE (inode_bit_map f))"
    and l4: "used_bits DATA_BLOCK_BIT_MAP_SIZE (block_bit_map g) = insert l (used_bits DATA_BLOCK_BIT_MAP_SIZE (block_bit_map f))"
    using k(4) l(4) by (simp_all add: maps)
  show ?thesis
    by (rule that [OF h(1) [folded g_def] k(3) l(3) k4 l4 dir sub k' c' ne(1) kept md])
qed

text \<open>
  C21: Making a directory. In a current directory with room for an entry, \<open>do_mkdir\<close> with a new name of one
  component succeeds whenever an inode and a data block are free: the directory then has the old entries and
  the new one, the new inode is a directory in a block that was free, with the entries \<open>.\<close> for itself and
  \<open>..\<close> for its parent, no other inode and no other data block changes, \<open>name_parse\<close> of the new name
  gives the new inode, and of this name followed by \<open>/..\<close> the current directory again. When memory and card
  agreed before, the card holds all metadata afterwards.
\<close>

theorem mkdir_then_lookup:
  assumes dev: "sd_ok dev" and sb: "super_block f = std_super"
    and d: "dir_at dev f (cwd f) b es" and room: "length es < DENTRY_NUM"
    and nm: "cstr nm 0 xs" "component xs" "xs \<noteq> []" "length xs < MAX_NAME_LEN" and new: "xs \<notin> fst ` set es"
    and free: "used_bits INODE_BIT_MAP_SIZE (inode_bit_map f) \<noteq> {k. unat k < INODE_MAX_NUMBER}"
      "used_bits DATA_BLOCK_BIT_MAP_SIZE (block_bit_map f) \<noteq> {l. unat l < DATA_BLOCK_MAX_NUMBER}"
    and used: "word_of_nat (cwd f) \<in> used_bits INODE_BIT_MAP_SIZE (inode_bit_map f)"
      "word_of_nat b \<in> used_bits DATA_BLOCK_BIT_MAP_SIZE (block_bit_map f)"
    and up: "cstr nm2 0 (xs @ cs ''/..'')" "itype (nodes f (cwd f)) \<noteq> soft_link_type"
  shows "\<exists>g k l. do_mkdir dev junk (Some nm) f = Some g \<and>
    k \<notin> used_bits INODE_BIT_MAP_SIZE (inode_bit_map f) \<and>
    l \<notin> used_bits DATA_BLOCK_BIT_MAP_SIZE (block_bit_map f) \<and>
    used_bits INODE_BIT_MAP_SIZE (inode_bit_map g) = insert k (used_bits INODE_BIT_MAP_SIZE (inode_bit_map f)) \<and>
    used_bits DATA_BLOCK_BIT_MAP_SIZE (block_bit_map g) = insert l (used_bits DATA_BLOCK_BIT_MAP_SIZE (block_bit_map f)) \<and>
    dir_at dev g (cwd f) b (es @ [(xs, dir_type, k)]) \<and>
    dir_at dev g (unat k) (unat l) [(cs ''.'', dir_type, k), (cs ''..'', dir_type, word_of_nat (cwd f))] \<and>
    itype (nodes g (unat k)) = dir_type \<and> others_kept dev {cwd f, unat k} {b, unat l} f g \<and>
    name_parse dev junk (Some nm) g = Some (Some (unat k), g) \<and>
    name_parse dev junk (Some nm2) g = Some (Some (cwd f), g) \<and>
    (super_on_disk dev (disk f) \<longrightarrow> table_synced dev f \<longrightarrow> meta_on_disk dev g (disk g))"
proof -
  obtain g k l where g: "do_mkdir dev junk (Some nm) f = Some g"
    and k: "k \<notin> used_bits INODE_BIT_MAP_SIZE (inode_bit_map f)" "l \<notin> used_bits DATA_BLOCK_BIT_MAP_SIZE (block_bit_map f)"
    "used_bits INODE_BIT_MAP_SIZE (inode_bit_map g) = insert k (used_bits INODE_BIT_MAP_SIZE (inode_bit_map f))"
    "used_bits DATA_BLOCK_BIT_MAP_SIZE (block_bit_map g) = insert l (used_bits DATA_BLOCK_BIT_MAP_SIZE (block_bit_map f))"
    and dir: "dir_at dev g (cwd f) b (es @ [(xs, dir_type, k)])"
    and sub: "dir_at dev g (unat k) (unat l) (dot_dirs k (word_of_nat (cwd f)))"
    and k': "itype (nodes g (unat k)) = dir_type" and c': "itype (nodes g (cwd f)) = itype (nodes f (cwd f))"
    and ne: "unat k \<noteq> cwd f" and kept: "others_kept dev {cwd f, unat k} {b, unat l} f g"
    and md: "super_on_disk dev (disk f) \<Longrightarrow> table_synced dev f \<Longrightarrow> meta_on_disk dev g (disk g)"
    by (rule do_mkdir_effect [OF dev sb d room nm free used]) (rule that, assumption+)
  have c: "cwd f < INODE_MAX_NUMBER" "unat k < INODE_MAX_NUMBER" "cwd g = cwd f"
    using d sub kept by (simp_all add: dir_at_def others_kept_def)
  have look: "name_parse dev junk (Some nm) g = Some (Some (unat k), g)"
    using name_parse_single [of dev g b "es @ [(xs, dir_type, k)]" nm xs "(xs, dir_type, k)" junk]
      dev dir nm lookup_new [OF new] c k' by simp
  let ?D = "\<lambda>i. if i = cwd f then es @ [(xs, dir_type, k)] else dot_dirs k (word_of_nat (cwd f))"
  have u: "unat (word_of_nat (cwd f) :: u32) = cwd f" using c by (simp add: unat_of_nat_u32)
  have look2: "lookup_path ?D (cwd f) [xs, cs ''..''] = Some (cwd f)"
    using ne u by (simp add: lookup_new [OF new]) (simp add: dir_find_def)
  have walk: "walk_dirs dev g ?D (cwd f) [xs, cs ''..'']"
    using ne dir sub by (auto simp: lookup_new [OF new]) (auto simp: dir_find_def)
  have ret: "name_parse dev junk (Some nm2) g = Some (Some (cwd f), g)"
    using name_parse_lookup [of dev "[xs, cs ''..'']" nm2 False g ?D junk] dev nm up look2 walk c c'
    by (simp add: component_def del: lookup_path.simps walk_dirs.simps)
  show ?thesis
    using g k dir sub k' kept look ret md
    by (intro exI [of _ g] exI [of _ k] exI [of _ l]) simp
qed

lemma meta_synced: "meta_on_disk dev f (disk f) \<Longrightarrow> super_on_disk dev (disk f) \<and> table_synced dev f"
  by (simp add: meta_on_disk_def table_synced_def)

lemma some_unused: "{0 :: u32} \<noteq> {k. unat k < INODE_MAX_NUMBER}" "{0 :: u32} \<noteq> {k. unat k < DATA_BLOCK_MAX_NUMBER}"
proof -
  have "(1 :: u32) \<in> {k. unat k < INODE_MAX_NUMBER}" "(1 :: u32) \<in> {k. unat k < DATA_BLOCK_MAX_NUMBER}"
    "(1 :: u32) \<notin> {0}" by simp_all
  then show "{0 :: u32} \<noteq> {k. unat k < INODE_MAX_NUMBER}" "{0 :: u32} \<noteq> {k. unat k < DATA_BLOCK_MAX_NUMBER}"
    by metis+
qed

theorem touch_then_lookup_witness:
  "\<exists>f g k. do_mkfs ram_dev (\<lambda>_. 7) blank_fs = Some f \<and>
     do_touch ram_dev (\<lambda>_. 7) (Some (buf_of (cs ''notes''))) f = Some g \<and>
     name_parse ram_dev (\<lambda>_. 7) (Some (buf_of (cs ''notes''))) g = Some (Some k, g) \<and>
     itype (nodes g k) = file_type \<and> meta_on_disk ram_dev g (disk g)"
proof -
  obtain f where f: "do_mkfs ram_dev (\<lambda>_. 7) blank_fs = Some f" "super_block f = std_super" "cwd f = 0"
    "dir_at ram_dev f 0 0 (dot_dirs 0 0)" "used_bits INODE_BIT_MAP_SIZE (inode_bit_map f) = {0}"
    "meta_on_disk ram_dev f (disk f)"
    by (rule formatted_root) (rule that, assumption+)
  have nm: "cstr (buf_of (cs ''notes'')) 0 (cs ''notes'')" by (rule cstr_buf_of) simp
  have d: "dir_at ram_dev f (cwd f) 0 (dot_dirs 0 0)" using f(3,4) by simp
  have c: "component (cs ''notes'')" "cs ''notes'' \<noteq> []" "length (cs ''notes'') < MAX_NAME_LEN"
    "cs ''notes'' \<notin> fst ` set (dot_dirs 0 0)" "length (dot_dirs 0 0) < DENTRY_NUM"
    by (simp_all add: component_def)
  have u: "used_bits INODE_BIT_MAP_SIZE (inode_bit_map f) \<noteq> {k. unat k < INODE_MAX_NUMBER}"
    "word_of_nat (cwd f) \<in> used_bits INODE_BIT_MAP_SIZE (inode_bit_map f)"
    using f(3,5) some_unused by auto
  show ?thesis
    using touch_then_lookup [OF ram_ok f(2) d c(5) nm c(1-4) u, of "\<lambda>_. 7"] f(1) meta_synced [OF f(6)] by blast
qed

theorem mkdir_then_lookup_witness:
  "\<exists>f g k. do_mkfs ram_dev (\<lambda>_. 7) blank_fs = Some f \<and>
     do_mkdir ram_dev (\<lambda>_. 7) (Some (buf_of (cs ''bin''))) f = Some g \<and>
     name_parse ram_dev (\<lambda>_. 7) (Some (buf_of (cs ''bin''))) g = Some (Some k, g) \<and>
     name_parse ram_dev (\<lambda>_. 7) (Some (buf_of (cs ''bin/..''))) g = Some (Some 0, g)"
proof -
  obtain f where f: "do_mkfs ram_dev (\<lambda>_. 7) blank_fs = Some f" "super_block f = std_super" "cwd f = 0"
    "dir_at ram_dev f 0 0 (dot_dirs 0 0)" "itype (nodes f 0) = 0"
    "used_bits INODE_BIT_MAP_SIZE (inode_bit_map f) = {0}"
    "used_bits DATA_BLOCK_BIT_MAP_SIZE (block_bit_map f) = {0}"
    by (rule formatted_root) (rule that, assumption+)
  have nm: "cstr (buf_of (cs ''bin'')) 0 (cs ''bin'')" by (rule cstr_buf_of) simp
  have nm2: "cstr (buf_of (cs ''bin/..'')) 0 (cs ''bin'' @ cs ''/..'')"
    using cstr_buf_of [of "cs ''bin/..''"] by simp
  have d: "dir_at ram_dev f (cwd f) 0 (dot_dirs 0 0)" using f(3,4) by simp
  have c: "component (cs ''bin'')" "cs ''bin'' \<noteq> []" "length (cs ''bin'') < MAX_NAME_LEN"
    "cs ''bin'' \<notin> fst ` set (dot_dirs 0 0)" "length (dot_dirs 0 0) < DENTRY_NUM"
    by (simp_all add: component_def)
  have u: "used_bits INODE_BIT_MAP_SIZE (inode_bit_map f) \<noteq> {k. unat k < INODE_MAX_NUMBER}"
    "used_bits DATA_BLOCK_BIT_MAP_SIZE (block_bit_map f) \<noteq> {k. unat k < DATA_BLOCK_MAX_NUMBER}"
    "word_of_nat (cwd f) \<in> used_bits INODE_BIT_MAP_SIZE (inode_bit_map f)"
    "word_of_nat 0 \<in> used_bits DATA_BLOCK_BIT_MAP_SIZE (block_bit_map f)"
    "itype (nodes f (cwd f)) \<noteq> soft_link_type"
    using f(3,5,6,7) some_unused by auto
  show ?thesis
    using mkdir_then_lookup [OF ram_ok f(2) d c(5) nm c(1-4) u(1-4) nm2 u(5), of "\<lambda>_. 7"] f(1) unfolding f(3) by blast
qed

text \<open>
  Changing to the root. \<open>name_str_standrize\<close> turns the name \<open>/\<close> into the empty name, which is looked
  up as an entry of the current directory: \<open>do_cd\<close> with \<open>/\<close> reports that there is no such directory and
  stays where it is.
\<close>

theorem cd_root_stays:
  assumes dev: "sd_ok dev" and d: "dir_at dev f (cwd f) b es" and new: "[] \<notin> fst ` set es"
    and cur: "cursor_ok (scr (kst f))"
  shows "\<exists>x. do_cd dev junk (Some (buf_of (cs ''/''))) f = Some (f\<lparr>kst := (kst f)\<lparr>scr := x\<rparr>\<rparr>)"
proof -
  define e where "e = (buf_of (cs ''/''))(0 := 0)"
  have e: "cstr e 0 []" by (simp add: e_def)
  have len: "strlen (buf_of (cs ''/'')) 0 = Some 1"
    using strlen_cstr [OF cstr_buf_of [of "cs ''/''"]] by simp
  have std: "name_str_standrize (Some (buf_of (cs ''/''))) = Some (Some e)"
    using len by (simp add: name_str_standrize_def e_def buf_of_def)
  have none: "List.find (\<lambda>e. fst e = []) es = None" using new by (force simp: find_None_iff image_iff)
  have np: "name_parse dev junk (Some e) f = Some (None, f)"
    using name_parse_lookup [of dev "[[]]" e False f "\<lambda>_. es" junk] dev d e
    by (auto simp: component_def dir_find_def none)
  have arg: "name_arg (Some e) = Some [VStr []]" using strlen_cstr [OF e] by (simp add: name_arg_def str_bytes_def)
  have "args_ok (cs ''No directory named %s'' @ [10]) [VStr []]" by simp
  then obtain x where "fs_printks (cs ''No directory named %s'' @ [10]) [VStr []] f = Some (f\<lparr>kst := (kst f)\<lparr>scr := x\<rparr>\<rparr>)"
    using fs_printks_ok [OF _ cur] by blast
  then show ?thesis
    unfolding do_cd_def std np by (intro exI [of _ x]) (simp add: std np arg del: cs_Cons)
qed

theorem cd_root_stays_witness:
  "\<exists>f g. do_mkfs ram_dev (\<lambda>_. 7) blank_fs = Some f \<and> do_cd ram_dev (\<lambda>_. 7) (Some (buf_of (cs ''/''))) f = Some g"
proof -
  obtain f where f: "do_mkfs ram_dev (\<lambda>_. 7) blank_fs = Some f" "cwd f = 0" "cursor_ok (scr (kst f))"
    "entry_num (nodes f 0) = 2" "direct (nodes f 0) 0 = blk_offset 0"
    "dir_rep (blk_bytes ram_dev (disk f) 0) (dot_dirs 0 0)"
    by (rule do_mkfs_spec [OF ram_ok blank_cursor]) (rule that, assumption+)
  have "dir_at ram_dev f (cwd f) 0 (dot_dirs 0 0)" using f by (simp add: dir_at_def)
  then have "\<exists>x. do_cd ram_dev (\<lambda>_. 7) (Some (buf_of (cs ''/''))) f = Some (f\<lparr>kst := (kst f)\<lparr>scr := x\<rparr>\<rparr>)"
    by (rule cd_root_stays [OF ram_ok _ _ f(3)]) simp
  then show ?thesis using f(1) by blast
qed

lemma do_rm_effect:
  assumes dev: "sd_ok dev" and sb: "super_block f = std_super"
    and d: "dir_at dev f (cwd f) b es" and j: "2 \<le> j" "j < length es" and dist: "distinct (map fst es)"
    and e: "es ! j = (xs, ty, n)" and nm: "cstr nm 0 xs" "component xs" "xs \<noteq> []"
    and n: "unat n < INODE_MAX_NUMBER" "unat n \<noteq> cwd f" "itype (nodes f (unat n)) = file_type"
      "link_cnt (nodes f (unat n)) = 1"
  obtains g where "do_rm dev junk (Some nm) f = Some g"
    "dir_at dev g (cwd f) b (take j es @ drop (Suc j) es)"
    "used_bits INODE_BIT_MAP_SIZE (inode_bit_map g) = used_bits INODE_BIT_MAP_SIZE (inode_bit_map f) - {n}"
    "used_bits DATA_BLOCK_BIT_MAP_SIZE (block_bit_map g) = used_bits DATA_BLOCK_BIT_MAP_SIZE (block_bit_map f) -
      (\<lambda>k. get_data_block_number (direct (nodes f (unat n)) k) f) ` {..<16}"
    "others_kept dev {cwd f, unat n} {b} f g" "length xs < MAX_NAME_LEN"
proof -
  have b: "b < DATA_BLOCK_MAX_NUMBER" and c: "cwd f < INODE_MAX_NUMBER"
    and rep: "dir_rep (blk_bytes dev (disk f) b) es" and en: "unat (entry_num (nodes f (cwd f))) = length es"
    using d by (simp_all add: dir_at_def)
  have len: "length xs < MAX_NAME_LEN" using rep j(2) e by (auto simp: dir_rep_def dentry_def)
  have "List.find (\<lambda>i. fst (es ! i) = xs) [0..<length es] = Some j"
    by (rule find_only) (use j name_only [OF dist j(2)] e in auto)
  then have found: "dir_find es xs = Some (xs, ty, n)"
    using find_index [of es "\<lambda>e. fst e = xs"] e by (simp add: dir_find_def)
  have np: "name_parse dev junk (Some nm) f = Some (Some (unat n), f)"
    using name_parse_single [OF dev d nm len found] n by simp
  obtain m v where rm: "rm_recurse dev junk [unat n] f =
      Some (f\<lparr>block_bit_map := m, nodes := (nodes f)(unat n := v), inode_dirty := (inode_dirty f)(unat n div 32 := 1),
        inode_bit_map := clear_bit (inode_bit_map f) (word_of_nat (unat n))\<rparr>)"
    and m: "\<forall>j. test_bit m j \<longleftrightarrow> test_bit (block_bit_map f) j \<and>
       j \<notin> (\<lambda>k. get_data_block_number (direct (nodes f (unat n)) k) f) ` {..<16}"
    using rm_file [OF n(1,3,4), of dev junk] by (elim exE conjE)
  define f3 where "f3 = f\<lparr>block_bit_map := m, nodes := (nodes f)(unat n := v),
     inode_dirty := (inode_dirty f)(unat n div 32 := 1), inode_bit_map := clear_bit (inode_bit_map f) n\<rparr>"
  have d3: "dir_at dev f3 (cwd f) b es" using d n(2) by (simp add: f3_def dir_at_def)
  have nmj: "cstr nm 0 (fst (es ! j))" using nm(1) e by simp
  obtain b1 where rem: "remove_entry dev junk (cwd f) nm 0 f3 = Some (update_inode dev (update_bit_map dev
      (f3\<lparr>nodes := (nodes f3)(cwd f := (nodes f3 (cwd f))\<lparr>entry_num := entry_num (nodes f3 (cwd f)) - 1\<rparr>),
         disk := sdwrite dev b1 (blk_offset b) 4096 (disk f3)\<rparr>)))"
    and b1: "dir_rep b1 (take j es @ drop (Suc j) es)"
    by (rule remove_entry_spec [OF dev d3 j dist nmj]) (rule that, assumption+)
  define h where "h = f3\<lparr>nodes := (nodes f3)(cwd f := (nodes f3 (cwd f))\<lparr>entry_num := entry_num (nodes f3 (cwd f)) - 1\<rparr>),
         disk := sdwrite dev b1 (blk_offset b) 4096 (disk f3)\<rparr>"
  define g where "g = update_inode dev (update_bit_map dev h)"
  obtain dd y where g: "g = h\<lparr>disk := dd, inode_dirty := y\<rparr>"
    and blk: "\<And>l j. l < DATA_BLOCK_MAX_NUMBER \<Longrightarrow> j < BLOCK_SIZE \<Longrightarrow> blk_bytes dev dd l j = blk_bytes dev (disk h) l j"
    by (rule flushed [of dev h g]) (simp_all add: dev h_def f3_def sb g_def)
  have dh: "disk h = sdwrite dev b1 (blk_offset b) 4096 (disk f)" by (simp add: h_def f3_def)
  have ns: "map (\<lambda>i. nm (0 + i)) [0..<length xs] = xs" using cstr_nth [OF nm(1)] by (auto intro: nth_equalityI)
  then have "str_bytes nm 0 = Some xs" using strlen_cstr [OF nm(1)] by (simp add: str_bytes_def)
  moreover have "count_slashes xs = 0" using nm(2) by (auto simp: count_slashes_def component_def filter_empty_conv)
  ultimately have do_rm: "do_rm dev junk (Some nm) f = Some g"
    using rem rm np by (simp add: do_rm_def standrize_component [OF nm] f3_def g_def h_def)
  have "dir_rep (blk_bytes dev dd b) (take j es @ drop (Suc j) es) = dir_rep b1 (take j es @ drop (Suc j) es)"
    by (rule dir_rep_cong) (simp add: blk b dh blk_write(2) [OF dev b])
  moreover have "unat (entry_num (nodes f (cwd f)) - 1) = length es - 1" using en j by (subst unat_minus_one) auto
  ultimately have dir: "dir_at dev g (cwd f) b (take j es @ drop (Suc j) es)"
    using d b1 n(2) j by (simp add: dir_at_def g h_def f3_def)
  have kept: "others_kept dev {cwd f, unat n} {b} f g"
    by (auto simp: others_kept_def g blk dh blk_write(3) [OF dev b]) (auto simp: h_def f3_def)
  have bits: "used_bits INODE_BIT_MAP_SIZE (inode_bit_map g) = used_bits INODE_BIT_MAP_SIZE (inode_bit_map f) - {n}"
    "used_bits DATA_BLOCK_BIT_MAP_SIZE (block_bit_map g) = used_bits DATA_BLOCK_BIT_MAP_SIZE (block_bit_map f) -
      (\<lambda>k. get_data_block_number (direct (nodes f (unat n)) k) f) ` {..<16}"
    using m by (auto simp: used_bits_def g h_def f3_def test_clear_bit)
  show ?thesis by (rule that [OF do_rm dir bits kept len])
qed


text \<open>A card with one file, inode 5 with one block, in the root directory.\<close>

definition demo_entries :: "(u8 list \<times> u32 \<times> u32) list" where
  "demo_entries = dot_dirs 0 0 @ [(cs ''log'', file_type, 5)]"

definition demo_fs :: "(u32 \<Rightarrow> u8) fs_t" where
  "demo_fs = blank_fs\<lparr>
     disk := sdwrite ram_dev (set_dentry 2 (cs ''log'') file_type 5 (set_dentry 1 (cs ''..'') dir_type 0
       (set_dentry 0 (cs ''.'') dir_type 0 (\<lambda>_. 0)))) (blk_offset 0) 4096 (\<lambda>_. 0),
     nodes := (\<lambda>_. blank_inode)(
       0 := blank_inode\<lparr>entry_num := 3, direct := (\<lambda>_. 0)(0 := blk_offset 0)\<rparr>,
       5 := blank_inode\<lparr>itype := file_type, link_cnt := 1, direct := (\<lambda>_. 0)(0 := blk_offset 1)\<rparr>)\<rparr>"

lemma demo_dir: "dir_at ram_dev demo_fs 0 0 demo_entries"
proof -
  let ?b = "set_dentry 2 (cs ''log'') file_type 5 (set_dentry 1 (cs ''..'') dir_type 0
       (set_dentry 0 (cs ''.'') dir_type 0 (\<lambda>_. 0)))"
  have "dir_rep (set_dentry 0 (cs ''.'') dir_type 0 (\<lambda>_. 0)) [(cs ''.'', dir_type, 0)]"
    using dir_rep_snoc [OF dir_rep_Nil, of "cs ''.''" dir_type 0 "\<lambda>_. 0"] by simp
  then have "dir_rep (set_dentry 1 (cs ''..'') dir_type 0 (set_dentry 0 (cs ''.'') dir_type 0 (\<lambda>_. 0))) (dot_dirs 0 0)"
    using dir_rep_snoc [of _ "[(cs ''.'', dir_type, 0)]" "cs ''..''" dir_type 0] by simp
  then have "dir_rep ?b demo_entries"
    using dir_rep_snoc [of _ "dot_dirs 0 0" "cs ''log''" file_type 5] by (simp add: demo_entries_def numeral_2_eq_2 [symmetric])
  moreover have "dir_rep (blk_bytes ram_dev (disk demo_fs) 0) demo_entries = dir_rep ?b demo_entries"
    by (rule dir_rep_cong) (simp add: demo_fs_def blk_write(2) [OF ram_ok] del: cs_Cons)
  ultimately show ?thesis by (simp add: dir_at_def demo_fs_def demo_entries_def)
qed


end
