(* ===== verification/Fs_File.thy ===== *)
theory Fs_File
  imports Fs_Path
begin

text \<open>
  Files, from \<^verbatim>\<open>kernel/fs/fs.c\<close>: opening, reading, writing, seeking, closing and growing a file through
  the one descriptor of the running process.

  \<open>do_fwrite\<close> and \<open>do_fread\<close> call themselves for the parts of a request; they are modelled on the list of the
  calls that are still to be made, where a call is a position in the caller's buffer and a size, and a loop
  over blocks is the call it makes next and the rest of the loop. A recursion that never ends has no outcome.
  \<open>do_resize\<close> passes a pointer where \<open>mark_inode_dirty\<close> expects the number of an inode; the
  address of \<open>nodes\<close> is an argument \<open>nodes_addr\<close>, and the store goes to the index the code computes, which is
  outside of \<open>inode_dirty\<close> for every kernel address.
\<close>

abbreviation "O_WR \<equiv> (1 :: int)"

subsection \<open>Descriptors\<close>

text \<open>\<open>&current_running->fd[fd]\<close>: the process has an array of one descriptor.\<close>

definition the_desc :: "int \<Rightarrow> 'd fs_t \<Rightarrow> (nat \<times> file_desc_t) option" where
  "the_desc n f = do {
     c \<leftarrow> current_running (kst f);
     if n = 0 then Some (c, fd (pcb (kst f) c)) else None }"

definition upd_desc :: "nat \<Rightarrow> (file_desc_t \<Rightarrow> file_desc_t) \<Rightarrow> 'd fs_t \<Rightarrow> 'd fs_t" where
  "upd_desc c g f = f\<lparr>kst := upd_pcb c (\<lambda>p. p\<lparr>fd := g (fd p)\<rparr>) (kst f)\<rparr>"

definition do_fopen :: "'d sd_dev \<Rightarrow> buffer \<Rightarrow> buffer option \<Rightarrow> int \<Rightarrow> 'd fs_t \<Rightarrow> 'd fs_t option" where
  "do_fopen dev junk name access f =
     (if name = None then fs_printks (cs ''[ERROR] No file name provided'' @ [10]) [] f
      else do {
        nm \<leftarrow> name_str_standrize name;
        (target, f1) \<leftarrow> name_parse dev junk nm f;
        (target2, f2) \<leftarrow>
          (case target of
             Some t \<Rightarrow> Some (Some t, f1)
           | None \<Rightarrow> do {
               g \<leftarrow> do_touch dev junk nm f1;
               nm2 \<leftarrow> name_str_standrize nm;
               name_parse dev junk nm2 g });
        t \<leftarrow> target2;
        n \<leftarrow> node_at t f2;
        if itype n = dir_type then fs_printks (cs ''[ERROR] Cannot open a directory as file'' @ [10]) [] f2
        else if itype n = file_type then do {
          (c, d) \<leftarrow> the_desc 0 f2;
          Some (upd_desc c (\<lambda>d. d\<lparr>fd_file := Some t, file_access := access, fd_pos := 0\<rparr>) f2) }
        else Some f2 })"

definition do_fclose :: "int \<Rightarrow> 'd fs_t \<Rightarrow> 'd fs_t option" where
  "do_fclose n f = do {
     (c, d) \<leftarrow> the_desc n f;
     Some (upd_desc c (\<lambda>d. d\<lparr>fd_pos := 0, file_access := 0\<rparr>) f) }"

definition do_fseek :: "int \<Rightarrow> u32 \<Rightarrow> 'd fs_t \<Rightarrow> 'd fs_t option" where
  "do_fseek n p f = do {
     (c, d) \<leftarrow> the_desc n f;
     Some (upd_desc c (\<lambda>d. d\<lparr>fd_pos := p\<rparr>) f) }"

subsection \<open>Growing\<close>

text \<open>The number of blocks of a size, in 32 bits.\<close>

definition blocks :: "u32 \<Rightarrow> u32" where
  "blocks sz = (sz + 4096 - 1) div 4096"

definition add_block :: "nat \<Rightarrow> nat \<Rightarrow> 'd fs_t \<Rightarrow> 'd fs_t option" where
  "add_block i k f = do {
     b \<leftarrow> find_first_zero_bit (block_bit_map f) DATA_BLOCK_BIT_MAP_SIZE;
     let (ok, f1) = allocate_data_block b f;
     Some (upd_node i (\<lambda>n. n\<lparr>direct := (direct n)(k := get_data_block_offset b f1)\<rparr>) f1) }"

definition do_resize :: "'d sd_dev \<Rightarrow> u32 \<Rightarrow> nat \<Rightarrow> u32 \<Rightarrow> 'd fs_t \<Rightarrow> 'd fs_t option" where
  "do_resize dev nodes_addr i sz f = do {
     n \<leftarrow> node_at i f;
     let used_blk = blocks (isize n);
     let all_blk = blocks sz;
     if used_blk < all_blk then do {
       let f1 = upd_node i (\<lambda>n. n\<lparr>isize := sz\<rparr>) f;
       f2 \<leftarrow> (if all_blk < 16 then for_upto_opt (unat used_blk) (unat all_blk) (add_block i) f1 else Some f1);
       Some (update_inode dev (mark_inode_dirty (nodes_addr + 128 * word_of_nat i) (update_bit_map dev f2))) }
     else Some f }"

subsection \<open>Writing\<close>

datatype fcall =
    Call nat u32        \<comment> \<open>position in the caller's buffer, size\<close>
  | Loop nat u32 u32    \<comment> \<open>position, \<open>st\<close>, size\<close>

text \<open>The end of \<open>do_fwrite\<close>, for a request inside of one block.\<close>

definition fwrite_block ::
  "'d sd_dev \<Rightarrow> nat \<Rightarrow> nat \<Rightarrow> u32 \<Rightarrow> bool \<Rightarrow> buffer \<Rightarrow> nat \<Rightarrow> u32 \<Rightarrow> 'd fs_t \<Rightarrow> 'd fs_t option" where
  "fwrite_block dev c i pos resized buf off sz f =
     (if pos < 16 * 4096 then do {
        n \<leftarrow> node_at i f;
        let blk = direct n (unat (pos div 4096));
        let r = unat (pos AND 4095);
        let w = for_upto 0 (min (unat sz) (BLOCK_SIZE - r)) (\<lambda>j w. w(j + r := buf (off + j)))
          (do_fs_read dev blk (fwrite_wbuf f) BLOCK_SIZE f);
        let f1 = upd_desc c (\<lambda>d. d\<lparr>fd_pos := fd_pos d + sz\<rparr>) (f\<lparr>fwrite_wbuf := w\<rparr>);
        let f2 = (if resized then f1 else upd_node i (\<lambda>n. n\<lparr>isize := isize n + sz\<rparr>) f1);
        Some (update_inode dev (update_bit_map dev (mark_inode_dirty (word_of_nat i)
          (do_fs_write dev blk w BLOCK_SIZE f2)))) }
      else None)"

partial_function (option) fwrite_calls ::
  "'d sd_dev \<Rightarrow> u32 \<Rightarrow> int \<Rightarrow> buffer \<Rightarrow> fcall list \<Rightarrow> 'd fs_t \<Rightarrow> 'd fs_t option" where
  "fwrite_calls dev nodes_addr m buf xs f =
     (case xs of
        [] \<Rightarrow> Some f
      | Loop off st sz # rest \<Rightarrow>
          if st < sz
          then fwrite_calls dev nodes_addr m buf
                 (Call (off + unat st) (min 4096 (sz - st)) # Loop off (st + 4096) sz # rest) f
          else fwrite_calls dev nodes_addr m buf rest f
      | Call off sz # rest \<Rightarrow> do {
          (c, d) \<leftarrow> the_desc m f;
          let pos = fd_pos d;
          i \<leftarrow> fd_file d;
          n \<leftarrow> node_at i f;
          let resized = (blocks (isize n) < blocks (pos + sz));
          f1 \<leftarrow> (if resized then do_resize dev nodes_addr i (pos + sz) f else Some f);
          if file_access d AND (if O_WR = 0 then 1 else 0) \<noteq> 0
          then do {
            f2 \<leftarrow> fs_printks (cs ''No write permission'' @ [10]) [] f1;
            fwrite_calls dev nodes_addr m buf rest f2 }
          else if 4096 < sz then fwrite_calls dev nodes_addr m buf (Loop off 0 sz # rest) f1
          else if pos div 4096 \<noteq> (pos + sz) div 4096
          then (let fst_sz = 4096 - (pos AND 4095)
                in fwrite_calls dev nodes_addr m buf
                     (Call off fst_sz # Call (off + unat fst_sz) (sz - fst_sz) # rest) f1)
          else do {
            f2 \<leftarrow> fwrite_block dev c i pos resized buf off sz f1;
            fwrite_calls dev nodes_addr m buf rest f2 } })"

definition do_fwrite :: "'d sd_dev \<Rightarrow> u32 \<Rightarrow> int \<Rightarrow> buffer \<Rightarrow> u32 \<Rightarrow> 'd fs_t \<Rightarrow> 'd fs_t option" where
  "do_fwrite dev nodes_addr m buf sz f = fwrite_calls dev nodes_addr m buf [Call 0 sz] f"

subsection \<open>Reading\<close>

text \<open>The end of \<open>do_fread\<close>; the two branches of the code copy from \<open>rbuf[i + r]\<close> and, when \<open>r\<close> is zero,
  from \<open>rbuf[i]\<close>.\<close>

definition fread_block ::
  "'d sd_dev \<Rightarrow> nat \<Rightarrow> nat \<Rightarrow> u32 \<Rightarrow> nat \<Rightarrow> u32 \<Rightarrow> buffer \<times> 'd fs_t \<Rightarrow> (buffer \<times> 'd fs_t) option" where
  "fread_block dev c i pos off sz st =
     (if pos < 16 * 4096 then do {
        let (buf, f) = st;
        n \<leftarrow> node_at i f;
        let rbuf = do_fs_read dev (direct n (unat (pos div 4096))) (fread_rbuf f) BLOCK_SIZE f;
        let buf1 = (if pos AND 4095 \<noteq> 0
          then (let r = unat (pos AND 4095)
                in for_upto 0 (min (unat sz) (BLOCK_SIZE - r)) (\<lambda>j b. b(off + j := rbuf (j + r))) buf)
          else for_upto 0 (min (unat sz) BLOCK_SIZE) (\<lambda>j b. b(off + j := rbuf j)) buf);
        Some (buf1, upd_desc c (\<lambda>d. d\<lparr>fd_pos := fd_pos d + sz\<rparr>) (f\<lparr>fread_rbuf := rbuf\<rparr>)) }
      else None)"

partial_function (option) fread_calls ::
  "'d sd_dev \<Rightarrow> int \<Rightarrow> fcall list \<Rightarrow> buffer \<times> 'd fs_t \<Rightarrow> (buffer \<times> 'd fs_t) option" where
  "fread_calls dev m xs s =
     (case xs of
        [] \<Rightarrow> Some s
      | Loop off st sz # rest \<Rightarrow>
          if st < sz
          then fread_calls dev m (Call (off + unat st) (min 4096 (sz - st)) # Loop off (st + 4096) sz # rest) s
          else fread_calls dev m rest s
      | Call off sz # rest \<Rightarrow> do {
          (c, d) \<leftarrow> the_desc m (snd s);
          let pos = fd_pos d;
          i \<leftarrow> fd_file d;
          n \<leftarrow> node_at i (snd s);
          if isize n < pos + sz
          then do {
            g \<leftarrow> fs_printks (cs ''[ERROR] Access violation'' @ [10]) [] (snd s);
            fread_calls dev m rest (fst s, g) }
          else if 4096 < sz then fread_calls dev m (Loop off 0 sz # rest) s
          else if pos div 4096 \<noteq> (pos + sz) div 4096
          then (let fst_sz = 4096 - (pos AND 4095)
                in fread_calls dev m (Call off fst_sz # Call (off + unat fst_sz) (sz - fst_sz) # rest) s)
          else do {
            s1 \<leftarrow> fread_block dev c i pos off sz s;
            fread_calls dev m rest s1 } })"

definition do_fread :: "'d sd_dev \<Rightarrow> int \<Rightarrow> buffer \<Rightarrow> u32 \<Rightarrow> 'd fs_t \<Rightarrow> (buffer \<times> 'd fs_t) option" where
  "do_fread dev m buf sz f = fread_calls dev m [Call 0 sz] (buf, f)"

declare fwrite_calls.simps [code] fread_calls.simps [code]

section \<open>Theory of files\<close>

subsection \<open>Positions\<close>

lemma unat_and4095: "unat (p AND 4095 :: u32) = unat p mod 4096"
proof -
  have "p AND 4095 = take_bit 12 p" by (simp add: take_bit_eq_mask mask_eq_exp_minus_1)
  then show ?thesis by (simp only: unsigned_take_bit_eq) (simp add: take_bit_eq_mod)
qed

lemma unat_blocks: "unat x + 4095 < 4294967296 \<Longrightarrow> unat (blocks x) = (unat x + 4095) div 4096"
proof -
  assume "unat x + 4095 < 4294967296"
  then have "unat (x + word_of_nat 4095) = unat x + 4095" by (rule unat_plus_small)
  moreover have "x + 4096 - 1 = x + word_of_nat 4095" by simp
  ultimately show ?thesis by (simp add: blocks_def unat_div add.commute [of 4095])
qed

lemma div_same_block: "r = p mod 4096 \<Longrightarrow> r + s < 4096 \<Longrightarrow> (p + s) div 4096 = p div (4096 :: nat)"
  by (simp add: div_add1_eq [of p s])

lemma next_block: "0 < s \<Longrightarrow> p mod 4096 + s < 4096 \<Longrightarrow> (p + s + 4095) div 4096 = p div 4096 + (1 :: nat)"
proof -
  assume s: "0 < s" "p mod 4096 + s < 4096"
  have "p + s + 4095 = p div 4096 * 4096 + (p mod 4096 + s + 4095)" by simp
  then have "(p + s + 4095) div 4096 = p div 4096 + (p mod 4096 + s + 4095) div 4096"
    by (metis div_mult_self3 zero_neq_numeral)
  moreover have "(p mod 4096 + s + 4095) div 4096 = 1" using s by (intro div_nat_eqI) simp_all
  ultimately show ?thesis by simp
qed

text \<open>A request that starts in one of the first 15 blocks and ends before the end of this block.\<close>

definition in_one_block :: "u32 \<Rightarrow> u32 \<Rightarrow> bool" where
  "in_one_block pos sz \<longleftrightarrow> unat pos < 15 * BLOCK_SIZE \<and> 0 < sz \<and> unat pos mod BLOCK_SIZE + unat sz < BLOCK_SIZE"

lemma in_one_blockD:
  assumes "in_one_block pos sz"
  shows "unat (pos + sz) = unat pos + unat sz" "pos div 4096 = (pos + sz) div 4096" "\<not> 4096 < sz"
    "unat (blocks (pos + sz)) = unat pos div 4096 + 1" "pos < 16 * 4096" "unat (pos div 4096) = unat pos div 4096"
proof -
  have sz: "unat sz < 4096" and p: "unat pos < 61440" and r: "unat pos mod 4096 + unat sz < 4096" and pz: "0 < unat sz"
    using assms by (auto simp: in_one_block_def word_less_nat_alt)
  have sum: "unat (pos + word_of_nat (unat sz)) = unat pos + unat sz" using sz p by (intro unat_plus_small) simp
  then show s: "unat (pos + sz) = unat pos + unat sz" by simp
  show "pos div 4096 = (pos + sz) div 4096"
    using div_same_block [OF refl r] s by (simp add: word_unat_eq_iff unat_div)
  show "\<not> 4096 < sz" "pos < 16 * 4096" "unat (pos div 4096) = unat pos div 4096"
    using sz p by (simp_all add: word_less_nat_alt unat_div)
  have "(unat pos + unat sz + 4095) div 4096 = unat pos div 4096 + 1"
    using pz r next_block by simp
  then show "unat (blocks (pos + sz)) = unat pos div 4096 + 1"
    using s sz p by (subst unat_blocks) simp_all
qed

subsection \<open>Writing in one block\<close>

lemma node_at_Some: "i < INODE_MAX_NUMBER \<Longrightarrow> node_at i f = Some (nodes f i)"
  by (simp add: node_at_def)

lemma fwrite_calls_Nil: "fwrite_calls dev nodes_addr m buf [] = Some"
  by (rule ext) (simp add: fwrite_calls.simps)

lemma do_fwrite_one:
  assumes "current_running (kst f) = Some c" "fd (pcb (kst f) c) = d" "fd_file d = Some i" "i < INODE_MAX_NUMBER"
    and "in_one_block (fd_pos d) sz"
  shows "do_fwrite dev nodes_addr 0 buf sz f =
    (let resized = (blocks (isize (nodes f i)) < blocks (fd_pos d + sz)) in
     Option.bind (if resized then do_resize dev nodes_addr i (fd_pos d + sz) f else Some f)
       (fwrite_block dev c i (fd_pos d) resized buf 0 sz))"
proof -
  note one = in_one_blockD [OF assms(5)]
  show ?thesis
    unfolding do_fwrite_def
    by (subst fwrite_calls.simps)
      (simp add: the_desc_def assms(1-3) node_at_Some [OF assms(4)] Let_def one(2,3) fwrite_calls_Nil)
qed

text \<open>The inode table agrees with the card up to dirty blocks and the block of inode \<open>i\<close>.\<close>

definition table_synced_but :: "'d sd_dev \<Rightarrow> nat \<Rightarrow> 'd fs_t \<Rightarrow> bool" where
  "table_synced_but dev i f \<longleftrightarrow>
     (\<forall>x. in_table x \<longrightarrow> (unat x - 134252032) div 4096 \<noteq> i div 32 \<longrightarrow>
        inode_dirty f ((unat x - 134252032) div 4096) = 0 \<longrightarrow>
        disk_byte dev (disk f) x = nodes_bytes (nodes f) (unat x - 134252032))"

lemma nodes_bytes_other: "p div 4096 \<noteq> i div 32 \<Longrightarrow> nodes_bytes ((nodes f)(i := w)) p = nodes_bytes (nodes f) p"
proof -
  assume a: "p div 4096 \<noteq> i div 32"
  have "p div 128 div 32 = p div 4096" by (simp add: div_mult2_eq [symmetric])
  then have "p div 128 \<noteq> i" using a by auto
  then show ?thesis by (simp add: nodes_bytes_def)
qed

lemma fwrite_block_spec:
  assumes dev: "sd_ok dev" and sb: "super_block f = std_super" and i: "i < INODE_MAX_NUMBER"
    and one: "in_one_block pos sz"
    and k: "direct (nodes f i) (unat pos div BLOCK_SIZE) = blk_offset k" "k < DATA_BLOCK_MAX_NUMBER"
  obtains d y w where "fwrite_block dev c i pos resized buf off sz f =
      Some (f\<lparr>fwrite_wbuf := w, kst := upd_pcb c (\<lambda>p. p\<lparr>fd := (fd p)\<lparr>fd_pos := fd_pos (fd p) + sz\<rparr>\<rparr>) (kst f),
        nodes := (nodes f)(i := (nodes f i)\<lparr>isize := (if resized then isize (nodes f i) else isize (nodes f i) + sz)\<rparr>),
        disk := d, inode_dirty := y\<rparr>)"
    "\<And>j. j < BLOCK_SIZE \<Longrightarrow> blk_bytes dev d k j =
      (if unat pos mod BLOCK_SIZE \<le> j \<and> j < unat pos mod BLOCK_SIZE + unat sz
       then buf (off + (j - unat pos mod BLOCK_SIZE)) else blk_bytes dev (disk f) k j)"
    "\<And>l j. l < DATA_BLOCK_MAX_NUMBER \<Longrightarrow> l \<noteq> k \<Longrightarrow> j < BLOCK_SIZE \<Longrightarrow>
      blk_bytes dev d l j = blk_bytes dev (disk f) l j"
    "super_on_disk dev (disk f) \<Longrightarrow> table_synced_but dev i f \<Longrightarrow>
      meta_on_disk dev (f\<lparr>nodes := (nodes f)(i := (nodes f i)\<lparr>isize := (if resized then isize (nodes f i) else isize (nodes f i) + sz)\<rparr>)\<rparr>) d"
proof -
  define r where "r = unat pos mod BLOCK_SIZE"
  define ns where "ns = (nodes f)(i := (nodes f i)\<lparr>isize := (if resized then isize (nodes f i) else isize (nodes f i) + sz)\<rparr>)"
  have rs: "r + unat sz < 4096" using one by (simp add: r_def in_one_block_def)
  define w where "w = (\<lambda>x. if r \<le> x \<and> x < r + unat sz then buf (off + (x - r))
     else do_fs_read dev (blk_offset k) (fwrite_wbuf f) BLOCK_SIZE f x)"
  have w: "for_upto 0 (min (unat sz) (BLOCK_SIZE - r)) (\<lambda>j w. w(j + r := buf (off + j)))
      (do_fs_read dev (blk_offset k) (fwrite_wbuf f) BLOCK_SIZE f) = w"
    using for_upto_store [of "unat sz" r "\<lambda>j. buf (off + j)"] rs by (simp add: w_def add.commute [of _ r])
  define h where "h = f\<lparr>fwrite_wbuf := w, kst := upd_pcb c (\<lambda>p. p\<lparr>fd := (fd p)\<lparr>fd_pos := fd_pos (fd p) + sz\<rparr>\<rparr>) (kst f),
     nodes := ns, disk := sdwrite dev w (blk_offset k) 4096 (disk f), inode_dirty := (inode_dirty f)(i div 32 := 1)\<rparr>"
  define g where "g = update_inode dev (update_bit_map dev h)"
  note oneD = in_one_blockD [OF one]
  have sel: "(if resized then f\<lparr>fwrite_wbuf := w, kst := z\<rparr> else upd_node i (\<lambda>n. n\<lparr>isize := isize n + sz\<rparr>) (f\<lparr>fwrite_wbuf := w, kst := z\<rparr>)) =
      f\<lparr>fwrite_wbuf := w, kst := z, nodes := ns\<rparr>" for z
    by (simp add: ns_def upd_node_def)
  have wr: "fwrite_block dev c i pos resized buf off sz f = Some g"
    using oneD(5) k(1) w
    by (simp add: fwrite_block_def node_at_Some [OF i] oneD(6) unat_and4095 r_def [symmetric] Let_def upd_desc_def
        g_def h_def do_fs_write_def mark_inode_dirty_eq [OF i] sel split del: if_split cong: if_cong)
  obtain d y where g: "g = h\<lparr>disk := d, inode_dirty := y\<rparr>"
    and blk: "\<And>l j. l < DATA_BLOCK_MAX_NUMBER \<Longrightarrow> j < BLOCK_SIZE \<Longrightarrow> blk_bytes dev d l j = blk_bytes dev (disk h) l j"
    and meta: "super_on_disk dev (disk h) \<Longrightarrow> table_synced dev h \<Longrightarrow> meta_on_disk dev h d"
    by (rule flushed [of dev h g]) (simp_all add: dev h_def sb g_def)
  have dh: "disk h = sdwrite dev w (blk_offset k) 4096 (disk f)" by (simp add: h_def)
  show ?thesis
  proof (rule that [of y d w])
    show "fwrite_block dev c i pos resized buf off sz f =
      Some (f\<lparr>fwrite_wbuf := w, kst := upd_pcb c (\<lambda>p. p\<lparr>fd := (fd p)\<lparr>fd_pos := fd_pos (fd p) + sz\<rparr>\<rparr>) (kst f),
        nodes := (nodes f)(i := (nodes f i)\<lparr>isize := (if resized then isize (nodes f i) else isize (nodes f i) + sz)\<rparr>),
        disk := d, inode_dirty := y\<rparr>)"
      unfolding wr g by (simp add: h_def ns_def)
    show "blk_bytes dev d k j = (if unat pos mod BLOCK_SIZE \<le> j \<and> j < unat pos mod BLOCK_SIZE + unat sz
       then buf (off + (j - unat pos mod BLOCK_SIZE)) else blk_bytes dev (disk f) k j)" if "j < BLOCK_SIZE" for j
    proof -
      have "blk_bytes dev d k j = w j" using that k(2) by (simp add: blk dh blk_write(2) [OF dev k(2)])
      then show ?thesis using that by (simp add: w_def r_def [symmetric] do_fs_read_eq [OF dev] blk_bytes_def)
    qed
    show "blk_bytes dev d l j = blk_bytes dev (disk f) l j" if "l < DATA_BLOCK_MAX_NUMBER" "l \<noteq> k" "j < BLOCK_SIZE" for l j
      using that by (simp add: blk dh blk_write(3) [OF dev k(2)])
    assume super: "super_on_disk dev (disk f)"
      and tab: "table_synced_but dev i f"
    have "table_synced dev h"
      unfolding table_synced_def
    proof (intro allI impI)
      fix x assume x: "in_table x" and clean: "inode_dirty h ((unat x - 134252032) div 4096) = 0"
      let ?p = "unat x - 134252032"
      have c: "?p div 4096 \<noteq> i div 32" "inode_dirty f (?p div 4096) = 0" using clean by (auto simp: h_def split: if_splits)
      then have "nodes_bytes (nodes h) ?p = nodes_bytes (nodes f) ?p" by (simp add: h_def ns_def nodes_bytes_other)
      then show "disk_byte dev (disk h) x = nodes_bytes (nodes h) ?p"
        using tab x c by (simp add: dh blk_write_meta(2) [OF dev k(2) x] table_synced_but_def)
    qed
    from meta [OF _ this] have "meta_on_disk dev h d" using super by (simp add: dh blk_write_meta(1) [OF dev k(2)])
    then show "meta_on_disk dev (f\<lparr>nodes := (nodes f)(i := (nodes f i)\<lparr>isize := (if resized then isize (nodes f i) else isize (nodes f i) + sz)\<rparr>)\<rparr>) d"
      by (simp add: meta_on_disk_def h_def ns_def)
  qed
qed

subsection \<open>Growing a file\<close>

lemma free_block_exists:
  assumes "card (used_bits DATA_BLOCK_BIT_MAP_SIZE m) < DATA_BLOCK_MAX_NUMBER"
  shows "used_bits DATA_BLOCK_BIT_MAP_SIZE m \<noteq> {k. unat k < 8 * DATA_BLOCK_BIT_MAP_SIZE}"
  using assms card_numbers [of "8 * DATA_BLOCK_BIT_MAP_SIZE"] by auto

lemma finite_used: "finite (used_bits n m)" by simp

text \<open>What has changed after the blocks \<open>u\<close> to \<open>k - 1\<close> of inode \<open>i\<close> were added.\<close>

definition blocks_added :: "nat \<Rightarrow> nat \<Rightarrow> nat \<Rightarrow> 'd fs_t \<Rightarrow> 'd fs_t \<Rightarrow> bool" where
  "blocks_added i u k f g \<longleftrightarrow>
     (\<exists>m v. g = f\<lparr>block_bit_map := m, nodes := (nodes f)(i := (nodes f i)\<lparr>direct := v\<rparr>)\<rparr> \<and>
       (\<forall>j. j < u \<or> k \<le> j \<longrightarrow> v j = direct (nodes f i) j) \<and>
       used_bits DATA_BLOCK_BIT_MAP_SIZE (block_bit_map f) \<subseteq> used_bits DATA_BLOCK_BIT_MAP_SIZE m \<and>
       card (used_bits DATA_BLOCK_BIT_MAP_SIZE m) \<le> card (used_bits DATA_BLOCK_BIT_MAP_SIZE (block_bit_map f)) + (k - u) \<and>
       (\<forall>j. u \<le> j \<and> j < k \<longrightarrow> (\<exists>b. v j = blk_offset (unat b) \<and> unat b < DATA_BLOCK_MAX_NUMBER \<and>
          b \<notin> used_bits DATA_BLOCK_BIT_MAP_SIZE (block_bit_map f) \<and> b \<in> used_bits DATA_BLOCK_BIT_MAP_SIZE m)))"

lemma add_block_step:
  assumes sb: "super_block f = std_super" and a: "blocks_added i u k f g" and "u \<le> k"
    and room: "card (used_bits DATA_BLOCK_BIT_MAP_SIZE (block_bit_map f)) + (k - u) < DATA_BLOCK_MAX_NUMBER"
  shows "\<exists>h. add_block i k g = Some h \<and> blocks_added i u (Suc k) f h"
proof -
  let ?U = "used_bits DATA_BLOCK_BIT_MAP_SIZE"
  from a [unfolded blocks_added_def] obtain m v
    where g: "g = f\<lparr>block_bit_map := m, nodes := (nodes f)(i := (nodes f i)\<lparr>direct := v\<rparr>)\<rparr>"
      and keep: "\<forall>j. j < u \<or> k \<le> j \<longrightarrow> v j = direct (nodes f i) j" and sub: "?U (block_bit_map f) \<subseteq> ?U m"
      and card: "card (?U m) \<le> card (?U (block_bit_map f)) + (k - u)"
      and new: "\<forall>j. u \<le> j \<and> j < k \<longrightarrow> (\<exists>b. v j = blk_offset (unat b) \<and> unat b < DATA_BLOCK_MAX_NUMBER \<and>
          b \<notin> ?U (block_bit_map f) \<and> b \<in> ?U m)"
    by (elim exE conjE)
  have "card (?U m) < DATA_BLOCK_MAX_NUMBER" using card room by linarith
  then obtain b where b: "find_first_zero_bit m DATA_BLOCK_BIT_MAP_SIZE = Some b" "unat b < DATA_BLOCK_MAX_NUMBER"
      "b \<notin> ?U m" "?U (set_bit_map m b) = insert b (?U m)"
    using free_bit [OF free_block_exists] by auto
  have gm: "block_bit_map g = m" by (simp add: g)
  let ?h = "f\<lparr>block_bit_map := set_bit_map m b, nodes := (nodes f)(i := (nodes f i)\<lparr>direct := v(k := blk_offset (unat b))\<rparr>)\<rparr>"
  have "allocate_data_block b g = (True, g\<lparr>block_bit_map := set_bit_map m b\<rparr>)"
    using allocate_data_block_found [of g b] b(1) by (simp add: gm)
  then have "add_block i k g = Some ?h"
    using b(1) by (simp add: add_block_def gm Let_def) (simp add: g upd_node_def get_data_block_offset_def sb blk_offset_def)
  moreover have "blocks_added i u (Suc k) f ?h"
    unfolding blocks_added_def
  proof (intro exI [of _ "set_bit_map m b"] exI [of _ "v(k := blk_offset (unat b))"] conjI refl)
    show "\<forall>j. j < u \<or> Suc k \<le> j \<longrightarrow> (v(k := blk_offset (unat b))) j = direct (nodes f i) j" using keep assms(3) by auto
    show "?U (block_bit_map f) \<subseteq> ?U (set_bit_map m b)" using sub b(4) by auto
    show "card (?U (set_bit_map m b)) \<le> card (?U (block_bit_map f)) + (Suc k - u)"
      using card b(3,4) assms(3) by simp
    show "\<forall>j. u \<le> j \<and> j < Suc k \<longrightarrow> (\<exists>b'. (v(k := blk_offset (unat b))) j = blk_offset (unat b') \<and>
        unat b' < DATA_BLOCK_MAX_NUMBER \<and> b' \<notin> ?U (block_bit_map f) \<and> b' \<in> ?U (set_bit_map m b))"
      using new b sub by (auto simp: less_Suc_eq)
  qed
  ultimately show ?thesis by blast
qed

lemma add_blocks:
  assumes sb: "super_block f = std_super" and "u \<le> n"
    and room: "card (used_bits DATA_BLOCK_BIT_MAP_SIZE (block_bit_map f)) + (n - u) \<le> DATA_BLOCK_MAX_NUMBER"
  shows "\<exists>h. for_upto_opt u n (add_block i) f = Some h \<and> blocks_added i u n f h"
proof (rule for_upto_opt_inv)
  have "f = f\<lparr>block_bit_map := block_bit_map f, nodes := (nodes f)(i := (nodes f i)\<lparr>direct := direct (nodes f i)\<rparr>)\<rparr>" by simp
  then show "blocks_added i u u f f" unfolding blocks_added_def
    by (intro exI [of _ "block_bit_map f"] exI [of _ "direct (nodes f i)"] conjI) simp_all
  fix k g assume "u \<le> k" "k < n" "blocks_added i u k f g"
  then show "\<exists>h. add_block i k g = Some h \<and> blocks_added i u (Suc k) f h"
    using room by (intro add_block_step [OF sb]) auto
qed (use assms in auto)

lemma flush_raw:
  assumes dev: "sd_ok dev" and sb: "super_block h = std_super"
  obtains d where "update_inode dev (update_bit_map dev h) =
      h\<lparr>disk := d, inode_dirty := (\<lambda>j. if j < 256 then 0 else inode_dirty h j)\<rparr>"
    "\<And>x. in_table x \<Longrightarrow> disk_byte dev d x = (if inode_dirty h ((unat x - 134252032) div 4096) \<noteq> 0
       then nodes_bytes (nodes h) (unat x - 134252032) else disk_byte dev (disk h) x)"
    "super_on_disk dev (disk h) \<Longrightarrow> super_on_disk dev d"
    "\<And>l j. l < DATA_BLOCK_MAX_NUMBER \<Longrightarrow> j < BLOCK_SIZE \<Longrightarrow> blk_bytes dev d l j = blk_bytes dev (disk h) l j"
proof -
  obtain d1 where d1: "update_bit_map dev h = h\<lparr>disk := d1\<rparr>"
    "\<And>x. disk_byte dev d1 x =
       (if in_blk_map x then block_bit_map h (unat x - 134218240)
        else if in_ind_map x then inode_bit_map h (unat x - 134251008)
        else disk_byte dev (disk h) x)"
    by (rule update_bit_map_spec [OF dev sb]) (rule that, assumption+)
  let ?f = "h\<lparr>disk := d1\<rparr>"
  have sb1: "super_block ?f = std_super" using sb by simp
  obtain d where d: "update_inode dev ?f = ?f\<lparr>disk := d, inode_dirty := (\<lambda>j. if j < 256 then 0 else inode_dirty ?f j)\<rparr>"
    "\<And>x. disk_byte dev d x =
       (if in_table x \<and> inode_dirty ?f ((unat x - 134252032) div 4096) \<noteq> 0
        then nodes_bytes (nodes ?f) (unat x - 134252032) else disk_byte dev (disk ?f) x)"
    by (rule update_inode_spec [OF dev sb1]) (rule that, assumption+)
  note bytes = d(2) d1(2)
  show ?thesis
  proof (rule that [of d])
    show "update_inode dev (update_bit_map dev h) =
      h\<lparr>disk := d, inode_dirty := (\<lambda>j. if j < 256 then 0 else inode_dirty h j)\<rparr>"
      using d(1) unfolding d1(1) by (simp cong: if_cong)
    show "disk_byte dev d x = (if inode_dirty h ((unat x - 134252032) div 4096) \<noteq> 0
       then nodes_bytes (nodes h) (unat x - 134252032) else disk_byte dev (disk h) x)" if "in_table x" for x
      using that bytes regions_disjoint by auto
    show "super_on_disk dev d" if "super_on_disk dev (disk h)"
      by (rule super_on_disk_cong [OF that]) (use bytes regions_disjoint in simp)
    show "blk_bytes dev d l j = blk_bytes dev (disk h) l j" if "l < DATA_BLOCK_MAX_NUMBER" "j < BLOCK_SIZE" for l j
      by (rule blk_bytes_cong [OF _ that]) (use bytes regions_disjoint in auto)
  qed
qed

lemma do_resize_spec:
  assumes dev: "sd_ok dev" and sb: "super_block f = std_super" and i: "i < INODE_MAX_NUMBER"
    and grow: "blocks (isize (nodes f i)) < blocks sz" "blocks sz < 16"
    and room: "card (used_bits DATA_BLOCK_BIT_MAP_SIZE (block_bit_map f)) + 16 \<le> DATA_BLOCK_MAX_NUMBER"
  obtains m v d y where "do_resize dev nodes_addr i sz f = Some (f\<lparr>block_bit_map := m,
      nodes := (nodes f)(i := (nodes f i)\<lparr>isize := sz, direct := v\<rparr>), disk := d, inode_dirty := y\<rparr>)"
    "used_bits DATA_BLOCK_BIT_MAP_SIZE (block_bit_map f) \<subseteq> used_bits DATA_BLOCK_BIT_MAP_SIZE m"
    "\<And>j. unat (blocks (isize (nodes f i))) \<le> j \<Longrightarrow> j < unat (blocks sz) \<Longrightarrow>
      \<exists>b. v j = blk_offset (unat b) \<and> unat b < DATA_BLOCK_MAX_NUMBER \<and>
        b \<notin> used_bits DATA_BLOCK_BIT_MAP_SIZE (block_bit_map f) \<and> b \<in> used_bits DATA_BLOCK_BIT_MAP_SIZE m"
    "\<And>l j. l < DATA_BLOCK_MAX_NUMBER \<Longrightarrow> j < BLOCK_SIZE \<Longrightarrow> blk_bytes dev d l j = blk_bytes dev (disk f) l j"
    "super_on_disk dev (disk f) \<Longrightarrow> super_on_disk dev d"
    "\<And>x. table_synced dev f \<Longrightarrow> in_table x \<Longrightarrow> (unat x - 134252032) div 4096 \<noteq> i div 32 \<Longrightarrow>
       disk_byte dev d x = nodes_bytes (nodes f) (unat x - 134252032)"
proof -
  let ?U = "used_bits DATA_BLOCK_BIT_MAP_SIZE"
  let ?u = "unat (blocks (isize (nodes f i)))" and ?n = "unat (blocks sz)"
  let ?f1 = "upd_node i (\<lambda>n. n\<lparr>isize := sz\<rparr>) f"
  have un: "?u < ?n" "?n < 16" using grow by (simp_all add: word_less_nat_alt)
  have sb1: "super_block ?f1 = std_super" and maps: "block_bit_map ?f1 = block_bit_map f" by (simp_all add: upd_node_def sb)
  have rm: "card (?U (block_bit_map ?f1)) + (?n - ?u) \<le> DATA_BLOCK_MAX_NUMBER" using room un unfolding maps by linarith
  obtain g where g: "for_upto_opt ?u ?n (add_block i) ?f1 = Some g" "blocks_added i ?u ?n ?f1 g"
    using add_blocks [OF sb1 less_imp_le [OF un(1)], of i] rm by blast
  from g(2) [unfolded blocks_added_def] obtain m v
    where gg: "g = ?f1\<lparr>block_bit_map := m, nodes := (nodes ?f1)(i := (nodes ?f1 i)\<lparr>direct := v\<rparr>)\<rparr>"
      and sub: "?U (block_bit_map ?f1) \<subseteq> ?U m"
      and new: "\<forall>j. ?u \<le> j \<and> j < ?n \<longrightarrow> (\<exists>b. v j = blk_offset (unat b) \<and> unat b < DATA_BLOCK_MAX_NUMBER \<and>
          b \<notin> ?U (block_bit_map ?f1) \<and> b \<in> ?U m)"
    by (elim exE conjE)
  define h where "h = mark_inode_dirty (nodes_addr + 128 * word_of_nat i) g"
  have sbh: "super_block h = std_super" by (simp add: h_def mark_inode_dirty_def gg Let_def upd_node_def sb)
  obtain d where d: "update_inode dev (update_bit_map dev h) =
      h\<lparr>disk := d, inode_dirty := (\<lambda>j. if j < 256 then 0 else inode_dirty h j)\<rparr>"
    and tab: "\<And>x. in_table x \<Longrightarrow> disk_byte dev d x = (if inode_dirty h ((unat x - 134252032) div 4096) \<noteq> 0
       then nodes_bytes (nodes h) (unat x - 134252032) else disk_byte dev (disk h) x)"
    and super: "super_on_disk dev (disk h) \<Longrightarrow> super_on_disk dev d"
    and blk: "\<And>l j. l < DATA_BLOCK_MAX_NUMBER \<Longrightarrow> j < BLOCK_SIZE \<Longrightarrow> blk_bytes dev d l j = blk_bytes dev (disk h) l j"
    by (rule flush_raw [OF dev sbh]) (rule that, assumption+)
  define y where "y = (\<lambda>j. if j < 256 then 0 else inode_dirty h j)"
  have dh: "disk h = disk f" by (simp add: h_def mark_inode_dirty_def gg Let_def upd_node_def)
  have nh: "nodes h = (nodes f)(i := (nodes f i)\<lparr>isize := sz, direct := v\<rparr>)"
    by (simp add: h_def mark_inode_dirty_def gg Let_def upd_node_def)
  show ?thesis
  proof (rule that [of y d v m])
    have "do_resize dev nodes_addr i sz f = Some (update_inode dev (update_bit_map dev h))"
      using grow g(1) by (simp add: do_resize_def node_at_Some [OF i] Let_def mark_update_bit_map h_def)
    then show "do_resize dev nodes_addr i sz f = Some (f\<lparr>block_bit_map := m,
      nodes := (nodes f)(i := (nodes f i)\<lparr>isize := sz, direct := v\<rparr>), disk := d, inode_dirty := y\<rparr>)"
      unfolding d y_def [symmetric] by (simp add: h_def mark_inode_dirty_def gg Let_def upd_node_def)
    show "?U (block_bit_map f) \<subseteq> ?U m" using sub by (simp add: maps)
    show "\<exists>b. v j = blk_offset (unat b) \<and> unat b < DATA_BLOCK_MAX_NUMBER \<and> b \<notin> ?U (block_bit_map f) \<and> b \<in> ?U m"
      if "?u \<le> j" "j < ?n" for j using new that by (simp add: maps)
    show "blk_bytes dev d l j = blk_bytes dev (disk f) l j" if "l < DATA_BLOCK_MAX_NUMBER" "j < BLOCK_SIZE" for l j
      using blk [OF that] by (simp add: dh)
    show "super_on_disk dev d" if "super_on_disk dev (disk f)" using super that by (simp add: dh)
    show "disk_byte dev d x = nodes_bytes (nodes f) (unat x - 134252032)"
      if "table_synced dev f" "in_table x" "(unat x - 134252032) div 4096 \<noteq> i div 32" for x
    proof -
      let ?p = "unat x - 134252032"
      have "nodes_bytes (nodes h) ?p = nodes_bytes (nodes f) ?p" by (simp add: nh nodes_bytes_other that(3))
      moreover have "inode_dirty f (?p div 4096) = 0" if "inode_dirty h (?p div 4096) = 0"
        using that by (auto simp: h_def mark_inode_dirty_def gg Let_def upd_node_def split: if_splits)
      ultimately show ?thesis using tab [OF that(2)] that(1,2) by (auto simp: table_synced_def dh)
    qed
  qed
qed

subsection \<open>Reading in one block\<close>

lemma fread_calls_Nil: "fread_calls dev m [] = Some"
  by (rule ext) (simp add: fread_calls.simps)

lemma do_fread_one:
  assumes dev: "sd_ok dev" and "current_running (kst f) = Some c" "fd (pcb (kst f) c) = d" "fd_file d = Some i"
    "i < INODE_MAX_NUMBER"
    and one: "in_one_block (fd_pos d) sz" and sz: "unat (fd_pos d) + unat sz \<le> unat (isize (nodes f i))"
    and k: "direct (nodes f i) (unat (fd_pos d) div BLOCK_SIZE) = blk_offset k"
  shows "\<exists>rb. do_fread dev 0 b0 sz f =
    Some (\<lambda>x. if x < unat sz then blk_bytes dev (disk f) k (unat (fd_pos d) mod BLOCK_SIZE + x) else b0 x,
      upd_desc c (\<lambda>d. d\<lparr>fd_pos := fd_pos d + sz\<rparr>) (f\<lparr>fread_rbuf := rb\<rparr>))"
proof -
  note oneD = in_one_blockD [OF one]
  define r where "r = unat (fd_pos d) mod BLOCK_SIZE"
  have rs: "r + unat sz < 4096" using one by (simp add: r_def in_one_block_def)
  define rbuf where "rbuf = do_fs_read dev (blk_offset k) (fread_rbuf f) BLOCK_SIZE f"
  have rb: "rbuf (x + r) = blk_bytes dev (disk f) k (r + x)" if "x < unat sz" for x
    using that rs by (simp add: rbuf_def do_fs_read_eq [OF dev] blk_bytes_def add.commute)
  have ok: "\<not> isize (nodes f i) < fd_pos d + sz" using sz oneD(1) by (simp add: word_less_nat_alt)
  have copy: "for_upto 0 (min (unat sz) (BLOCK_SIZE - r)) (\<lambda>j b. b(j := rbuf (j + r))) b0 =
      (\<lambda>x. if x < unat sz then blk_bytes dev (disk f) k (r + x) else b0 x)"
    using for_upto_store [of "unat sz" 0 "\<lambda>j. rbuf (j + r)" b0] rs rb by (auto simp: fun_eq_iff)
  have zero: "(fd_pos d AND 4095) = 0 \<longleftrightarrow> r = 0" by (simp add: r_def word_unat_eq_iff unat_and4095)
  have "do_fread dev 0 b0 sz f = fread_block dev c i (fd_pos d) 0 sz (b0, f)"
    unfolding do_fread_def
    by (subst fread_calls.simps)
      (simp add: the_desc_def assms(2-4) node_at_Some [OF assms(5)] Let_def oneD(2,3) ok fread_calls_Nil)
  also have "\<dots> = Some (\<lambda>x. if x < unat sz then blk_bytes dev (disk f) k (r + x) else b0 x,
      upd_desc c (\<lambda>d. d\<lparr>fd_pos := fd_pos d + sz\<rparr>) (f\<lparr>fread_rbuf := rbuf\<rparr>))"
  proof (cases "r = 0")
    case True
    then show ?thesis using oneD(5) copy
      by (simp add: fread_block_def node_at_Some [OF assms(5)] oneD(6) k rbuf_def [symmetric] zero Let_def)
  next
    case False
    then show ?thesis using oneD(5) copy
      by (simp add: fread_block_def node_at_Some [OF assms(5)] oneD(6) k rbuf_def [symmetric] zero Let_def
          unat_and4095 r_def [symmetric])
  qed
  finally show ?thesis unfolding r_def by blast
qed

text \<open>Before the bytes are stored, the block of the position exists.\<close>

lemma grow_for_write:
  assumes dev: "sd_ok dev" and sb: "super_block f = std_super" and i: "i < INODE_MAX_NUMBER"
    and one: "in_one_block pos sz" and size: "unat (isize (nodes f i)) \<le> 16 * BLOCK_SIZE"
    and resized: "resized \<longleftrightarrow> blocks (isize (nodes f i)) < blocks (pos + sz)"
    and old: "unat pos div BLOCK_SIZE < unat (blocks (isize (nodes f i))) \<Longrightarrow>
      pos \<le> isize (nodes f i) \<and>
      (\<exists>k < DATA_BLOCK_MAX_NUMBER. direct (nodes f i) (unat pos div BLOCK_SIZE) = blk_offset k)"
    and room: "resized \<Longrightarrow> card (used_bits DATA_BLOCK_BIT_MAP_SIZE (block_bit_map f)) + 16 \<le> DATA_BLOCK_MAX_NUMBER"
  obtains f1 k where "(if resized then do_resize dev nodes_addr i (pos + sz) f else Some f) = Some f1"
    "super_block f1 = std_super" "kst f1 = kst f" "\<not> resized \<Longrightarrow> f1 = f" "resized \<Longrightarrow> isize (nodes f1 i) = pos + sz"
    "direct (nodes f1 i) (unat pos div BLOCK_SIZE) = blk_offset k" "k < DATA_BLOCK_MAX_NUMBER"
    "resized \<Longrightarrow> word_of_nat k \<notin> used_bits DATA_BLOCK_BIT_MAP_SIZE (block_bit_map f) \<and> word_of_nat k \<in> used_bits DATA_BLOCK_BIT_MAP_SIZE (block_bit_map f1)"
    "\<And>l j. l < DATA_BLOCK_MAX_NUMBER \<Longrightarrow> j < BLOCK_SIZE \<Longrightarrow> blk_bytes dev (disk f1) l j = blk_bytes dev (disk f) l j"
    "super_on_disk dev (disk f) \<Longrightarrow> super_on_disk dev (disk f1)"
    "table_synced dev f \<Longrightarrow> table_synced_but dev i f1"
    "unat (pos) + unat sz \<le> unat (if resized then isize (nodes f1 i) else isize (nodes f1 i) + sz)"
proof -
  note oneD = in_one_blockD [OF one]
  let ?q = "unat pos div BLOCK_SIZE"
  let ?U = "used_bits DATA_BLOCK_BIT_MAP_SIZE"
  have res: "resized \<longleftrightarrow> unat (blocks (isize (nodes f i))) \<le> ?q"
    by (simp add: resized word_less_nat_alt oneD(4) less_Suc_eq_le)
  have q: "?q < 15" using one by (simp add: in_one_block_def div_less_iff_less_mult)
  show ?thesis
  proof (cases resized)
    case False
    then have "?q < unat (blocks (isize (nodes f i)))" using res by simp
    from old [OF this] obtain k where k: "pos \<le> isize (nodes f i)" "k < DATA_BLOCK_MAX_NUMBER"
      "direct (nodes f i) ?q = blk_offset k" by blast
    have "unat (isize (nodes f i) + word_of_nat (unat sz)) = unat (isize (nodes f i)) + unat sz"
      using size one by (intro unat_plus_small) (simp add: in_one_block_def)
    then have "unat (pos) + unat sz \<le> unat (isize (nodes f i) + sz)" using k(1) by (simp add: word_le_nat_alt)
    then show ?thesis using that [of f k] False k sb by (auto simp: table_synced_def table_synced_but_def)
  next
    case True
    have lt16: "blocks (pos + sz) < 16" using oneD(4) q by (simp add: word_less_nat_alt)
    obtain m v dd y where g: "do_resize dev nodes_addr i (pos + sz) f = Some (f\<lparr>block_bit_map := m,
        nodes := (nodes f)(i := (nodes f i)\<lparr>isize := pos + sz, direct := v\<rparr>), disk := dd, inode_dirty := y\<rparr>)"
      and v: "\<And>j. unat (blocks (isize (nodes f i))) \<le> j \<Longrightarrow> j < unat (blocks (pos + sz)) \<Longrightarrow>
        \<exists>b. v j = blk_offset (unat b) \<and> unat b < DATA_BLOCK_MAX_NUMBER \<and> b \<notin> ?U (block_bit_map f) \<and> b \<in> ?U m"
      and bl: "\<And>l j. l < DATA_BLOCK_MAX_NUMBER \<Longrightarrow> j < BLOCK_SIZE \<Longrightarrow> blk_bytes dev dd l j = blk_bytes dev (disk f) l j"
      and su: "super_on_disk dev (disk f) \<Longrightarrow> super_on_disk dev dd"
      and ta: "\<And>x. table_synced dev f \<Longrightarrow> in_table x \<Longrightarrow> (unat x - 134252032) div 4096 \<noteq> i div 32 \<Longrightarrow>
        disk_byte dev dd x = nodes_bytes (nodes f) (unat x - 134252032)"
      by (rule do_resize_spec [OF dev sb i True [unfolded resized] lt16 room [OF True]]) (rule that, assumption+)
    obtain b where b: "v ?q = blk_offset (unat b)" "unat b < DATA_BLOCK_MAX_NUMBER" "b \<notin> ?U (block_bit_map f)" "b \<in> ?U m"
      using v [of ?q] True res oneD(4) by auto
    show ?thesis
      by (rule that [of "f\<lparr>block_bit_map := m, nodes := (nodes f)(i := (nodes f i)\<lparr>isize := pos + sz, direct := v\<rparr>),
          disk := dd, inode_dirty := y\<rparr>" "unat b"]) (use True g b bl su ta oneD(1) sb in \<open>simp_all add: table_synced_but_def nodes_bytes_other\<close>)
  qed
qed

text \<open>A write in one block, with all of its effects.\<close>

lemma do_fwrite_spec:
  assumes dev: "sd_ok dev" and sb: "super_block f = std_super"
    and desc: "current_running (kst f) = Some c" "fd (pcb (kst f) c) = d" "fd_file d = Some i" "i < INODE_MAX_NUMBER"
    and one: "in_one_block (fd_pos d) sz" and size: "unat (isize (nodes f i)) \<le> 16 * BLOCK_SIZE"
    and resized: "resized \<longleftrightarrow> unat (blocks (isize (nodes f i))) \<le> unat (fd_pos d) div BLOCK_SIZE"
    and old: "\<not> resized \<Longrightarrow> fd_pos d \<le> isize (nodes f i) \<and>
      (\<exists>k < DATA_BLOCK_MAX_NUMBER. direct (nodes f i) (unat (fd_pos d) div BLOCK_SIZE) = blk_offset k)"
    and room: "resized \<Longrightarrow> card (used_bits DATA_BLOCK_BIT_MAP_SIZE (block_bit_map f)) + 16 \<le> DATA_BLOCK_MAX_NUMBER"
  obtains g k where "do_fwrite dev nodes_addr 0 buf sz f = Some g" "super_block g = std_super"
    "kst g = upd_pcb c (\<lambda>p. p\<lparr>fd := (fd p)\<lparr>fd_pos := fd_pos (fd p) + sz\<rparr>\<rparr>) (kst f)"
    "direct (nodes g i) (unat (fd_pos d) div BLOCK_SIZE) = blk_offset k" "k < DATA_BLOCK_MAX_NUMBER"
    "isize (nodes g i) = (if resized then fd_pos d else isize (nodes f i)) + sz"
    "\<And>j. j < BLOCK_SIZE \<Longrightarrow> blk_bytes dev (disk g) k j =
      (if unat (fd_pos d) mod BLOCK_SIZE \<le> j \<and> j < unat (fd_pos d) mod BLOCK_SIZE + unat sz
       then buf (j - unat (fd_pos d) mod BLOCK_SIZE) else blk_bytes dev (disk f) k j)"
    "\<And>l j. l < DATA_BLOCK_MAX_NUMBER \<Longrightarrow> l \<noteq> k \<Longrightarrow> j < BLOCK_SIZE \<Longrightarrow> blk_bytes dev (disk g) l j = blk_bytes dev (disk f) l j"
    "resized \<Longrightarrow> word_of_nat k \<notin> used_bits DATA_BLOCK_BIT_MAP_SIZE (block_bit_map f) \<and>
      word_of_nat k \<in> used_bits DATA_BLOCK_BIT_MAP_SIZE (block_bit_map g)"
    "\<not> resized \<Longrightarrow> direct (nodes f i) (unat (fd_pos d) div BLOCK_SIZE) = blk_offset k"
    "super_on_disk dev (disk f) \<Longrightarrow> table_synced dev f \<Longrightarrow> meta_on_disk dev g (disk g)"
    "unat (fd_pos d) + unat sz \<le> unat (isize (nodes g i))"
proof -
  note oneD = in_one_blockD [OF one]
  let ?q = "unat (fd_pos d) div BLOCK_SIZE" and ?r = "unat (fd_pos d) mod BLOCK_SIZE"
  let ?U = "used_bits DATA_BLOCK_BIT_MAP_SIZE"
  have res: "resized \<longleftrightarrow> blocks (isize (nodes f i)) < blocks (fd_pos d + sz)"
    by (simp add: resized word_less_nat_alt oneD(4) less_Suc_eq_le)
  have old': "fd_pos d \<le> isize (nodes f i) \<and> (\<exists>k < DATA_BLOCK_MAX_NUMBER. direct (nodes f i) ?q = blk_offset k)"
    if "?q < unat (blocks (isize (nodes f i)))" using old that resized by simp
  obtain f1 k where f1: "(if resized then do_resize dev nodes_addr i (fd_pos d + sz) f else Some f) = Some f1"
    and same: "super_block f1 = std_super" "kst f1 = kst f" "\<not> resized \<Longrightarrow> f1 = f" "resized \<Longrightarrow> isize (nodes f1 i) = fd_pos d + sz"
    and k: "direct (nodes f1 i) ?q = blk_offset k" "k < DATA_BLOCK_MAX_NUMBER"
    and new: "resized \<Longrightarrow> word_of_nat k \<notin> ?U (block_bit_map f) \<and> word_of_nat k \<in> ?U (block_bit_map f1)"
    and blk1: "\<And>l j. l < DATA_BLOCK_MAX_NUMBER \<Longrightarrow> j < BLOCK_SIZE \<Longrightarrow> blk_bytes dev (disk f1) l j = blk_bytes dev (disk f) l j"
    and super1: "super_on_disk dev (disk f) \<Longrightarrow> super_on_disk dev (disk f1)"
    and tab1: "table_synced dev f \<Longrightarrow> table_synced_but dev i f1"
    and size1: "unat (fd_pos d) + unat sz \<le> unat (if resized then isize (nodes f1 i) else isize (nodes f1 i) + sz)"
    by (rule grow_for_write [OF dev sb desc(4) one size res old' room]) (assumption+, rule that, assumption+)
  obtain dd y w where g: "fwrite_block dev c i (fd_pos d) resized buf 0 sz f1 =
      Some (f1\<lparr>fwrite_wbuf := w, kst := upd_pcb c (\<lambda>p. p\<lparr>fd := (fd p)\<lparr>fd_pos := fd_pos (fd p) + sz\<rparr>\<rparr>) (kst f1),
        nodes := (nodes f1)(i := (nodes f1 i)\<lparr>isize := (if resized then isize (nodes f1 i) else isize (nodes f1 i) + sz)\<rparr>),
        disk := dd, inode_dirty := y\<rparr>)"
    and wr: "\<And>j. j < BLOCK_SIZE \<Longrightarrow> blk_bytes dev dd k j =
      (if ?r \<le> j \<and> j < ?r + unat sz then buf (0 + (j - ?r)) else blk_bytes dev (disk f1) k j)"
    and oth: "\<And>l j. l < DATA_BLOCK_MAX_NUMBER \<Longrightarrow> l \<noteq> k \<Longrightarrow> j < BLOCK_SIZE \<Longrightarrow>
      blk_bytes dev dd l j = blk_bytes dev (disk f1) l j"
    and meta: "super_on_disk dev (disk f1) \<Longrightarrow> table_synced_but dev i f1 \<Longrightarrow>
      meta_on_disk dev (f1\<lparr>nodes := (nodes f1)(i := (nodes f1 i)\<lparr>isize := (if resized then isize (nodes f1 i) else isize (nodes f1 i) + sz)\<rparr>)\<rparr>) dd"
    by (rule fwrite_block_spec [OF dev same(1) desc(4) one k]) (rule that, assumption+)
  define g' where "g' = f1\<lparr>fwrite_wbuf := w, kst := upd_pcb c (\<lambda>p. p\<lparr>fd := (fd p)\<lparr>fd_pos := fd_pos (fd p) + sz\<rparr>\<rparr>) (kst f1),
        nodes := (nodes f1)(i := (nodes f1 i)\<lparr>isize := (if resized then isize (nodes f1 i) else isize (nodes f1 i) + sz)\<rparr>),
        disk := dd, inode_dirty := y\<rparr>"
  have done_w: "do_fwrite dev nodes_addr 0 buf sz f = Some g'"
    unfolding do_fwrite_one [OF desc one] Let_def res [symmetric] f1 Option.bind.bind_lunit g g'_def ..
  have md: "meta_on_disk dev g' (disk g')" if "super_on_disk dev (disk f)" "table_synced dev f"
    using meta [OF super1 [OF that(1)] tab1 [OF that(2)]] by (simp add: g'_def meta_on_disk_def)
  show ?thesis
    by (rule that [OF done_w, of k]) (use same k new wr oth blk1 md size1 in \<open>simp_all add: g'_def\<close>)
qed

section \<open>Properties\<close>

text \<open>
  C16: Writing and reading back. Through an open descriptor, a \<open>do_fwrite\<close> inside of one of the first 15 blocks
  of a file succeeds when the card has 16 free blocks (and, where the block exists already, the position is not
  behind the end of the file): the position advances, the block of the file on the card has the new bytes at the
  position and its old ones elsewhere, every other data block is unchanged, a block that had to be added was
  free before; when memory and card agreed before, the card holds all metadata afterwards. Seeking back and
  reading as many bytes gives exactly the bytes that were written, into any buffer.
\<close>

theorem file_write_read:
  assumes dev: "sd_ok dev" and sb: "super_block f = std_super"
    and desc: "current_running (kst f) = Some c" "fd (pcb (kst f) c) = d" "fd_file d = Some i" "i < INODE_MAX_NUMBER"
    and one: "in_one_block (fd_pos d) sz" and size: "unat (isize (nodes f i)) \<le> 16 * BLOCK_SIZE"
    and old: "unat (fd_pos d) div BLOCK_SIZE < unat (blocks (isize (nodes f i))) \<Longrightarrow>
      fd_pos d \<le> isize (nodes f i) \<and>
      (\<exists>k < DATA_BLOCK_MAX_NUMBER. direct (nodes f i) (unat (fd_pos d) div BLOCK_SIZE) = blk_offset k)"
    and room: "card (used_bits DATA_BLOCK_BIT_MAP_SIZE (block_bit_map f)) + 16 \<le> DATA_BLOCK_MAX_NUMBER"
  shows "\<exists>g k. do_fwrite dev nodes_addr 0 buf sz f = Some g \<and>
    fd_pos (fd (pcb (kst g) c)) = fd_pos d + sz \<and>
    k < DATA_BLOCK_MAX_NUMBER \<and> direct (nodes g i) (unat (fd_pos d) div BLOCK_SIZE) = blk_offset k \<and>
    (\<forall>j < BLOCK_SIZE. blk_bytes dev (disk g) k j =
      (if unat (fd_pos d) mod BLOCK_SIZE \<le> j \<and> j < unat (fd_pos d) mod BLOCK_SIZE + unat sz
       then buf (j - unat (fd_pos d) mod BLOCK_SIZE) else blk_bytes dev (disk f) k j)) \<and>
    (\<forall>l < DATA_BLOCK_MAX_NUMBER. l \<noteq> k \<longrightarrow> (\<forall>j < BLOCK_SIZE. blk_bytes dev (disk g) l j = blk_bytes dev (disk f) l j)) \<and>
    (unat (blocks (isize (nodes f i))) \<le> unat (fd_pos d) div BLOCK_SIZE \<longrightarrow>
      word_of_nat k \<notin> used_bits DATA_BLOCK_BIT_MAP_SIZE (block_bit_map f) \<and>
      word_of_nat k \<in> used_bits DATA_BLOCK_BIT_MAP_SIZE (block_bit_map g)) \<and>
    (super_on_disk dev (disk f) \<longrightarrow> table_synced dev f \<longrightarrow> meta_on_disk dev g (disk g)) \<and>
    (\<exists>h. do_fseek 0 (fd_pos d) g = Some h \<and>
      (\<forall>b0. \<exists>b1 h'. do_fread dev 0 b0 sz h = Some (b1, h') \<and>
        (\<forall>j. b1 j = (if j < unat sz then buf j else b0 j))))"
proof -
  let ?r = "unat (fd_pos d) mod BLOCK_SIZE"
  define resized where "resized \<longleftrightarrow> unat (blocks (isize (nodes f i))) \<le> unat (fd_pos d) div BLOCK_SIZE"
  obtain g k where g: "do_fwrite dev nodes_addr 0 buf sz f = Some g"
    "kst g = upd_pcb c (\<lambda>p. p\<lparr>fd := (fd p)\<lparr>fd_pos := fd_pos (fd p) + sz\<rparr>\<rparr>) (kst f)"
    and k: "direct (nodes g i) (unat (fd_pos d) div BLOCK_SIZE) = blk_offset k" "k < DATA_BLOCK_MAX_NUMBER"
    and wr: "\<And>j. j < BLOCK_SIZE \<Longrightarrow> blk_bytes dev (disk g) k j =
      (if ?r \<le> j \<and> j < ?r + unat sz then buf (j - ?r) else blk_bytes dev (disk f) k j)"
    and oth: "\<And>l j. l < DATA_BLOCK_MAX_NUMBER \<Longrightarrow> l \<noteq> k \<Longrightarrow> j < BLOCK_SIZE \<Longrightarrow> blk_bytes dev (disk g) l j = blk_bytes dev (disk f) l j"
    and new: "resized \<Longrightarrow> word_of_nat k \<notin> used_bits DATA_BLOCK_BIT_MAP_SIZE (block_bit_map f) \<and>
      word_of_nat k \<in> used_bits DATA_BLOCK_BIT_MAP_SIZE (block_bit_map g)"
    and md: "super_on_disk dev (disk f) \<Longrightarrow> table_synced dev f \<Longrightarrow> meta_on_disk dev g (disk g)"
    and end_pos: "unat (fd_pos d) + unat sz \<le> unat (isize (nodes g i))"
    by (rule do_fwrite_spec [OF dev sb desc one size resized_def _ room])
      (use old in \<open>simp add: resized_def not_le\<close>, rule that, assumption+)
  define hs where "hs = upd_desc c (\<lambda>x. x\<lparr>fd_pos := fd_pos d\<rparr>) g"
  have seek: "do_fseek 0 (fd_pos d) g = Some hs"
    by (simp add: do_fseek_def the_desc_def g desc hs_def)
  have rdb: "\<exists>b1 h'. do_fread dev 0 b0 sz hs = Some (b1, h') \<and> (\<forall>j. b1 j = (if j < unat sz then buf j else b0 j))" for b0
  proof -
    have fdh: "fd (pcb (kst hs) c) = d" "current_running (kst hs) = Some c" by (simp_all add: hs_def upd_desc_def g desc)
    have "\<exists>rb. do_fread dev 0 b0 sz hs = Some (\<lambda>x. if x < unat sz then blk_bytes dev (disk hs) k (?r + x) else b0 x,
        upd_desc c (\<lambda>d. d\<lparr>fd_pos := fd_pos d + sz\<rparr>) (hs\<lparr>fread_rbuf := rb\<rparr>))"
      by (rule do_fread_one [OF dev fdh(2,1) desc(3,4) one]) (use end_pos k in \<open>simp_all add: hs_def upd_desc_def\<close>)
    moreover have "?r + x < 4096" if "x < unat sz" for x using that one by (simp add: in_one_block_def)
    ultimately show ?thesis using wr by (auto simp: hs_def upd_desc_def)
  qed
  show ?thesis
    using g k new wr oth md seek rdb desc
    by (intro exI [of _ g] exI [of _ k] exI [of _ hs] conjI) (simp_all add: resized_def [symmetric])
qed

text \<open>The card of \<open>demo_fs\<close> with its file open in process 0.\<close>

definition open_fs :: "(u32 \<Rightarrow> u8) fs_t" where
  "open_fs = demo_fs\<lparr>kst := upd_pcb 0 (\<lambda>p. p\<lparr>fd := \<lparr>fd_pos = 0, fd_file = Some 5, file_access = 3\<rparr>\<rparr>)
     (demo_state\<lparr>current_running := Some 0\<rparr>)\<rparr>"

lemma open_desc: "super_block open_fs = std_super" "current_running (kst open_fs) = Some 0"
  "fd (pcb (kst open_fs) 0) = \<lparr>fd_pos = 0, fd_file = Some 5, file_access = 3\<rparr>"
  by (simp_all add: open_fs_def demo_fs_def blank_fs_def)

theorem file_write_read_witness:
  "\<exists>g h b1 h'. do_fwrite ram_dev 0xa0900000 0 (\<lambda>j. word_of_nat (j mod 251)) 1000 open_fs = Some g \<and>
     do_fseek 0 0 g = Some h \<and> do_fread ram_dev 0 (\<lambda>_. 255) 1000 h = Some (b1, h') \<and> b1 999 = 246 \<and> b1 1000 = 255"
proof -
  let ?d = "\<lparr>fd_pos = 0, fd_file = Some 5, file_access = 3\<rparr> :: file_desc_t"
  have one: "in_one_block (fd_pos ?d) 1000" by (simp add: in_one_block_def)
  have n: "isize (nodes open_fs 5) = 0" "used_bits DATA_BLOCK_BIT_MAP_SIZE (block_bit_map open_fs) = {}"
    by (simp_all add: open_fs_def demo_fs_def blank_fs_def blank_inode_def used_bits_def test_bit_iff)
  have z: "unat (blocks 0) = 0" by (simp add: blocks_def)
  obtain g where g: "do_fwrite ram_dev 0xa0900000 0 (\<lambda>j. word_of_nat (j mod 251)) 1000 open_fs = Some g"
    "\<exists>h. do_fseek 0 0 g = Some h \<and>
      (\<forall>b0. \<exists>b1 h'. do_fread ram_dev 0 b0 1000 h = Some (b1, h') \<and>
        (\<forall>j. b1 j = (if j < 1000 then word_of_nat (j mod 251) else b0 j)))"
    using file_write_read [OF ram_ok open_desc(1) open_desc(2,3) _ _ one, where i = 5 and nodes_addr = "0xa0900000"
        and buf = "\<lambda>j. word_of_nat (j mod 251)"] n z
    by auto
  from g(2) obtain h where h: "do_fseek 0 0 g = Some h"
    "\<forall>b0. \<exists>b1 h'. do_fread ram_dev 0 b0 1000 h = Some (b1, h') \<and>
        (\<forall>j. b1 j = (if j < 1000 then word_of_nat (j mod 251) else b0 j))" by blast
  obtain b1 h' where b: "do_fread ram_dev 0 (\<lambda>_. 255) 1000 h = Some (b1, h')"
    "\<forall>j. b1 j = (if j < 1000 then word_of_nat (j mod 251) else 255)" using h(2) by blast
  have "b1 999 = 246" "b1 1000 = 255" using b(2) by simp_all
  with g(1) h(1) b(1) show ?thesis by blast
qed

subsection \<open>Requests that reach the end of a block\<close>

lemma update_inode_frame: "kst (update_inode dev f) = kst f \<and> nodes (update_inode dev f) = nodes f"
  unfolding update_inode_def
  by (rule for_upto_inv [where I = "\<lambda>k g. kst g = kst f \<and> nodes g = nodes f"])
    (simp_all add: update_inode_block_def do_fs_write_def Let_def)

lemma for_upto_opt_keeps:
  assumes "\<And>k s t. f k s = Some t \<Longrightarrow> P s \<Longrightarrow> P t" "for_upto_opt a b f s = Some t" "P s"
  shows "P t"
proof -
  have "fold_opt f xs s = Some t \<Longrightarrow> P s \<Longrightarrow> P t" for xs s t
    by (induction xs arbitrary: s) (auto split: option.splits dest: assms(1))
  then show ?thesis using assms(2,3) by (simp add: for_upto_opt_def)
qed

lemma add_block_frame:
  "add_block i k f = Some g \<Longrightarrow> kst g = kst f \<and> isize (nodes g i) = isize (nodes f i)"
  by (auto simp: add_block_def allocate_data_block_def upd_node_def Let_def split: bind_splits if_splits)

lemma do_resize_frame:
  assumes "do_resize dev nodes_addr i sz f = Some g" "i < INODE_MAX_NUMBER" "blocks (isize (nodes f i)) < blocks sz"
  shows "kst g = kst f" "isize (nodes g i) = sz"
proof -
  let ?f1 = "upd_node i (\<lambda>n. n\<lparr>isize := sz\<rparr>) f"
  let ?P = "\<lambda>h. kst h = kst f \<and> isize (nodes h i) = sz"
  obtain f2 where f2: "(if blocks sz < 16 then for_upto_opt (unat (blocks (isize (nodes f i)))) (unat (blocks sz)) (add_block i) ?f1
      else Some ?f1) = Some f2"
    "g = update_inode dev (mark_inode_dirty (nodes_addr + 128 * word_of_nat i) (update_bit_map dev f2))"
    using assms by (auto simp: do_resize_def node_at_Some Let_def split: bind_splits)
  have "?P ?f1" by (simp add: upd_node_def)
  moreover have "?P f2" if "for_upto_opt (unat (blocks (isize (nodes f i)))) (unat (blocks sz)) (add_block i) ?f1 = Some f2" "?P ?f1"
    by (rule for_upto_opt_keeps [where P = ?P, OF _ that]) (simp add: add_block_frame)
  ultimately have "?P f2" using f2(1) by (auto split: if_splits)
  then show "kst g = kst f" "isize (nodes g i) = sz"
    unfolding f2(2) by (simp_all add: update_inode_frame mark_inode_dirty_def update_bit_map_def do_fs_write_def Let_def)
qed

lemma blocks_mono: "unat x \<le> unat y \<Longrightarrow> unat y + 4095 < 4294967296 \<Longrightarrow> blocks x \<le> blocks y"
  by (simp add: word_le_nat_alt unat_blocks div_le_mono)

text \<open>The next call reaches the end of the block its position is in.\<close>

definition stuck_call :: "fcall list \<Rightarrow> 'd fs_t \<Rightarrow> bool" where
  "stuck_call xs f \<longleftrightarrow>
     (\<exists>off s rest c d i. xs = Call off s # rest \<and> current_running (kst f) = Some c \<and> d = fd (pcb (kst f) c) \<and>
       fd_file d = Some i \<and> i < INODE_MAX_NUMBER \<and> unat s \<le> BLOCK_SIZE \<and>
       BLOCK_SIZE \<le> unat (fd_pos d) mod BLOCK_SIZE + unat s \<and> unat (fd_pos d) < 2147483648 \<and>
       \<not> blocks (isize (nodes f i)) < blocks (fd_pos d + s))"

lemma next_part:
  fixes pos s :: u32
  assumes "unat s \<le> BLOCK_SIZE" "BLOCK_SIZE \<le> unat pos mod BLOCK_SIZE + unat s" "unat pos < 2147483648"
  shows "pos div 4096 \<noteq> (pos + s) div 4096" "unat (4096 - (pos AND 4095)) = BLOCK_SIZE - unat pos mod BLOCK_SIZE"
    "blocks (pos + (4096 - (pos AND 4095))) \<le> blocks (pos + s)"
proof -
  have s: "unat (pos + s) = unat pos + unat s" using unat_plus_small [of pos "unat s"] assms(1,3) by simp
  have "unat pos div 4096 * 4096 + 4096 \<le> unat pos + unat s" using assms(2) div_mult_mod_eq [of "unat pos" 4096] by linarith
  then have "unat pos div 4096 + 1 \<le> (unat pos + unat s) div 4096" by (simp add: less_eq_div_iff_mult_less_eq)
  then show "pos div 4096 \<noteq> (pos + s) div 4096" using s by (auto simp: word_unat_eq_iff unat_div)
  show f: "unat (4096 - (pos AND 4095)) = BLOCK_SIZE - unat pos mod BLOCK_SIZE"
    using unat_diff_in [of "pos AND 4095" 4096] mod_less_divisor [of 4096 "unat pos"] by (simp add: unat_and4095 less_imp_le)
  have "4096 - (pos AND 4095) = word_of_nat (4096 - unat pos mod 4096)"
    unfolding f [symmetric] by (rule word_of_nat_unat [symmetric])
  moreover have "unat (pos + word_of_nat (4096 - unat pos mod 4096)) = unat pos + (4096 - unat pos mod 4096)"
    using assms(3) by (intro unat_plus_small) simp
  ultimately have "unat (pos + (4096 - (pos AND 4095))) = unat pos + (4096 - unat pos mod 4096)" by simp
  then show "blocks (pos + (4096 - (pos AND 4095))) \<le> blocks (pos + s)"
    using s assms by (intro blocks_mono) auto
qed

lemma stuck_callI:
  "current_running (kst f) = Some c \<Longrightarrow> fd (pcb (kst f) c) = d \<Longrightarrow> fd_file d = Some i \<Longrightarrow> i < INODE_MAX_NUMBER \<Longrightarrow>
   unat s \<le> BLOCK_SIZE \<Longrightarrow> BLOCK_SIZE \<le> unat (fd_pos d) mod BLOCK_SIZE + unat s \<Longrightarrow> unat (fd_pos d) < 2147483648 \<Longrightarrow>
   blocks (fd_pos d + s) \<le> blocks (isize (nodes f i)) \<Longrightarrow> stuck_call (Call off s # rest) f"
  by (auto simp: stuck_call_def not_less)

lemma stuck_step:
  assumes "stuck_call xs f"
  obtains off s rest c d i where "xs = Call off s # rest" "the_desc 0 f = Some (c, d)" "fd_file d = Some i"
    "i < INODE_MAX_NUMBER" "\<not> blocks (isize (nodes f i)) < blocks (fd_pos d + s)" "\<not> 4096 < s"
    "fd_pos d div 4096 \<noteq> (fd_pos d + s) div 4096"
    "\<And>ys. stuck_call (Call off (4096 - (fd_pos d AND 4095)) # ys) f"
proof -
  from assms [unfolded stuck_call_def] obtain off s rest c d i where x: "xs = Call off s # rest"
    "current_running (kst f) = Some c" "d = fd (pcb (kst f) c)" "fd_file d = Some i" "i < INODE_MAX_NUMBER"
    "unat s \<le> BLOCK_SIZE" "BLOCK_SIZE \<le> unat (fd_pos d) mod BLOCK_SIZE + unat s" "unat (fd_pos d) < 2147483648"
    "\<not> blocks (isize (nodes f i)) < blocks (fd_pos d + s)" by (elim exE conjE)
  note n = next_part [OF x(6-8)]
  show ?thesis
  proof (rule that [of off s rest c d i])
    show "stuck_call (Call off (4096 - (fd_pos d AND 4095)) # ys) f" for ys
      by (rule stuck_callI [OF x(2) x(3) [symmetric] x(4,5)]) (use x(7-9) n in \<open>simp_all add: not_less\<close>)
  qed (use x n in \<open>simp_all add: the_desc_def word_less_nat_alt\<close>)
qed

lemma stuck_diverges:
  assumes "fwrite_calls dev nodes_addr m buf xs f = Some g"
  shows "m = 0 \<longrightarrow> \<not> stuck_call xs f"
proof (rule fwrite_calls.raw_induct [where P = "\<lambda>dev nodes_addr m buf xs f g. m = 0 \<longrightarrow> \<not> stuck_call xs f", OF _ assms],
    intro impI)
  fix F dev nodes_addr m buf xs f g
  assume IH: "\<And>dev nodes_addr m buf xs f g. F dev nodes_addr m buf xs f = Some g \<Longrightarrow> m = 0 \<longrightarrow> \<not> stuck_call xs f"
    and body: "(case xs of [] \<Rightarrow> Some f
      | Call off sz # rest \<Rightarrow> do {
          (c, d) \<leftarrow> the_desc m f;
          let pos = fd_pos d;
          i \<leftarrow> fd_file d;
          n \<leftarrow> node_at i f;
          let resized = (blocks (isize n) < blocks (pos + sz));
          f1 \<leftarrow> (if resized then do_resize dev nodes_addr i (pos + sz) f else Some f);
          if file_access d AND (if O_WR = 0 then 1 else 0) \<noteq> 0
          then do {
            f2 \<leftarrow> fs_printks (cs ''No write permission'' @ [10]) [] f1;
            F dev nodes_addr m buf rest f2 }
          else if 4096 < sz then F dev nodes_addr m buf (Loop off 0 sz # rest) f1
          else if pos div 4096 \<noteq> (pos + sz) div 4096
          then (let fst_sz = 4096 - (pos AND 4095)
                in F dev nodes_addr m buf (Call off fst_sz # Call (off + unat fst_sz) (sz - fst_sz) # rest) f1)
          else do {
            f2 \<leftarrow> fwrite_block dev c i pos resized buf off sz f1;
            F dev nodes_addr m buf rest f2 } }
      | Loop off st sz # rest \<Rightarrow>
          if st < sz
          then F dev nodes_addr m buf (Call (off + unat st) (min 4096 (sz - st)) # Loop off (st + 4096) sz # rest) f
          else F dev nodes_addr m buf rest f) = Some g"
    and m: "m = 0"
  show "\<not> stuck_call xs f"
  proof
    assume st: "stuck_call xs f"
    obtain off s rest c d i where x: "xs = Call off s # rest" "the_desc 0 f = Some (c, d)" "fd_file d = Some i"
      "i < INODE_MAX_NUMBER" "\<not> blocks (isize (nodes f i)) < blocks (fd_pos d + s)" "\<not> 4096 < s"
      "fd_pos d div 4096 \<noteq> (fd_pos d + s) div 4096"
      and again: "\<And>ys. stuck_call (Call off (4096 - (fd_pos d AND 4095)) # ys) f"
      by (rule stuck_step [OF st]) (rule that, assumption+)
    have "\<exists>ys. F dev nodes_addr m buf (Call off (4096 - (fd_pos d AND 4095)) # ys) f = Some g"
      using body x m by (auto simp: node_at_Some Let_def)
    then show False using IH again m by blast
  qed
qed

text \<open>
  C40: Writing up to the end of a block. A \<open>do_fwrite\<close> whose bytes reach or cross the end of the block of its
  position never returns: the code splits the request at the end of the block, and the first part, which ends
  exactly there, is split again into itself and nothing.
\<close>

theorem fwrite_boundary_diverges:
  assumes desc: "current_running (kst f) = Some c" "fd (pcb (kst f) c) = d" "fd_file d = Some i" "i < INODE_MAX_NUMBER"
    and reach: "BLOCK_SIZE \<le> unat (fd_pos d) mod BLOCK_SIZE + unat sz" "unat (fd_pos d) + unat sz < 2147483648"
  shows "do_fwrite dev nodes_addr 0 buf sz f = None"
proof (rule ccontr)
  assume "do_fwrite dev nodes_addr 0 buf sz f \<noteq> None"
  then obtain g where g: "fwrite_calls dev nodes_addr 0 buf [Call 0 sz] f = Some g" by (auto simp: do_fwrite_def)
  let ?resized = "blocks (isize (nodes f i)) < blocks (fd_pos d + sz)"
  let ?s = "if 4096 < sz then 4096 else sz"
  have the: "the_desc 0 f = Some (c, d)" using desc by (simp add: the_desc_def)
  obtain f1 where f1: "(if ?resized then do_resize dev nodes_addr i (fd_pos d + sz) f else Some f) = Some f1"
    using g by (subst (asm) fwrite_calls.simps) (auto simp: the desc(3) node_at_Some [OF desc(4)] Let_def split: bind_splits)
  have kst: "kst f1 = kst f" and big: "blocks (fd_pos d + sz) \<le> blocks (isize (nodes f1 i))"
    using f1 do_resize_frame [OF _ desc(4), of dev nodes_addr "fd_pos d + sz" f f1] by (auto split: if_splits)
  have sum: "unat (fd_pos d + sz) = unat (fd_pos d) + unat sz"
    using unat_plus_small [of "fd_pos d" "unat sz"] reach(2) by simp
  have s: "unat ?s \<le> BLOCK_SIZE" "unat ?s \<le> unat sz" "BLOCK_SIZE \<le> unat (fd_pos d) mod BLOCK_SIZE + unat ?s"
    using reach(1) by (auto simp: word_less_nat_alt)
  have "unat (fd_pos d + ?s) = unat (fd_pos d) + unat ?s"
    using unat_plus_small [of "fd_pos d" "unat ?s"] reach(2) s(2) by simp
  then have "blocks (fd_pos d + ?s) \<le> blocks (isize (nodes f1 i))"
    using big blocks_mono [of "fd_pos d + ?s" "fd_pos d + sz"] s(2) sum reach(2) by simp
  then have stuck: "stuck_call (Call 0 ?s # ys) f1" for ys
    by (intro stuck_callI [of f1 c d i]) (use desc kst s reach(2) in simp_all)
  obtain xs where xs: "fwrite_calls dev nodes_addr 0 buf xs f1 = Some g" "stuck_call xs f1"
  proof (cases "4096 < sz")
    case True
    have "fwrite_calls dev nodes_addr 0 buf [Loop 0 0 sz] f1 = Some g"
      using g True by (subst (asm) fwrite_calls.simps) (simp add: the desc(3) node_at_Some [OF desc(4)] Let_def f1)
    then have "fwrite_calls dev nodes_addr 0 buf [Call 0 4096, Loop 0 4096 sz] f1 = Some g"
      using True by (subst (asm) fwrite_calls.simps) (auto simp: min_def word_gt_0 split: if_splits)
    then show ?thesis using that stuck [of "[Loop 0 4096 sz]"] True by simp
  next
    case False
    then have ne: "fd_pos d div 4096 \<noteq> (fd_pos d + sz) div 4096"
      using next_part(1) [of sz "fd_pos d"] s(1) reach by (auto simp: word_less_nat_alt)
    have st: "stuck_call [Call 0 sz] f1" using stuck [of "[]"] False by simp
    obtain ys where "fwrite_calls dev nodes_addr 0 buf (Call 0 (4096 - (fd_pos d AND 4095)) # ys) f1 = Some g"
      using g False ne by (subst (asm) fwrite_calls.simps) (auto simp: the desc(3) node_at_Some [OF desc(4)] Let_def f1)
    moreover have "stuck_call (Call 0 (4096 - (fd_pos d AND 4095)) # ys) f1"
      by (rule stuck_step [OF st]) (use desc kst in \<open>auto simp: the_desc_def\<close>)
    ultimately show ?thesis by (rule that)
  qed
  then show False using stuck_diverges by blast
qed

theorem fwrite_boundary_diverges_witness:
  "do_fwrite ram_dev 0xa0900000 0 (\<lambda>_. 1) 4096 open_fs = None"
  by (rule fwrite_boundary_diverges [OF open_desc(2,3), of 5]) simp_all

end
