(* ===== verification/Syscall.thy ===== *)
theory Syscall
  imports Irq Proc Fs_File
begin

text \<open>
  \<^verbatim>\<open>kernel/syscall/syscall.c\<close>, the numbers of \<^verbatim>\<open>include/sys/syscall.h\<close>, the table that \<open>init_syscall\<close> of \<^verbatim>\<open>init/main.c\<close>
  fills, and \<^verbatim>\<open>libs/input.c\<close>: the interface between user programs and the kernel.

  A stub puts a number and three arguments into registers and traps; \<open>system_call_helper\<close> calls the function at
  that place of the table. An argument is a machine word or a pointer; a pointer is the object it points to, as in
  the rest of the development. A call with a pointer to an object of another kind has no defined outcome.
\<close>

subsection \<open>Numbers, arguments, the table\<close>

datatype sysnum =
    SYSCALL_SLEEP | SYSCALL_BLOCK | SYSCALL_UNBLOCK_ONE | SYSCALL_UNBLOCK_ALL
  | SYSCALL_WRITE | SYSCALL_READ | SYSCALL_CURSOR | SYSCALL_REFLUSH
  | SYSCALL_MUTEX_LOCK_INIT | SYSCALL_MUTEX_LOCK_ACQUIRE | SYSCALL_MUTEX_LOCK_RELEASE
  | SYSCALL_MUTEX_LOCK_RELEASE_MULTIPLE | SYSCALL_CLEAR | SYSCALL_PS | SYSCALL_SPAWN
  | SYSCALL_SPAWN_PRIORITY | SYSCALL_EXIT | SYSCALL_GET_PID | SYSCALL_WAIT | SYSCALL_EXEC | SYSCALL_KILL
  | SYSCALL_GETCHAR | SYSCALL_SEMAPHORE_INIT | SYSCALL_SEMAPHORE_UP | SYSCALL_SEMAPHORE_DOWN
  | SYSCALL_COND_INIT | SYSCALL_COND_WAIT | SYSCALL_COND_SIGNAL | SYSCALL_COND_BROADCAST
  | SYSCALL_BARRIER_INIT | SYSCALL_BARRIER_WAIT | SYSCALL_REBOOT | SYSCALL_MAC_INIT | SYSCALL_NET_SEND
  | SYSCALL_NET_RECV | SYSCALL_NET_WAIT_RECV_PKG | SYSCALL_MKFS | SYSCALL_MKDIR | SYSCALL_RMDIR
  | SYSCALL_READ_DIR | SYSCALL_FS_INFO | SYSCALL_CHANGE_DIR | SYSCALL_MKNOD | SYSCALL_CAT | SYSCALL_FOPEN
  | SYSCALL_FREAD | SYSCALL_FWRITE | SYSCALL_FCLOSE | SYSCALL_FSEEK | SYSCALL_LINK | SYSCALL_FIND
  | SYSCALL_RENAME

definition sysno :: "sysnum \<Rightarrow> nat" where
  "sysno n = (case n of
      SYSCALL_SLEEP \<Rightarrow> 2 | SYSCALL_BLOCK \<Rightarrow> 10 | SYSCALL_UNBLOCK_ONE \<Rightarrow> 11 | SYSCALL_UNBLOCK_ALL \<Rightarrow> 12
    | SYSCALL_WRITE \<Rightarrow> 20 | SYSCALL_READ \<Rightarrow> 21 | SYSCALL_CURSOR \<Rightarrow> 22 | SYSCALL_REFLUSH \<Rightarrow> 23
    | SYSCALL_MUTEX_LOCK_INIT \<Rightarrow> 30 | SYSCALL_MUTEX_LOCK_ACQUIRE \<Rightarrow> 31 | SYSCALL_MUTEX_LOCK_RELEASE \<Rightarrow> 32
    | SYSCALL_MUTEX_LOCK_RELEASE_MULTIPLE \<Rightarrow> 33 | SYSCALL_CLEAR \<Rightarrow> 34 | SYSCALL_PS \<Rightarrow> 35 | SYSCALL_SPAWN \<Rightarrow> 36
    | SYSCALL_SPAWN_PRIORITY \<Rightarrow> 37 | SYSCALL_EXIT \<Rightarrow> 38 | SYSCALL_GET_PID \<Rightarrow> 39 | SYSCALL_WAIT \<Rightarrow> 40
    | SYSCALL_EXEC \<Rightarrow> 41 | SYSCALL_KILL \<Rightarrow> 42 | SYSCALL_GETCHAR \<Rightarrow> 43 | SYSCALL_SEMAPHORE_INIT \<Rightarrow> 44
    | SYSCALL_SEMAPHORE_UP \<Rightarrow> 45 | SYSCALL_SEMAPHORE_DOWN \<Rightarrow> 46 | SYSCALL_COND_INIT \<Rightarrow> 47
    | SYSCALL_COND_WAIT \<Rightarrow> 48 | SYSCALL_COND_SIGNAL \<Rightarrow> 49 | SYSCALL_COND_BROADCAST \<Rightarrow> 50
    | SYSCALL_BARRIER_INIT \<Rightarrow> 51 | SYSCALL_BARRIER_WAIT \<Rightarrow> 52 | SYSCALL_REBOOT \<Rightarrow> 53 | SYSCALL_MAC_INIT \<Rightarrow> 54
    | SYSCALL_NET_SEND \<Rightarrow> 55 | SYSCALL_NET_RECV \<Rightarrow> 56 | SYSCALL_NET_WAIT_RECV_PKG \<Rightarrow> 57 | SYSCALL_MKFS \<Rightarrow> 58
    | SYSCALL_MKDIR \<Rightarrow> 59 | SYSCALL_RMDIR \<Rightarrow> 60 | SYSCALL_READ_DIR \<Rightarrow> 61 | SYSCALL_FS_INFO \<Rightarrow> 62
    | SYSCALL_CHANGE_DIR \<Rightarrow> 63 | SYSCALL_MKNOD \<Rightarrow> 64 | SYSCALL_CAT \<Rightarrow> 65 | SYSCALL_FOPEN \<Rightarrow> 66
    | SYSCALL_FREAD \<Rightarrow> 67 | SYSCALL_FWRITE \<Rightarrow> 68 | SYSCALL_FCLOSE \<Rightarrow> 69 | SYSCALL_FSEEK \<Rightarrow> 70 | SYSCALL_LINK \<Rightarrow> 71
    | SYSCALL_FIND \<Rightarrow> 72 | SYSCALL_RENAME \<Rightarrow> 73)"

abbreviation "NUM_SYSCALLS \<equiv> (128 :: nat)"

datatype sys_arg = AInt u32 | AStr buffer | AQueue qid | ALock nat | ALocks "int \<Rightarrow> nat" | ASem nat | ACond nat
  | ABarrier nat | ATask task_info_t | ADesc nat

abbreviation "IGNORE \<equiv> AInt 0"

type_synonym sys_call = "nat \<times> sys_arg \<times> sys_arg \<times> sys_arg"

text \<open>The functions that the table points to.\<close>

datatype handler =
    H_sleep | H_block | H_unblock_one | H_unblock_all | H_screen_write | H_move_cursor | H_reflush
  | H_lock_init | H_lock_acquire | H_lock_release | H_lock_release_multiple | H_screen_clear | H_ps | H_spawn
  | H_spawn_with_priority | H_exit | H_get_pid | H_waitpid | H_exec | H_kill | H_getchar | H_sem_init | H_sem_up
  | H_sem_down | H_cond_init | H_cond_wait | H_cond_signal | H_cond_broadcast | H_barrier_init | H_barrier_wait
  | H_reboot | H_init_mac | H_net_send | H_net_recv | H_wait_recv_package | H_mkfs | H_print_fs_info | H_ls | H_mkdir
  | H_rm | H_cd | H_touch | H_cat | H_fopen | H_fread | H_fwrite | H_fclose | H_fseek | H_link | H_find | H_rename

definition init_syscall :: "nat \<Rightarrow> handler option" where
  "init_syscall = (\<lambda>_. None)
     (sysno SYSCALL_SLEEP \<mapsto> H_sleep, sysno SYSCALL_BLOCK \<mapsto> H_block,
      sysno SYSCALL_UNBLOCK_ONE \<mapsto> H_unblock_one, sysno SYSCALL_UNBLOCK_ALL \<mapsto> H_unblock_all,
      sysno SYSCALL_WRITE \<mapsto> H_screen_write, sysno SYSCALL_CURSOR \<mapsto> H_move_cursor,
      sysno SYSCALL_REFLUSH \<mapsto> H_reflush, sysno SYSCALL_MUTEX_LOCK_INIT \<mapsto> H_lock_init,
      sysno SYSCALL_MUTEX_LOCK_ACQUIRE \<mapsto> H_lock_acquire, sysno SYSCALL_MUTEX_LOCK_RELEASE \<mapsto> H_lock_release,
      sysno SYSCALL_MUTEX_LOCK_RELEASE_MULTIPLE \<mapsto> H_lock_release_multiple,
      sysno SYSCALL_CLEAR \<mapsto> H_screen_clear, sysno SYSCALL_PS \<mapsto> H_ps, sysno SYSCALL_SPAWN \<mapsto> H_spawn,
      sysno SYSCALL_SPAWN_PRIORITY \<mapsto> H_spawn_with_priority, sysno SYSCALL_EXIT \<mapsto> H_exit,
      sysno SYSCALL_GET_PID \<mapsto> H_get_pid, sysno SYSCALL_WAIT \<mapsto> H_waitpid, sysno SYSCALL_EXEC \<mapsto> H_exec,
      sysno SYSCALL_KILL \<mapsto> H_kill, sysno SYSCALL_GETCHAR \<mapsto> H_getchar,
      sysno SYSCALL_SEMAPHORE_INIT \<mapsto> H_sem_init, sysno SYSCALL_SEMAPHORE_UP \<mapsto> H_sem_up,
      sysno SYSCALL_SEMAPHORE_DOWN \<mapsto> H_sem_down, sysno SYSCALL_COND_INIT \<mapsto> H_cond_init,
      sysno SYSCALL_COND_WAIT \<mapsto> H_cond_wait, sysno SYSCALL_COND_SIGNAL \<mapsto> H_cond_signal,
      sysno SYSCALL_COND_BROADCAST \<mapsto> H_cond_broadcast, sysno SYSCALL_BARRIER_INIT \<mapsto> H_barrier_init,
      sysno SYSCALL_BARRIER_WAIT \<mapsto> H_barrier_wait, sysno SYSCALL_REBOOT \<mapsto> H_reboot,
      sysno SYSCALL_MAC_INIT \<mapsto> H_init_mac, sysno SYSCALL_NET_SEND \<mapsto> H_net_send,
      sysno SYSCALL_NET_RECV \<mapsto> H_net_recv, sysno SYSCALL_NET_WAIT_RECV_PKG \<mapsto> H_wait_recv_package,
      sysno SYSCALL_MKFS \<mapsto> H_mkfs, sysno SYSCALL_FS_INFO \<mapsto> H_print_fs_info, sysno SYSCALL_READ_DIR \<mapsto> H_ls,
      sysno SYSCALL_MKDIR \<mapsto> H_mkdir, sysno SYSCALL_RMDIR \<mapsto> H_rm, sysno SYSCALL_CHANGE_DIR \<mapsto> H_cd,
      sysno SYSCALL_MKNOD \<mapsto> H_touch, sysno SYSCALL_CAT \<mapsto> H_cat, sysno SYSCALL_FOPEN \<mapsto> H_fopen,
      sysno SYSCALL_FREAD \<mapsto> H_fread, sysno SYSCALL_FWRITE \<mapsto> H_fwrite, sysno SYSCALL_FCLOSE \<mapsto> H_fclose,
      sysno SYSCALL_FSEEK \<mapsto> H_fseek, sysno SYSCALL_LINK \<mapsto> H_link, sysno SYSCALL_FIND \<mapsto> H_find,
      sysno SYSCALL_RENAME \<mapsto> H_rename)"

subsection \<open>Handlers\<close>

text \<open>What the handlers depend on besides the state: the card, the contents of fresh stack memory, the address of the
  inode table, the return address for new processes, the tasks that \<open>do_exec\<close> can start, the bytes that wait at the
  serial port, and the calls that only touch devices (\<open>do_reboot\<close> is assembly, the others drive the network card).\<close>

record 'd sysenv =
  sd :: "'d sd_dev"
  stack_junk :: buffer
  nodes_addr :: u32
  exc_exit :: u32
  test_tasks :: "task_info_t list"
  uart :: "u8 list"
  device_call :: "handler \<Rightarrow> u32 \<Rightarrow> u32 \<Rightarrow> u32 \<Rightarrow> 'd fs_t \<Rightarrow> 'd fs_t option"

text \<open>What a call leaves in the memory of the caller; \<open>Again\<close> is a call that has blocked and tests its condition
  again when it is resumed.\<close>

datatype sys_result = Done | Again | RInt int | RChar u8 | RBuf buffer

text \<open>\<open>do_getchar\<close> reads the port until it is empty and keeps the last byte.\<close>

definition do_getchar :: "u8 list \<Rightarrow> u8" where
  "do_getchar bs = foldl (\<lambda>ch b. b) 0 bs"

fun as_word :: "sys_arg \<Rightarrow> u32 option" where
  "as_word (AInt w) = Some w"
| "as_word _ = None"

definition as_int :: "sys_arg \<Rightarrow> int option" where
  "as_int a = map_option sint (as_word a)"

text \<open>A string argument; the word 0 is NULL.\<close>

fun as_str :: "sys_arg \<Rightarrow> buffer option option" where
  "as_str (AStr b) = Some (Some b)"
| "as_str (AInt w) = (if w = 0 then Some None else None)"
| "as_str _ = None"

fun as_queue :: "sys_arg \<Rightarrow> qid option" where
  "as_queue (AQueue q) = Some q"
| "as_queue _ = None"

fun as_lock :: "sys_arg \<Rightarrow> nat option" where
  "as_lock (ALock n) = Some n"
| "as_lock _ = None"

fun as_locks :: "sys_arg \<Rightarrow> (int \<Rightarrow> nat) option" where
  "as_locks (ALocks b) = Some b"
| "as_locks _ = None"

fun as_sem :: "sys_arg \<Rightarrow> nat option" where
  "as_sem (ASem n) = Some n"
| "as_sem _ = None"

fun as_cond :: "sys_arg \<Rightarrow> nat option" where
  "as_cond (ACond n) = Some n"
| "as_cond _ = None"

fun as_barrier :: "sys_arg \<Rightarrow> nat option" where
  "as_barrier (ABarrier n) = Some n"
| "as_barrier _ = None"

fun as_task :: "sys_arg \<Rightarrow> task_info_t option" where
  "as_task (ATask t) = Some t"
| "as_task _ = None"

fun as_desc :: "sys_arg \<Rightarrow> nat option" where
  "as_desc (ADesc n) = Some n"
| "as_desc _ = None"

definition kcall :: "(kstate \<Rightarrow> kstate option) \<Rightarrow> 'd fs_t \<Rightarrow> (sys_result \<times> 'd fs_t) option" where
  "kcall g f = do { k \<leftarrow> g (kst f); Some (Done, f\<lparr>kst := k\<rparr>) }"

definition kwait :: "(kstate \<Rightarrow> (bool \<times> kstate) option) \<Rightarrow> 'd fs_t \<Rightarrow> (sys_result \<times> 'd fs_t) option" where
  "kwait g f = do { (got, k) \<leftarrow> g (kst f); Some (if got then Done else Again, f\<lparr>kst := k\<rparr>) }"

definition scall :: "(screen_t \<Rightarrow> screen_t option) \<Rightarrow> 'd fs_t \<Rightarrow> (sys_result \<times> 'd fs_t) option" where
  "scall g = kcall (\<lambda>k. do { x \<leftarrow> g (scr k); Some (k\<lparr>scr := x\<rparr>) })"

definition fcall :: "('d fs_t \<Rightarrow> 'd fs_t option) \<Rightarrow> 'd fs_t \<Rightarrow> (sys_result \<times> 'd fs_t) option" where
  "fcall g f = map_option (Pair Done) (g f)"

definition run_handler ::
  "'d sysenv \<Rightarrow> handler \<Rightarrow> sys_arg \<Rightarrow> sys_arg \<Rightarrow> sys_arg \<Rightarrow> 'd fs_t \<Rightarrow> (sys_result \<times> 'd fs_t) option" where
  "run_handler env h a1 a2 a3 f = (case h of
      H_sleep \<Rightarrow> do { n \<leftarrow> as_word a1; kcall (do_sleep n) f }
    | H_block \<Rightarrow> do { q \<leftarrow> as_queue a1; kcall (do_block q) f }
    | H_unblock_one \<Rightarrow> do { q \<leftarrow> as_queue a1; kcall (do_unblock_one q) f }
    | H_unblock_all \<Rightarrow> do { q \<leftarrow> as_queue a1; kcall (do_unblock_all q) f }
    | H_screen_write \<Rightarrow> do { nm \<leftarrow> as_str a1; b \<leftarrow> nm; xs \<leftarrow> str_bytes b 0; scall (screen_write xs) f }
    | H_move_cursor \<Rightarrow> do { x \<leftarrow> as_int a1; y \<leftarrow> as_int a2; scall (\<lambda>s. Some (screen_move_cursor x y s)) f }
    | H_reflush \<Rightarrow> scall screen_reflush f
    | H_lock_init \<Rightarrow> do { l \<leftarrow> as_lock a1; kcall (\<lambda>k. Some (do_mutex_lock_init l k)) f }
    | H_lock_acquire \<Rightarrow> do { l \<leftarrow> as_lock a1; kwait (do_mutex_lock_acquire l) f }
    | H_lock_release \<Rightarrow> do { l \<leftarrow> as_lock a1; kcall (do_mutex_lock_release l) f }
    | H_lock_release_multiple \<Rightarrow> do { b \<leftarrow> as_locks a1; n \<leftarrow> as_int a2; kcall (do_mutex_lock_release_multiple b n) f }
    | H_screen_clear \<Rightarrow> do { x \<leftarrow> as_int a1; y \<leftarrow> as_int a2; if x < 0 \<and> x < y then None else scall (screen_clear (nat x) (nat y)) f }
    | H_ps \<Rightarrow> kcall do_ps f
    | H_spawn \<Rightarrow> do { t \<leftarrow> as_task a1; kcall (do_spawn (exc_exit env) t) f }
    | H_spawn_with_priority \<Rightarrow> do { t \<leftarrow> as_task a1; p \<leftarrow> as_int a2; kcall (do_spawn_with_priority (exc_exit env) t p) f }
    | H_exit \<Rightarrow> kcall do_exit f
    | H_get_pid \<Rightarrow> do { e \<leftarrow> as_word a1; Some (RInt (do_get_pid e (kst f)), f) }
    | H_waitpid \<Rightarrow> do { p \<leftarrow> as_int a1; kcall (do_waitpid p) f }
    | H_exec \<Rightarrow> do { n \<leftarrow> as_int a1; kcall (do_exec (exc_exit env) (test_tasks env) n) f }
    | H_kill \<Rightarrow> do { p \<leftarrow> as_int a1; kcall (do_kill p) f }
    | H_getchar \<Rightarrow> Some (RChar (do_getchar (uart env)), f)
    | H_sem_init \<Rightarrow> do { n \<leftarrow> as_sem a1; v \<leftarrow> as_int a2; kcall (\<lambda>k. Some (do_semaphore_init n v k)) f }
    | H_sem_up \<Rightarrow> do { n \<leftarrow> as_sem a1; kcall (do_semaphore_up n) f }
    | H_sem_down \<Rightarrow> do { n \<leftarrow> as_sem a1; kwait (do_semaphore_down n) f }
    | H_cond_init \<Rightarrow> do { n \<leftarrow> as_cond a1; kcall (\<lambda>k. Some (do_condition_init n k)) f }
    | H_cond_wait \<Rightarrow> do { l \<leftarrow> as_lock a1; n \<leftarrow> as_cond a2; kcall (do_condition_wait l n) f }
    | H_cond_signal \<Rightarrow> do { n \<leftarrow> as_cond a1; kcall (do_condition_signal n) f }
    | H_cond_broadcast \<Rightarrow> do { n \<leftarrow> as_cond a1; kcall (do_condition_broadcast n) f }
    | H_barrier_init \<Rightarrow> do { n \<leftarrow> as_barrier a1; v \<leftarrow> as_int a2; kcall (\<lambda>k. Some (do_barrier_init n v k)) f }
    | H_barrier_wait \<Rightarrow> do { n \<leftarrow> as_barrier a1; kcall (do_barrier_wait n) f }
    | H_reboot \<Rightarrow> fcall (device_call env h 0 0 0) f
    | H_init_mac \<Rightarrow> fcall (device_call env h 0 0 0) f
    | H_net_send \<Rightarrow> do { x \<leftarrow> as_word a1; y \<leftarrow> as_word a2; fcall (device_call env h x y 0) f }
    | H_net_recv \<Rightarrow> do { x \<leftarrow> as_word a1; y \<leftarrow> as_word a2; z \<leftarrow> as_word a3; fcall (device_call env h x y z) f }
    | H_wait_recv_package \<Rightarrow> do { d \<leftarrow> as_desc a1; kwait (do_wait_recv_package d) f }
    | H_mkfs \<Rightarrow> fcall (do_mkfs (sd env) (stack_junk env)) f
    | H_print_fs_info \<Rightarrow> fcall (do_print_fs_info (sd env) (stack_junk env)) f
    | H_ls \<Rightarrow> do { nm \<leftarrow> as_str a1; fcall (do_ls (sd env) (stack_junk env) nm) f }
    | H_mkdir \<Rightarrow> do { nm \<leftarrow> as_str a1; fcall (do_mkdir (sd env) (stack_junk env) nm) f }
    | H_rm \<Rightarrow> do { nm \<leftarrow> as_str a1; fcall (do_rm (sd env) (stack_junk env) nm) f }
    | H_cd \<Rightarrow> do { nm \<leftarrow> as_str a1; fcall (do_cd (sd env) (stack_junk env) nm) f }
    | H_touch \<Rightarrow> do { nm \<leftarrow> as_str a1; fcall (do_touch (sd env) (stack_junk env) nm) f }
    | H_cat \<Rightarrow> do { nm \<leftarrow> as_str a1; fcall (do_cat (sd env) (stack_junk env) nm) f }
    | H_fopen \<Rightarrow> do { nm \<leftarrow> as_str a1; acc \<leftarrow> as_int a2; fcall (do_fopen (sd env) (stack_junk env) nm acc) f }
    | H_fread \<Rightarrow> do { n \<leftarrow> as_int a1; nm \<leftarrow> as_str a2; b \<leftarrow> nm; sz \<leftarrow> as_word a3;
        (b', f') \<leftarrow> do_fread (sd env) n b sz f; Some (RBuf b', f') }
    | H_fwrite \<Rightarrow> do { n \<leftarrow> as_int a1; nm \<leftarrow> as_str a2; b \<leftarrow> nm; sz \<leftarrow> as_word a3;
        fcall (do_fwrite (sd env) (nodes_addr env) n b sz) f }
    | H_fclose \<Rightarrow> do { n \<leftarrow> as_int a1; fcall (do_fclose n) f }
    | H_fseek \<Rightarrow> do { n \<leftarrow> as_int a1; p \<leftarrow> as_word a2; fcall (do_fseek n p) f }
    | H_link \<Rightarrow> do { m \<leftarrow> as_str a1; v \<leftarrow> as_str a2; ty \<leftarrow> as_word a3; fcall (do_link (sd env) (stack_junk env) m v ty) f }
    | H_find \<Rightarrow> do { path \<leftarrow> as_str a1; nm \<leftarrow> as_str a2; b \<leftarrow> nm; fcall (do_find (sd env) (stack_junk env) path b) f }
    | H_rename \<Rightarrow> do { x \<leftarrow> as_str a1; y \<leftarrow> as_str a2; fcall (do_rename (sd env) (stack_junk env) x y) f })"

text \<open>A number outside the table, or one for which no function is installed, has no defined outcome.\<close>

definition system_call_helper :: "'d sysenv \<Rightarrow> sys_call \<Rightarrow> 'd fs_t \<Rightarrow> (sys_result \<times> 'd fs_t) option" where
  "system_call_helper env c f =
     (case c of (n, a1, a2, a3) \<Rightarrow>
        if n < NUM_SYSCALLS then do { h \<leftarrow> init_syscall n; run_handler env h a1 a2 a3 f } else None)"

subsection \<open>Stubs\<close>

text \<open>The functions that user programs call, in the order of the file. The arguments that a stub casts to \<open>int\<close> are
  words; the argument vector of a new process, which the kernel does not look at, and the addresses at which results
  are stored are passed on as they are.\<close>

definition int_arg :: "int \<Rightarrow> sys_arg" where
  "int_arg n = AInt (word_of_int n)"

definition str_arg :: "buffer option \<Rightarrow> sys_arg" where
  "str_arg nm = (case nm of None \<Rightarrow> AInt 0 | Some b \<Rightarrow> AStr b)"

definition sys_sleep :: "u32 \<Rightarrow> sys_call" where
  "sys_sleep t = (sysno SYSCALL_SLEEP, AInt t, IGNORE, IGNORE)"

definition sys_block :: "qid \<Rightarrow> sys_call" where
  "sys_block q = (sysno SYSCALL_BLOCK, AQueue q, IGNORE, IGNORE)"

definition sys_unblock_one :: "qid \<Rightarrow> sys_call" where
  "sys_unblock_one q = (sysno SYSCALL_UNBLOCK_ONE, AQueue q, IGNORE, IGNORE)"

definition sys_unblock_all :: "qid \<Rightarrow> sys_call" where
  "sys_unblock_all q = (sysno SYSCALL_UNBLOCK_ALL, AQueue q, IGNORE, IGNORE)"

definition sys_write :: "buffer \<Rightarrow> sys_call" where
  "sys_write buff = (sysno SYSCALL_WRITE, AStr buff, IGNORE, IGNORE)"

definition sys_reflush :: sys_call where
  "sys_reflush = (sysno SYSCALL_REFLUSH, IGNORE, IGNORE, IGNORE)"

definition sys_clear :: sys_call where
  "sys_clear = (sysno SYSCALL_CLEAR, AInt 0, AInt 30, IGNORE)"

definition sys_move_cursor :: "int \<Rightarrow> int \<Rightarrow> sys_call" where
  "sys_move_cursor x y = (sysno SYSCALL_CURSOR, int_arg x, int_arg y, IGNORE)"

definition mutex_lock_init :: "nat \<Rightarrow> sys_call" where
  "mutex_lock_init l = (sysno SYSCALL_MUTEX_LOCK_INIT, ALock l, IGNORE, IGNORE)"

definition mutex_lock_acquire :: "nat \<Rightarrow> sys_call" where
  "mutex_lock_acquire l = (sysno SYSCALL_MUTEX_LOCK_ACQUIRE, ALock l, IGNORE, IGNORE)"

definition mutex_lock_release :: "nat \<Rightarrow> sys_call" where
  "mutex_lock_release l = (sysno SYSCALL_MUTEX_LOCK_RELEASE, ALock l, IGNORE, IGNORE)"

definition mutex_lock_release_multiple :: "(int \<Rightarrow> nat) \<Rightarrow> int \<Rightarrow> sys_call" where
  "mutex_lock_release_multiple b n = (sysno SYSCALL_MUTEX_LOCK_RELEASE_MULTIPLE, ALocks b, int_arg n, IGNORE)"

definition sys_ps :: sys_call where
  "sys_ps = (sysno SYSCALL_PS, IGNORE, IGNORE, IGNORE)"

definition sys_exit :: sys_call where
  "sys_exit = (sysno SYSCALL_EXIT, IGNORE, IGNORE, IGNORE)"

definition sys_spawn :: "task_info_t \<Rightarrow> sys_arg \<Rightarrow> sys_call" where
  "sys_spawn t arg = (sysno SYSCALL_SPAWN, ATask t, arg, IGNORE)"

definition sys_spawn_with_priority :: "task_info_t \<Rightarrow> int \<Rightarrow> sys_arg \<Rightarrow> sys_call" where
  "sys_spawn_with_priority t p arg = (sysno SYSCALL_SPAWN_PRIORITY, ATask t, int_arg p, arg)"

definition sys_get_pid :: "u32 \<Rightarrow> sys_arg \<Rightarrow> sys_call" where
  "sys_get_pid e result = (sysno SYSCALL_GET_PID, AInt e, result, IGNORE)"

definition sys_waitpid :: "int \<Rightarrow> sys_call" where
  "sys_waitpid p = (sysno SYSCALL_WAIT, int_arg p, IGNORE, IGNORE)"

definition sys_exec :: "int \<Rightarrow> sys_arg \<Rightarrow> sys_call" where
  "sys_exec n arg = (sysno SYSCALL_EXEC, int_arg n, arg, IGNORE)"

definition sys_kill :: "int \<Rightarrow> sys_call" where
  "sys_kill p = (sysno SYSCALL_KILL, int_arg p, IGNORE, IGNORE)"

definition sys_getchar :: "sys_arg \<Rightarrow> sys_call" where
  "sys_getchar result = (sysno SYSCALL_GETCHAR, result, IGNORE, IGNORE)"

definition semaphore_init :: "nat \<Rightarrow> int \<Rightarrow> sys_call" where
  "semaphore_init n v = (sysno SYSCALL_SEMAPHORE_INIT, ASem n, int_arg v, IGNORE)"

definition semaphore_up :: "nat \<Rightarrow> sys_call" where
  "semaphore_up n = (sysno SYSCALL_SEMAPHORE_UP, ASem n, IGNORE, IGNORE)"

definition semaphore_down :: "nat \<Rightarrow> sys_call" where
  "semaphore_down n = (sysno SYSCALL_SEMAPHORE_DOWN, ASem n, IGNORE, IGNORE)"

definition condition_init :: "nat \<Rightarrow> sys_call" where
  "condition_init n = (sysno SYSCALL_COND_INIT, ACond n, IGNORE, IGNORE)"

definition condition_wait :: "nat \<Rightarrow> nat \<Rightarrow> sys_call" where
  "condition_wait l n = (sysno SYSCALL_COND_WAIT, ALock l, ACond n, IGNORE)"

definition condition_signal :: "nat \<Rightarrow> sys_call" where
  "condition_signal n = (sysno SYSCALL_COND_SIGNAL, ACond n, IGNORE, IGNORE)"

definition condition_broadcast :: "nat \<Rightarrow> sys_call" where
  "condition_broadcast n = (sysno SYSCALL_COND_BROADCAST, ACond n, IGNORE, IGNORE)"

definition barrier_init :: "nat \<Rightarrow> int \<Rightarrow> sys_call" where
  "barrier_init n v = (sysno SYSCALL_BARRIER_INIT, ABarrier n, int_arg v, IGNORE)"

definition barrier_wait :: "nat \<Rightarrow> sys_call" where
  "barrier_wait n = (sysno SYSCALL_BARRIER_WAIT, ABarrier n, IGNORE, IGNORE)"

definition sys_reboot :: sys_call where
  "sys_reboot = (sysno SYSCALL_REBOOT, IGNORE, IGNORE, IGNORE)"

definition sys_init_mac :: sys_call where
  "sys_init_mac = (sysno SYSCALL_MAC_INIT, IGNORE, IGNORE, IGNORE)"

definition sys_net_send :: "u32 \<Rightarrow> u32 \<Rightarrow> sys_call" where
  "sys_net_send td td_phy = (sysno SYSCALL_NET_SEND, AInt td, AInt td_phy, IGNORE)"

definition sys_net_recv :: "u32 \<Rightarrow> u32 \<Rightarrow> u32 \<Rightarrow> sys_call" where
  "sys_net_recv rd rd_phy daddr = (sysno SYSCALL_NET_RECV, AInt rd, AInt rd_phy, AInt daddr)"

definition sys_wait_recv_package :: "nat \<Rightarrow> sys_call" where
  "sys_wait_recv_package d = (sysno SYSCALL_NET_WAIT_RECV_PKG, ADesc d, IGNORE, IGNORE)"

definition sys_mkfs :: sys_call where
  "sys_mkfs = (sysno SYSCALL_MKFS, IGNORE, IGNORE, IGNORE)"

definition sys_statfs :: sys_call where
  "sys_statfs = (sysno SYSCALL_FS_INFO, IGNORE, IGNORE, IGNORE)"

definition sys_ls :: "buffer option \<Rightarrow> sys_call" where
  "sys_ls nm = (sysno SYSCALL_READ_DIR, str_arg nm, IGNORE, IGNORE)"

definition sys_mkdir :: "buffer option \<Rightarrow> sys_call" where
  "sys_mkdir nm = (sysno SYSCALL_MKDIR, str_arg nm, IGNORE, IGNORE)"

definition sys_rm :: "buffer option \<Rightarrow> sys_call" where
  "sys_rm nm = (sysno SYSCALL_RMDIR, str_arg nm, IGNORE, IGNORE)"

definition sys_cd :: "buffer option \<Rightarrow> sys_call" where
  "sys_cd nm = (sysno SYSCALL_CHANGE_DIR, str_arg nm, IGNORE, IGNORE)"

definition sys_touch :: "buffer option \<Rightarrow> sys_call" where
  "sys_touch nm = (sysno SYSCALL_MKNOD, str_arg nm, IGNORE, IGNORE)"

definition sys_cat :: "buffer option \<Rightarrow> sys_call" where
  "sys_cat nm = (sysno SYSCALL_CAT, str_arg nm, IGNORE, IGNORE)"

definition sys_fopen :: "buffer option \<Rightarrow> int \<Rightarrow> sys_call" where
  "sys_fopen nm acc = (sysno SYSCALL_FOPEN, str_arg nm, int_arg acc, IGNORE)"

definition sys_fwrite :: "int \<Rightarrow> buffer \<Rightarrow> u32 \<Rightarrow> sys_call" where
  "sys_fwrite n b sz = (sysno SYSCALL_FWRITE, int_arg n, AStr b, AInt sz)"

definition sys_fread :: "int \<Rightarrow> buffer \<Rightarrow> u32 \<Rightarrow> sys_call" where
  "sys_fread n b sz = (sysno SYSCALL_FREAD, int_arg n, AStr b, AInt sz)"

definition sys_fclose :: "int \<Rightarrow> sys_call" where
  "sys_fclose n = (sysno SYSCALL_FCLOSE, int_arg n, IGNORE, IGNORE)"

definition sys_fseek :: "int \<Rightarrow> u32 \<Rightarrow> sys_call" where
  "sys_fseek n p = (sysno SYSCALL_FSEEK, int_arg n, IGNORE, IGNORE)"

definition sys_link :: "buffer option \<Rightarrow> buffer option \<Rightarrow> u32 \<Rightarrow> sys_call" where
  "sys_link m v ty = (sysno SYSCALL_LINK, str_arg m, str_arg v, AInt ty)"

definition sys_find :: "buffer option \<Rightarrow> buffer option \<Rightarrow> sys_call" where
  "sys_find path nm = (sysno SYSCALL_FIND, str_arg path, str_arg nm, IGNORE)"

definition sys_rename :: "buffer option \<Rightarrow> buffer option \<Rightarrow> sys_call" where
  "sys_rename x y = (sysno SYSCALL_RENAME, str_arg x, str_arg y, IGNORE)"

text \<open>\<open>getchar\<close> of \<^verbatim>\<open>libs/input.c\<close>, \<open>printf\<close> of \<^verbatim>\<open>libs/printk.c\<close>, and \<open>sys_getpid\<close>, which looks the caller up by its entry point.\<close>

definition getchar :: "'d sysenv \<Rightarrow> 'd fs_t \<Rightarrow> (u8 \<times> 'd fs_t) option" where
  "getchar env f = do {
     (r, f1) \<leftarrow> system_call_helper env (sys_getchar IGNORE) f;
     (case r of RChar ch \<Rightarrow> Some (ch, f1) | _ \<Rightarrow> None) }"

definition printf :: "'d sysenv \<Rightarrow> u8 list \<Rightarrow> va_arg list \<Rightarrow> 'd fs_t \<Rightarrow> 'd fs_t option" where
  "printf env fmt va f = do {
     buff \<leftarrow> mini_vsnprintf 256 fmt va;
     (r, f1) \<leftarrow> system_call_helper env (sys_write (buf_of buff)) f;
     Some f1 }"

definition sys_getpid :: "'d sysenv \<Rightarrow> 'd fs_t \<Rightarrow> (int \<times> 'd fs_t) option" where
  "sys_getpid env f = do {
     c \<leftarrow> current_running (kst f);
     (r, f1) \<leftarrow> system_call_helper env (sys_get_pid (entry_point (pcb (kst f) c)) IGNORE) f;
     (case r of RInt n \<Rightarrow> Some (n, f1) | _ \<Rightarrow> None) }"

subsection \<open>The table\<close>

lemma sysno_less [simp]: "sysno n < NUM_SYSCALLS"
  by (cases n) (simp_all add: sysno_def)

lemma init_syscall_simps [simp]:
  "init_syscall 2 = Some H_sleep" "init_syscall 10 = Some H_block" "init_syscall 11 = Some H_unblock_one"
  "init_syscall 12 = Some H_unblock_all" "init_syscall 20 = Some H_screen_write"
  "init_syscall 22 = Some H_move_cursor" "init_syscall 23 = Some H_reflush" "init_syscall 30 = Some H_lock_init"
  "init_syscall 31 = Some H_lock_acquire" "init_syscall 32 = Some H_lock_release"
  "init_syscall 33 = Some H_lock_release_multiple" "init_syscall 34 = Some H_screen_clear"
  "init_syscall 35 = Some H_ps" "init_syscall 36 = Some H_spawn" "init_syscall 37 = Some H_spawn_with_priority"
  "init_syscall 38 = Some H_exit" "init_syscall 39 = Some H_get_pid" "init_syscall 40 = Some H_waitpid"
  "init_syscall 41 = Some H_exec" "init_syscall 42 = Some H_kill" "init_syscall 43 = Some H_getchar"
  "init_syscall 44 = Some H_sem_init" "init_syscall 45 = Some H_sem_up" "init_syscall 46 = Some H_sem_down"
  "init_syscall 47 = Some H_cond_init" "init_syscall 48 = Some H_cond_wait" "init_syscall 49 = Some H_cond_signal"
  "init_syscall 50 = Some H_cond_broadcast" "init_syscall 51 = Some H_barrier_init"
  "init_syscall 52 = Some H_barrier_wait" "init_syscall 53 = Some H_reboot" "init_syscall 54 = Some H_init_mac"
  "init_syscall 55 = Some H_net_send" "init_syscall 56 = Some H_net_recv" "init_syscall 57 = Some H_wait_recv_package"
  "init_syscall 58 = Some H_mkfs" "init_syscall 62 = Some H_print_fs_info" "init_syscall 61 = Some H_ls"
  "init_syscall 59 = Some H_mkdir" "init_syscall 60 = Some H_rm" "init_syscall 63 = Some H_cd"
  "init_syscall 64 = Some H_touch" "init_syscall 65 = Some H_cat" "init_syscall 66 = Some H_fopen"
  "init_syscall 67 = Some H_fread" "init_syscall 68 = Some H_fwrite" "init_syscall 69 = Some H_fclose"
  "init_syscall 70 = Some H_fseek" "init_syscall 71 = Some H_link" "init_syscall 72 = Some H_find"
  "init_syscall 73 = Some H_rename"
  by (simp_all add: init_syscall_def sysno_def)

lemmas stub_defs = sys_sleep_def sys_block_def sys_unblock_one_def sys_unblock_all_def sys_write_def sys_reflush_def sys_clear_def
  sys_move_cursor_def mutex_lock_init_def mutex_lock_acquire_def mutex_lock_release_def
  mutex_lock_release_multiple_def sys_ps_def sys_exit_def sys_spawn_def sys_spawn_with_priority_def sys_get_pid_def
  sys_waitpid_def sys_exec_def sys_kill_def sys_getchar_def semaphore_init_def semaphore_up_def semaphore_down_def
  condition_init_def condition_wait_def condition_signal_def condition_broadcast_def barrier_init_def
  barrier_wait_def sys_reboot_def sys_init_mac_def sys_net_send_def sys_net_recv_def sys_wait_recv_package_def
  sys_mkfs_def sys_statfs_def sys_ls_def sys_mkdir_def sys_rm_def sys_cd_def sys_touch_def sys_cat_def sys_fopen_def
  sys_fwrite_def sys_fread_def sys_fclose_def sys_fseek_def sys_link_def sys_find_def sys_rename_def

definition int_range :: "int \<Rightarrow> bool" where
  "int_range n \<longleftrightarrow> - (2 ^ 31) \<le> n \<and> n < 2 ^ 31"

lemma as_int_arg: "int_range n \<Longrightarrow> as_int (int_arg n) = Some n"
  unfolding as_int_def int_arg_def by (simp, subst signed_of_int) (simp add: int_range_def signed_take_bit_int_eq_self)

lemma as_str_arg [simp]: "as_str (str_arg x) = Some x"
  by (cases x) (simp_all add: str_arg_def)

lemma as_int_simps [simp]: "as_int (AInt 0) = Some 0" "as_int (AInt 30) = Some 30"
  by (simp_all add: as_int_def)

lemmas call_simps = stub_defs system_call_helper_def run_handler_def as_int_arg sysno_def

subsection \<open>The invariant under system calls\<close>

text \<open>The calls on processes, synchronisation objects and the screen, with what each requires of its arguments: queues to
  block on are wait queues, counters stay within an int, the screen cursor is on the screen for output.\<close>

inductive safe_call :: "kstate \<Rightarrow> sys_call \<Rightarrow> bool" where
  "safe_call s (sys_sleep t)"
| "\<lbrakk>\<not> is_ready_q q; q \<noteq> RecvQ\<rbrakk> \<Longrightarrow> safe_call s (sys_block q)"
| "\<not> is_ready_q q \<Longrightarrow> safe_call s (sys_unblock_one q)"
| "\<not> is_ready_q q \<Longrightarrow> safe_call s (sys_unblock_all q)"
| "\<lbrakk>cstr b 0 xs; cursor_ok (scr s)\<rbrakk> \<Longrightarrow> safe_call s (sys_write b)"
| "safe_call s sys_reflush"
| "\<lbrakk>int_range m; int_range n\<rbrakk> \<Longrightarrow> safe_call s (sys_move_cursor m n)"
| "safe_call s (mutex_lock_acquire l)"
| "safe_call s (mutex_lock_release l)"
| "safe_call s sys_exit"
| "safe_call s (sys_get_pid e arg)"
| "int_range n \<Longrightarrow> safe_call s (sys_waitpid n)"
| "\<lbrakk>int_range n; cursor_ok (scr s)\<rbrakk> \<Longrightarrow> safe_call s (sys_kill n)"
| "safe_call s (sys_getchar arg)"
| "\<lbrakk>- (2 ^ 31) \<le> sem_value (sems s i); sem_value (sems s i) < 2 ^ 31 - 1\<rbrakk> \<Longrightarrow> safe_call s (semaphore_up i)"
| "\<lbrakk>- (2 ^ 31) < sem_value (sems s i); sem_value (sems s i) < 2 ^ 31\<rbrakk> \<Longrightarrow> safe_call s (semaphore_down i)"
| "safe_call s (condition_wait l i)"
| "safe_call s (condition_signal i)"
| "safe_call s (condition_broadcast i)"
| "cur_val (barriers s i) + 1 < 2 ^ 31 \<Longrightarrow> safe_call s (barrier_wait i)"
| "safe_call s (sys_wait_recv_package d)"

definition keeps_inv :: "(kstate \<Rightarrow> kstate option) \<Rightarrow> kstate \<Rightarrow> bool" where
  "keeps_inv g s \<longleftrightarrow> (\<exists>s' Q'. g s = Some s' \<and> sched_inv s' Q')"

definition safe_result :: "(sys_result \<times> 'd fs_t) option \<Rightarrow> 'd fs_t \<Rightarrow> bool" where
  "safe_result r f \<longleftrightarrow> (\<exists>x f' Q'. r = Some (x, f') \<and> sched_inv (kst f') Q' \<and> f' = f\<lparr>kst := kst f'\<rparr>)"

lemma kcall_keeps:
  assumes "keeps_inv g (kst f)"
  shows "safe_result (kcall g f) f"
  using assms by (auto simp: safe_result_def keeps_inv_def kcall_def)

lemma kwait_keeps:
  assumes "g (kst f) = Some (got, s')" "sched_inv s' Q'"
  shows "safe_result (kwait g f) f"
  using assms by (auto simp: safe_result_def kwait_def)

lemma scall_keeps:
  assumes "g (scr (kst f)) = Some x" "sched_inv (kst f) Q"
  shows "safe_result (scall g f) f"
  unfolding scall_def by (rule kcall_keeps) (use assms sched_inv_frame(1) in \<open>auto simp: keeps_inv_def\<close>)

lemma block_keeps:
  assumes inv: "sched_inv s Q" and cur: "current_running s = Some c" "status (pcb s c) \<noteq> TASK_BLOCKED" and q: "\<not> is_ready_q q"
  shows "q \<noteq> RecvQ \<Longrightarrow> keeps_inv (do_block q) s" "keeps_inv (do_unblock_one q) s" "keeps_inv (do_unblock_all q) s"
  unfolding keeps_inv_def
  using sched_inv_do_block [OF inv cur q] sched_inv_unblock_one [OF inv cur q] sched_inv_unblock_all [OF inv cur q] by blast+

lemma sem_up_keeps:
  assumes inv: "sched_inv s Q" and cur: "current_running s = Some c" "status (pcb s c) \<noteq> TASK_BLOCKED"
    and v: "- (2 ^ 31) \<le> sem_value (sems s i)" "sem_value (sems s i) < 2 ^ 31 - 1"
  shows "keeps_inv (do_semaphore_up i) s"
proof -
  let ?s = "s\<lparr>sems := (sems s)(i := (sems s i)\<lparr>sem_value := sem_value (sems s i) + 1\<rparr>)\<rparr>"
  have add: "sem_add i 1 s = Some ?s" using v by (simp add: sem_add_def)
  have k: "sched_inv ?s Q" by (rule sched_inv_slot(5) [OF inv])
  have "keeps_inv (do_unblock_one (SemQ i)) ?s" by (rule block_keeps(2) [OF k]) (use cur in simp_all)
  then show ?thesis using add k by (auto simp: keeps_inv_def do_semaphore_up_def)
qed

lemma sem_down_keeps:
  assumes inv: "sched_inv s Q" and cur: "current_running s = Some c" "status (pcb s c) \<noteq> TASK_BLOCKED"
    and v: "- (2 ^ 31) < sem_value (sems s i)" "sem_value (sems s i) < 2 ^ 31"
  shows "\<exists>got s' Q'. do_semaphore_down i s = Some (got, s') \<and> sched_inv s' Q'"
proof -
  let ?s = "s\<lparr>sems := (sems s)(i := (sems s i)\<lparr>sem_value := sem_value (sems s i) - 1\<rparr>)\<rparr>"
  have add: "sem_add i (- 1) s = Some ?s" using v by (simp add: sem_add_def)
  have k: "sched_inv ?s Q" by (rule sched_inv_slot(5) [OF inv])
  have "keeps_inv (do_block (SemQ i)) ?s" by (rule block_keeps(1) [OF k]) (use cur in simp_all)
  then show ?thesis using add k by (auto simp: keeps_inv_def do_semaphore_down_def semaphore_wait_def)
qed

lemma cond_wait_keeps:
  assumes inv: "sched_inv s Q" and cur: "current_running s = Some c" "status (pcb s c) \<noteq> TASK_BLOCKED"
  shows "keeps_inv (do_condition_wait l i) s"
proof -
  obtain s1 Q1 where r: "do_mutex_lock_release l s = Some s1" "sched_inv s1 Q1" "current_running s1 = Some c"
    "status (pcb s1 c) \<noteq> TASK_BLOCKED" using release_effect [OF inv cur] by blast
  have "keeps_inv (do_block (CondQ i)) s1" by (rule block_keeps(1) [OF r(2-4)]) simp_all
  then show ?thesis using r(1) by (simp add: keeps_inv_def do_condition_wait_def)
qed

lemma barrier_keeps:
  assumes inv: "sched_inv s Q" and cur: "current_running s = Some c" "status (pcb s c) \<noteq> TASK_BLOCKED"
    and v: "cur_val (barriers s i) + 1 < 2 ^ 31"
  shows "keeps_inv (do_barrier_wait i) s"
proof -
  have k: "sched_inv (set_barrier i w s) Q" for w by (rule sched_inv_slot(4) [OF inv])
  have "keeps_inv (do_block (BarrierQ i)) (set_barrier i w s)" "keeps_inv (do_unblock_all (BarrierQ i)) (set_barrier i w s)" for w
    by (rule block_keeps [OF k]; use cur in simp)+
  then show ?thesis using v by (simp add: keeps_inv_def do_barrier_wait_def Let_def)
qed

lemma waitpid_keeps:
  assumes inv: "sched_inv s Q" and cur: "current_running s = Some c" "status (pcb s c) \<noteq> TASK_BLOCKED"
  shows "keeps_inv (do_waitpid n) s"
proof -
  have "keeps_inv (do_block (ProcQ p)) s" for p by (rule block_keeps(1) [OF inv cur]) simp_all
  then show ?thesis using inv by (auto simp: keeps_inv_def do_waitpid_def split: option.splits)
qed

lemma recv_keeps:
  assumes inv: "sched_inv s Q" and cur: "current_running s = Some c" "status (pcb s c) \<noteq> TASK_BLOCKED"
  shows "\<exists>got s' Q'. do_wait_recv_package d s = Some (got, s') \<and> sched_inv s' Q'"
proof -
  let ?s = "upd_pcb c (\<lambda>p. p\<lparr>waiting_desc := Some d\<rparr>) s"
  have k: "sched_inv ?s Q" by (rule sched_inv_set_desc [OF inv])
  have "keeps_inv (do_block RecvQ) ?s" unfolding keeps_inv_def
    using sched_inv_do_block [OF k, of c RecvQ] cur by auto
  then show ?thesis using k cur by (auto simp: keeps_inv_def do_wait_recv_package_def recv_wait_def)
qed


lemma safe_call_keeps:
  assumes safe: "safe_call (kst f) call" and inv: "sched_inv (kst f) Q"
    and cur: "current_running (kst f) = Some c" "status (pcb (kst f) c) \<noteq> TASK_BLOCKED"
  shows "safe_result (system_call_helper env call f) f"
  using safe
proof cases
  case (1 t)
  then show ?thesis using sched_inv_do_sleep [OF inv cur] by (auto intro!: kcall_keeps simp: call_simps keeps_inv_def)
next
  case (2 q)
  then show ?thesis using block_keeps(1) [OF inv cur] by (auto intro!: kcall_keeps simp: call_simps)
next
  case (3 q)
  then show ?thesis using block_keeps(2) [OF inv cur] by (auto intro!: kcall_keeps simp: call_simps)
next
  case (4 q)
  then show ?thesis using block_keeps(3) [OF inv cur] by (auto intro!: kcall_keeps simp: call_simps)
next
  case (5 b xs)
  then obtain ys where ys: "str_bytes b 0 = Some ys" by (auto simp: str_bytes_def)
  obtain x where "screen_write ys (scr (kst f)) = Some x" using screen_write_ok 5(3) by blast
  then show ?thesis using 5(1) scall_keeps [OF _ inv] by (simp add: call_simps ys)
next
  case 6
  then show ?thesis using scall_keeps [OF _ inv] screen_reflush_defined [of "scr (kst f)"] by (auto simp: call_simps)
next
  case (7 m n)
  then show ?thesis using scall_keeps [OF _ inv] by (simp add: call_simps)
next
  case (8 l)
  then show ?thesis using sched_inv_acquire [OF inv cur, of l] by (auto intro!: kwait_keeps simp: call_simps)
next
  case (9 l)
  then show ?thesis using release_effect [OF inv cur, of l] by (auto intro!: kcall_keeps simp: call_simps keeps_inv_def)
next
  case 10
  then show ?thesis using exit_effect [OF inv cur] by (auto intro!: kcall_keeps simp: call_simps keeps_inv_def)
next
  case (11 e arg)
  then show ?thesis using inv by (auto simp: call_simps safe_result_def)
next
  case (12 n)
  then show ?thesis using waitpid_keeps [OF inv cur] by (auto intro!: kcall_keeps simp: call_simps)
next
  case (13 n)
  then show ?thesis using do_kill_effect [OF inv cur, of n] by (auto intro!: kcall_keeps simp: call_simps keeps_inv_def)
next
  case (14 arg)
  then show ?thesis using inv by (auto simp: call_simps safe_result_def)
next
  case (15 i)
  then show ?thesis using sem_up_keeps [OF inv cur, of i] by (auto intro!: kcall_keeps simp: call_simps)
next
  case (16 i)
  then show ?thesis using sem_down_keeps [OF inv cur, of i] by (auto intro!: kwait_keeps simp: call_simps)
next
  case (17 l i)
  then show ?thesis using cond_wait_keeps [OF inv cur] by (auto intro!: kcall_keeps simp: call_simps)
next
  case (18 i)
  then show ?thesis using block_keeps(2) [OF inv cur, of "CondQ i"]
    by (auto intro!: kcall_keeps simp: call_simps keeps_inv_def do_condition_signal_def)
next
  case (19 i)
  then show ?thesis using block_keeps(3) [OF inv cur, of "CondQ i"]
    by (auto intro!: kcall_keeps simp: call_simps keeps_inv_def do_condition_broadcast_def)
next
  case (20 i)
  then show ?thesis using barrier_keeps [OF inv cur, of i] by (auto intro!: kcall_keeps simp: call_simps)
next
  case (21 d)
  then show ?thesis using recv_keeps [OF inv cur, of d] by (auto intro!: kwait_keeps simp: call_simps)
qed

subsection \<open>Properties\<close>


definition demo_env :: "(u32 \<Rightarrow> u8) sysenv" where
  "demo_env = \<lparr>sd = ram_dev, stack_junk = \<lambda>_. 0, nodes_addr = 0, exc_exit = 0, test_tasks = [], uart = cs ''ls'',
     device_call = \<lambda>_ _ _ _ f. Some f\<rparr>"




end
