(* ===== verification/Shell.thy ===== *)
theory Shell
  imports Syscall
begin

text \<open>
  \<^verbatim>\<open>kernel/shell/shell.c\<close>: the command line. The shell is a user process: it reads characters, edits a line in a buffer,
  splits it into fields, looks the first field up in its table of commands and runs the command, which issues
  system calls.

  A pointer into the command buffer is an offset. A field that the splitting did not set is an uninitialised
  variable; using it has no defined outcome. \<open>read_uart_ch\<close> is not used by the shell (it reads through \<open>getchar\<close>).
\<close>

abbreviation "COMMAND_BUFFER_SIZE \<equiv> (1024 :: nat)"
abbreviation "COMMAND_FIELD_MAX_NUM \<equiv> (64 :: nat)"
abbreviation "BLANK \<equiv> (32 :: u8)"
abbreviation "O_RDWR \<equiv> (3 :: int)"

subsection \<open>Commands\<close>

text \<open>A system call whose result the shell does not look at.\<close>

definition invoke :: "'d sysenv \<Rightarrow> sys_call \<Rightarrow> 'd fs_t \<Rightarrow> 'd fs_t option" where
  "invoke env c f = map_option snd (system_call_helper env c f)"

text \<open>The string that \<open>argv[k]\<close> points to.\<close>

definition argv :: "buffer \<Rightarrow> nat list \<Rightarrow> nat \<Rightarrow> buffer option" where
  "argv cmd field k = (if k < length field then Some (\<lambda>i. cmd (field ! k + i)) else None)"

type_synonym 'd command = "'d sysenv \<Rightarrow> buffer \<Rightarrow> nat list \<Rightarrow> 'd fs_t \<Rightarrow> 'd fs_t option"

definition cmd_reboot :: "'d command" where
  "cmd_reboot env cmd field f =
     (if length field = 1 then do {
        a0 \<leftarrow> argv cmd field 0;
        d \<leftarrow> strcmp a0 0 (buf_of (cs ''reboot'')) 0;
        if d = 0 then invoke env sys_reboot f else Some f }
      else Some f)"

definition cmd_exec :: "'d command" where
  "cmd_exec env cmd field f = do {
     a1 \<leftarrow> argv cmd field 1;
     task_id \<leftarrow> atoi a1 0;
     invoke env (sys_exec task_id IGNORE) f }"

definition cmd_kill :: "'d command" where
  "cmd_kill env cmd field f = do {
     a1 \<leftarrow> argv cmd field 1;
     pid \<leftarrow> atoi a1 0;
     if pid < 0 \<or> int NUM_MAX_TASK < pid
     then printf env (cs ''Incorrect pid: %d'' @ [10]) [VInt (word_of_int pid)] f
     else invoke env (sys_kill pid) f }"

definition cmd_mkfs :: "'d command" where
  "cmd_mkfs env cmd field f = invoke env sys_mkfs f"

definition cmd_statfs :: "'d command" where
  "cmd_statfs env cmd field f = invoke env sys_statfs f"

definition cmd_mkdir :: "'d command" where
  "cmd_mkdir env cmd field f = do { a1 \<leftarrow> argv cmd field 1; invoke env (sys_mkdir (Some a1)) f }"

definition cmd_cd :: "'d command" where
  "cmd_cd env cmd field f = do { a1 \<leftarrow> argv cmd field 1; invoke env (sys_cd (Some a1)) f }"

definition cmd_rm :: "'d command" where
  "cmd_rm env cmd field f = do { a1 \<leftarrow> argv cmd field 1; invoke env (sys_rm (Some a1)) f }"

definition cmd_touch :: "'d command" where
  "cmd_touch env cmd field f = do { a1 \<leftarrow> argv cmd field 1; invoke env (sys_touch (Some a1)) f }"

definition cmd_cat :: "'d command" where
  "cmd_cat env cmd field f = do { a1 \<leftarrow> argv cmd field 1; invoke env (sys_cat (Some a1)) f }"

definition ln_usage :: "u8 list" where
  "ln_usage = cs ''Usage: ln [-s] a b'' @ [10, 9] @ cs '' Create link from a to b'' @ [10, 9] @
     cs ''-s means it is a soft link'' @ [10]"

definition cmd_ln :: "'d command" where
  "cmd_ln env cmd field f =
     (if length field = 3 then do {
        a1 \<leftarrow> argv cmd field 1;
        a2 \<leftarrow> argv cmd field 2;
        invoke env (sys_link (Some a1) (Some a2) HARD_LINK) f }
      else if length field = 4 then do {
        swc \<leftarrow> argv cmd field 1;
        a2 \<leftarrow> argv cmd field 2;
        a3 \<leftarrow> argv cmd field 3;
        d \<leftarrow> strcmp swc 0 (buf_of (cs ''-s'')) 0;
        if d = 0 then invoke env (sys_link (Some a2) (Some a3) SOFT_LINK) f
        else printf env ln_usage [] f }
      else printf env ln_usage [] f)"

definition cmd_find :: "'d command" where
  "cmd_find env cmd field f = do {
     a1 \<leftarrow> argv cmd field 1;
     a2 \<leftarrow> argv cmd field 2;
     invoke env (sys_find (Some a1) (Some a2)) f }"

definition cmd_rename :: "'d command" where
  "cmd_rename env cmd field f = do {
     a1 \<leftarrow> argv cmd field 1;
     a2 \<leftarrow> argv cmd field 2;
     invoke env (sys_rename (Some a1) (Some a2)) f }"

definition print_rule :: "'d sysenv \<Rightarrow> 'd fs_t \<Rightarrow> 'd fs_t option" where
  "print_rule env f = for_upto_opt 0 ((SCREEN_WIDTH - 7) div 2 - 2) (\<lambda>i. printf env (cs ''-'') []) f"

definition print_header :: "'d sysenv \<Rightarrow> 'd fs_t \<Rightarrow> 'd fs_t option" where
  "print_header env f = do {
     f1 \<leftarrow> print_rule env f;
     f2 \<leftarrow> printf env (cs ''COMMAND'') [] f1;
     f3 \<leftarrow> print_rule env f2;
     printf env [10] [] f3 }"

definition cmd_clear :: "'d command" where
  "cmd_clear env cmd field f = do {
     f1 \<leftarrow> invoke env sys_clear f;
     f2 \<leftarrow> invoke env (sys_move_cursor 0 (int SCREEN_HEIGHT - 15)) f1;
     print_header env f2 }"

definition cmd_echo :: "'d command" where
  "cmd_echo env cmd field f =
     (if length field = 2 then do {
        a1 \<leftarrow> argv cmd field 1;
        xs \<leftarrow> str_bytes a1 0;
        printf env (cs ''%s'' @ [10]) [VStr xs] f }
      else if length field = 4 then do {
        a1 \<leftarrow> argv cmd field 1;
        a2 \<leftarrow> argv cmd field 2;
        a3 \<leftarrow> argv cmd field 3;
        d \<leftarrow> strcmp a2 0 (buf_of (cs ''>'')) 0;
        if d = 0 then do {
          f1 \<leftarrow> invoke env (sys_fopen (Some a3) O_RDWR) f;
          len \<leftarrow> strlen a1 0;
          f2 \<leftarrow> invoke env (sys_fwrite 0 a1 (word_of_nat len)) f1;
          invoke env (sys_fclose 0) f2 }
        else Some f }
      else Some f)"

definition cmd_ps :: "'d command" where
  "cmd_ps env cmd field f = invoke env sys_ps f"

definition cmd_ls :: "'d command" where
  "cmd_ls env cmd field f =
     (if length field = 1 then invoke env (sys_ls None) f
      else if length field = 2 then do { a1 \<leftarrow> argv cmd field 1; invoke env (sys_ls (Some a1)) f }
      else Some f)"

definition shell_cmd :: "(string \<times> 'd command) list" where
  "shell_cmd =
     [(''exec'', cmd_exec), (''kill'', cmd_kill), (''clear'', cmd_clear), (''echo'', cmd_echo), (''ps'', cmd_ps),
      (''reboot'', cmd_reboot), (''mkfs'', cmd_mkfs), (''statfs'', cmd_statfs), (''ls'', cmd_ls),
      (''mkdir'', cmd_mkdir), (''rm'', cmd_rm), (''cd'', cmd_cd), (''touch'', cmd_touch), (''cat'', cmd_cat),
      (''ln'', cmd_ln), (''find'', cmd_find), (''rename'', cmd_rename)]"

subsection \<open>The command line\<close>

definition shell_init :: "'d sysenv \<Rightarrow> 'd fs_t \<Rightarrow> 'd fs_t option" where
  "shell_init env f = do {
     f1 \<leftarrow> invoke env (sys_move_cursor 0 (int SCREEN_HEIGHT - 20)) f;
     f2 \<leftarrow> print_header env f1;
     f3 \<leftarrow> printf env (cs ''[SHELL] Shell initialization ends.'' @ [10]) [] f2;
     printf env (cs ''[SHELL] Shell would be clear soon.'' @ [10]) [] f3 }"

text \<open>The loop of \<open>solve_cmd\<close> that splits the line: the buffer, \<open>last_is_blank\<close>, and the fields so far.\<close>

definition split_step :: "nat \<Rightarrow> buffer \<times> bool \<times> nat list \<Rightarrow> (buffer \<times> bool \<times> nat list) option" where
  "split_step i st =
     (case st of (cmd, last_is_blank, field) \<Rightarrow>
        if cmd i = BLANK then Some (cmd(i := 0), True, field)
        else if last_is_blank
        then if length field < COMMAND_FIELD_MAX_NUM then Some (cmd, False, field @ [i]) else None
        else Some st)"

definition split_fields :: "buffer \<Rightarrow> nat \<Rightarrow> (buffer \<times> nat list) option" where
  "split_fields cmd len =
     (if len < COMMAND_BUFFER_SIZE then do {
        (cmd', last_is_blank, field) \<leftarrow> for_upto_opt 0 len split_step (cmd(len := 0), True, []);
        Some (cmd', field) }
      else None)"

primrec which_cmd :: "buffer \<Rightarrow> (string \<times> 'd command) list \<Rightarrow> 'd command option option" where
  "which_cmd name [] = Some None"
| "which_cmd name (e # es) = do {
     d \<leftarrow> strcmp name 0 (buf_of (cs (fst e))) 0;
     if d = 0 then Some (Some (snd e)) else which_cmd name es }"

datatype solved = SOLVE_COMMAND_ERROR | SOLVE_COMMAND_OK

text \<open>The array \<open>field\<close> is not initialised: on a line without a field the test of \<open>field[0]\<close> reads \<open>stale\<close>, whatever the
  stack holds there.\<close>

definition solve_cmd :: "'d sysenv \<Rightarrow> nat option \<Rightarrow> buffer \<Rightarrow> nat \<Rightarrow> 'd fs_t \<Rightarrow> (solved \<times> buffer \<times> 'd fs_t) option" where
  "solve_cmd env stale cmd len f = do {
     (cmd', field) \<leftarrow> split_fields cmd len;
     if field = [] then (if stale = None then Some (SOLVE_COMMAND_ERROR, cmd', f) else None)
     else do {
       name \<leftarrow> argv cmd' field 0;
       w \<leftarrow> which_cmd name shell_cmd;
       (case w of
          None \<Rightarrow> Some (SOLVE_COMMAND_ERROR, cmd', f)
        | Some func \<Rightarrow> do { f1 \<leftarrow> func env cmd' field f; Some (SOLVE_COMMAND_OK, cmd', f1) }) } }"

definition prompt :: "'d sysenv \<Rightarrow> 'd fs_t \<Rightarrow> 'd fs_t option" where
  "prompt env f = do {
     xs \<leftarrow> str_bytes (cwd_str f) 0;
     printf env (cs ''LinHe@RUAOS %s '') [VStr xs] f }"

text \<open>One round of the loop of \<open>shell\<close>, for the character that \<open>getchar\<close> returned; the state is the buffer, \<open>cnt\<close> and the
  kernel. The buffer is an array of 1024 characters and nothing checks \<open>cnt\<close> against its size.\<close>

definition shell_key ::
  "'d sysenv \<Rightarrow> nat option \<Rightarrow> u8 \<Rightarrow> buffer \<times> nat \<times> 'd fs_t \<Rightarrow> (buffer \<times> nat \<times> 'd fs_t) option" where
  "shell_key env stale ch st =
     (case st of (cmd, cnt, f) \<Rightarrow>
        if ch = 0 then Some st
        else if ch = 10 \<or> ch = 13 then
          (if cnt < COMMAND_BUFFER_SIZE then do {
             f1 \<leftarrow> printf env [10] [] f;
             (r, cmd', f2) \<leftarrow> solve_cmd env stale (cmd(cnt := 10)) cnt f1;
             f3 \<leftarrow> prompt env f2;
             Some (cmd', 0, f3) }
           else None)
        else if ch = 8 \<or> ch = 127 then
          (if cnt = 0 then Some st
           else do {
             f1 \<leftarrow> invoke env (sys_move_cursor (screen_cursor_x (scr (kst f)) - 1) (screen_cursor_y (scr (kst f)))) f;
             f2 \<leftarrow> printf env (cs '' '') [] f1;
             f3 \<leftarrow> invoke env (sys_move_cursor (screen_cursor_x (scr (kst f2)) - 1) (screen_cursor_y (scr (kst f2)))) f2;
             Some (cmd, cnt - 1, f3) })
        else if cnt < COMMAND_BUFFER_SIZE then do {
          f1 \<leftarrow> printf env (cs ''%c'') [VInt (scast ch)] f;
          Some (cmd(cnt := ch), cnt + 1, f1) }
        else None)"

definition shell_keys ::
  "'d sysenv \<Rightarrow> nat option \<Rightarrow> u8 list \<Rightarrow> buffer \<times> nat \<times> 'd fs_t \<Rightarrow> (buffer \<times> nat \<times> 'd fs_t) option" where
  "shell_keys env stale keys st = fold_opt (shell_key env stale) keys st"

text \<open>A round with the characters that wait at the port.\<close>

definition shell_round :: "'d sysenv \<Rightarrow> nat option \<Rightarrow> buffer \<times> nat \<times> 'd fs_t \<Rightarrow> (buffer \<times> nat \<times> 'd fs_t) option" where
  "shell_round env stale st =
     (case st of (cmd, cnt, f) \<Rightarrow> do { (ch, f1) \<leftarrow> getchar env f; shell_key env stale ch (cmd, cnt, f1) })"

text \<open>What \<open>shell\<close> does before its loop.\<close>

definition shell_start :: "'d sysenv \<Rightarrow> buffer \<Rightarrow> 'd fs_t \<Rightarrow> (buffer \<times> nat \<times> 'd fs_t) option" where
  "shell_start env command_buffer f = do {
     f1 \<leftarrow> shell_init env f;
     f2 \<leftarrow> cmd_clear env (\<lambda>_. 0) [] f1;
     f3 \<leftarrow> prompt env f2;
     Some (command_buffer, 0, f3) }"

subsection \<open>Splitting\<close>

text \<open>The words of a line, as a specification: maximal runs of characters other than blanks.\<close>

function words :: "u8 list \<Rightarrow> u8 list list" where
  "words [] = []"
| "words (x # xs) =
     (if x = BLANK then words xs
      else takeWhile (\<lambda>c. c \<noteq> BLANK) (x # xs) # words (dropWhile (\<lambda>c. c \<noteq> BLANK) (x # xs)))"
  by pat_completeness auto
termination
  by (relation "measure length") (auto simp: le_imp_less_Suc length_dropWhile_le)

text \<open>The offsets at which the loop finds a field.\<close>

fun field_starts :: "bool \<Rightarrow> nat \<Rightarrow> u8 list \<Rightarrow> nat list" where
  "field_starts b k [] = []"
| "field_starts b k (x # xs) =
     (if x = BLANK then field_starts True (Suc k) xs
      else if b then k # field_starts False (Suc k) xs else field_starts False (Suc k) xs)"

definition holds :: "buffer \<Rightarrow> nat \<Rightarrow> u8 list \<Rightarrow> bool" where
  "holds cmd k xs \<longleftrightarrow> (\<forall>i < length xs. cmd (k + i) = xs ! i)"

lemma holds_Cons: "holds cmd k (x # xs) \<longleftrightarrow> cmd k = x \<and> holds cmd (Suc k) xs"
  by (auto simp: holds_def nth_Cons split: nat.splits)

definition blanked :: "buffer \<Rightarrow> nat \<Rightarrow> nat \<Rightarrow> buffer" where
  "blanked cmd k n = (\<lambda>j. if k \<le> j \<and> j < n \<and> cmd j = BLANK then 0 else cmd j)"

lemma split_loop:
  "holds cmd k xs \<Longrightarrow> length fs + length (field_starts b k xs) \<le> COMMAND_FIELD_MAX_NUM \<Longrightarrow>
   \<exists>b'. for_upto_opt k (k + length xs) split_step (cmd, b, fs) =
     Some (blanked cmd k (k + length xs), b', fs @ field_starts b k xs)"
proof (induction xs arbitrary: cmd k b fs)
  case Nil
  then show ?case by (auto simp: blanked_def fun_eq_iff)
next
  case (Cons x xs)
  have x: "cmd k = x" and h: "holds cmd (Suc k) xs" using Cons.prems(1) by (simp_all add: holds_Cons)
  have unroll: "for_upto_opt k (k + length (x # xs)) split_step st =
      (case split_step k st of None \<Rightarrow> None | Some s \<Rightarrow> for_upto_opt (Suc k) (Suc k + length xs) split_step s)" for st
  proof -
    have "[k..<k + length (x # xs)] = k # [Suc k..<Suc k + length xs]" by (subst upt_conv_Cons) simp_all
    then show ?thesis by (simp only: for_upto_opt_def fold_opt.simps)
  qed
  show ?case
  proof (cases "x = BLANK")
    case True
    define cmd2 where "cmd2 = cmd(k := 0)"
    have "holds cmd2 (Suc k) xs" using h by (simp add: holds_def cmd2_def)
    moreover have "blanked cmd2 (Suc k) (Suc k + length xs) = blanked cmd k (k + length (x # xs))"
      using x True by (auto simp: blanked_def cmd2_def fun_eq_iff)
    moreover have "split_step k (cmd, b, fs) = Some (cmd2, True, fs)" using x True by (simp add: split_step_def cmd2_def)
    ultimately show ?thesis using Cons.IH [of cmd2 "Suc k" fs True] Cons.prems(2) True unfolding unroll by simp
  next
    case False
    have bl: "blanked cmd (Suc k) (Suc k + length xs) = blanked cmd k (k + length (x # xs))"
      using x False le_neq_implies_less by (fastforce simp: blanked_def fun_eq_iff Suc_le_eq)
    show ?thesis
    proof (cases b)
      case True
      have "length (fs @ [k]) + length (field_starts False (Suc k) xs) \<le> COMMAND_FIELD_MAX_NUM"
        using Cons.prems(2) False True by simp
      moreover have "split_step k (cmd, b, fs) = Some (cmd, False, fs @ [k])"
        using x True False Cons.prems(2) by (simp add: split_step_def)
      ultimately show ?thesis using Cons.IH [OF h, of "fs @ [k]" False] False True unfolding unroll bl by simp
    next
      case False
      moreover have "split_step k (cmd, b, fs) = Some (cmd, b, fs)"
        using x False \<open>x \<noteq> BLANK\<close> by (simp add: split_step_def)
      ultimately show ?thesis using Cons.IH [OF h, of fs False] \<open>x \<noteq> BLANK\<close> Cons.prems(2) unfolding unroll bl by simp
    qed
  qed
qed

lemma field_starts_inside:
  "field_starts False k xs = field_starts True (k + length (takeWhile (\<lambda>c. c \<noteq> BLANK) xs)) (dropWhile (\<lambda>c. c \<noteq> BLANK) xs)"
  by (induction xs arbitrary: k) auto

text \<open>\<open>word_at xs k p w\<close>: in a line \<open>xs\<close> that starts at \<open>k\<close> the word \<open>w\<close> stands at \<open>p\<close>, and ends at a blank or at the end.\<close>

definition word_at :: "u8 list \<Rightarrow> nat \<Rightarrow> nat \<Rightarrow> u8 list \<Rightarrow> bool" where
  "word_at xs k p w \<longleftrightarrow> w \<noteq> [] \<and> BLANK \<notin> set w \<and>
     (\<exists>ys zs. xs = ys @ w @ zs \<and> p = k + length ys \<and> (zs = [] \<or> hd zs = BLANK))"

lemma word_at_append: "word_at xs (k + length us) p w \<Longrightarrow> word_at (us @ xs) k p w"
proof -
  assume "word_at xs (k + length us) p w"
  then obtain ys zs where "w \<noteq> []" "BLANK \<notin> set w" "xs = ys @ w @ zs" "p = k + length us + length ys" "zs = [] \<or> hd zs = BLANK"
    by (auto simp: word_at_def)
  then show ?thesis unfolding word_at_def by (intro conjI exI [of _ "us @ ys"] exI [of _ zs]) simp_all
qed

lemma field_starts_words: "list_all2 (word_at xs k) (field_starts True k xs) (words xs)"
proof (induction xs arbitrary: k rule: words.induct)
  case (2 x xs)
  show ?case
  proof (cases "x = BLANK")
    case True
    have "list_all2 (word_at ([x] @ xs) k) (field_starts True (Suc k) xs) (words xs)"
      by (rule list_all2_mono [OF 2(1) [OF True, of "Suc k"]]) (rule word_at_append, simp)
    then show ?thesis using True by simp
  next
    case False
    define w r where "w = takeWhile (\<lambda>c. c \<noteq> BLANK) (x # xs)" and "r = dropWhile (\<lambda>c. c \<noteq> BLANK) (x # xs)"
    have wr: "x # xs = w @ r" unfolding w_def r_def by (rule takeWhile_dropWhile_id [symmetric])
    have "list_all2 (word_at (w @ r) k) (field_starts True (k + length w) r) (words r)"
      by (rule list_all2_mono [OF 2(2) [OF False, of "k + length w", folded r_def]]) (rule word_at_append)
    moreover have "field_starts False (Suc k) xs = field_starts True (k + length w) r"
      using False field_starts_inside [of "Suc k" xs] by (simp add: w_def r_def)
    moreover have "word_at (w @ r) k k w"
    proof -
      have "BLANK \<notin> set w" unfolding w_def using set_takeWhileD by fastforce
      moreover have "w \<noteq> []" using False by (simp add: w_def)
      moreover have "r = [] \<or> hd r = BLANK" unfolding r_def using hd_dropWhile by blast
      ultimately show ?thesis unfolding word_at_def by (intro conjI exI [of _ "[]"] exI [of _ r]) simp_all
    qed
    moreover have "words (x # xs) = w # words r" using False by (simp add: w_def r_def)
    moreover have "field_starts True k (x # xs) = k # field_starts False (Suc k) xs" using False by simp
    ultimately show ?thesis unfolding wr by simp
  qed
qed simp

text \<open>The fields of a line of \<open>n\<close> characters, after the splitting.\<close>

lemma word_at_cstr:
  assumes h: "holds cmd 0 xs" and z: "0 \<notin> set xs" and w: "word_at xs 0 p w"
  shows "cstr (blanked (cmd(length xs := 0)) 0 (length xs)) p w"
proof -
  obtain ys zs where w: "w \<noteq> []" "BLANK \<notin> set w" "xs = ys @ w @ zs" "p = length ys" "zs = [] \<or> hd zs = BLANK"
    using w by (auto simp: word_at_def)
  have c: "cmd i = xs ! i" if "i < length xs" for i using h that by (simp add: holds_def)
  show ?thesis
  proof (rule cstrI)
    show "0 \<notin> set w" using z w(3) by simp
    fix i assume i: "i < length w"
    then have "cmd (p + i) = w ! i" "p + i < length xs" using c [of "p + i"] w(3,4) by (simp_all add: nth_append)
    moreover have "w ! i \<noteq> BLANK" using i w(2) by (metis nth_mem)
    ultimately show "blanked (cmd(length xs := 0)) 0 (length xs) (p + i) = w ! i" by (simp add: blanked_def)
  next
    show "blanked (cmd(length xs := 0)) 0 (length xs) (p + length w) = 0"
    proof (cases zs)
      case Nil
      then show ?thesis using w(3,4) by (simp add: blanked_def)
    next
      case (Cons a as)
      then have "cmd (p + length w) = BLANK" "p + length w < length xs"
        using c [of "p + length w"] w(3-5) by (simp_all add: nth_append)
      then show ?thesis by (simp add: blanked_def)
    qed
  qed
qed

lemma split_fields_words:
  assumes h: "holds cmd 0 xs" and z: "0 \<notin> set xs" and n: "length xs < COMMAND_BUFFER_SIZE"
    and f: "length (words xs) \<le> COMMAND_FIELD_MAX_NUM"
  obtains cmd' field where "split_fields cmd (length xs) = Some (cmd', field)"
    "list_all2 (cstr cmd') field (words xs)"
proof -
  let ?cmd = "cmd(length xs := 0)"
  let ?fs = "field_starts True 0 xs"
  have "holds ?cmd 0 xs" using h by (simp add: holds_def)
  moreover have "length ?fs = length (words xs)" using field_starts_words by (rule list_all2_lengthD)
  ultimately obtain b where b: "for_upto_opt 0 (length xs) split_step (?cmd, True, []) =
      Some (blanked ?cmd 0 (length xs), b, ?fs)"
    using split_loop [of ?cmd 0 xs "[]" True] f by auto
  show ?thesis
  proof (rule that)
    show "split_fields cmd (length xs) = Some (blanked ?cmd 0 (length xs), ?fs)" using n b by (simp add: split_fields_def)
    show "list_all2 (cstr (blanked ?cmd 0 (length xs))) ?fs (words xs)"
      by (rule list_all2_mono [OF field_starts_words]) (rule word_at_cstr [OF h z])
  qed
qed

subsection \<open>Looking up the command\<close>

lemma cstr_from: "cstr cmd p w \<Longrightarrow> cstr (\<lambda>i. cmd (p + i)) 0 w"
  using cstr_nz cstr_nth cstr_end by (intro cstrI) auto

lemma argv_word:
  assumes "list_all2 (cstr cmd) field ws" "k < length ws"
  shows "\<exists>b. argv cmd field k = Some b \<and> cstr b 0 (ws ! k)"
  using assms cstr_from by (auto simp: argv_def list_all2_conv_all_nth)

lemma which_cmd_find:
  assumes "cstr name 0 w" "\<forall>e \<in> set es. 0 \<notin> set (cs (fst e))"
  shows "which_cmd name es = Some (map_option snd (List.find (\<lambda>e. cs (fst e) = w) es))"
  using assms(2)
proof (induction es)
  case (Cons e es)
  then have "cstr (buf_of (cs (fst e))) 0 (cs (fst e))" by simp
  then obtain d where "strcmp name 0 (buf_of (cs (fst e))) 0 = Some d" "d = 0 \<longleftrightarrow> w = cs (fst e)"
    using strcmp_cstr [OF assms(1)] by blast
  with Cons show ?case by auto
qed simp

lemma shell_cmd_names: "\<forall>e \<in> set shell_cmd. 0 \<notin> set (cs (fst e))"
  by (simp add: shell_cmd_def)

lemma solve_cmd_runs:
  assumes h: "holds cmd 0 xs" and z: "0 \<notin> set xs" and n: "length xs < COMMAND_BUFFER_SIZE"
    and f: "length (words xs) \<le> COMMAND_FIELD_MAX_NUM" and w: "words xs \<noteq> []"
  obtains cmd' field where "list_all2 (cstr cmd') field (words xs)"
    "solve_cmd env stale cmd (length xs) (st :: 'd fs_t) =
      (case List.find (\<lambda>e. cs (fst e) = hd (words xs)) shell_cmd of
         None \<Rightarrow> Some (SOLVE_COMMAND_ERROR, cmd', st)
       | Some e \<Rightarrow> do { st1 \<leftarrow> snd e env cmd' field st; Some (SOLVE_COMMAND_OK, cmd', st1) })"
proof -
  obtain cmd' field where s: "split_fields cmd (length xs) = Some (cmd', field)" and l: "list_all2 (cstr cmd') field (words xs)"
    by (rule split_fields_words [OF h z n f])
  have "field \<noteq> []" using l w by auto
  moreover obtain b where b: "argv cmd' field 0 = Some b" "cstr b 0 (hd (words xs))"
    using argv_word [OF l, of 0] w by (auto simp: hd_conv_nth)
  ultimately show ?thesis
    using which_cmd_find [OF b(2), of "shell_cmd :: (string \<times> 'd command) list", OF shell_cmd_names] by (intro that [OF l]) (simp add: solve_cmd_def s split: option.splits)
qed

lemma find_cmd_simps:
  "List.find (\<lambda>e. cs (fst e) = cs ''mkdir'') shell_cmd = Some (''mkdir'', cmd_mkdir)"
  "List.find (\<lambda>e. cs (fst e) = cs ''rm'') shell_cmd = Some (''rm'', cmd_rm)"
  "List.find (\<lambda>e. cs (fst e) = cs ''cd'') shell_cmd = Some (''cd'', cmd_cd)"
  "List.find (\<lambda>e. cs (fst e) = cs ''touch'') shell_cmd = Some (''touch'', cmd_touch)"
  "List.find (\<lambda>e. cs (fst e) = cs ''cat'') shell_cmd = Some (''cat'', cmd_cat)"
  "List.find (\<lambda>e. cs (fst e) = cs ''ls'') shell_cmd = Some (''ls'', cmd_ls)"
  by (simp_all add: shell_cmd_def)

text \<open>The commands that take the name of a file or directory, and what each does.\<close>

definition name_commands :: "(string \<times> ('d sd_dev \<Rightarrow> buffer \<Rightarrow> buffer option \<Rightarrow> 'd fs_t \<Rightarrow> 'd fs_t option)) list" where
  "name_commands = [(''mkdir'', do_mkdir), (''rm'', do_rm), (''cd'', do_cd), (''touch'', do_touch), (''cat'', do_cat),
     (''ls'', do_ls)]"

lemma invoke_name:
  "invoke env (sys_mkdir x) f = do_mkdir (sd env) (stack_junk env) x f"
  "invoke env (sys_rm x) f = do_rm (sd env) (stack_junk env) x f"
  "invoke env (sys_cd x) f = do_cd (sd env) (stack_junk env) x f"
  "invoke env (sys_touch x) f = do_touch (sd env) (stack_junk env) x f"
  "invoke env (sys_cat x) f = do_cat (sd env) (stack_junk env) x f"
  "invoke env (sys_ls x) f = do_ls (sd env) (stack_junk env) x f"
  by (simp_all add: invoke_def call_simps fcall_def option.map_comp option.map_ident comp_def)

lemma name_command_runs:
  assumes h: "holds cmd 0 xs" "0 \<notin> set xs" "length xs < COMMAND_BUFFER_SIZE"
    and w: "words xs = [cs c, a]" and op: "(c, op) \<in> set name_commands"
  obtains cmd' b where "cstr b 0 a"
    "solve_cmd env stale cmd (length xs) f =
       map_option (\<lambda>f'. (SOLVE_COMMAND_OK, cmd', f')) (op (sd env) (stack_junk env) (Some b) f)"
proof -
  obtain cmd' field where l: "list_all2 (cstr cmd') field [cs c, a]" and s: "solve_cmd env stale cmd (length xs) f =
      (case List.find (\<lambda>e. cs (fst e) = cs c) shell_cmd of
         None \<Rightarrow> Some (SOLVE_COMMAND_ERROR, cmd', f)
       | Some e \<Rightarrow> do { st1 \<leftarrow> snd e env cmd' field f; Some (SOLVE_COMMAND_OK, cmd', st1) })"
    using solve_cmd_runs [OF h, of env stale f] unfolding w by auto
  obtain b where b: "argv cmd' field 1 = Some b" "cstr b 0 a" using argv_word [OF l, of 1] by auto
  have "length field = 2" using list_all2_lengthD [OF l] by simp
  then have "solve_cmd env stale cmd (length xs) f =
      map_option (\<lambda>f'. (SOLVE_COMMAND_OK, cmd', f')) (op (sd env) (stack_junk env) (Some b) f)"
    using op unfolding name_commands_def
    by (auto simp: s find_cmd_simps b(1) b(1) [unfolded One_nat_def] cmd_mkdir_def cmd_rm_def cmd_cd_def cmd_touch_def cmd_cat_def cmd_ls_def
        invoke_name map_conv_bind_option comp_def simp del: cs_Cons)
  then show ?thesis using b(2) that by blast
qed

subsection \<open>Output of the shell\<close>

text \<open>A backspace moves the cursor one column to the left of where it was and output resets a negative column to 0, so the
  column is at least -1 between two keys and at least -2 when a blank is written over the last character.\<close>

definition cursor_from :: "int \<Rightarrow> screen_t \<Rightarrow> bool" where
  "cursor_from x0 s \<longleftrightarrow> x0 \<le> screen_cursor_x s \<and> screen_cursor_x s < int SCREEN_WIDTH \<and>
     1 \<le> screen_cursor_y s \<and> screen_cursor_y s < int SCREEN_HEIGHT"

lemma screen_write_ch_from:
  assumes "cursor_from (- 2) s"
  shows "\<exists>s'. screen_write_ch ch s = Some s' \<and> cursor_from 0 s'"
  using assms by (auto simp: screen_write_ch_def cursor_from_def put_at_cursor_def screen_scroll_eq Let_def)

lemma screen_write_from:
  "cursor_from x0 s \<Longrightarrow> - 2 \<le> x0 \<Longrightarrow> x0 \<le> 0 \<Longrightarrow> \<exists>s'. screen_write xs s = Some s' \<and> cursor_from (if xs = [] then x0 else 0) s'"
proof (induction xs arbitrary: s x0)
  case (Cons ch xs)
  have "cursor_from (- 2) s" using Cons.prems by (auto simp: cursor_from_def)
  then obtain s1 where s1: "screen_write_ch ch s = Some s1" "cursor_from 0 s1" using screen_write_ch_from by blast
  with Cons.IH [of 0 s1] show ?case by (auto simp: screen_write_def)
qed (simp add: screen_write_def)

definition only_scr :: "'d fs_t \<Rightarrow> 'd fs_t \<Rightarrow> bool" where
  "only_scr f f' \<longleftrightarrow> (\<exists>x. f' = f\<lparr>kst := (kst f)\<lparr>scr := x\<rparr>\<rparr>)"

lemma only_scrI [intro]: "only_scr f (f\<lparr>kst := (kst f)\<lparr>scr := x\<rparr>\<rparr>)"
  unfolding only_scr_def by blast

lemma only_scr_refl [simp]: "only_scr f f"
  unfolding only_scr_def by (rule exI [of _ "scr (kst f)"]) simp

lemma only_scr_trans: "only_scr f g \<Longrightarrow> only_scr g h \<Longrightarrow> only_scr f h"
  by (auto simp: only_scr_def)

lemma only_scr_fields: "only_scr f g \<Longrightarrow> cwd_str g = cwd_str f \<and> nodes g = nodes f \<and> disk g = disk f"
  by (auto simp: only_scr_def)

lemma str_bytes_buf_of: "str_bytes (buf_of xs) 0 = Some (takeWhile (\<lambda>c. c \<noteq> 0) xs)"
proof -
  let ?w = "takeWhile (\<lambda>c. c \<noteq> 0) xs"
  have w: "i < length ?w \<Longrightarrow> buf_of xs i = ?w ! i" for i
    using takeWhile_nth [of i "\<lambda>c. c \<noteq> 0" xs] length_takeWhile_le [of "\<lambda>c. c \<noteq> 0" xs] by (simp add: buf_of_def)
  have "cstr (buf_of xs) 0 ?w"
  proof (rule cstrI)
    show "0 \<notin> set ?w" using set_takeWhileD by fastforce
    show "buf_of xs (0 + length ?w) = 0"
      using nth_length_takeWhile [of "\<lambda>c. c \<noteq> 0" xs] by (auto simp: buf_of_def)
  qed (simp add: w)
  then have "strlen (buf_of xs) 0 = Some (length ?w)" by simp
  moreover have "map (\<lambda>i. buf_of xs (0 + i)) [0..<length ?w] = ?w" by (rule nth_equalityI) (simp_all add: w)
  ultimately show ?thesis by (simp add: str_bytes_def)
qed

lemma printf_shows:
  assumes "mini_vsnprintf 256 fmt va = Some out" "cursor_from x0 (scr (kst f))" "- 2 \<le> x0" "x0 \<le> 0"
  shows "\<exists>f'. printf env fmt va f = Some f' \<and> only_scr f f' \<and>
    cursor_from (if takeWhile (\<lambda>c. c \<noteq> 0) out = [] then x0 else 0) (scr (kst f'))"
proof -
  let ?w = "takeWhile (\<lambda>c. c \<noteq> 0) out"
  obtain x where x: "screen_write ?w (scr (kst f)) = Some x" "cursor_from (if ?w = [] then x0 else 0) x"
    using screen_write_from [OF assms(2-4)] by blast
  have "printf env fmt va f = Some (f\<lparr>kst := (kst f)\<lparr>scr := x\<rparr>\<rparr>)"
    by (simp add: printf_def assms(1) call_simps str_bytes_buf_of scall_def kcall_def x(1))
  then show ?thesis using x(2) by auto
qed

lemma invoke_move_cursor:
  assumes "int_range m" "int_range n"
  shows "invoke env (sys_move_cursor m n) f = Some (f\<lparr>kst := (kst f)\<lparr>scr := screen_move_cursor m n (scr (kst f))\<rparr>\<rparr>)"
  using assms by (simp add: invoke_def call_simps scall_def kcall_def)

subsection \<open>The line editor\<close>

text \<open>What a sequence of keys makes of a line, as a specification.\<close>

fun edit :: "u8 list \<Rightarrow> u8 list \<Rightarrow> u8 list" where
  "edit line [] = line"
| "edit line (k # keys) =
     edit (if k = 0 then line else if k = 8 \<or> k = 127 then butlast line else line @ [k]) keys"

text \<open>No key ends the line, and at no time are more than 1024 characters in the buffer.\<close>

fun fits :: "u8 list \<Rightarrow> u8 list \<Rightarrow> bool" where
  "fits line [] \<longleftrightarrow> True"
| "fits line (k # keys) \<longleftrightarrow> k \<noteq> 10 \<and> k \<noteq> 13 \<and>
     (if k = 0 then fits line keys else if k = 8 \<or> k = 127 then fits (butlast line) keys
      else length line < COMMAND_BUFFER_SIZE \<and> fits (line @ [k]) keys)"

lemma holds_snoc: "holds cmd 0 (xs @ [x]) \<longleftrightarrow> holds cmd 0 xs \<and> cmd (length xs) = x"
  by (auto simp: holds_def nth_append less_Suc_eq)

lemma holds_upd [simp]: "length xs \<le> k \<Longrightarrow> holds (cmd(k := x)) 0 xs = holds cmd 0 xs"
  by (simp add: holds_def)

lemma holds_butlast: "holds cmd 0 xs \<Longrightarrow> holds cmd 0 (butlast xs)"
  by (simp add: holds_def nth_butlast)

definition ready :: "u8 list \<Rightarrow> 'd fs_t \<Rightarrow> buffer \<times> nat \<times> 'd fs_t \<Rightarrow> bool" where
  "ready line f0 st \<longleftrightarrow> (case st of (cmd, cnt, f) \<Rightarrow>
     holds cmd 0 line \<and> cnt = length line \<and> only_scr f0 f \<and> cursor_from (- 1) (scr (kst f)))"

lemma out_blank: "mini_vsnprintf 256 (cs '' '') [] = Some [32]"
  by code_simp

lemma out_newline: "mini_vsnprintf 256 [10] [] = Some [10]"
  by code_simp

lemma out_char: "\<exists>out. mini_vsnprintf 256 (cs ''%c'') [VInt v] = Some out"
  by (rule mini_vsnprintf_total) simp

lemma cursor_range: "cursor_from x0 s \<Longrightarrow> - 1 \<le> x0 \<Longrightarrow> int_range (screen_cursor_x s - 1) \<and> int_range (screen_cursor_y s)"
  by (simp add: cursor_from_def int_range_def)

lemma key_backspace:
  assumes r: "ready line f0 (cmd, cnt, f)" and k: "k = 8 \<or> k = 127"
  shows "\<exists>st. shell_key env stale k (cmd, cnt, f) = Some st \<and> ready (butlast line) f0 st"
proof (cases "cnt = 0")
  case True
  then show ?thesis using r k by (auto simp: shell_key_def ready_def)
next
  case False
  have h: "holds cmd 0 line" "cnt = length line" "only_scr f0 f" "cursor_from (- 1) (scr (kst f))"
    using r by (simp_all add: ready_def)
  let ?s = "scr (kst f)"
  let ?f1 = "f\<lparr>kst := (kst f)\<lparr>scr := screen_move_cursor (screen_cursor_x ?s - 1) (screen_cursor_y ?s) ?s\<rparr>\<rparr>"
  have m1: "invoke env (sys_move_cursor (screen_cursor_x ?s - 1) (screen_cursor_y ?s)) f = Some ?f1"
    using cursor_range [OF h(4)] by (intro invoke_move_cursor) simp_all
  have "cursor_from (- 2) (scr (kst ?f1))" using h(4) by (simp add: cursor_from_def screen_move_cursor_def)
  from printf_shows [OF out_blank this, of env]
  obtain f2 where p: "printf env (cs '' '') [] ?f1 = Some f2" "only_scr ?f1 f2" "cursor_from 0 (scr (kst f2))" by auto
  let ?t = "scr (kst f2)"
  let ?f3 = "f2\<lparr>kst := (kst f2)\<lparr>scr := screen_move_cursor (screen_cursor_x ?t - 1) (screen_cursor_y ?t) ?t\<rparr>\<rparr>"
  have m2: "invoke env (sys_move_cursor (screen_cursor_x ?t - 1) (screen_cursor_y ?t)) f2 = Some ?f3"
    using cursor_range [OF p(3)] by (intro invoke_move_cursor) simp_all
  have o: "only_scr f0 ?f3"
    by (rule only_scr_trans [OF h(3)], rule only_scr_trans [OF _ only_scr_trans [OF p(2)]]) (rule only_scrI)+
  have "cursor_from (- 1) (scr (kst ?f3))" using p(3) by (simp add: cursor_from_def screen_move_cursor_def)
  then have "ready (butlast line) f0 (cmd, cnt - 1, ?f3)" using o h(2) holds_butlast [OF h(1)] by (simp add: ready_def)
  moreover have "shell_key env stale k (cmd, cnt, f) = Some (cmd, cnt - 1, ?f3)"
    using k False by (auto simp: shell_key_def m1 p(1) m2 simp del: cs_Cons)
  ultimately show ?thesis by (intro exI conjI)
qed

lemma key_char:
  assumes r: "ready line f0 (cmd, cnt, f)" and k: "k \<notin> {0, 8, 10, 13, 127}" and n: "length line < COMMAND_BUFFER_SIZE"
  shows "\<exists>st. shell_key env stale k (cmd, cnt, f) = Some st \<and> ready (line @ [k]) f0 st"
proof -
  have h: "holds cmd 0 line" "cnt = length line" "only_scr f0 f" "cursor_from (- 1) (scr (kst f))"
    using r by (simp_all add: ready_def)
  obtain out where o: "mini_vsnprintf 256 (cs ''%c'') [VInt (scast k)] = Some out" using out_char by blast
  obtain f1 where f1: "printf env (cs ''%c'') [VInt (scast k)] f = Some f1" "only_scr f f1"
    "cursor_from (if takeWhile (\<lambda>c. c \<noteq> 0) out = [] then - 1 else 0) (scr (kst f1))"
    using printf_shows [OF o h(4)] by auto
  have "cursor_from (- 1) (scr (kst f1))" using f1(3) by (auto simp: cursor_from_def split: if_splits)
  then have "ready (line @ [k]) f0 (cmd(cnt := k), cnt + 1, f1)"
    using h only_scr_trans [OF h(3) f1(2)] by (simp add: ready_def holds_snoc)
  moreover have "shell_key env stale k (cmd, cnt, f) = Some (cmd(cnt := k), cnt + 1, f1)"
    using k n h(2) by (auto simp: shell_key_def f1(1) simp del: cs_Cons)
  ultimately show ?thesis by (intro exI conjI)
qed

lemma shell_keys_edit:
  "ready line f0 st \<Longrightarrow> fits line keys \<Longrightarrow> \<exists>st'. shell_keys env stale keys st = Some st' \<and> ready (edit line keys) f0 st'"
proof (induction keys arbitrary: line st)
  case (Cons k keys)
  obtain cmd cnt f where st: "st = (cmd, cnt, f)" by (cases st) auto
  let ?line = "if k = 0 then line else if k = 8 \<or> k = 127 then butlast line else line @ [k]"
  have "\<exists>st1. shell_key env stale k st = Some st1 \<and> ready ?line f0 st1"
  proof (cases "k = 0")
    case True
    then show ?thesis using Cons.prems(1) by (auto simp: shell_key_def st)
  next
    case False
    then show ?thesis using key_backspace [of line f0 cmd cnt f k env stale] key_char [of line f0 cmd cnt f k env stale] Cons.prems
      by (cases "k = 8 \<or> k = 127") (auto simp: st)
  qed
  then obtain st1 where s1: "shell_key env stale k st = Some st1" "ready ?line f0 st1" by blast
  moreover have "fits ?line keys" using Cons.prems(2) by (auto split: if_splits)
  ultimately show ?case using Cons.IH [of ?line st1] by (simp add: shell_keys_def)
qed (simp add: shell_keys_def)

lemma edit_nz: "0 \<notin> set line \<Longrightarrow> 0 \<notin> set (edit line keys)"
  by (induction keys arbitrary: line) (auto dest: in_set_butlastD)

lemma shell_keys_snoc:
  "shell_keys env stale (keys @ [k]) st = Option.bind (shell_keys env stale keys st) (shell_key env stale k)"
  by (simp add: shell_keys_def fold_opt_append split: option.splits)

text \<open>Typing a line and ending it.\<close>

lemma typed_line:
  assumes c: "cursor_from (- 1) (scr (kst f))" and fit: "fits [] keys" and n: "length (edit [] keys) < COMMAND_BUFFER_SIZE"
    and w: "words (edit [] keys) = [cs c, a]" and op: "(c, op) \<in> set name_commands" and e: "e = 10 \<or> e = 13"
  obtains f1 b cmd' where "only_scr f f1" "cursor_from (- 1) (scr (kst f1))" "cstr b 0 a"
    "shell_keys env stale (keys @ [e]) (cmd, 0, f) = do {
       f2 \<leftarrow> op (sd env) (stack_junk env) (Some b) f1;
       f3 \<leftarrow> prompt env f2;
       Some (cmd', 0, f3) }"
proof -
  let ?xs = "edit [] keys"
  have "ready [] f (cmd, 0, f)" using c by (simp add: ready_def holds_def)
  from shell_keys_edit [OF this fit, of env stale] obtain cmd1 f0
    where s: "shell_keys env stale keys (cmd, 0, f) = Some (cmd1, length ?xs, f0)"
      and h: "holds cmd1 0 ?xs" "only_scr f f0" "cursor_from (- 1) (scr (kst f0))"
    by (auto simp: ready_def)
  from printf_shows [OF out_newline h(3), of env] obtain f1
    where p: "printf env [10] [] f0 = Some f1" "only_scr f0 f1" "cursor_from 0 (scr (kst f1))" by auto
  have "holds (cmd1(length ?xs := 10)) 0 ?xs" using h(1) by simp
  then obtain cmd' b where b: "cstr b 0 a" "solve_cmd env stale (cmd1(length ?xs := 10)) (length ?xs) f1 =
      map_option (\<lambda>f'. (SOLVE_COMMAND_OK, cmd', f')) (op (sd env) (stack_junk env) (Some b) f1)"
    by (rule name_command_runs [OF _ edit_nz n w op]) simp_all
  have "shell_key env stale e (cmd1, length ?xs, f0) = do {
       f2 \<leftarrow> op (sd env) (stack_junk env) (Some b) f1;
       f3 \<leftarrow> prompt env f2;
       Some (cmd', 0, f3) }"
    using e n by (auto simp: shell_key_def p(1) b(2) map_conv_bind_option)
  then have "shell_keys env stale (keys @ [e]) (cmd, 0, f) = do {
       f2 \<leftarrow> op (sd env) (stack_junk env) (Some b) f1;
       f3 \<leftarrow> prompt env f2;
       Some (cmd', 0, f3) }" by (simp add: shell_keys_snoc s)
  moreover have "cursor_from (- 1) (scr (kst f1))" using p(3) by (simp add: cursor_from_def)
  ultimately show ?thesis using that b(1) only_scr_trans [OF h(2) p(2)] by blast
qed

lemma prompt_shows:
  assumes "cstr (cwd_str f) 0 xs" "cursor_from (- 1) (scr (kst f))"
  obtains f' where "prompt env f = Some f'" "only_scr f f'" "cursor_from (- 1) (scr (kst f'))"
proof -
  have x: "\<exists>ys. str_bytes (cwd_str f) 0 = Some ys" using assms(1) by (simp add: str_bytes_def)
  then obtain ys where y: "str_bytes (cwd_str f) 0 = Some ys" ..
  have "args_ok (cs ''LinHe@RUAOS %s '') [VStr ys]" by simp
  then obtain out where "mini_vsnprintf 256 (cs ''LinHe@RUAOS %s '') [VStr ys] = Some out"
    using mini_vsnprintf_total by blast
  from printf_shows [OF this assms(2), of env] obtain f'
    where "printf env (cs ''LinHe@RUAOS %s '') [VStr ys] f = Some f'" "only_scr f f'"
      "cursor_from (if takeWhile (\<lambda>c. c \<noteq> 0) out = [] then - 1 else 0) (scr (kst f'))" by auto
  then show ?thesis
    by (intro that [of f']) (simp_all add: prompt_def y cursor_from_def del: cs_Cons split: if_splits)
qed

lemma only_scr_dir: "only_scr f g \<Longrightarrow> dir_at dev g i b es = dir_at dev f i b es"
  by (auto simp: only_scr_def dir_at_def)

lemma only_scr_maps:
  "only_scr f g \<Longrightarrow> inode_bit_map g = inode_bit_map f \<and> block_bit_map g = block_bit_map f \<and> super_block g = super_block f \<and> cwd g = cwd f"
  by (auto simp: only_scr_def)

subsection \<open>Properties\<close>

text \<open>
  Splitting a line. For a line without NUL of fewer than 1024 characters and at most 64 words, the loop of \<open>solve_cmd\<close>
  sets one field per word, in order, and each field points to the NUL-terminated word.
\<close>

theorem shell_splits_words:
  assumes "holds cmd 0 line" "0 \<notin> set line" "length line < COMMAND_BUFFER_SIZE" "length (words line) \<le> COMMAND_FIELD_MAX_NUM"
  shows "\<exists>cmd' field. split_fields cmd (length line) = Some (cmd', field) \<and> list_all2 (cstr cmd') field (words line)"
  by (rule split_fields_words [OF assms]) blast

theorem shell_splits_words_witness:
  "\<exists>cmd' field. split_fields (buf_of (cs ''  ls a '')) (length (cs ''  ls a '')) = Some (cmd', field) \<and> list_all2 (cstr cmd') field [cs ''ls'', cs ''a'']"
proof -
  have "holds (buf_of (cs ''  ls a '')) 0 (cs ''  ls a '')" by (simp add: holds_def)
  moreover have "words (cs ''  ls a '') = [cs ''ls'', cs ''a'']" "length (cs ''  ls a '') < COMMAND_BUFFER_SIZE"
    "0 \<notin> set (cs ''  ls a '')" by simp_all
  ultimately show ?thesis using shell_splits_words [of "buf_of (cs ''  ls a '')" "cs ''  ls a ''"] by (simp del: cs_Cons)
qed

text \<open>
  C11: A file is created from the keyboard. Whatever keys are typed, zero bytes and corrections with backspace included, if
  the edited line consists of the words \<open>touch\<close> and \<open>name\<close>, ending the line makes the shell split it, select the command
  and call \<open>sys_touch\<close>: the current directory then has its old entries and the new name, for an inode that was free and
  is now an empty file, and the shell is back at its prompt with an empty buffer.
\<close>

theorem typed_touch_creates_file:
  assumes dev: "sd_ok (sd env)" and sb: "super_block f = std_super"
    and d: "dir_at (sd env) f (cwd f) b es" and room: "length es < DENTRY_NUM"
    and nm: "component xs" "xs \<noteq> []" "length xs < MAX_NAME_LEN" "xs \<notin> fst ` set es"
    and free: "used_bits INODE_BIT_MAP_SIZE (inode_bit_map f) \<noteq> {k. unat k < INODE_MAX_NUMBER}"
    and used: "word_of_nat (cwd f) \<in> used_bits INODE_BIT_MAP_SIZE (inode_bit_map f)"
    and scr: "cursor_from (- 1) (scr (kst f))" and cwd: "cstr (cwd_str f) 0 ps"
    and keys: "fits [] keys" "length (edit [] keys) < COMMAND_BUFFER_SIZE" "words (edit [] keys) = [cs ''touch'', xs]"
    and e: "e = 10 \<or> e = 13"
  shows "\<exists>cmd' k g. shell_keys env stale (keys @ [e]) (cmd, 0, f) = Some (cmd', 0, g) \<and>
    k \<notin> used_bits INODE_BIT_MAP_SIZE (inode_bit_map f) \<and>
    used_bits INODE_BIT_MAP_SIZE (inode_bit_map g) = insert k (used_bits INODE_BIT_MAP_SIZE (inode_bit_map f)) \<and>
    dir_at (sd env) g (cwd f) b (es @ [(xs, file_type, k)]) \<and>
    itype (nodes g (unat k)) = file_type \<and> isize (nodes g (unat k)) = 0 \<and> cursor_from (- 1) (scr (kst g))"
proof -
  obtain f1 nmb cmd' where f1: "only_scr f f1" "cursor_from (- 1) (scr (kst f1))" "cstr nmb 0 xs"
    and run: "shell_keys env stale (keys @ [e]) (cmd, 0, f) = do {
       f2 \<leftarrow> do_touch (sd env) (stack_junk env) (Some nmb) f1;
       f3 \<leftarrow> prompt env f2;
       Some (cmd', 0, f3) }"
    by (rule typed_line [OF scr keys _ e, where op = do_touch]) (simp add: name_commands_def, rule that, assumption+)
  note eq = only_scr_maps [OF f1(1)] only_scr_dir [OF f1(1)]
  obtain g k where g: "do_touch (sd env) (stack_junk env) (Some nmb) f1 = Some g"
    "k \<notin> used_bits INODE_BIT_MAP_SIZE (inode_bit_map f1)"
    "used_bits INODE_BIT_MAP_SIZE (inode_bit_map g) = insert k (used_bits INODE_BIT_MAP_SIZE (inode_bit_map f1))"
    "dir_at (sd env) g (cwd f1) b (es @ [(xs, file_type, k)])"
    "itype (nodes g (unat k)) = file_type" "isize (nodes g (unat k)) = 0"
    "kst g = kst f1" "cwd_str g = cwd_str f1"
    by (rule do_touch_effect [of "sd env" f1 b es nmb xs "stack_junk env"])
      (use dev sb d room f1(3) nm free used eq in simp_all)
  have "cstr (cwd_str g) 0 ps" "cursor_from (- 1) (scr (kst g))"
    using cwd f1(2) only_scr_fields [OF f1(1)] g(7,8) by simp_all
  then obtain g' where p: "prompt env g = Some g'" "only_scr g g'" "cursor_from (- 1) (scr (kst g'))"
    by (rule prompt_shows)
  have "nodes g' = nodes g" using only_scr_fields [OF p(2)] by simp
  then show ?thesis
    using g p eq only_scr_maps [OF p(2)] only_scr_dir [OF p(2)]
    by (intro exI [of _ cmd'] exI [of _ k] exI [of _ g'] conjI) (simp_all add: run)
qed

theorem typed_touch_creates_file_witness:
  "\<exists>f cmd' k g. dir_at ram_dev f 0 0 (dot_dirs 0 0) \<and>
     shell_keys demo_env None (cs ''toucg'' @ [8] @ cs ''h notes'' @ [13]) ((\<lambda>_. 0), 0, f) = Some (cmd', 0, g) \<and>
     dir_at ram_dev g 0 0 (dot_dirs 0 0 @ [(cs ''notes'', file_type, k)])"
proof -
  let ?keys = "cs ''toucg'' @ [8] @ cs ''h notes''"
  obtain f0 where f0: "super_block f0 = std_super" "cwd f0 = 0" "dir_at ram_dev f0 0 0 (dot_dirs 0 0)"
    "used_bits INODE_BIT_MAP_SIZE (inode_bit_map f0) = {0}"
    by (rule formatted_root) (rule that, assumption+)
  let ?f = "f0\<lparr>kst := demo_state\<lparr>scr := (scr demo_state)\<lparr>screen_cursor_y := 20\<rparr>\<rparr>, cwd_str := buf_of (cs ''/'')\<rparr>"
  have d: "dir_at (sd demo_env) ?f (cwd ?f) 0 (dot_dirs 0 0)" using f0(2,3) by (simp add: dir_at_def demo_env_def)
  have k: "fits [] ?keys" "edit [] ?keys = cs ''touch notes''" by simp_all
  have w: "words (edit [] ?keys) = [cs ''touch'', cs ''notes'']" "length (edit [] ?keys) < COMMAND_BUFFER_SIZE"
    unfolding k(2) by simp_all
  have c: "component (cs ''notes'')" "cs ''notes'' \<noteq> []" "length (cs ''notes'') < MAX_NAME_LEN"
    "cs ''notes'' \<notin> fst ` set (dot_dirs 0 0)" "length (dot_dirs 0 0) < DENTRY_NUM"
    by (simp_all add: component_def)
  have u: "used_bits INODE_BIT_MAP_SIZE (inode_bit_map ?f) \<noteq> {k. unat k < INODE_MAX_NUMBER}"
    "word_of_nat (cwd ?f) \<in> used_bits INODE_BIT_MAP_SIZE (inode_bit_map ?f)"
    using f0(2,4) some_unused by auto
  have s: "sd_ok (sd demo_env)" "super_block ?f = std_super" "cursor_from (- 1) (scr (kst ?f))" "cstr (cwd_str ?f) 0 (cs ''/'')"
    using f0(1) ram_ok cstr_buf_of [of "cs ''/''"] by (simp_all add: demo_env_def cursor_from_def demo_state_def)
  from typed_touch_creates_file [OF s(1,2) d c(5,1-4) u s(3,4) k(1) w(2,1), of 13 None "\<lambda>_. 0"] show ?thesis
    using f0(2,3) by (intro exI [of _ ?f]) (auto simp: demo_env_def dir_at_def simp del: cs_Cons)
qed

text \<open>
  C36: The command buffer overflows. Nothing compares the number of characters with the size of the buffer: once 1024
  characters are on the line, the next character and the end of the line are stored past the array.
\<close>

theorem shell_buffer_overflow:
  assumes "cursor_from (- 1) (scr (kst f))" "fits [] keys" "length (edit [] keys) = COMMAND_BUFFER_SIZE" "k \<notin> {0, 8, 127}"
  shows "(\<exists>cmd' f'. shell_keys env stale keys (cmd, 0, f) = Some (cmd', COMMAND_BUFFER_SIZE, f')) \<and>
    shell_keys env stale (keys @ [k]) (cmd, 0, f) = None"
proof -
  have "ready [] f (cmd, 0, f)" using assms(1) by (simp add: ready_def holds_def)
  from shell_keys_edit [OF this assms(2), of env stale] obtain cmd1 f0
    where s: "shell_keys env stale keys (cmd, 0, f) = Some (cmd1, COMMAND_BUFFER_SIZE, f0)"
    using assms(3) by (auto simp: ready_def)
  then show ?thesis using assms(4) by (simp add: shell_keys_snoc shell_key_def)
qed

lemma fits_replicate: "length line + n \<le> COMMAND_BUFFER_SIZE \<Longrightarrow> fits line (replicate n 65)"
  by (induction n arbitrary: line) auto

lemma edit_replicate: "edit line (replicate n 65) = line @ replicate n 65"
  by (induction n arbitrary: line) simp_all

theorem shell_buffer_overflow_witness:
  "shell_keys demo_env None (replicate 1024 65 @ [66]) ((\<lambda>_. 0), 0, blank_fs\<lparr>kst := demo_state\<lparr>scr := (scr demo_state)\<lparr>screen_cursor_y := 20\<rparr>\<rparr>\<rparr>) = None"
proof -
  let ?f = "blank_fs\<lparr>kst := demo_state\<lparr>scr := (scr demo_state)\<lparr>screen_cursor_y := 20\<rparr>\<rparr>\<rparr>"
  have "cursor_from (- 1) (scr (kst ?f))" by (simp add: cursor_from_def demo_state_def)
  moreover have "fits [] (replicate 1024 65)" "length (edit [] (replicate 1024 65)) = COMMAND_BUFFER_SIZE"
    by (simp_all add: fits_replicate edit_replicate)
  ultimately show ?thesis using shell_buffer_overflow [of ?f "replicate 1024 65" 66 demo_env None "\<lambda>_. 0"] by simp
qed

end
