(* ===== verification/Boot.thy ===== *)
theory Boot
  imports Shell
begin

text \<open>
  The start of the kernel, \<open>_start\<close> of \<^verbatim>\<open>init/main.c\<close>: the exception vectors, the ready queues, the process table, the
  screen and the file system, in the order of the code, up to the point where interrupts are enabled. The system call table
  that \<open>init_syscall\<close> fills is the constant of that name in \<open>Syscall\<close>. Beside the globals of the kernel, the state has
  the bytes of memory, into which the exception handlers are copied.
\<close>

subsection \<open>Operations\<close>

text \<open>A loop that copies \<open>n\<close> bytes of code.\<close>

definition copy_code :: "u32 \<Rightarrow> u32 \<Rightarrow> nat \<Rightarrow> (u32 \<Rightarrow> u8) \<Rightarrow> u32 \<Rightarrow> u8" where
  "copy_code src dest n m = for_upto 0 n (\<lambda>i m. m(dest + word_of_nat i := m (src + word_of_nat i))) m"

definition init_exception :: "u32 \<Rightarrow> u32 \<Rightarrow> (u32 \<Rightarrow> u8) \<Rightarrow> u32 \<Rightarrow> u8" where
  "init_exception handler_entry tlb_entry m =
     (let m1 = copy_code handler_entry 0x80000180 256 m in copy_code tlb_entry 0x80000000 180 m1)"

definition boot_msg :: "string \<Rightarrow> 'd fs_t \<Rightarrow> 'd fs_t option" where
  "boot_msg t f = do {
     x \<leftarrow> printk (cs t @ [10]) [] (scr (kst f));
     Some (f\<lparr>kst := (kst f)\<lparr>scr := x\<rparr>\<rparr>) }"

text \<open>The addresses of assembly code and of \<open>shell\<close>, which the linker sets.\<close>

record labels =
  jmp_exception_handler_entry :: u32
  jmp_TLB_exception_handler_entry :: u32
  exception_handler_exit :: u32
  shell_entry :: u32

definition start :: "'d sd_dev \<Rightarrow> buffer \<Rightarrow> labels \<Rightarrow> (u32 \<Rightarrow> u8) \<times> 'd fs_t \<Rightarrow> ((u32 \<Rightarrow> u8) \<times> 'd fs_t) option" where
  "start dev jnk lb st =
     (case st of (m, f) \<Rightarrow> do {
        let m1 = init_exception (jmp_exception_handler_entry lb) (jmp_TLB_exception_handler_entry lb) m;
        f1 \<leftarrow> boot_msg ''> [INIT] Interrupt processing initialization succeeded.'' f;
        f2 \<leftarrow> boot_msg ''> [INIT] System call initialized successfully.'' f1;
        let f3 = f2\<lparr>kst := init_pready_queue (kst f2)\<rparr>;
        f4 \<leftarrow> boot_msg ''> [INIT] Priority ready queue initialized successfully.'' f3;
        k \<leftarrow> init_pcb (exception_handler_exit lb) (shell_entry lb) (kst f4);
        f5 \<leftarrow> boot_msg ''> [INIT] PCB initialization succeeded.'' (f4\<lparr>kst := k\<rparr>);
        x \<leftarrow> init_screen (scr (kst f5));
        f6 \<leftarrow> boot_msg ''> [INIT] SCREEN initialization succeeded.'' (f5\<lparr>kst := (kst f5)\<lparr>scr := x\<rparr>\<rparr>);
        f7 \<leftarrow> boot_msg ''> [INIT] Mount RUA-FS if it exists.'' f6;
        f8 \<leftarrow> mount_fs dev jnk f7;
        Some (m1, f8) })"

subsection \<open>The steps\<close>

lemma copy_code_spec:
  assumes "\<forall>i<n. \<forall>j<n. src + word_of_nat i \<noteq> dest + word_of_nat j" "n \<le> 2 ^ 32"
  shows "i < n \<Longrightarrow> copy_code src dest n m (dest + word_of_nat i) = m (src + word_of_nat i)"
    "\<forall>j<n. x \<noteq> dest + word_of_nat j \<Longrightarrow> copy_code src dest n m x = m x"
proof -
  have "(\<forall>i<k. copy_code src dest k m (dest + word_of_nat i) = m (src + word_of_nat i)) \<and>
      (\<forall>x. (\<forall>j<k. x \<noteq> dest + word_of_nat j) \<longrightarrow> copy_code src dest k m x = m x)" if "k \<le> n" for k
    using that
  proof (induction k)
    case (Suc k)
    have eq: "copy_code src dest (Suc k) m =
        (copy_code src dest k m)(dest + word_of_nat k := copy_code src dest k m (src + word_of_nat k))"
      by (simp add: copy_code_def for_upto_Suc)
    have "copy_code src dest k m (src + word_of_nat k) = m (src + word_of_nat k)"
      using Suc assms(1) by simp
    moreover have "(word_of_nat i :: u32) \<noteq> word_of_nat k" if "i < k" for i
      using that Suc.prems assms(2) by (simp add: word_of_nat_eq_iff take_bit_nat_eq_self)
    ultimately show ?case using Suc by (auto simp: eq less_Suc_eq)
  qed (simp add: copy_code_def)
  from this [of n] show "i < n \<Longrightarrow> copy_code src dest n m (dest + word_of_nat i) = m (src + word_of_nat i)"
    "\<forall>j<n. x \<noteq> dest + word_of_nat j \<Longrightarrow> copy_code src dest n m x = m x" by auto
qed

text \<open>Code that does not lie in the exception vectors.\<close>

definition outside_vectors :: "u32 \<Rightarrow> nat \<Rightarrow> bool" where
  "outside_vectors src n \<longleftrightarrow> (\<forall>i<n. 0x280 \<le> unat (src + word_of_nat i - 0x80000000))"

lemma vector_offset: "j < 0x280 \<Longrightarrow> unat ((0x80000000 :: u32) + word_of_nat j - 0x80000000) = j"
  by (simp add: unat_of_nat)

lemma outside_vectorsD:
  assumes "outside_vectors src n" "i < n" "j < 0x280"
  shows "src + word_of_nat i \<noteq> 0x80000000 + word_of_nat j"
proof
  assume "src + word_of_nat i = 0x80000000 + word_of_nat j"
  then have "unat (src + word_of_nat i - 0x80000000) = j" using vector_offset [OF assms(3)] by simp
  then show False using assms by (fastforce simp: outside_vectors_def)
qed

lemma init_exception_spec:
  assumes a: "outside_vectors a 256" and b: "outside_vectors b 180"
  shows "i < 256 \<Longrightarrow> init_exception a b m (0x80000180 + word_of_nat i) = m (a + word_of_nat i)"
    "i < 180 \<Longrightarrow> init_exception a b m (0x80000000 + word_of_nat i) = m (b + word_of_nat i)"
proof -
  have v: "0x80000180 + word_of_nat i = (0x80000000 :: u32) + word_of_nat (0x180 + i)" for i by simp
  have ne: "(0x80000000 :: u32) + word_of_nat i \<noteq> 0x80000000 + word_of_nat j" if "i < 0x280" "j < 0x280" "i \<noteq> j" for i j
    using vector_offset [OF that(1)] vector_offset [OF that(2)] that(3) by metis
  let ?m = "copy_code a 0x80000180 256 m"
  have da: "\<forall>i<256. \<forall>j<256. a + word_of_nat i \<noteq> 0x80000180 + word_of_nat j"
    unfolding v by (intro allI impI outside_vectorsD [OF a]; linarith)
  have db: "\<forall>i<180. \<forall>j<180. b + word_of_nat i \<noteq> 0x80000000 + word_of_nat j"
    using outside_vectorsD [OF b] by (intro allI impI) simp
  have n: "256 \<le> (2 :: nat) ^ 32" "180 \<le> (2 :: nat) ^ 32" by simp_all
  note c1 = copy_code_spec [OF da n(1)] and c2 = copy_code_spec [OF db n(2)]
  show "init_exception a b m (0x80000180 + word_of_nat i) = m (a + word_of_nat i)" if "i < 256"
  proof -
    have "\<forall>j<180. 0x80000180 + word_of_nat i \<noteq> (0x80000000 :: u32) + word_of_nat j"
      unfolding v by (intro allI impI ne) (use that in linarith)+
    from c2(2) [OF this, where m = ?m] show ?thesis using c1(1) [OF that, where m = m]
      unfolding init_exception_def Let_def by (rule trans)
  qed
  show "init_exception a b m (0x80000000 + word_of_nat i) = m (b + word_of_nat i)" if "i < 180"
  proof -
    have "\<forall>j<256. b + word_of_nat i \<noteq> 0x80000180 + word_of_nat j"
      unfolding v by (intro allI impI outside_vectorsD [OF b that]) linarith
    from c1(2) [OF this, where m = m] show ?thesis using c2(1) [OF that, where m = ?m]
      unfolding init_exception_def Let_def by (metis trans)
  qed
qed

lemma boot_msg_ok:
  assumes "args_ok (cs t @ [10]) []"
  obtains x where "boot_msg t f = Some (f\<lparr>kst := (kst f)\<lparr>scr := x\<rparr>\<rparr>)" "cursor_ok (scr (kst f)) \<Longrightarrow> cursor_ok x"
proof -
  obtain out where o: "mini_vsnprintf 256 (cs t @ [10]) [] = Some out" using mini_vsnprintf_total [OF assms] by blast
  have "boot_msg t f = Some (f\<lparr>kst := (kst f)\<lparr>scr := port_write out (scr (kst f))\<rparr>\<rparr>)"
    using o by (simp add: boot_msg_def printk_def)
  then show ?thesis by (rule that) (simp add: port_write_def cursor_ok_def)
qed

lemma init_screen_ok: "\<exists>x. init_screen s = Some x \<and> cursor_ok x"
proof -
  obtain o1 where "mini_vsnprintf 256 (cs ''%c[?25l'') [VInt 27] = Some o1"
    using mini_vsnprintf_total [of "cs ''%c[?25l''" "[VInt 27]" 256] by auto
  moreover obtain o2 where "mini_vsnprintf 256 (cs ''%c[2J'') [VInt 27] = Some o2"
    using mini_vsnprintf_total [of "cs ''%c[2J''" "[VInt 27]" 256] by auto
  ultimately show ?thesis
    using screen_reflush_total
    by (fastforce simp: init_screen_def vt100_hidden_cursor_def vt100_clear_def printk_def screen_clear_def Let_def cursor_ok_def simp del: cs_Cons)
qed

subsection \<open>The whole start\<close>

text \<open>The globals of the kernel before the start: every queue is empty and all priorities are in range.\<close>

definition zeroed_kernel :: "kstate \<Rightarrow> bool" where
  "zeroed_kernel k \<longleftrightarrow> queues_wf k (\<lambda>_. []) \<and> pick_ok k \<and> (\<forall>p. uint (priority (pcb k p)) < 5)"

lemma zeroed_kernel_scr [simp]: "zeroed_kernel (k\<lparr>scr := x\<rparr>) = zeroed_kernel k"
  by (simp add: zeroed_kernel_def pick_ok_def)

text \<open>The messages contain no format directives.\<close>

lemma messages_ok:
  "args_ok (cs ''> [INIT] Interrupt processing initialization succeeded.'' @ [10]) []"
  "args_ok (cs ''> [INIT] System call initialized successfully.'' @ [10]) []"
  "args_ok (cs ''> [INIT] Priority ready queue initialized successfully.'' @ [10]) []"
  "args_ok (cs ''> [INIT] PCB initialization succeeded.'' @ [10]) []"
  "args_ok (cs ''> [INIT] SCREEN initialization succeeded.'' @ [10]) []"
  "args_ok (cs ''> [INIT] Mount RUA-FS if it exists.'' @ [10]) []"
  by simp_all

lemma start_effect:
  assumes dev: "sd_ok dev" and meta: "meta_on_disk dev f0 (disk f)" and wf: "\<And>i. i < INODE_MAX_NUMBER \<Longrightarrow> inode_wf (nodes f0 i)"
    and z: "zeroed_kernel (kst f)"
  obtains h where "start dev jnk lb (m, f) =
      Some (init_exception (jmp_exception_handler_entry lb) (jmp_TLB_exception_handler_entry lb) m, h)"
    "current_running (kst h) = Some 0" "pname (pcb (kst h) 1) = cs ''shell''"
    "sched_inv (kst h) ((\<lambda>_. [])(ReadyQ 0 := [1]))" "cursor_ok (scr (kst h))"
    "super_block h = std_super" "disk h = disk f" "\<And>i. i < INODE_MAX_NUMBER \<Longrightarrow> nodes h i = nodes f0 i"
    "\<And>i. i < DATA_BLOCK_BIT_MAP_SIZE \<Longrightarrow> block_bit_map h i = block_bit_map f0 i"
    "\<And>i. i < INODE_BIT_MAP_SIZE \<Longrightarrow> inode_bit_map h i = inode_bit_map f0 i"
    "root h = 0" "cwd h = 0" "cstr (cwd_str h) 0 (cs ''/'')"
proof -
  obtain x1 where m1: "boot_msg ''> [INIT] Interrupt processing initialization succeeded.'' f = Some (f\<lparr>kst := (kst f)\<lparr>scr := x1\<rparr>\<rparr>)"
    by (rule boot_msg_ok [OF messages_ok(1), of f])
  let ?f1 = "f\<lparr>kst := (kst f)\<lparr>scr := x1\<rparr>\<rparr>"
  obtain x2 where m2: "boot_msg ''> [INIT] System call initialized successfully.'' ?f1 = Some (?f1\<lparr>kst := (kst ?f1)\<lparr>scr := x2\<rparr>\<rparr>)"
    by (rule boot_msg_ok [OF messages_ok(2), of ?f1])
  let ?f3 = "f\<lparr>kst := init_pready_queue ((kst f)\<lparr>scr := x2\<rparr>)\<rparr>"
  obtain x3 where m3: "boot_msg ''> [INIT] Priority ready queue initialized successfully.'' ?f3 = Some (?f3\<lparr>kst := (kst ?f3)\<lparr>scr := x3\<rparr>\<rparr>)"
    by (rule boot_msg_ok [OF messages_ok(3), of ?f3])
  have q: "(init_pready_queue ((kst f)\<lparr>scr := x2\<rparr>))\<lparr>scr := x3\<rparr> = init_pready_queue ((kst f)\<lparr>scr := x3\<rparr>)"
    by (simp add: init_pready_queue_def for_upto_def upt_conv_Cons)
  obtain k where k: "init_pcb (exception_handler_exit lb) (shell_entry lb) (init_pready_queue ((kst f)\<lparr>scr := x3\<rparr>)) = Some k"
    "current_running k = Some 0" "pname (pcb k 1) = cs ''shell''" "sched_inv k ((\<lambda>_. [])(ReadyQ 0 := [1]))"
    using boot_effect [of "(kst f)\<lparr>scr := x3\<rparr>" "exception_handler_exit lb" "shell_entry lb"] z
    by (auto simp: zeroed_kernel_def pick_ok_def simp del: cs_Cons)
  let ?f5 = "f\<lparr>kst := k\<rparr>"
  obtain x4 where m4: "boot_msg ''> [INIT] PCB initialization succeeded.'' ?f5 = Some (?f5\<lparr>kst := (kst ?f5)\<lparr>scr := x4\<rparr>\<rparr>)"
    by (rule boot_msg_ok [OF messages_ok(4), of ?f5])
  obtain x5 where x5: "init_screen x4 = Some x5" "cursor_ok x5" using init_screen_ok by blast
  let ?f6 = "f\<lparr>kst := k\<lparr>scr := x5\<rparr>\<rparr>"
  obtain x6 where m6: "boot_msg ''> [INIT] SCREEN initialization succeeded.'' ?f6 = Some (?f6\<lparr>kst := (kst ?f6)\<lparr>scr := x6\<rparr>\<rparr>)" "cursor_ok x6"
    by (rule boot_msg_ok [OF messages_ok(5), of ?f6]) (use x5(2) in simp)
  let ?f7 = "f\<lparr>kst := k\<lparr>scr := x6\<rparr>\<rparr>"
  obtain x7 where m7: "boot_msg ''> [INIT] Mount RUA-FS if it exists.'' ?f7 = Some (?f7\<lparr>kst := (kst ?f7)\<lparr>scr := x7\<rparr>\<rparr>)" "cursor_ok x7"
    by (rule boot_msg_ok [OF messages_ok(6), of ?f7]) (use m6(2) in simp)
  define g where "g = f\<lparr>kst := k\<lparr>scr := x7\<rparr>\<rparr>"
  have "meta_on_disk dev f0 (disk g)" "cursor_ok (scr (kst g))" using meta m7(2) by (simp_all add: g_def)
  then obtain h where h: "mount_fs dev jnk g = Some h" "super_block h = std_super" "disk h = disk g"
    "\<forall>i < INODE_MAX_NUMBER. nodes h i = nodes f0 i"
    "\<forall>i < DATA_BLOCK_BIT_MAP_SIZE. block_bit_map h i = block_bit_map f0 i"
    "\<forall>i < INODE_BIT_MAP_SIZE. inode_bit_map h i = inode_bit_map f0 i"
    "root h = 0" "cwd h = 0" "cstr (cwd_str h) 0 (cs ''/'')" "\<exists>x. kst h = (kst g)\<lparr>scr := x\<rparr> \<and> cursor_ok x"
    using mount_restores [OF dev _ wf, of g jnk] by metis
  then obtain x8 where x8: "kst h = k\<lparr>scr := x8\<rparr>" "cursor_ok x8" by (auto simp: g_def)
  have st: "start dev jnk lb (m, f) =
      Some (init_exception (jmp_exception_handler_entry lb) (jmp_TLB_exception_handler_entry lb) m, h)"
    using m1 m2 m3 m4 m6(1) m7(1) x5(1) k(1) h(1) by (simp add: start_def q g_def)
  have "sched_inv (kst h) ((\<lambda>_. [])(ReadyQ 0 := [1]))" unfolding x8(1) by (rule sched_inv_frame(1) [OF k(4)])
  then show ?thesis using that [OF st] k x8 h by (simp add: g_def)
qed

end
