(* ===== verification/Rbtree.thy ===== *)
theory Rbtree
  imports Kernel_Prelude "HOL-Library.Multiset"
begin

text \<open>
  The red-black tree of \<^verbatim>\<open>libs/algo.c\<close>. A pointer is an address or NULL (\<open>None\<close>); the heap gives the node at an
  address. The operations follow the code on the heap. The abstraction is a tree that knows the addresses of its
  nodes, together with a path to its root for operations in the middle of a tree: \<open>focus\<close> relates both to a heap,
  and the repair after an insertion is a function on them.
\<close>

subsection \<open>Data\<close>

record rb_node =
  color :: u8
  key :: u32
  entry :: u32
  parent :: "nat option"
  left :: "nat option"
  right :: "nat option"

type_synonym rb_heap = "nat \<Rightarrow> rb_node"

abbreviation "RED \<equiv> (0 :: u8)"
abbreviation "BLACK \<equiv> (1 :: u8)"

text \<open>Assignments to a field of the node at an address.\<close>

definition set_color :: "nat \<Rightarrow> u8 \<Rightarrow> rb_heap \<Rightarrow> rb_heap" where
  "set_color a c h = h(a := (h a)\<lparr>color := c\<rparr>)"

definition set_parent :: "nat \<Rightarrow> nat option \<Rightarrow> rb_heap \<Rightarrow> rb_heap" where
  "set_parent a p h = h(a := (h a)\<lparr>parent := p\<rparr>)"

definition set_left :: "nat \<Rightarrow> nat option \<Rightarrow> rb_heap \<Rightarrow> rb_heap" where
  "set_left a p h = h(a := (h a)\<lparr>left := p\<rparr>)"

definition set_right :: "nat \<Rightarrow> nat option \<Rightarrow> rb_heap \<Rightarrow> rb_heap" where
  "set_right a p h = h(a := (h a)\<lparr>right := p\<rparr>)"

subsection \<open>Operations\<close>

definition get_parent :: "nat option \<Rightarrow> rb_heap \<Rightarrow> nat option" where
  "get_parent n h = (case n of None \<Rightarrow> None | Some a \<Rightarrow> parent (h a))"

definition get_grandparent :: "nat option \<Rightarrow> rb_heap \<Rightarrow> nat option" where
  "get_grandparent n h = get_parent (get_parent n h) h"

definition get_sibling :: "nat option \<Rightarrow> rb_heap \<Rightarrow> nat option" where
  "get_sibling n h =
     (case get_parent n h of None \<Rightarrow> None
      | Some p \<Rightarrow> if left (h p) = n then right (h p) else left (h p))"

definition get_uncle :: "nat option \<Rightarrow> rb_heap \<Rightarrow> nat option" where
  "get_uncle n h = get_sibling (get_parent n h) h"

text \<open>The condition of the last \<open>if\<close> of \<open>rotate_left\<close> is the assignment \<open>p->left = n\<close>; its value is the pointer \<open>n\<close>.\<close>

definition rotate_left :: "nat \<Rightarrow> rb_heap \<Rightarrow> rb_heap option" where
  "rotate_left n h = do {
     nnew \<leftarrow> right (h n);
     let p = get_parent (Some n) h;
     let h1 = set_right n (left (h nnew)) h;
     let h2 = set_left nnew (Some n) h1;
     let h3 = set_parent n (Some nnew) h2;
     let h4 = (case right (h3 n) of None \<Rightarrow> h3 | Some r \<Rightarrow> set_parent r (Some n) h3);
     let h5 = (case p of None \<Rightarrow> h4
       | Some a \<Rightarrow> (let cond = Some n; h' = set_left a cond h4
           in if cond \<noteq> None then set_left a (Some nnew) h' else set_right a (Some nnew) h'));
     Some (set_parent nnew p h5) }"

definition rotate_right :: "nat \<Rightarrow> rb_heap \<Rightarrow> rb_heap option" where
  "rotate_right n h = do {
     nnew \<leftarrow> left (h n);
     let p = get_parent (Some n) h;
     let h1 = set_left n (right (h nnew)) h;
     let h2 = set_right nnew (Some n) h1;
     let h3 = set_parent n (Some nnew) h2;
     let h4 = (case left (h3 n) of None \<Rightarrow> h3 | Some l \<Rightarrow> set_parent l (Some n) h3);
     let h5 = (case p of None \<Rightarrow> h4
       | Some a \<Rightarrow> if left (h4 a) = Some n then set_left a (Some nnew) h4 else set_right a (Some nnew) h4);
     Some (set_parent nnew p h5) }"

text \<open>The end of \<open>insert_recurse\<close>, reached by the innermost call.\<close>

definition attach :: "nat option \<Rightarrow> nat \<Rightarrow> rb_heap \<Rightarrow> rb_heap" where
  "attach root n h = set_color n RED (set_left n None (set_right n None (set_parent n root h)))"

partial_function (option) insert_recurse :: "nat option \<Rightarrow> nat \<Rightarrow> rb_heap \<Rightarrow> rb_heap option" where
  "insert_recurse root n h =
     (case root of
        None \<Rightarrow> Some (attach root n h)
      | Some a \<Rightarrow>
          if key (h a) > key (h n)
          then (if left (h a) \<noteq> None then insert_recurse (left (h a)) n h
                else Some (attach root n (set_left a (Some n) h)))
          else (if right (h a) \<noteq> None then insert_recurse (right (h a)) n h
                else Some (attach root n (set_right a (Some n) h))))"

text \<open>The two steps of the last branch of \<open>insert_repair\<close>: the zig-zag, which may change \<open>n\<close>, and the outer rotation.\<close>

definition repair_inner :: "nat \<Rightarrow> nat \<Rightarrow> nat \<Rightarrow> rb_heap \<Rightarrow> (nat \<times> rb_heap) option" where
  "repair_inner n p g h =
     (if left (h g) = Some p \<and> right (h p) = Some n
      then do { h1 \<leftarrow> rotate_left p h; n1 \<leftarrow> left (h1 n); Some (n1, h1) }
      else if right (h g) = Some p \<and> left (h p) = Some n
      then do { h1 \<leftarrow> rotate_right p h; n1 \<leftarrow> right (h1 n); Some (n1, h1) }
      else Some (n, h))"

definition repair_outer :: "nat \<Rightarrow> rb_heap \<Rightarrow> rb_heap option" where
  "repair_outer n h = do {
     p \<leftarrow> get_parent (Some n) h;
     g \<leftarrow> get_grandparent (Some n) h;
     h1 \<leftarrow> (if left (h p) = Some n then rotate_right g h
            else if right (h p) = Some n then rotate_left g h else Some h);
     Some (set_color g RED (set_color p BLACK h1)) }"

partial_function (option) insert_repair :: "nat \<Rightarrow> rb_heap \<Rightarrow> rb_heap option" where
  "insert_repair n h =
     (case get_parent (Some n) h of
        None \<Rightarrow> Some (set_color n BLACK h)
      | Some p \<Rightarrow>
          if color (h p) = BLACK then Some h
          else (case get_grandparent (Some n) h of
              None \<Rightarrow> None
            | Some g \<Rightarrow>
                (case get_uncle (Some n) h of
                   Some u \<Rightarrow>
                     if color (h u) = RED
                     then insert_repair g (set_color g RED (set_color u BLACK (set_color p BLACK h)))
                     else Option.bind (repair_inner n p g h) (\<lambda>(n1, h1). repair_outer n1 h1)
                 | None \<Rightarrow> Option.bind (repair_inner n p g h) (\<lambda>(n1, h1). repair_outer n1 h1))))"

partial_function (option) find_root :: "nat \<Rightarrow> rb_heap \<Rightarrow> nat option" where
  "find_root root h = (case get_parent (Some root) h of None \<Rightarrow> Some root | Some p \<Rightarrow> find_root p h)"

definition insert_rb :: "nat option \<Rightarrow> nat \<Rightarrow> rb_heap \<Rightarrow> (nat \<times> rb_heap) option" where
  "insert_rb root n h = do {
     h1 \<leftarrow> insert_recurse root n h;
     h2 \<leftarrow> insert_repair n h1;
     r \<leftarrow> find_root n h2;
     Some (r, h2) }"

declare insert_recurse.simps [code] insert_repair.simps [code] find_root.simps [code]

lemma field_simps_rb [simp]:
  "color (set_color a c h b) = (if b = a then c else color (h b))" "color (set_parent a p h b) = color (h b)"
  "color (set_left a p h b) = color (h b)" "color (set_right a p h b) = color (h b)"
  "key (set_color a c h b) = key (h b)" "key (set_parent a p h b) = key (h b)"
  "key (set_left a p h b) = key (h b)" "key (set_right a p h b) = key (h b)"
  "parent (set_color a c h b) = parent (h b)" "parent (set_parent a p h b) = (if b = a then p else parent (h b))"
  "parent (set_left a p h b) = parent (h b)" "parent (set_right a p h b) = parent (h b)"
  "left (set_color a c h b) = left (h b)" "left (set_parent a p h b) = left (h b)"
  "left (set_left a p h b) = (if b = a then p else left (h b))" "left (set_right a p h b) = left (h b)"
  "right (set_color a c h b) = right (h b)" "right (set_parent a p h b) = right (h b)"
  "right (set_left a p h b) = right (h b)" "right (set_right a p h b) = (if b = a then p else right (h b))"
  by (simp_all add: set_color_def set_parent_def set_left_def set_right_def)

subsection \<open>Trees and paths in the heap\<close>

datatype rbt = Lf | Nd rbt nat u8 u32 rbt

datatype rb_step = Lft nat u8 u32 rbt | Rgt rbt nat u8 u32

fun addrs :: "rbt \<Rightarrow> nat list" where
  "addrs Lf = []"
| "addrs (Nd l a c k r) = addrs l @ a # addrs r"

fun path_addrs :: "rb_step list \<Rightarrow> nat list" where
  "path_addrs [] = []"
| "path_addrs (Lft a c k r # ps) = a # addrs r @ path_addrs ps"
| "path_addrs (Rgt l a c k # ps) = a # addrs l @ path_addrs ps"

fun up :: "rb_step list \<Rightarrow> nat option" where
  "up [] = None"
| "up (Lft a c k r # ps) = Some a"
| "up (Rgt l a c k # ps) = Some a"

fun plug :: "rbt \<Rightarrow> rb_step list \<Rightarrow> rbt" where
  "plug t [] = t"
| "plug t (Lft a c k r # ps) = plug (Nd t a c k r) ps"
| "plug t (Rgt l a c k # ps) = plug (Nd l a c k t) ps"

fun tree_at :: "rb_heap \<Rightarrow> nat option \<Rightarrow> nat option \<Rightarrow> rbt \<Rightarrow> bool" where
  "tree_at h q x Lf \<longleftrightarrow> x = None"
| "tree_at h q x (Nd l a c k r) \<longleftrightarrow> x = Some a \<and> color (h a) = c \<and> key (h a) = k \<and> parent (h a) = q \<and>
     tree_at h (Some a) (left (h a)) l \<and> tree_at h (Some a) (right (h a)) r"

fun path_at :: "rb_heap \<Rightarrow> nat option \<Rightarrow> rb_step list \<Rightarrow> bool" where
  "path_at h x [] \<longleftrightarrow> True"
| "path_at h x (Lft a c k r # ps) \<longleftrightarrow> left (h a) = x \<and> color (h a) = c \<and> key (h a) = k \<and> parent (h a) = up ps \<and>
     tree_at h (Some a) (right (h a)) r \<and> path_at h (Some a) ps"
| "path_at h x (Rgt l a c k # ps) \<longleftrightarrow> right (h a) = x \<and> color (h a) = c \<and> key (h a) = k \<and> parent (h a) = up ps \<and>
     tree_at h (Some a) (left (h a)) l \<and> path_at h (Some a) ps"

text \<open>The heap holds the tree \<open>t\<close>, rooted at \<open>x\<close>, in the middle of a tree whose rest is the path \<open>ps\<close>.\<close>

definition focus :: "rb_heap \<Rightarrow> nat option \<Rightarrow> rbt \<Rightarrow> rb_step list \<Rightarrow> bool" where
  "focus h x t ps \<longleftrightarrow> tree_at h (up ps) x t \<and> path_at h x ps \<and> distinct (addrs t @ path_addrs ps)"

lemma focus_Lft: "focus h x t (Lft a c k r # ps) \<longleftrightarrow> left (h a) = x \<and> focus h (Some a) (Nd t a c k r) ps"
  by (auto simp: focus_def)

lemma focus_Rgt: "focus h x t (Rgt l a c k # ps) \<longleftrightarrow> right (h a) = x \<and> focus h (Some a) (Nd l a c k t) ps"
  by (auto simp: focus_def)

lemma focus_plug: "focus h x t ps \<Longrightarrow> \<exists>y. focus h y (plug t ps) []"
  by (induction t ps arbitrary: x rule: plug.induct) (auto simp: focus_Lft focus_Rgt)

text \<open>Assignments elsewhere do not matter.\<close>

lemma tree_at_upd [simp]: "a \<notin> set (addrs t) \<Longrightarrow> tree_at (h(a := v)) q x t = tree_at h q x t"
  by (induction t arbitrary: q x) auto

lemma path_at_upd [simp]: "a \<notin> set (path_addrs ps) \<Longrightarrow> path_at (h(a := v)) x ps = path_at h x ps"
  by (induction ps arbitrary: x rule: path_addrs.induct) auto

lemma tree_at_set [simp]:
  assumes "a \<notin> set (addrs t)"
  shows "tree_at (set_color a c h) q x t = tree_at h q x t" "tree_at (set_parent a p h) q x t = tree_at h q x t"
    "tree_at (set_left a p h) q x t = tree_at h q x t" "tree_at (set_right a p h) q x t = tree_at h q x t"
  using assms by (simp_all add: set_color_def set_parent_def set_left_def set_right_def)

lemma path_at_set [simp]:
  assumes "a \<notin> set (path_addrs ps)"
  shows "path_at (set_color a c h) x ps = path_at h x ps" "path_at (set_parent a p h) x ps = path_at h x ps"
    "path_at (set_left a p h) x ps = path_at h x ps" "path_at (set_right a p h) x ps = path_at h x ps"
  using assms by (simp_all add: set_color_def set_parent_def set_left_def set_right_def)

lemma tree_at_reparent:
  "tree_at h q (Some b) t \<Longrightarrow> distinct (addrs t) \<Longrightarrow> tree_at (set_parent b p h) p (Some b) t"
  by (cases t) auto

lemma tree_at_root: "tree_at h q (Some b) t \<Longrightarrow> b \<in> set (addrs t)"
  by (cases t) auto

lemma up_in: "up ps = Some a \<Longrightarrow> a \<in> set (path_addrs ps)"
  by (cases ps rule: up.cases) auto

subsection \<open>Rotations\<close>

lemma rotate_right_focus:
  assumes "focus h (Some n) (Nd (Nd A m c2 k2 B) n c k C) ps"
  shows "\<exists>h'. rotate_right n h = Some h' \<and> focus h' (Some m) (Nd A m c2 k2 (Nd B n c k C)) ps"
  using assms
  by (cases B; cases ps rule: up.cases)
    (auto simp: focus_def rotate_right_def get_parent_def Let_def dest: tree_at_root)

text \<open>A left rotation is right as long as the rotated tree is not a right child.\<close>

fun goes_right :: "rb_step list \<Rightarrow> bool" where
  "goes_right (Rgt l a c k # ps) = True"
| "goes_right ps = False"

lemma rotate_left_focus:
  assumes "focus h (Some n) (Nd A n c k (Nd B m c2 k2 C)) ps" "\<not> goes_right ps"
  shows "\<exists>h'. rotate_left n h = Some h' \<and> focus h' (Some m) (Nd (Nd A n c k B) m c2 k2 C) ps"
  using assms
  by (cases B; cases ps rule: up.cases)
    (auto simp: focus_def rotate_left_def get_parent_def Let_def dest: tree_at_root)

subsection \<open>The repair as a function on trees\<close>

fun red :: "rbt \<Rightarrow> bool" where
  "red Lf = False"
| "red (Nd l a c k r) = (c = RED)"

fun paint :: "u8 \<Rightarrow> rbt \<Rightarrow> rbt" where
  "paint c Lf = Lf"
| "paint c (Nd l a c' k r) = Nd l a c k r"

fun step_color :: "rb_step \<Rightarrow> u8" where
  "step_color (Lft a c k r) = c"
| "step_color (Rgt l a c k) = c"

fun sibling :: "rb_step \<Rightarrow> rbt" where
  "sibling (Lft a c k r) = r"
| "sibling (Rgt l a c k) = l"

text \<open>The tree below the grandparent: recoloured, or rotated.\<close>

fun recolored :: "rbt \<Rightarrow> rb_step \<Rightarrow> rb_step \<Rightarrow> rbt" where
  "recolored t (Lft a c k r) (Lft a' c' k' r') = Nd (Nd t a BLACK k r) a' RED k' (paint BLACK r')"
| "recolored t (Rgt l a c k) (Lft a' c' k' r') = Nd (Nd l a BLACK k t) a' RED k' (paint BLACK r')"
| "recolored t (Lft a c k r) (Rgt l' a' c' k') = Nd (paint BLACK l') a' RED k' (Nd t a BLACK k r)"
| "recolored t (Rgt l a c k) (Rgt l' a' c' k') = Nd (paint BLACK l') a' RED k' (Nd l a BLACK k t)"

fun rotated :: "rbt \<Rightarrow> rb_step \<Rightarrow> rb_step \<Rightarrow> rbt" where
  "rotated t (Lft a c k r) (Lft a' c' k' r') = Nd t a BLACK k (Nd r a' RED k' r')"
| "rotated (Nd A n cn kn B) (Rgt l a c k) (Lft a' c' k' r') = Nd (Nd l a c k A) n BLACK kn (Nd B a' RED k' r')"
| "rotated (Nd A n cn kn B) (Lft a c k r) (Rgt l' a' c' k') = Nd (Nd l' a' RED k' A) n BLACK kn (Nd B a c k r)"
| "rotated t (Rgt l a c k) (Rgt l' a' c' k') = Nd (Nd l' a' RED k' l) a BLACK k t"
| "rotated Lf s s' = Lf"

fun repair :: "rbt \<Rightarrow> rb_step list \<Rightarrow> rbt" where
  "repair t [] = paint BLACK t"
| "repair t [p] = plug t [p]"
| "repair t (p # g # ps) =
     (if step_color p = BLACK then plug t (p # g # ps)
      else if red (sibling g) then repair (recolored t p g) ps
      else plug (rotated t p g) ps)"

text \<open>The repair ends with a left rotation of a right child.\<close>

fun misrotates :: "rb_step list \<Rightarrow> bool" where
  "misrotates (p # g # ps) \<longleftrightarrow> step_color p \<noteq> BLACK \<and>
     (if red (sibling g) then misrotates ps else goes_right [g] \<and> goes_right ps)"
| "misrotates ps \<longleftrightarrow> False"

fun ptr :: "rbt \<Rightarrow> nat option" where
  "ptr Lf = None"
| "ptr (Nd l a c k r) = Some a"

fun step_addr :: "rb_step \<Rightarrow> nat" where
  "step_addr (Lft a c k r) = a"
| "step_addr (Rgt l a c k) = a"

lemma tree_at_ptr: "tree_at h q x t \<Longrightarrow> x = ptr t"
  by (cases t) auto

lemma ptr_in: "ptr t = Some a \<Longrightarrow> a \<in> set (addrs t)"
  by (cases t) auto

lemma up_Cons: "up (s # ps) = Some (step_addr s)"
  by (cases s) auto

lemma addrs_paint [simp]: "addrs (paint c t) = addrs t"
  by (cases t) auto

lemma paint_at:
  assumes "tree_at h q (Some u) t" "distinct (addrs t)"
  shows "tree_at (set_color u c h) q (Some u) (paint c t)"
  using assms by (cases t) auto

lemma focus_parent:
  assumes "focus h (Some n) t (p # ps)"
  shows "get_parent (Some n) h = Some (step_addr p)" "get_grandparent (Some n) h = up ps" "color (h (step_addr p)) = step_color p"
  using assms by (cases t; cases p; simp add: focus_def get_parent_def get_grandparent_def)+

lemma focus_uncle:
  assumes "focus h (Some n) t (p # g # ps)"
  shows "get_uncle (Some n) h = ptr (sibling g)"
  using assms
  by (cases t; cases p; cases g)
    (auto simp: focus_def get_parent_def get_uncle_def get_sibling_def dest: tree_at_root tree_at_ptr)

lemma focus_uncle_color:
  assumes "focus h (Some n) t (p # g # ps)" "ptr (sibling g) = Some u"
  shows "color (h u) = RED \<longleftrightarrow> red (sibling g)"
  using assms by (cases g; cases "sibling g"; cases p) (auto simp: focus_def)

text \<open>The branch for a red uncle.\<close>

lemma recolor_focus:
  assumes "focus h (Some n) t (p # g # ps)" "ptr (sibling g) = Some u"
  shows "focus (set_color (step_addr g) RED (set_color u BLACK (set_color (step_addr p) BLACK h))) (Some (step_addr g)) (recolored t p g) ps"
  using assms ptr_in [OF assms(2)]
  by (cases p; cases g; cases "sibling g") (auto simp: focus_def)

text \<open>The branch for a black uncle: the outer rotation, then the zig-zag.\<close>

lemma tree_at_not: "tree_at h q x t \<Longrightarrow> a \<notin> set (addrs t) \<Longrightarrow> x \<noteq> Some a"
  using tree_at_root by blast

lemma colors_right:
  "focus h x (Nd t a c k (Nd r b c' k' s)) ps \<Longrightarrow>
   focus (set_color b RED (set_color a BLACK h)) x (Nd t a BLACK k (Nd r b RED k' s)) ps"
  by (auto simp: focus_def)

lemma colors_left:
  "focus h x (Nd (Nd r b c' k' s) a c k t) ps \<Longrightarrow>
   focus (set_color b RED (set_color a BLACK h)) x (Nd (Nd r b RED k' s) a BLACK k t) ps"
  by (auto simp: focus_def)

lemma outer_right:
  assumes f: "focus h (Some b) (Nd (Nd t a c k r) b c' k' s) ps" and n: "ptr t = Some n"
  shows "\<exists>h'. repair_outer n h = Some h' \<and> focus h' (Some a) (Nd t a BLACK k (Nd r b RED k' s)) ps"
proof -
  obtain h1 where "rotate_right b h = Some h1" "focus h1 (Some a) (Nd t a c k (Nd r b c' k' s)) ps"
    using rotate_right_focus [OF f] by blast
  moreover have "parent (h n) = Some a" "parent (h a) = Some b" "left (h a) = Some n"
    using f n by (cases t; simp add: focus_def)+
  ultimately show ?thesis using colors_right
    by (simp add: repair_outer_def get_parent_def get_grandparent_def)
qed

lemma outer_left:
  assumes f: "focus h (Some b) (Nd s b c' k' (Nd l a c k t)) ps" and n: "ptr t = Some n" and r: "\<not> goes_right ps"
  shows "\<exists>h'. repair_outer n h = Some h' \<and> focus h' (Some a) (Nd (Nd s b RED k' l) a BLACK k t) ps"
proof -
  obtain h1 where "rotate_left b h = Some h1" "focus h1 (Some a) (Nd (Nd s b c' k' l) a c k t) ps"
    using rotate_left_focus [OF f r] by blast
  moreover have "parent (h n) = Some a" "parent (h a) = Some b" "right (h a) = Some n"
    using f n by (cases t; simp add: focus_def)+
  moreover have "left (h a) \<noteq> Some n"
    using f ptr_in [OF n] by (intro tree_at_not [of h "Some a" _ l]) (auto simp: focus_def)
  ultimately show ?thesis using colors_left
    by (simp add: repair_outer_def get_parent_def get_grandparent_def)
qed

lemma inner_same:
  assumes "focus h (Some n) t (p # g # ps)" "goes_right [p] = goes_right [g]"
  shows "repair_inner n (step_addr p) (step_addr g) h = Some (n, h)"
  using assms
  by (cases t; cases p; cases g) (auto simp: focus_def repair_inner_def dest: tree_at_root)

lemma inner_left_right:
  assumes "focus h (Some n) (Nd A n cn kn B) (Rgt l a c k # Lft b c' k' r # ps)"
  shows "\<exists>h'. repair_inner n a b h = Some (a, h') \<and> focus h' (Some b) (Nd (Nd (Nd l a c k A) n cn kn B) b c' k' r) ps"
proof -
  have f: "focus h (Some a) (Nd l a c k (Nd A n cn kn B)) (Lft b c' k' r # ps)" and e: "right (h a) = Some n"
    using assms unfolding focus_Rgt by simp_all
  obtain h1 where h1: "rotate_left a h = Some h1" "focus h1 (Some n) (Nd (Nd l a c k A) n cn kn B) (Lft b c' k' r # ps)"
    using rotate_left_focus [OF f] by auto
  moreover have "left (h1 n) = Some a" using h1(2) by (simp add: focus_def)
  moreover have "left (h b) = Some a" using f by (simp add: focus_Lft)
  ultimately show ?thesis using e by (simp add: repair_inner_def focus_Lft)
qed

lemma inner_right_left:
  assumes "focus h (Some n) (Nd A n cn kn B) (Lft a c k r # Rgt l b c' k' # ps)"
  shows "\<exists>h'. repair_inner n a b h = Some (a, h') \<and> focus h' (Some b) (Nd l b c' k' (Nd A n cn kn (Nd B a c k r))) ps"
proof -
  have f: "focus h (Some a) (Nd (Nd A n cn kn B) a c k r) (Rgt l b c' k' # ps)" and e: "left (h a) = Some n"
    using assms unfolding focus_Lft by simp_all
  obtain h1 where h1: "rotate_right a h = Some h1" "focus h1 (Some n) (Nd A n cn kn (Nd B a c k r)) (Rgt l b c' k' # ps)"
    using rotate_right_focus [OF f] by auto
  moreover have "right (h1 n) = Some a" using h1(2) by (simp add: focus_def)
  moreover have "right (h b) = Some a" using f by (simp add: focus_Rgt)
  moreover have "left (h b) \<noteq> Some a" using f by (intro tree_at_not [of h "Some b" _ l]) (auto simp: focus_def)
  ultimately show ?thesis using e by (simp add: repair_inner_def focus_Rgt)
qed

lemma rotate_repair:
  assumes f: "focus h (Some n) t (p # g # ps)" and r: "\<not> (goes_right [g] \<and> goes_right ps)"
  shows "\<exists>h' x. Option.bind (repair_inner n (step_addr p) (step_addr g) h) (\<lambda>(n1, h1). repair_outer n1 h1) = Some h' \<and>
    focus h' x (rotated t p g) ps"
proof -
  obtain A cn kn B where t: "t = Nd A n cn kn B" using f by (cases t) (auto simp: focus_def)
  have n: "ptr t = Some n" by (simp add: t)
  consider a c k s b c' k' s' where "p = Lft a c k s" "g = Lft b c' k' s'"
    | a c k s b c' k' s' where "p = Rgt s a c k" "g = Lft b c' k' s'"
    | a c k s b c' k' s' where "p = Lft a c k s" "g = Rgt s' b c' k'"
    | a c k s b c' k' s' where "p = Rgt s a c k" "g = Rgt s' b c' k'"
    by (cases p; cases g) auto
  then show ?thesis
  proof cases
    case 1
    then have "focus h (Some b) (Nd (Nd t a c k s) b c' k' s') ps" using f by (simp add: focus_Lft)
    then show ?thesis using outer_right [OF _ n] inner_same [OF f] 1 by fastforce
  next
    case 2
    then obtain h1 where "repair_inner n a b h = Some (a, h1)" "focus h1 (Some b) (Nd (Nd (Nd s a c k A) n cn kn B) b c' k' s') ps"
      using inner_left_right f t by blast
    then show ?thesis using outer_right [of h1 b "Nd s a c k A" n cn kn B c' k' s' ps a] 2 t by auto
  next
    case 3
    then obtain h1 where "repair_inner n a b h = Some (a, h1)" "focus h1 (Some b) (Nd s' b c' k' (Nd A n cn kn (Nd B a c k s))) ps"
      using inner_right_left f t by blast
    then show ?thesis using outer_left [of h1 b s' c' k' A n cn kn "Nd B a c k s" ps a] 3 t r by auto
  next
    case 4
    then have "focus h (Some b) (Nd s' b c' k' (Nd s a c k t)) ps" using f by (simp add: focus_Rgt)
    then show ?thesis using outer_left [OF _ n] inner_same [OF f] 4 r by (fastforce simp: t)
  qed
qed

subsection \<open>The repair refines its specification\<close>

text \<open>Below a red step there is another one: the root of a tree is black.\<close>

fun top_black :: "rb_step list \<Rightarrow> bool" where
  "top_black [] = True"
| "top_black [s] = (step_color s = BLACK)"
| "top_black (s # s' # ps) = top_black (s' # ps)"

lemma top_black_tl: "top_black (p # g # ps) \<Longrightarrow> top_black ps"
  by (cases ps) auto

lemma insert_repair_focus:
  "focus h (Some n) t ps \<Longrightarrow> top_black ps \<Longrightarrow> \<not> misrotates ps \<Longrightarrow>
   \<exists>h' x. insert_repair n h = Some h' \<and> focus h' x (repair t ps) []"
proof (induction t ps arbitrary: h n rule: repair.induct)
  case (1 t)
  then have "insert_repair n h = Some (set_color n BLACK h)" "focus (set_color n BLACK h) (Some n) (paint BLACK t) []"
    using paint_at [of h None n t BLACK]
    by (cases t; subst insert_repair.simps; simp add: get_parent_def focus_def)
      (use 1 paint_at [of h None n t BLACK] in \<open>simp add: focus_def\<close>)
  then show ?case by auto
next
  case (2 t p)
  then have "insert_repair n h = Some h"
    by (subst insert_repair.simps) (simp add: focus_parent [OF 2(1)])
  then show ?case using focus_plug [OF 2(1)] by auto
next
  case (3 t p g ps)
  note f = 3(2)
  note rel = focus_parent [OF f] focus_uncle [OF f]
  show ?case
  proof (cases "step_color p = BLACK")
    case True
    then have "insert_repair n h = Some h" by (subst insert_repair.simps) (simp add: rel)
    then show ?thesis using focus_plug [OF f] True by auto
  next
    case black: False
    show ?thesis
    proof (cases "red (sibling g)")
      case True
      then obtain u where u: "ptr (sibling g) = Some u" by (cases "sibling g") auto
      have "insert_repair n h = insert_repair (step_addr g)
          (set_color (step_addr g) RED (set_color u BLACK (set_color (step_addr p) BLACK h)))"
        using black True u focus_uncle_color [OF f u] by (subst insert_repair.simps) (simp add: rel up_Cons)
      moreover have "top_black ps" "\<not> misrotates ps" using 3(3,4) black True top_black_tl by auto
      ultimately show ?thesis using 3(1) [OF black True recolor_focus [OF f u]] black True by auto
    next
      case False
      have "insert_repair n h = Option.bind (repair_inner n (step_addr p) (step_addr g) h) (\<lambda>(n1, h1). repair_outer n1 h1)"
        using black False focus_uncle_color [OF f]
        by (subst insert_repair.simps) (auto simp: rel up_Cons split: option.split)
      moreover obtain h' x where "Option.bind (repair_inner n (step_addr p) (step_addr g) h) (\<lambda>(n1, h1). repair_outer n1 h1) = Some h'"
        "focus h' x (rotated t p g) ps"
        using rotate_repair [OF f] 3(4) black False by auto
      ultimately show ?thesis using focus_plug black False by fastforce
    qed
  qed
qed

subsection \<open>The search for the place of a node, and for the root\<close>

fun locate :: "u32 \<Rightarrow> rbt \<Rightarrow> rb_step list \<Rightarrow> rb_step list" where
  "locate x Lf ps = ps"
| "locate x (Nd l a c k r) ps = (if k > x then locate x l (Lft a c k r # ps) else locate x r (Rgt l a c k # ps))"

lemma attach_focus:
  assumes "path_at h (Some n) ps" "distinct (path_addrs ps)" "n \<notin> set (path_addrs ps)"
  shows "focus (attach (up ps) n h) (Some n) (Nd Lf n RED (key (h n)) Lf) ps"
  using assms by (simp add: focus_def attach_def)

lemma path_left:
  assumes "focus h (Some a) (Nd Lf a c k r) ps" "n \<notin> set (addrs (Nd Lf a c k r) @ path_addrs ps)"
  shows "path_at (set_left a (Some n) h) (Some n) (Lft a c k r # ps)"
  using assms by (auto simp: focus_def)

lemma path_right:
  assumes "focus h (Some a) (Nd l a c k Lf) ps" "n \<notin> set (addrs (Nd l a c k Lf) @ path_addrs ps)"
  shows "path_at (set_right a (Some n) h) (Some n) (Rgt l a c k # ps)"
  using assms by (auto simp: focus_def)

lemma insert_recurse_focus:
  "focus h x t ps \<Longrightarrow> t = Lf \<longrightarrow> ps = [] \<Longrightarrow> n \<notin> set (addrs t @ path_addrs ps) \<Longrightarrow>
   \<exists>h'. insert_recurse x n h = Some h' \<and> focus h' (Some n) (Nd Lf n RED (key (h n)) Lf) (locate (key (h n)) t ps)"
proof (induction "key (h n)" t ps arbitrary: x rule: locate.induct)
  case (1 ps)
  then show ?case using attach_focus [of h n "[]"] by (subst insert_recurse.simps) (simp add: focus_def)
next
  case (2 l a c k r ps)
  have x: "x = Some a" and k: "key (h a) = k" using 2(3) by (simp_all add: focus_def)
  have f: "focus h (Some a) (Nd l a c k r) ps" using 2(3) x by simp
  show ?case
  proof (cases "k > key (h n)")
    case True
    show ?thesis
    proof (cases l)
      case Lf
      then have "insert_recurse x n h = Some (attach (Some a) n (set_left a (Some n) h))"
        using f True k x by (subst insert_recurse.simps) (simp add: focus_def)
      moreover have "focus (attach (up (Lft a c k r # ps)) n (set_left a (Some n) h)) (Some n) (Nd Lf n RED (key (h n)) Lf) (Lft a c k r # ps)"
        using attach_focus [OF path_left] f 2(5) Lf by (fastforce simp: focus_def)
      ultimately show ?thesis using True Lf by simp
    next
      case (Nd l1 b c1 k1 r1)
      then have "insert_recurse x n h = insert_recurse (left (h a)) n h"
        using f True k x by (subst insert_recurse.simps) (auto simp: focus_def)
      moreover have "focus h (left (h a)) l (Lft a c k r # ps)" using f by (simp add: focus_Lft)
      ultimately show ?thesis using 2(1) [OF True, of "left (h a)"] 2(5) True Nd by auto
    qed
  next
    case False
    show ?thesis
    proof (cases r)
      case Lf
      then have "insert_recurse x n h = Some (attach (Some a) n (set_right a (Some n) h))"
        using f False k x by (subst insert_recurse.simps) (simp add: focus_def)
      moreover have "focus (attach (up (Rgt l a c k # ps)) n (set_right a (Some n) h)) (Some n) (Nd Lf n RED (key (h n)) Lf) (Rgt l a c k # ps)"
        using attach_focus [OF path_right] f 2(5) Lf by (fastforce simp: focus_def)
      ultimately show ?thesis using False Lf by simp
    next
      case (Nd l1 b c1 k1 r1)
      then have "insert_recurse x n h = insert_recurse (right (h a)) n h"
        using f False k x by (subst insert_recurse.simps) (auto simp: focus_def)
      moreover have "focus h (right (h a)) r (Rgt l a c k # ps)" using f by (simp add: focus_Rgt)
      ultimately show ?thesis using 2(2) [OF False, of "right (h a)"] 2(5) False Nd by auto
    qed
  qed
qed

lemma find_root_focus: "focus h (Some n) t ps \<Longrightarrow> \<exists>r. find_root n h = Some r \<and> focus h (Some r) (plug t ps) []"
proof (induction t ps arbitrary: n rule: plug.induct)
  case (1 t)
  then have "parent (h n) = None" by (cases t) (auto simp: focus_def)
  then show ?case using 1 by (subst find_root.simps) (simp add: get_parent_def)
next
  case (2 t a c k r ps)
  then have "find_root n h = find_root a h"
    by (subst find_root.simps) (simp add: focus_parent [OF 2(2)])
  then show ?case using 2 by (simp add: focus_Lft)
next
  case (3 t l a c k ps)
  then have "find_root n h = find_root a h"
    by (subst find_root.simps) (simp add: focus_parent [OF 3(2)])
  then show ?case using 3 by (simp add: focus_Rgt)
qed

text \<open>Every node of a tree is the root of a subtree with a path.\<close>

lemma focus_at:
  "focus h x t ps \<Longrightarrow> n \<in> set (addrs t) \<Longrightarrow> \<exists>s qs. focus h (Some n) s qs \<and> plug s qs = plug t ps"
proof (induction t arbitrary: x ps)
  case (Nd l a c k r)
  have x: "x = Some a" using Nd.prems(1) by (simp add: focus_def)
  consider "n = a" | "n \<in> set (addrs l)" | "n \<in> set (addrs r)" using Nd.prems(2) by auto
  then show ?case
  proof cases
    case 1
    then show ?thesis using Nd.prems(1) x by blast
  next
    case 2
    then show ?thesis using Nd.IH(1) [of "left (h a)" "Lft a c k r # ps"] Nd.prems(1) x by (auto simp: focus_Lft)
  next
    case 3
    then show ?thesis using Nd.IH(2) [of "right (h a)" "Rgt l a c k # ps"] Nd.prems(1) x by (auto simp: focus_Rgt)
  qed
qed simp

subsection \<open>Order\<close>

fun inorder :: "rbt \<Rightarrow> (nat \<times> u32) list" where
  "inorder Lf = []"
| "inorder (Nd l a c k r) = inorder l @ (a, k) # inorder r"

fun before :: "rb_step list \<Rightarrow> (nat \<times> u32) list" where
  "before [] = []"
| "before (Lft a c k r # ps) = before ps"
| "before (Rgt l a c k # ps) = before ps @ inorder l @ [(a, k)]"

fun after :: "rb_step list \<Rightarrow> (nat \<times> u32) list" where
  "after [] = []"
| "after (Lft a c k r # ps) = (a, k) # inorder r @ after ps"
| "after (Rgt l a c k # ps) = after ps"

lemma addrs_inorder: "addrs t = map fst (inorder t)"
  by (induction t) auto

lemma inorder_plug: "inorder (plug t ps) = before ps @ inorder t @ after ps"
  by (induction t ps rule: plug.induct) auto

lemma inorder_paint [simp]: "inorder (paint c t) = inorder t"
  by (cases t) auto

lemma inorder_recolored: "inorder (recolored t p g) = before [p, g] @ inorder t @ after [p, g]"
  by (cases p; cases g) auto

lemma before_after_2: "before (p # g # ps) = before ps @ before [p, g]" "after (p # g # ps) = after [p, g] @ after ps"
  by (cases p; cases g; simp)+

lemma inorder_rotated: "t \<noteq> Lf \<Longrightarrow> inorder (rotated t p g) = before [p, g] @ inorder t @ after [p, g]"
  by (cases t; cases p; cases g) auto

lemma inorder_repair: "t \<noteq> Lf \<Longrightarrow> inorder (repair t ps) = before ps @ inorder t @ after ps"
proof (induction t ps rule: repair.induct)
  case (3 t p g ps)
  have "recolored t p g \<noteq> Lf" by (cases p; cases g) auto
  then show ?case
    using 3 by (simp add: inorder_plug inorder_recolored inorder_rotated before_after_2 [of p g ps])
qed (simp_all add: inorder_plug)

text \<open>In a search tree the path found by \<open>locate\<close> separates the keys: those not above the new key come before it.\<close>

lemma locate_splits:
  assumes "sorted (map snd (inorder t))"
  shows "before (locate x t ps) = before ps @ filter (\<lambda>e. snd e \<le> x) (inorder t) \<and>
    after (locate x t ps) = filter (\<lambda>e. \<not> snd e \<le> x) (inorder t) @ after ps"
  using assms
proof (induction x t ps rule: locate.induct)
  case (2 x l a c k r ps)
  have s: "\<And>e. e \<in> set (inorder l) \<Longrightarrow> snd e \<le> k" "\<And>e. e \<in> set (inorder r) \<Longrightarrow> k \<le> snd e"
    using 2(3) by (auto simp: sorted_append)
  show ?case
  proof (cases "k > x")
    case True
    then have "\<not> snd e \<le> x" if "e \<in> set (inorder r)" for e using s(2) [OF that] by simp
    then have "filter (\<lambda>e. snd e \<le> x) (inorder r) = []" "filter (\<lambda>e. \<not> snd e \<le> x) (inorder r) = inorder r"
      by (simp_all add: filter_empty_conv filter_id_conv)
    then show ?thesis using 2 True by (simp add: sorted_append)
  next
    case False
    then have "snd e \<le> x" if "e \<in> set (inorder l)" for e using s(1) [OF that] by simp
    then have "filter (\<lambda>e. snd e \<le> x) (inorder l) = inorder l" "filter (\<lambda>e. \<not> snd e \<le> x) (inorder l) = []"
      by (simp_all add: filter_empty_conv filter_id_conv)
    then show ?thesis using 2 False by (simp add: sorted_append)
  qed
qed simp

subsection \<open>Balance\<close>

text \<open>The two rules of red-black trees: a red node has no red child, and all ways down pass the same number of black
  nodes. On paths they leave the hole open.\<close>

fun no_red_red :: "rbt \<Rightarrow> bool" where
  "no_red_red Lf = True"
| "no_red_red (Nd l a c k r) \<longleftrightarrow> (c = BLACK \<or> c = RED \<and> \<not> red l \<and> \<not> red r) \<and> no_red_red l \<and> no_red_red r"

fun black_height :: "nat \<Rightarrow> rbt \<Rightarrow> bool" where
  "black_height n Lf \<longleftrightarrow> n = 0"
| "black_height n (Nd l a c k r) \<longleftrightarrow>
     (if c = BLACK then (\<exists>m. n = Suc m \<and> black_height m l \<and> black_height m r) else black_height n l \<and> black_height n r)"

definition red_black :: "rbt \<Rightarrow> bool" where
  "red_black t \<longleftrightarrow> \<not> red t \<and> no_red_red t \<and> (\<exists>n. black_height n t)"

fun path_colors :: "rb_step list \<Rightarrow> bool" where
  "path_colors [] = True"
| "path_colors (s # ps) \<longleftrightarrow> no_red_red (sibling s) \<and> path_colors ps \<and>
     (step_color s = BLACK \<or> step_color s = RED \<and> \<not> red (sibling s) \<and> ps \<noteq> [] \<and> step_color (hd ps) = BLACK)"

fun path_height :: "nat \<Rightarrow> rb_step list \<Rightarrow> bool" where
  "path_height n [] = True"
| "path_height n (s # ps) \<longleftrightarrow> black_height n (sibling s) \<and> path_height (if step_color s = BLACK then Suc n else n) ps"

lemma plug_colors:
  "no_red_red t \<Longrightarrow> path_colors ps \<Longrightarrow> (red t \<longrightarrow> ps \<noteq> [] \<and> step_color (hd ps) = BLACK) \<Longrightarrow>
   no_red_red (plug t ps) \<and> \<not> red (plug t ps)"
  by (induction t ps rule: plug.induct) (auto split: if_splits)

lemma plug_height: "black_height n t \<Longrightarrow> path_height n ps \<Longrightarrow> \<exists>m. black_height m (plug t ps)"
  by (induction t ps arbitrary: n rule: plug.induct) (fastforce split: if_splits)+

lemma black_height_paint: "black_height n t \<Longrightarrow> \<exists>m. black_height m (paint BLACK t)"
  by (cases t) (auto split: if_splits)

lemma black_height_paint_red: "black_height n t \<Longrightarrow> red t \<Longrightarrow> black_height (Suc n) (paint BLACK t)"
  by (cases t) auto

lemma no_red_red_paint: "no_red_red t \<Longrightarrow> no_red_red (paint BLACK t)"
  by (cases t) auto

lemma not_red_paint [simp]: "\<not> red (paint BLACK t)"
  by (cases t) auto

text \<open>Both branches that change the tree keep the heights; the recoloured tree is red on top with black children, the rotated
  one is black.\<close>

lemma recolored_height:
  assumes "black_height n t" "path_height n (p # g # ps)" "step_color p = RED" "step_color g = BLACK" "red (sibling g)"
  shows "black_height (Suc n) (recolored t p g)" "path_height (Suc n) ps"
  using assms black_height_paint_red by (cases p; cases g; simp)+

lemma rotated_height:
  assumes "black_height n t" "path_height n (p # g # ps)" "step_color p = RED" "step_color g = BLACK" "red t"
  shows "black_height (Suc n) (rotated t p g)" "path_height (Suc n) ps"
  using assms by (cases t; cases p; cases g; simp)+

lemma recolored_colors:
  assumes "no_red_red t" "path_colors (p # g # ps)" "step_color p = RED"
  shows "no_red_red (recolored t p g)" "red (recolored t p g)" "path_colors ps"
  using assms no_red_red_paint by (cases p; cases g; simp)+

lemma rotated_colors:
  assumes "no_red_red t" "red t" "path_colors (p # g # ps)" "step_color p = RED" "\<not> red (sibling g)"
  shows "no_red_red (rotated t p g)" "\<not> red (rotated t p g)" "path_colors ps"
  using assms by (cases t; cases p; cases g; simp)+

lemma repair_colors:
  "no_red_red t \<Longrightarrow> red t \<Longrightarrow> path_colors ps \<Longrightarrow> no_red_red (repair t ps) \<and> \<not> red (repair t ps)"
proof (induction t ps rule: repair.induct)
  case (1 t)
  then show ?case by (simp add: no_red_red_paint)
next
  case (2 t p)
  then show ?case using plug_colors [of t "[p]"] by simp
next
  case (3 t p g ps)
  show ?case
  proof (cases "step_color p = BLACK")
    case True
    then show ?thesis using plug_colors [of t "p # g # ps"] 3 by simp
  next
    case False
    then have p: "step_color p = RED" using 3(4) by simp
    show ?thesis
      using 3 p False recolored_colors [OF 3(2,4) p] rotated_colors [OF 3(2,3,4) p] plug_colors [of "rotated t p g" ps]
      by (auto split: if_splits)
  qed
qed

lemma repair_height:
  "black_height n t \<Longrightarrow> red t \<Longrightarrow> path_height n ps \<Longrightarrow> path_colors ps \<Longrightarrow> \<exists>m. black_height m (repair t ps)"
proof (induction t ps arbitrary: n rule: repair.induct)
  case (1 t)
  then show ?case by (simp add: black_height_paint)
next
  case (2 t p)
  then show ?case using plug_height [of n t "[p]"] by simp
next
  case (3 t p g ps)
  show ?case
  proof (cases "step_color p = BLACK")
    case True
    then show ?thesis using plug_height [of n t "p # g # ps"] 3 by simp
  next
    case False
    then have p: "step_color p = RED" "step_color g = BLACK" using 3(5) by simp_all
    show ?thesis
    proof (cases "red (sibling g)")
      case True
      have "red (recolored t p g)" by (cases p; cases g) auto
      then show ?thesis using 3(1) [OF False True recolored_height(1) [OF 3(2,4) p True]] recolored_height(2) [OF 3(2,4) p True] 3(5) False True
        by auto
    next
      case c: False
      then show ?thesis using plug_height [OF rotated_height [OF 3(2,4) p 3(3)]] False by simp
    qed
  qed
qed

lemma locate_colors:
  "no_red_red t \<Longrightarrow> path_colors ps \<Longrightarrow> (red t \<longrightarrow> ps \<noteq> [] \<and> step_color (hd ps) = BLACK) \<Longrightarrow> path_colors (locate x t ps)"
  by (induction x t ps rule: locate.induct) auto

lemma locate_height: "black_height n t \<Longrightarrow> path_height n ps \<Longrightarrow> path_height 0 (locate x t ps)"
  by (induction x t ps arbitrary: n rule: locate.induct) (auto split: if_splits)

lemma path_colors_top: "path_colors ps \<Longrightarrow> top_black ps"
  by (induction ps rule: top_black.induct) auto

subsection \<open>Properties\<close>

text \<open>A node with a smaller key than all others goes down left children only.\<close>

lemma locate_smallest:
  "\<forall>e\<in>set (inorder t). x < snd e \<Longrightarrow> \<forall>s\<in>set ps. \<not> goes_right [s] \<Longrightarrow> \<forall>s\<in>set (locate x t ps). \<not> goes_right [s]"
  by (induction x t ps rule: locate.induct) auto

lemma misrotates_right: "misrotates ps \<Longrightarrow> \<exists>s\<in>set ps. goes_right [s]"
  by (induction ps rule: misrotates.induct) (auto split: if_splits)

text \<open>
  C14: Insertion into the red-black tree. The heap holds a red-black search tree and \<open>n\<close> is a new node. Unless the repair
  ends with a left rotation of a right child, \<open>insert\<close> returns the root of a red-black tree again, which has the old nodes
  in their old order and the new one behind all nodes whose key is not greater.
\<close>

theorem rb_insert_correct:
  assumes f: "focus h root t []" and rb: "red_black t" and s: "sorted (map snd (inorder t))"
    and n: "n \<notin> set (addrs t)" and m: "\<not> misrotates (locate (key (h n)) t [])"
  shows "\<exists>r h' t'. insert_rb root n h = Some (r, h') \<and> focus h' (Some r) t' [] \<and> red_black t' \<and>
    inorder t' = filter (\<lambda>e. snd e \<le> key (h n)) (inorder t) @ (n, key (h n)) # filter (\<lambda>e. \<not> snd e \<le> key (h n)) (inorder t)"
proof -
  let ?x = "key (h n)" let ?ps = "locate ?x t []" and ?t = "Nd Lf n RED ?x Lf"
  obtain h1 where h1: "insert_recurse root n h = Some h1" "focus h1 (Some n) ?t ?ps"
    using insert_recurse_focus [OF f] n by auto
  have pc: "path_colors ?ps" using rb by (intro locate_colors) (simp_all add: red_black_def)
  obtain h2 x where h2: "insert_repair n h1 = Some h2" "focus h2 x (repair ?t ?ps) []"
    using insert_repair_focus [OF h1(2) path_colors_top [OF pc] m] by blast
  have io: "inorder (repair ?t ?ps) = filter (\<lambda>e. snd e \<le> ?x) (inorder t) @ (n, ?x) # filter (\<lambda>e. \<not> snd e \<le> ?x) (inorder t)"
    using locate_splits [OF s, of ?x "[]"] by (simp add: inorder_repair)
  then have "n \<in> set (addrs (repair ?t ?ps))" by (simp add: addrs_inorder)
  then obtain u qs where "focus h2 (Some n) u qs" "plug u qs = repair ?t ?ps" using focus_at [OF h2(2)] plug.simps(1) by metis
  then obtain r where r: "find_root n h2 = Some r" "focus h2 (Some r) (repair ?t ?ps) []" using find_root_focus by fastforce
  obtain k where "black_height k t" using rb by (auto simp: red_black_def)
  then have "\<exists>k. black_height k (repair ?t ?ps)" using repair_height [of 0 ?t ?ps] locate_height [of k t "[]" ?x] pc by simp
  then have "red_black (repair ?t ?ps)" using repair_colors [of ?t ?ps] pc by (simp add: red_black_def)
  moreover have "insert_rb root n h = Some (r, h2)" using h1(1) h2(1) r(1) by (simp add: insert_rb_def)
  ultimately show ?thesis using r(2) io by blast
qed

text \<open>Nodes 1, 2, ... with their addresses as keys, not yet linked.\<close>

definition fresh_nodes :: rb_heap where
  "fresh_nodes = (\<lambda>a. \<lparr>color = RED, key = word_of_nat a, entry = 0, parent = None, left = None, right = None\<rparr>)"

definition insert_all :: "nat list \<Rightarrow> (nat option \<times> rb_heap) option" where
  "insert_all ns = fold_opt (\<lambda>n (root, h). map_option (\<lambda>(r, h'). (Some r, h')) (insert_rb root n h)) ns (None, fresh_nodes)"

theorem rb_insert_correct_witness:
  "\<exists>r h' t'. insert_rb (Some 5) 3 (set_color 5 BLACK fresh_nodes) = Some (r, h') \<and> focus h' (Some r) t' [] \<and> red_black t' \<and>
     inorder t' = [(3, 3), (5, 5)]"
proof -
  let ?h = "set_color 5 BLACK fresh_nodes" and ?t = "Nd Lf 5 BLACK 5 Lf"
  have "focus ?h (Some 5) ?t []" by (simp add: focus_def fresh_nodes_def)
  moreover have "red_black ?t" by (simp add: red_black_def)
  moreover have "key (?h 3) = 3" by (simp add: fresh_nodes_def)
  ultimately show ?thesis using rb_insert_correct [of ?h "Some 5" ?t 3] by simp
qed


end
