(* ===== verification/Createimage.thy ===== *)
theory Createimage
  imports Bytes Kstring
begin

text \<open>
  \<^verbatim>\<open>tools/createimage.c\<close>, the host tool that builds the boot image from the ELF files of the boot block and the kernel. A
  stream is the contents of a file and a position. What the tool reads from memory that it did not initialise or that it
  has freed are arguments: \<open>junk\<close>, the bytes of a block from \<open>malloc\<close>, and \<open>freed\<close>, the value read from the program
  header of the kernel after \<open>free\<close>. An access outside of a buffer has no defined outcome (\<open>None\<close>). Numbers on the host are
  little endian, \<open>int\<close> has 32 bits and \<open>size_t\<close> 64.
\<close>

subsection \<open>Streams\<close>

record stream =
  contents :: "u8 list"
  pos :: nat

definition fopen_r :: "u8 list \<Rightarrow> stream" where
  "fopen_r xs = \<lparr>contents = xs, pos = 0\<rparr>"

definition fread_bytes :: "nat \<Rightarrow> stream \<Rightarrow> u8 list \<times> stream" where
  "fread_bytes n s = (let got = take n (drop (pos s) (contents s)) in (got, s\<lparr>pos := pos s + length got\<rparr>))"

text \<open>A count that was negative before its conversion to \<open>size_t\<close> reads up to the end of the file.\<close>

definition fread_int :: "int \<Rightarrow> stream \<Rightarrow> u8 list \<times> stream" where
  "fread_int n s = fread_bytes (if n < 0 then length (contents s) else nat n) s"

definition fwrite_bytes :: "u8 list \<Rightarrow> stream \<Rightarrow> stream" where
  "fwrite_bytes xs s = s\<lparr>contents := take (pos s) (contents s) @ replicate (pos s - length (contents s)) 0 @ xs @
     drop (pos s + length xs) (contents s), pos := pos s + length xs\<rparr>"

definition fseek_set :: "nat \<Rightarrow> stream \<Rightarrow> stream" where
  "fseek_set p s = s\<lparr>pos := p\<rparr>"

definition fseek_back :: "nat \<Rightarrow> stream \<Rightarrow> stream" where
  "fseek_back n s = s\<lparr>pos := pos s - n\<rparr>"

subsection \<open>The headers of an ELF file\<close>

record phdr =
  p_type :: u32
  p_offset :: u32
  p_vaddr :: u32
  p_paddr :: u32
  p_filesz :: u32
  p_memsz :: u32
  p_flags :: u32
  p_align :: u32

abbreviation "PT_LOAD \<equiv> (1 :: u32)"

definition phdr_of :: "buffer \<Rightarrow> nat \<Rightarrow> phdr" where
  "phdr_of b i = \<lparr>p_type = rd32 b i, p_offset = rd32 b (i + 4), p_vaddr = rd32 b (i + 8), p_paddr = rd32 b (i + 12),
     p_filesz = rd32 b (i + 16), p_memsz = rd32 b (i + 20), p_flags = rd32 b (i + 24), p_align = rd32 b (i + 28)\<rparr>"

definition half :: "buffer \<Rightarrow> nat \<Rightarrow> nat" where
  "half b i = unat (b i) + 256 * unat (b (i + 1))"

definition e_phentsize :: "buffer \<Rightarrow> nat" where "e_phentsize b = half b 42"
definition e_phnum :: "buffer \<Rightarrow> nat" where "e_phnum b = half b 44"

subsection \<open>Operations\<close>

text \<open>The loop of \<open>read_exec_file\<close>. The pointer \<open>tmp + i * _ph_sz\<close> counts program headers of 32 bytes, not bytes.\<close>

fun find_load :: "u8 list \<Rightarrow> nat \<Rightarrow> nat list \<Rightarrow> phdr option" where
  "find_load buff2 ph_sz [] = None"
| "find_load buff2 ph_sz (i # is) =
     (let off = i * ph_sz * 32; tmp = phdr_of (buf_of buff2) off
      in if length buff2 < off + 4 then None
         else if p_type tmp = PT_LOAD then (if length buff2 < off + 32 \<or> ph_sz < 32 then None else Some tmp)
         else find_load buff2 ph_sz is)"

definition read_exec_file :: "stream \<Rightarrow> (phdr \<times> stream) option" where
  "read_exec_file opfile =
     (let (buff, f1) = fread_bytes 52 opfile;
          ph_sz = e_phentsize (buf_of buff); ph_num = e_phnum (buf_of buff); tot = ph_sz * ph_num
      in if length buff < 52 \<or> tot \<ge> 2 ^ 31 then None
         else (let (buff2, f2) = fread_bytes tot f1
           in case find_load buff2 ph_sz [0..<ph_num] of
                None \<Rightarrow> None
              | Some ph \<Rightarrow>
                  let read_sz = sint (p_offset ph) - int (52 + tot); (skipped, f3) = fread_int read_sz f2
                  in if read_sz < - (2 ^ 31) \<or> length skipped > 52 then None else Some (ph, f3)))"

definition count_kernel_sectors :: "phdr \<Rightarrow> u32" where
  "count_kernel_sectors ph = drop_bit 9 (p_memsz ph) + (if p_memsz ph AND 0x1ff \<noteq> 0 then 1 else 0)"

definition write_bootblock :: "stream \<Rightarrow> stream \<Rightarrow> phdr \<Rightarrow> stream option" where
  "write_bootblock img file ph =
     (let (got, f1) = fread_int (sint (p_memsz ph)) (fseek_set (unat (p_offset ph)) file);
          buff = got @ replicate (517 - length got) 0
      in if length got > 517 then None else Some (fwrite_bytes (take 512 buff) (fseek_set 0 img)))"

text \<open>\<open>memset\<close> clears as many bytes as a \<open>size_t\<close> has, not the whole buffer.\<close>

definition write_kernel :: "buffer \<Rightarrow> stream \<Rightarrow> stream \<Rightarrow> phdr \<Rightarrow> u32 \<Rightarrow> stream option" where
  "write_kernel junk img knfile ph kernelsz =
     (let n = unat (count_kernel_sectors ph) * 512;
          (got, f1) = fread_int (sint kernelsz) (fseek_set (unat (p_offset ph)) knfile);
          buff = got @ map (\<lambda>i. if i < 8 then 0 else junk i) [length got..<n]
      in if n \<ge> 2 ^ 31 \<or> n < 8 \<or> length got > n then None else Some (fwrite_bytes buff (fseek_set 512 img)))"

definition bytes_of_int :: "u32 \<Rightarrow> u8 list" where
  "bytes_of_int v = [byte_of 0 v, byte_of 1 v, byte_of 2 v, byte_of 3 v]"

text \<open>The loop of \<open>record_kernel_sectors\<close>: each round rewrites four bytes.\<close>

function record_loop :: "u32 \<Rightarrow> nat \<Rightarrow> stream \<Rightarrow> stream" where
  "record_loop os_sz byte_cnt img =
     (let (buf, s1) = fread_bytes 4 img
      in if length buf = 4
         then (let cnt = byte_cnt + 4; s2 = fseek_back 4 s1
           in record_loop os_sz cnt (fwrite_bytes (if cnt = 512 then bytes_of_int os_sz else buf) s2))
         else s1)"
  by pat_completeness auto
termination
  by (relation "measure (\<lambda>(v, n, s). length (contents s) - pos s)")
    (auto simp: fread_bytes_def fwrite_bytes_def fseek_back_def bytes_of_int_def Let_def)

declare record_loop.simps [simp del]

definition record_kernel_sectors :: "stream \<Rightarrow> u32 \<Rightarrow> stream option" where
  "record_kernel_sectors img kernelsz =
     (let sec_cnt = sint kernelsz div 512 + (if kernelsz AND 0x1ff \<noteq> 0 then 1 else 0); os_sz = sec_cnt * 512
      in if os_sz \<ge> 2 ^ 31 then None else Some (record_loop (word_of_int os_sz) 0 (fseek_set 0 img)))"

text \<open>What \<open>extent_opt\<close> prints: formats and their arguments.\<close>

definition info_line :: "string \<Rightarrow> u32 \<Rightarrow> u8 list \<times> u32 list" where
  "info_line fmt v = (9 # cs fmt @ [10], [v])"

definition extent_opt :: "phdr \<Rightarrow> phdr \<Rightarrow> (u8 list \<times> u32 list) list" where
  "extent_opt bb k =
     [(cs ''bootblock info:'' @ [10], []), info_line ''offset: 0x%x'' (p_offset bb), info_line ''file size: 0x%x'' (p_filesz bb),
      info_line ''memory size: 0x%x'' (p_memsz bb), info_line ''vaddr: 0x%x'' (p_vaddr bb),
      info_line ''padding upto 0x%x'' (p_vaddr bb + 512),
      (cs ''kernel info:'' @ [10], []), info_line ''offset: 0x%x'' (p_offset k), info_line ''file size: 0x%x'' (p_filesz k),
      info_line ''memory size: 0x%x'' (p_memsz k), info_line ''vaddr: 0x%x'' (p_vaddr k),
      info_line ''padding upto 0x%x'' (p_vaddr k + 512 * count_kernel_sectors k)]"

datatype image_error = Bad_parameters bool string | Wrong_files string string

record host =
  files :: "string \<Rightarrow> u8 list option"
  junk :: buffer
  freed :: "phdr \<Rightarrow> u32"

definition create_image :: "host \<Rightarrow> bool \<Rightarrow> string \<Rightarrow> string \<Rightarrow> (image_error + u8 list \<times> (u8 list \<times> u32 list) list) option" where
  "create_image env extended btblk_name kernel_name =
     (case (files env btblk_name, files env kernel_name) of
        (Some bb, Some kn) \<Rightarrow> do {
          (kn_phdr, kernel_file) \<leftarrow> read_exec_file (fopen_r kn);
          (bb_phdr, btblk_file) \<leftarrow> read_exec_file (fopen_r bb);
          image1 \<leftarrow> write_bootblock (fopen_r []) btblk_file bb_phdr;
          image2 \<leftarrow> write_kernel (junk env) image1 kernel_file kn_phdr (p_filesz kn_phdr);
          let out = (if extended then extent_opt bb_phdr kn_phdr else []);
          image3 \<leftarrow> record_kernel_sectors (fopen_r (contents image2)) (freed env kn_phdr);
          Some (Inr (contents image3, out)) }
      | _ \<Rightarrow> Some (Inl (Wrong_files btblk_name kernel_name)))"

text \<open>The end of \<open>main\<close> for bad parameters: the arguments are collected in an array of 256 characters.\<close>

definition bad_para :: "bool \<Rightarrow> string list \<Rightarrow> (image_error + 'a) option" where
  "bad_para usage argv =
     (let par = concat (map (\<lambda>a. a @ '' '') (tl argv))
      in if length par + 1 > 256 then None else Some (Inl (Bad_parameters usage par)))"

record options =
  vm :: bool
  extended :: bool

definition set_option :: "string \<Rightarrow> options \<Rightarrow> options option" where
  "set_option a opt =
     (if a = ''--extended'' then Some (opt\<lparr>extended := True\<rparr>)
      else if a = ''--vm'' then Some (opt\<lparr>vm := True\<rparr>) else None)"

definition main :: "host \<Rightarrow> string list \<Rightarrow> (image_error + u8 list \<times> (u8 list \<times> u32 list) list) option" where
  "main env argv =
     (let argc = length argv; opt0 = \<lparr>vm = False, extended = False\<rparr>
      in if argc < 3 \<or> argc > 5 then bad_para True argv
         else if argc = 3 then create_image env False (argv ! 1) (argv ! 2)
         else if argc = 4
         then (case set_option (argv ! 1) opt0 of
                 None \<Rightarrow> bad_para False argv
               | Some opt \<Rightarrow> create_image env (extended opt) (argv ! 2) (argv ! 3))
         else (case set_option (argv ! 1) opt0 of
                 None \<Rightarrow> bad_para False argv
               | Some opt1 \<Rightarrow>
                   (case set_option (argv ! 2) opt1 of
                      None \<Rightarrow> bad_para False argv
                    | Some opt \<Rightarrow> create_image env (extended opt) (argv ! 3) (argv ! 4))))"

subsection \<open>Streams\<close>

lemma fread_within:
  assumes "pos s + n \<le> length (contents s)"
  shows "fread_bytes n s = (take n (drop (pos s) (contents s)), s\<lparr>pos := pos s + n\<rparr>)"
  using assms by (simp add: fread_bytes_def)

lemma fwrite_within:
  assumes "pos s \<le> length (contents s)" "i < length (contents s) \<or> i < pos s + length xs"
  shows "contents (fwrite_bytes xs s) ! i = (if pos s \<le> i \<and> i < pos s + length xs then xs ! (i - pos s) else contents s ! i)"
  using assms by (auto simp: fwrite_bytes_def nth_append)

lemma fwrite_length:
  "pos s \<le> length (contents s) \<Longrightarrow> length (contents (fwrite_bytes xs s)) = max (length (contents s)) (pos s + length xs)"
  by (simp add: fwrite_bytes_def)

lemma fwrite_pos [simp]: "pos (fwrite_bytes xs s) = pos s + length xs"
  by (simp add: fwrite_bytes_def)

text \<open>The loop of \<open>record_kernel_sectors\<close> replaces the four bytes before offset 512.\<close>

lemma record_loop_spec:
  assumes "byte_cnt = pos s" "4 dvd pos s" "4 dvd length (contents s)" "pos s \<le> length (contents s)"
  shows "length (contents (record_loop v byte_cnt s)) = length (contents s) \<and>
    (\<forall>i<length (contents s). contents (record_loop v byte_cnt s) ! i =
       (if 508 \<le> i \<and> i < 512 \<and> pos s \<le> i then bytes_of_int v ! (i - 508) else contents s ! i))"
  using assms
proof (induction "length (contents s) - pos s" arbitrary: byte_cnt s rule: less_induct)
  case less
  show ?case
  proof (cases "pos s = length (contents s)")
    case True
    then have "record_loop v byte_cnt s = s" by (subst record_loop.simps) (simp add: fread_bytes_def)
    then show ?thesis using True by simp
  next
    case False
    then have le: "pos s + 4 \<le> length (contents s)" using less.prems(2,3,4) by (auto elim!: dvdE)
    let ?b = "take 4 (drop (pos s) (contents s))"
    let ?x = "if pos s + 4 = 512 then bytes_of_int v else ?b"
    let ?s = "fwrite_bytes ?x s"
    have len: "length ?x = 4" using le by (simp add: bytes_of_int_def)
    have rec: "record_loop v byte_cnt s = record_loop v (byte_cnt + 4) ?s"
      using le less.prems(1) by (subst record_loop.simps) (simp add: fread_within fseek_back_def Let_def)
    have lens: "length (contents ?s) = length (contents s)" using le len by (simp add: fwrite_length)
    have IH: "length (contents (record_loop v (byte_cnt + 4) ?s)) = length (contents s) \<and>
      (\<forall>i<length (contents s). contents (record_loop v (byte_cnt + 4) ?s) ! i =
        (if 508 \<le> i \<and> i < 512 \<and> pos s + 4 \<le> i then bytes_of_int v ! (i - 508) else contents ?s ! i))"
      using less.hyps [of ?s "byte_cnt + 4"] less.prems le lens len by simp
    have at: "contents ?s ! i = (if pos s \<le> i \<and> i < pos s + 4 then ?x ! (i - pos s) else contents s ! i)"
      if "i < length (contents s)" for i
      using fwrite_within [of s i ?x] le len that by simp
    have new: "contents ?s ! i = (if 508 \<le> i \<and> i < 512 \<and> pos s \<le> i \<and> i < pos s + 4 then bytes_of_int v ! (i - 508) else contents s ! i)"
      if "i < length (contents s)" for i
      using at [OF that] less.prems(2) le by (auto elim!: dvdE)
    have "contents (record_loop v (byte_cnt + 4) ?s) ! i =
        (if 508 \<le> i \<and> i < 512 \<and> pos s \<le> i then bytes_of_int v ! (i - 508) else contents s ! i)"
      if "i < length (contents s)" for i
      using IH [THEN conjunct2, rule_format, OF that] new [OF that] by auto
    then show ?thesis unfolding rec using IH by blast
  qed
qed

subsection \<open>The steps of the tool\<close>

lemma sint_small: "unat (v :: u32) < 2 ^ 31 \<Longrightarrow> sint v = int (unat v)"
  using sint_of_nat_small [of "unat v"] by simp

text \<open>An ELF file whose first program header is the one to load, with its segment close behind the headers.\<close>

definition loadable :: "u8 list \<Rightarrow> phdr \<Rightarrow> bool" where
  "loadable xs ph \<longleftrightarrow>
     (let b = buf_of xs; start = 52 + e_phentsize b * e_phnum b in
        32 \<le> e_phentsize b \<and> 0 < e_phnum b \<and> phdr_of b 52 = ph \<and> p_type ph = PT_LOAD \<and>
        start \<le> unat (p_offset ph) \<and> unat (p_offset ph) \<le> start + 52 \<and> unat (p_offset ph) \<le> length xs \<and> unat (p_offset ph) < 2 ^ 31)"

lemma rd32_part:
  "i + 3 < n \<Longrightarrow> p + n \<le> length xs \<Longrightarrow> rd32 (buf_of (take n (drop p xs))) i = rd32 (buf_of xs) (p + i)"
  by (simp add: rd32_def buf_of_def add.assoc)

lemma phdr_part:
  "32 \<le> n \<Longrightarrow> p + n \<le> length xs \<Longrightarrow> phdr_of (buf_of (take n (drop p xs))) 0 = phdr_of (buf_of xs) p"
  by (simp add: phdr_of_def rd32_part)

lemma half_part: "i + 1 < n \<Longrightarrow> n \<le> length xs \<Longrightarrow> half (buf_of (take n xs)) i = half (buf_of xs) i"
  by (simp add: half_def buf_of_def)

lemma find_load_first:
  assumes "32 \<le> length b" "p_type (phdr_of (buf_of b) 0) = PT_LOAD" "32 \<le> sz" "0 < n"
  shows "find_load b sz [0..<n] = Some (phdr_of (buf_of b) 0)"
  using assms by (simp add: upt_conv_Cons Let_def)

lemma read_exec_file_loadable:
  assumes "loadable xs ph"
  obtains f where "read_exec_file (fopen_r xs) = Some (ph, f)" "contents f = xs"
proof -
  let ?b = "buf_of xs" let ?sz = "e_phentsize ?b" and ?num = "e_phnum ?b" let ?tot = "?sz * ?num"
  have a: "32 \<le> ?sz" "0 < ?num" "phdr_of ?b 52 = ph" "p_type ph = PT_LOAD" "52 + ?tot \<le> unat (p_offset ph)"
    "unat (p_offset ph) \<le> 52 + ?tot + 52" "unat (p_offset ph) \<le> length xs" "unat (p_offset ph) < 2 ^ 31"
    using assms by (auto simp: loadable_def Let_def)
  have tot: "32 \<le> ?tot" "52 + ?tot \<le> length xs" "?tot < 2 ^ 31" using a mult_le_mono [of 32 ?sz 1 ?num] by auto
  let ?h = "take 52 xs"
  have h: "fread_bytes 52 (fopen_r xs) = (?h, \<lparr>contents = xs, pos = 52\<rparr>)" "length ?h = 52"
    "e_phentsize (buf_of ?h) = ?sz" "e_phnum (buf_of ?h) = ?num"
    using tot by (simp_all add: fread_bytes_def fopen_r_def e_phentsize_def e_phnum_def half_part)
  have p: "fread_bytes ?tot \<lparr>contents = xs, pos = 52\<rparr> = (take ?tot (drop 52 xs), \<lparr>contents = xs, pos = 52 + ?tot\<rparr>)"
    using tot by (simp add: fread_within)
  have l: "find_load (take ?tot (drop 52 xs)) ?sz [0..<?num] = Some ph"
    using find_load_first [of "take ?tot (drop 52 xs)" ?sz ?num] phdr_part [of ?tot 52 xs] a tot by simp
  let ?n = "sint (p_offset ph) - int (52 + ?tot)"
  obtain got f3 where s: "fread_int ?n \<lparr>contents = xs, pos = 52 + ?tot\<rparr> = (got, f3)" by (cases "fread_int ?n \<lparr>contents = xs, pos = 52 + ?tot\<rparr>")
  have n: "0 \<le> ?n" "?n \<le> 52" using a(5,6) unfolding sint_small [OF a(8)] by linarith+
  then have g: "length got \<le> 52" "contents f3 = xs" using s by (auto simp: fread_int_def fread_bytes_def Let_def)
  have "read_exec_file (fopen_r xs) = Some (ph, f3)"
    using n g(1) tot(2,3) by (simp add: read_exec_file_def h p l s Let_def del: of_nat_add of_nat_mult)
  then show ?thesis using that g(2) by blast
qed

definition sectors :: "u32 \<Rightarrow> nat" where
  "sectors n = (unat n + 511) div 512"

lemma low_bits: "(n AND 0x1ff \<noteq> 0) = (unat (n :: u32) mod 512 \<noteq> 0)"
proof -
  have "n AND 0x1ff = take_bit 9 n" by (simp add: take_bit_eq_mask mask_eq_exp_minus_1)
  moreover have "unat (take_bit 9 n) = unat n mod 512" by (simp add: take_bit_eq_mod unat_mod)
  ultimately show ?thesis by (simp flip: unat_eq_0)
qed

lemma sectors_alt: "sectors n = unat n div 512 + (if unat n mod 512 \<noteq> 0 then 1 else 0)"
proof -
  let ?q = "unat n div 512" and ?r = "unat n mod 512"
  have "unat n + 511 = ?r + 511 + ?q * 512" by simp
  then have "sectors n = ?q + (?r + 511) div 512" unfolding sectors_def by (simp only: div_mult_self1)
  moreover have "(?r + 511) div 512 = (if ?r \<noteq> 0 then 1 else 0)" by (auto intro!: div_nat_eqI)
  ultimately show ?thesis by simp
qed

lemma count_kernel_sectors_eq: "unat (count_kernel_sectors ph) = sectors (p_memsz ph)"
proof -
  let ?n = "p_memsz ph"
  have "unat ?n div 512 < 2 ^ 23" by (rule less_mult_imp_div_less) simp
  then show ?thesis
    by (simp add: count_kernel_sectors_def low_bits sectors_alt unat_word_ariths unsigned_drop_bit_eq drop_bit_eq_div)
qed

lemma fseek_start [simp]: "fseek_set 0 (fopen_r xs) = fopen_r xs"
  by (simp add: fseek_set_def fopen_r_def)

lemma fread_segment:
  assumes "unat off + unat n \<le> length xs" "unat (n :: u32) < 2 ^ 31" "contents f = xs"
  shows "fst (fread_int (sint n) (fseek_set (unat off) f)) = take (unat n) (drop (unat off) xs)"
  using assms by (simp add: fread_int_def fread_bytes_def fseek_set_def sint_small)

lemma write_bootblock_spec:
  assumes "unat (p_offset ph) + unat (p_memsz ph) \<le> length xs" "unat (p_memsz ph) \<le> 512" "contents f = xs"
  obtains img where "write_bootblock (fopen_r []) f ph = Some img" "length (contents img) = 512"
    "\<And>i. i < unat (p_memsz ph) \<Longrightarrow> contents img ! i = xs ! (unat (p_offset ph) + i)"
    "\<And>i. unat (p_memsz ph) \<le> i \<Longrightarrow> i < 512 \<Longrightarrow> contents img ! i = 0"
proof -
  let ?n = "unat (p_memsz ph)"
  let ?got = "take ?n (drop (unat (p_offset ph)) xs)"
  have g: "fst (fread_int (sint (p_memsz ph)) (fseek_set (unat (p_offset ph)) f)) = ?got"
    using assms by (intro fread_segment) simp_all
  have len: "length ?got = ?n" using assms(1) by simp
  let ?b = "take 512 (?got @ replicate (517 - ?n) 0)"
  have "write_bootblock (fopen_r []) f ph = Some (fwrite_bytes ?b (fopen_r []))"
    using assms(2) len by (simp add: write_bootblock_def split_beta g)
  moreover have "contents (fwrite_bytes ?b (fopen_r [])) = ?b" by (simp add: fwrite_bytes_def fopen_r_def)
  moreover have "length ?b = 512" "\<And>i. i < ?n \<Longrightarrow> ?b ! i = xs ! (unat (p_offset ph) + i)"
    "\<And>i. ?n \<le> i \<Longrightarrow> i < 512 \<Longrightarrow> ?b ! i = 0"
    using assms(1,2) by (simp_all add: nth_append)
  ultimately show ?thesis using that by metis
qed

lemma write_kernel_spec:
  assumes "unat (p_offset ph) + unat (p_filesz ph) \<le> length xs" "unat (p_filesz ph) \<le> unat (p_memsz ph)"
    "0 < unat (p_memsz ph)" "sectors (p_memsz ph) * 512 < 2 ^ 31" "contents f = xs" "length (contents img) = 512"
  obtains img' where "write_kernel jk img f ph (p_filesz ph) = Some img'"
    "length (contents img') = 512 + sectors (p_memsz ph) * 512"
    "\<And>i. i < 512 \<Longrightarrow> contents img' ! i = contents img ! i"
    "\<And>i. i < unat (p_filesz ph) \<Longrightarrow> contents img' ! (512 + i) = xs ! (unat (p_offset ph) + i)"
    "\<And>i. unat (p_filesz ph) \<le> i \<Longrightarrow> 8 \<le> i \<Longrightarrow> i < sectors (p_memsz ph) * 512 \<Longrightarrow> contents img' ! (512 + i) = jk i"
proof -
  let ?k = "unat (p_filesz ph)" and ?n = "sectors (p_memsz ph) * 512"
  have "1 \<le> sectors (p_memsz ph)" using assms(3) by (simp add: sectors_def Suc_le_eq div_greater_zero_iff)
  then have n: "unat (p_memsz ph) \<le> ?n" "8 \<le> ?n" unfolding sectors_def by linarith+
  let ?got = "take ?k (drop (unat (p_offset ph)) xs)"
  have g: "fst (fread_int (sint (p_filesz ph)) (fseek_set (unat (p_offset ph)) f)) = ?got"
    using assms n by (intro fread_segment) simp_all
  have len: "length ?got = ?k" using assms(1) by simp
  let ?b = "?got @ map (\<lambda>i. if i < 8 then 0 else jk i) [?k..<?n]"
  have lb: "length ?b = ?n" using len n assms(2) by simp
  let ?img = "fwrite_bytes ?b (fseek_set 512 img)"
  have w: "write_kernel jk img f ph (p_filesz ph) = Some ?img"
    using assms(2,4) n len by (simp add: write_kernel_def split_beta g count_kernel_sectors_eq)
  have c: "contents ?img ! i = (if 512 \<le> i then ?b ! (i - 512) else contents img ! i)" if "i < 512 + ?n" for i
    using fwrite_within [of "fseek_set 512 img" i ?b] lb assms(6) that by (simp add: fseek_set_def)
  have "?b ! i = xs ! (unat (p_offset ph) + i)" if "i < ?k" for i using that len assms(1) by (simp add: nth_append)
  moreover have "?b ! i = jk i" if "?k \<le> i" "8 \<le> i" "i < ?n" for i using that len by (simp add: nth_append)
  ultimately show ?thesis
    using that [OF w] c n assms(2,6) lb by (simp add: fwrite_length fseek_set_def)
qed

lemma record_kernel_sectors_spec:
  assumes "512 \<le> length xs" "4 dvd length xs" "sectors v * 512 < 2 ^ 31"
  obtains img where "record_kernel_sectors (fopen_r xs) v = Some img" "length (contents img) = length xs"
    "\<And>i. i < 508 \<or> 512 \<le> i \<and> i < length xs \<Longrightarrow> contents img ! i = xs ! i"
    "rd32 (\<lambda>i. contents img ! i) 508 = word_of_nat (sectors v * 512)"
proof -
  have v: "unat v < 2 ^ 31" using assms(3) unfolding sectors_def by linarith
  let ?w = "word_of_nat (sectors v * 512) :: u32"
  let ?img = "record_loop ?w 0 (fopen_r xs)"
  have "sint v div 512 + (if v AND 0x1ff \<noteq> 0 then 1 else 0) = int (sectors v)"
    unfolding sint_small [OF v] low_bits sectors_alt by (simp add: zdiv_int)
  then have r: "record_kernel_sectors (fopen_r xs) v = Some ?img"
    using assms(3) by (simp add: record_kernel_sectors_def fseek_set_def fopen_r_def Let_def)
  have l: "length (contents ?img) = length xs" and c: "\<And>i. i < length xs \<Longrightarrow> contents ?img ! i =
      (if 508 \<le> i \<and> i < 512 then bytes_of_int ?w ! (i - 508) else xs ! i)"
    using record_loop_spec [of 0 "fopen_r xs" ?w] assms(2) by (simp_all add: fopen_r_def)
  have "rd32 (\<lambda>i. contents ?img ! i) 508 = ?w" using c assms(1) le32_bytes [of ?w, unfolded One_nat_def]
    by (simp add: rd32_def bytes_of_int_def)
  moreover have "contents ?img ! i = xs ! i" if "i < 508 \<or> 512 \<le> i \<and> i < length xs" for i
    using that assms(1) by (subst c) auto
  ultimately show ?thesis by (intro that [OF r l])
qed

subsection \<open>Properties\<close>


text \<open>A boot block and a kernel of a few bytes.\<close>

definition tiny_elf :: "u8 \<Rightarrow> u8 list \<Rightarrow> u8 list" where
  "tiny_elf n body = replicate 42 0 @ [32, 0, 1, 0] @ replicate 6 0 @
     [1, 0, 0, 0, 84, 0, 0, 0] @ replicate 8 0 @ [n, 0, 0, 0, n, 0, 0, 0] @ replicate 8 0 @ body"

definition tiny_host :: host where
  "tiny_host = \<lparr>files = [''boot'' \<mapsto> tiny_elf 4 [1, 2, 3, 4], ''kernel'' \<mapsto> tiny_elf 3 [7, 8, 9]], junk = (\<lambda>_. 0xee), freed = p_memsz\<rparr>"


end
