(* ===== verification/Test_Fs.thy ===== *)
theory Test_Fs
  imports Shell
begin

text \<open>
  The program of \<^verbatim>\<open>test/test_fs/test_fs.c\<close>, the one user program that the kernel can start with \<open>exec\<close>: it opens a file,
  writes a line ten times, goes back to the start, reads the file line by line and prints what it has read. Every step is a
  system call, so the theorem about it is one about the calls, their handlers, the file system and the screen together.
\<close>

subsection \<open>The program\<close>

definition hello :: "u8 list" where
  "hello = cs ''hello world!'' @ [10]"

definition banner :: "u8 list" where
  "banner = cs ''[TEST] TESTING FS'' @ [10]"

text \<open>A call that stores its result in the memory of the caller.\<close>

definition fread_call :: "'d sysenv \<Rightarrow> buffer \<Rightarrow> 'd fs_t \<Rightarrow> (buffer \<times> 'd fs_t) option" where
  "fread_call env buff f = do {
     (r, f1) \<leftarrow> system_call_helper env (sys_fread 0 buff 13) f;
     (case r of RBuf b \<Rightarrow> Some (b, f1) | _ \<Rightarrow> None) }"

text \<open>The inner loop, one character per call of \<open>printf\<close>; a \<open>char\<close> is passed as an \<open>int\<close>, with its sign.\<close>

definition print_line :: "'d sysenv \<Rightarrow> buffer \<Rightarrow> 'd fs_t \<Rightarrow> 'd fs_t option" where
  "print_line env buff f = for_upto_opt 0 13 (\<lambda>j. printf env (cs ''%c'') [VInt (scast (buff j))]) f"

definition write_lines :: "'d sysenv \<Rightarrow> nat \<Rightarrow> 'd fs_t \<Rightarrow> 'd fs_t option" where
  "write_lines env n = for_upto_opt 0 n (\<lambda>_. invoke env (sys_fwrite 0 (buf_of hello) 13))"

definition read_lines :: "'d sysenv \<Rightarrow> nat \<Rightarrow> buffer \<times> 'd fs_t \<Rightarrow> (buffer \<times> 'd fs_t) option" where
  "read_lines env n = for_upto_opt 0 n (\<lambda>_ (buff, f). do {
     (b, f1) \<leftarrow> fread_call env buff f;
     f2 \<leftarrow> print_line env b f1;
     Some (b, f2) })"

text \<open>Everything up to \<open>sys_exit\<close>; \<open>buff\<close> is a static array, so it holds what it held before.\<close>

definition test_fs_body :: "'d sysenv \<Rightarrow> buffer \<Rightarrow> 'd fs_t \<Rightarrow> 'd fs_t option" where
  "test_fs_body env buff f = do {
     f1 \<leftarrow> invoke env (sys_move_cursor 1 1) f;
     f2 \<leftarrow> printf env banner [] f1;
     f3 \<leftarrow> invoke env (sys_fopen (Some (buf_of (cs ''1.txt''))) O_RDWR) f2;
     f4 \<leftarrow> write_lines env 10 f3;
     f5 \<leftarrow> invoke env (sys_fseek 0 0) f4;
     (_, f6) \<leftarrow> read_lines env 10 (buff, f5);
     invoke env (sys_fclose 0) f6 }"

definition test_fs :: "'d sysenv \<Rightarrow> buffer \<Rightarrow> 'd fs_t \<Rightarrow> 'd fs_t option" where
  "test_fs env buff f = do {
     f1 \<leftarrow> test_fs_body env buff f;
     invoke env sys_exit f1 }"

text \<open>The table of the programs that \<open>exec\<close> can start, with the address of the program.\<close>

definition fs_task :: "u32 \<Rightarrow> task_info_t" where
  "fs_task entry = \<lparr>task_name = cs ''test_fs'', task_entry_point = entry, task_type = USER_PROCESS\<rparr>"

definition the_test_tasks :: "u32 \<Rightarrow> task_info_t list" where
  "the_test_tasks entry = [fs_task entry]"

subsection \<open>Calls\<close>

lemma invoke_file_calls:
  "invoke env (sys_fopen x 3) f = do_fopen (sd env) (stack_junk env) x 3 f"
  "invoke env (sys_fwrite 0 b n) f = do_fwrite (sd env) (nodes_addr env) 0 b n f"
  "invoke env (sys_fseek 0 p) f = do_fseek 0 0 f"
  "invoke env (sys_fclose 0) f = do_fclose 0 f"
  "fread_call env b f = do_fread (sd env) 0 b 13 f"
proof -
  show "fread_call env b f = do_fread (sd env) 0 b 13 f"
    by (cases "do_fread (sd env) 0 b 13 f") (auto simp: fread_call_def call_simps int_range_def)
qed (simp_all add: invoke_def call_simps fcall_def int_range_def option.map_comp option.map_ident comp_def)

subsection \<open>Output\<close>

lemma hello_simps: "length hello = 13" "0 \<notin> set hello"
  by (simp_all add: hello_def)

lemma screen_write_append:
  "screen_write (xs @ ys) s = Option.bind (screen_write xs s) (screen_write ys)"
  by (simp add: screen_write_def fold_opt_append split: option.splits Option.bind_split)

abbreviation with_scr :: "'d fs_t \<Rightarrow> screen_t \<Rightarrow> 'd fs_t" where
  "with_scr f x \<equiv> f\<lparr>kst := (kst f)\<lparr>scr := x\<rparr>\<rparr>"

lemma printf_text:
  assumes "mini_vsnprintf 256 fmt va = Some out" "0 \<notin> set out"
  shows "printf env fmt va f = map_option (with_scr f) (screen_write out (scr (kst f)))"
proof -
  have "takeWhile (\<lambda>c. c \<noteq> 0) out = out" using assms(2) by (auto simp: takeWhile_eq_all_conv)
  then have "str_bytes (buf_of out) 0 = Some out" by (simp only: str_bytes_buf_of)
  then show ?thesis
    by (cases "screen_write out (scr (kst f))") (simp_all add: printf_def assms(1) call_simps scall_def kcall_def)
qed

lemma out_one: "mini_vsnprintf 256 (cs ''%c'') [VInt v] = Some [ucast v]"
  by (simp add: mini_vsnprintf_def vsnprintf_loop.simps convert_def putc_def)

lemma print_chars:
  assumes "\<And>j. j < n \<Longrightarrow> b j \<noteq> 0"
  shows "for_upto_opt 0 n (\<lambda>j. printf env (cs ''%c'') [VInt (scast (b j))]) f =
    map_option (with_scr f) (screen_write (map b [0..<n]) (scr (kst f)))"
  using assms
proof (induction n)
  case 0
  then show ?case by (simp add: screen_write_def)
next
  case (Suc n)
  have c: "(ucast (scast (b n :: u8) :: u32) :: u8) = b n" by transfer (simp add: take_bit_signed_take_bit)
  have p: "printf env (cs ''%c'') [VInt (scast (b n))] g = map_option (with_scr g) (screen_write [b n] (scr (kst g)))"
    for g :: "'a fs_t"
    by (rule printf_text) (use Suc.prems [of n] in \<open>simp_all add: out_one c del: cs_Cons\<close>)
  show ?case
    using Suc by (cases "screen_write (map b [0..<n]) (scr (kst f))")
      (simp_all add: for_upto_opt_Suc p screen_write_append option.map_comp comp_def del: cs_Cons)
qed

lemma banner_out: "mini_vsnprintf 256 banner [] = Some banner"
  unfolding banner_def by code_simp

lemma banner_nz: "0 \<notin> set banner"
  by (simp add: banner_def)

subsection \<open>Opening the file\<close>

lemma name_parse_missing:
  assumes "sd_ok dev" "dir_at dev f (cwd f) b es" "cstr nm 0 xs" "component xs" "xs \<noteq> []" "length xs < MAX_NAME_LEN"
    and "xs \<notin> fst ` set es"
  shows "name_parse dev junk (Some nm) f = Some (None, f)"
proof -
  have "dir_find es xs = None" using assms(7) by (force simp: dir_find_def find_None_iff)
  then show ?thesis using name_parse_lookup [of dev "[xs]" nm False f "\<lambda>_. es" junk] assms by auto
qed

lemma fopen_creates:
  assumes dev: "sd_ok dev" and sb: "super_block f = std_super"
    and d: "dir_at dev f (cwd f) b es" and room: "length es < DENTRY_NUM"
    and nm: "cstr nm 0 xs" "component xs" "xs \<noteq> []" "length xs < MAX_NAME_LEN" and new: "xs \<notin> fst ` set es"
    and free: "used_bits INODE_BIT_MAP_SIZE (inode_bit_map f) \<noteq> {k. unat k < INODE_MAX_NUMBER}"
    and used: "word_of_nat (cwd f) \<in> used_bits INODE_BIT_MAP_SIZE (inode_bit_map f)"
    and c: "current_running (kst f) = Some c"
  obtains g i where "do_fopen dev junk (Some nm) acc f = Some g" "super_block g = std_super"
    "current_running (kst g) = Some c" "fd_file (fd (pcb (kst g) c)) = Some i" "fd_pos (fd (pcb (kst g) c)) = 0"
    "i < INODE_MAX_NUMBER" "isize (nodes g i) = 0" "block_bit_map g = block_bit_map f" "scr (kst g) = scr (kst f)"
proof -
  obtain g and k :: u32 where g: "do_touch dev junk (Some nm) f = Some g" "block_bit_map g = block_bit_map f"
    "itype (nodes g (unat k)) = file_type" "isize (nodes g (unat k)) = 0" "others_kept dev {cwd f, unat k} {b} f g"
    "name_parse dev junk (Some nm) g = Some (Some (unat k), g)" "kst g = kst f" "unat k < INODE_MAX_NUMBER"
    by (rule do_touch_effect [OF dev sb d room nm new free used, of junk]) (rule that, assumption+)
  have "do_fopen dev junk (Some nm) acc f = Some (upd_desc c (\<lambda>d. d\<lparr>fd_file := Some (unat k), file_access := acc, fd_pos := 0\<rparr>) g)"
    using g c by (simp add: do_fopen_def standrize_component [OF nm(1-3)] name_parse_missing [OF dev d nm new] node_at_def the_desc_def)
  then show ?thesis
    by (rule that [of _ "unat k"]) (use g c sb in \<open>simp_all add: upd_desc_def others_kept_def\<close>)
qed

subsection \<open>Writing the lines\<close>

text \<open>The first \<open>n\<close> lines of the open file \<open>i\<close> of process \<open>c\<close>, all of them in the block \<open>k\<close>.\<close>

definition has_lines :: "'d sd_dev \<Rightarrow> nat \<Rightarrow> nat \<Rightarrow> nat \<Rightarrow> nat \<Rightarrow> 'd fs_t \<Rightarrow> bool" where
  "has_lines dev c i k n f \<longleftrightarrow> super_block f = std_super \<and> current_running (kst f) = Some c \<and>
     fd_file (fd (pcb (kst f) c)) = Some i \<and> isize (nodes f i) = word_of_nat (13 * n) \<and>
     direct (nodes f i) 0 = blk_offset k \<and> k < DATA_BLOCK_MAX_NUMBER \<and>
     (\<forall>j < 13 * n. blk_bytes dev (disk f) k j = hello ! (j mod 13))"

lemma line_pos:
  assumes "n \<le> 300"
  shows "unat (word_of_nat (13 * n) :: u32) = 13 * n" "in_one_block (word_of_nat (13 * n)) 13"
    "unat (word_of_nat (13 * n) :: u32) div BLOCK_SIZE = 0" "unat (word_of_nat (13 * n) :: u32) mod BLOCK_SIZE = 13 * n"
    "0 < n \<Longrightarrow> unat (blocks (word_of_nat (13 * n))) = 1"
proof -
  show u: "unat (word_of_nat (13 * n) :: u32) = 13 * n" using assms by (subst unat_of_nat_u32) simp_all
  have "13 * n \<le> 3900" using assms by simp
  then show "in_one_block (word_of_nat (13 * n)) 13" "unat (word_of_nat (13 * n) :: u32) div BLOCK_SIZE = 0"
    "unat (word_of_nat (13 * n) :: u32) mod BLOCK_SIZE = 13 * n" unfolding in_one_block_def u by simp_all
  assume "0 < n"
  moreover have "unat (blocks (word_of_nat (13 * n))) = (13 * n + 4095) div 4096" using assms by (subst unat_blocks; unfold u) simp_all
  ultimately show "unat (blocks (word_of_nat (13 * n))) = 1" using assms by (simp add: div_nat_eqI)
qed

lemma blk_offset_inj: "k < DATA_BLOCK_MAX_NUMBER \<Longrightarrow> l < DATA_BLOCK_MAX_NUMBER \<Longrightarrow> blk_offset k = blk_offset l \<longleftrightarrow> k = l"
  using unat_blk_offset [of k] unat_blk_offset [of l] by (auto simp: word_unat_eq_iff)

lemma first_line:
  assumes dev: "sd_ok dev" and sb: "super_block f = std_super"
    and desc: "current_running (kst f) = Some c" "fd_file (fd (pcb (kst f) c)) = Some i" "fd_pos (fd (pcb (kst f) c)) = 0"
    and i: "i < INODE_MAX_NUMBER" "isize (nodes f i) = 0"
    and room: "card (used_bits DATA_BLOCK_BIT_MAP_SIZE (block_bit_map f)) + 16 \<le> DATA_BLOCK_MAX_NUMBER"
  obtains g k where "do_fwrite dev na 0 (buf_of hello) 13 f = Some g" "has_lines dev c i k 1 g"
    "fd_pos (fd (pcb (kst g) c)) = 13" "scr (kst g) = scr (kst f)"
proof -
  have z: "unat (blocks 0) = 0" by (simp add: blocks_def)
  have one: "in_one_block (fd_pos (fd (pcb (kst f) c))) 13" by (simp add: desc in_one_block_def)
  have sz: "unat (isize (nodes f i)) \<le> 16 * BLOCK_SIZE" by (simp add: i)
  have r: "True \<longleftrightarrow> unat (blocks (isize (nodes f i))) \<le> unat (fd_pos (fd (pcb (kst f) c))) div BLOCK_SIZE" by (simp add: i z)
  obtain g k where g: "do_fwrite dev na 0 (buf_of hello) 13 f = Some g" "super_block g = std_super"
    "kst g = upd_pcb c (\<lambda>p. p\<lparr>fd := (fd p)\<lparr>fd_pos := fd_pos (fd p) + 13\<rparr>\<rparr>) (kst f)"
    "direct (nodes g i) 0 = blk_offset k" "k < DATA_BLOCK_MAX_NUMBER" "isize (nodes g i) = 13"
    "\<forall>j < BLOCK_SIZE. blk_bytes dev (disk g) k j = (if j < 13 then buf_of hello j else blk_bytes dev (disk f) k j)"
    by (rule do_fwrite_spec [OF dev sb desc(1) refl desc(2) i(1) one sz r, of na "buf_of hello"])
      (use room desc in \<open>simp_all\<close>)
  show ?thesis
    by (rule that [OF g(1), of k]) (use g desc in \<open>simp_all add: has_lines_def buf_of_def hello_simps\<close>)
qed

lemma next_line:
  assumes dev: "sd_ok dev" and h: "has_lines dev c i k n f" "0 < n" "n < 300" "i < INODE_MAX_NUMBER"
    and pos: "fd_pos (fd (pcb (kst f) c)) = word_of_nat (13 * n)"
  obtains g where "do_fwrite dev na 0 (buf_of hello) 13 f = Some g" "has_lines dev c i k (Suc n) g"
    "fd_pos (fd (pcb (kst g) c)) = word_of_nat (13 * Suc n)" "scr (kst g) = scr (kst f)"
proof -
  note lp = line_pos [OF less_imp_le [OF h(3)]]
  have hD: "super_block f = std_super" "current_running (kst f) = Some c" "fd_file (fd (pcb (kst f) c)) = Some i"
    "isize (nodes f i) = word_of_nat (13 * n)" "direct (nodes f i) 0 = blk_offset k" "k < DATA_BLOCK_MAX_NUMBER"
    "\<forall>j < 13 * n. blk_bytes dev (disk f) k j = hello ! (j mod 13)"
    using h(1) by (simp_all add: has_lines_def)
  have one: "in_one_block (fd_pos (fd (pcb (kst f) c))) 13" using lp(2) by (simp add: pos)
  have sz: "unat (isize (nodes f i)) \<le> 16 * BLOCK_SIZE" unfolding hD(4) lp(1) using h(3) by simp
  have r: "False \<longleftrightarrow> unat (blocks (isize (nodes f i))) \<le> unat (fd_pos (fd (pcb (kst f) c))) div BLOCK_SIZE"
    unfolding hD(4) pos lp(5) [OF h(2)] lp(3) by simp
  have o: "fd_pos (fd (pcb (kst f) c)) \<le> isize (nodes f i) \<and>
      (\<exists>k < DATA_BLOCK_MAX_NUMBER. direct (nodes f i) (unat (fd_pos (fd (pcb (kst f) c))) div BLOCK_SIZE) = blk_offset k)"
    unfolding pos hD(4) lp(3) using hD(5,6) by blast
  obtain g k' where g: "do_fwrite dev na 0 (buf_of hello) 13 f = Some g" "super_block g = std_super"
    "kst g = upd_pcb c (\<lambda>p. p\<lparr>fd := (fd p)\<lparr>fd_pos := fd_pos (fd p) + 13\<rparr>\<rparr>) (kst f)"
    "direct (nodes g i) 0 = blk_offset k'" "k' < DATA_BLOCK_MAX_NUMBER" "isize (nodes g i) = (if False then word_of_nat (13 * n) else word_of_nat (13 * n)) + 13"
    and b: "\<And>j. j < BLOCK_SIZE \<Longrightarrow> blk_bytes dev (disk g) k' j =
      (if 13 * n \<le> j \<and> j < 13 * n + unat (13 :: u32) then buf_of hello (j - 13 * n) else blk_bytes dev (disk f) k' j)"
    and dk: "\<not> False \<Longrightarrow> direct (nodes f i) 0 = blk_offset k'"
    by (rule do_fwrite_spec [OF dev hD(1,2) refl hD(3) h(4) one sz r o, of na "buf_of hello", unfolded pos hD(4) lp(3,4)])
      (erule FalseE, rule that, assumption+)
  have k: "k' = k" using dk hD(5,6) g(5) by (simp add: blk_offset_inj)
  have "blk_bytes dev (disk g) k j = hello ! (j mod 13)" if j: "j < 13 * Suc n" for j
  proof (cases "13 * n \<le> j")
    case True
    then have "j mod 13 = j - 13 * n" using j by (intro mod_nat_eqI) auto
    moreover have "j - 13 * n < 13" using j True by simp
    ultimately show ?thesis using b [of j] j True h(3) by (simp add: k buf_of_def hello_simps)
  next
    case False
    then show ?thesis using b hD(7) h(3) by (simp add: k)
  qed
  then show ?thesis
    by (intro that [OF g(1)]) (use g hD in \<open>simp_all add: has_lines_def k pos algebra_simps\<close>)
qed

lemma write_lines_spec:
  assumes dev: "sd_ok (sd env)" and sb: "super_block f = std_super"
    and desc: "current_running (kst f) = Some c" "fd_file (fd (pcb (kst f) c)) = Some i" "fd_pos (fd (pcb (kst f) c)) = 0"
    and i: "i < INODE_MAX_NUMBER" "isize (nodes f i) = 0"
    and room: "card (used_bits DATA_BLOCK_BIT_MAP_SIZE (block_bit_map f)) + 16 \<le> DATA_BLOCK_MAX_NUMBER"
  shows "n < 300 \<Longrightarrow> \<exists>g k. write_lines env (Suc n) f = Some g \<and> has_lines (sd env) c i k (Suc n) g \<and>
    fd_pos (fd (pcb (kst g) c)) = word_of_nat (13 * Suc n) \<and> scr (kst g) = scr (kst f)"
proof (induction n)
  case 0
  obtain g k where "do_fwrite (sd env) (nodes_addr env) 0 (buf_of hello) 13 f = Some g" "has_lines (sd env) c i k 1 g"
    "fd_pos (fd (pcb (kst g) c)) = 13" "scr (kst g) = scr (kst f)"
    by (rule first_line [OF assms])
  then show ?case by (auto simp: write_lines_def for_upto_opt_Suc invoke_file_calls)
next
  case (Suc n)
  then obtain g k where g: "write_lines env (Suc n) f = Some g" "has_lines (sd env) c i k (Suc n) g"
    "fd_pos (fd (pcb (kst g) c)) = word_of_nat (13 * Suc n)" "scr (kst g) = scr (kst f)" by auto
  have lt: "0 < Suc n" "Suc n < 300" using Suc.prems by simp_all
  obtain h where "do_fwrite (sd env) (nodes_addr env) 0 (buf_of hello) 13 g = Some h" "has_lines (sd env) c i k (Suc (Suc n)) h"
    "fd_pos (fd (pcb (kst h) c)) = word_of_nat (13 * Suc (Suc n))" "scr (kst h) = scr (kst g)"
    by (rule next_line [OF dev g(2) lt i(1) g(3)])
  moreover have "write_lines env (Suc (Suc n)) f = Option.bind (write_lines env (Suc n) f) (invoke env (sys_fwrite 0 (buf_of hello) 13))"
    unfolding write_lines_def by (subst for_upto_opt_Suc) (simp_all split: option.splits Option.bind_split)
  ultimately show ?case using g by (auto simp: invoke_file_calls)
qed

subsection \<open>Reading the lines\<close>

lemma print_line_hello:
  assumes "\<forall>j < 13. b j = hello ! j"
  shows "print_line env b f = map_option (with_scr f) (screen_write hello (scr (kst f)))"
proof -
  have "map b [0..<13] = hello" by (rule nth_equalityI) (simp_all add: assms hello_simps)
  moreover have "b j \<noteq> 0" if "j < 13" for j
    using that assms by (metis hello_simps nth_mem)
  ultimately show ?thesis using print_chars [of 13 b env f] by (simp add: print_line_def)
qed

lemma read_one_line:
  assumes dev: "sd_ok (sd env)" and h: "has_lines (sd env) c i k n f" "m < n" "n \<le> 300" "i < INODE_MAX_NUMBER"
    and pos: "fd_pos (fd (pcb (kst f) c)) = word_of_nat (13 * m)"
    and x: "screen_write hello (scr (kst f)) = Some x"
  obtains b g where "fread_call env buff f = Some (b, g)" "print_line env b g = Some (with_scr g x)"
    "has_lines (sd env) c i k n (with_scr g x)" "fd_pos (fd (pcb (kst g) c)) = word_of_nat (13 * Suc m)"
proof -
  have m: "m \<le> 300" using h(2,3) by simp
  note lp = line_pos [OF m] and ln = line_pos [OF h(3)]
  have hD: "current_running (kst f) = Some c" "fd_file (fd (pcb (kst f) c)) = Some i"
    "isize (nodes f i) = word_of_nat (13 * n)" "direct (nodes f i) 0 = blk_offset k"
    "\<forall>j < 13 * n. blk_bytes (sd env) (disk f) k j = hello ! (j mod 13)"
    using h(1) by (simp_all add: has_lines_def)
  have one: "in_one_block (fd_pos (fd (pcb (kst f) c))) 13" using lp(2) by (simp add: pos)
  have sz: "unat (fd_pos (fd (pcb (kst f) c))) + unat (13 :: u32) \<le> unat (isize (nodes f i))"
    unfolding pos hD(3) lp(1) ln(1) using h(2) by simp
  have k: "direct (nodes f i) (unat (fd_pos (fd (pcb (kst f) c))) div BLOCK_SIZE) = blk_offset k"
    unfolding pos lp(3) by (rule hD(4))
  obtain rb where rb: "do_fread (sd env) 0 buff 13 f = Some (\<lambda>x. if x < 13 then blk_bytes (sd env) (disk f) k (13 * m + x) else buff x,
      upd_desc c (\<lambda>d. d\<lparr>fd_pos := fd_pos d + 13\<rparr>) (f\<lparr>fread_rbuf := rb\<rparr>))"
    using do_fread_one [OF dev hD(1) refl hD(2) h(4) one sz k, of buff] unfolding pos lp(4) by auto
  let ?b = "\<lambda>x. if x < 13 then blk_bytes (sd env) (disk f) k (13 * m + x) else buff x"
  let ?g = "upd_desc c (\<lambda>d. d\<lparr>fd_pos := fd_pos d + 13\<rparr>) (f\<lparr>fread_rbuf := rb\<rparr>)"
  have "\<forall>j < 13. ?b j = hello ! j" using hD(5) h(2) by auto
  then have "print_line env ?b ?g = Some (with_scr ?g x)"
    using x by (simp add: print_line_hello upd_desc_def)
  then show ?thesis
    by (intro that [of ?b ?g]) (use rb h(1) in \<open>simp_all add: invoke_file_calls has_lines_def upd_desc_def pos algebra_simps\<close>)
qed

text \<open>The text that the loop prints, and the screen it gives.\<close>

lemma read_lines_spec:
  assumes dev: "sd_ok (sd env)" and h: "has_lines (sd env) c i k n f" "n \<le> 300" "i < INODE_MAX_NUMBER"
    and pos: "fd_pos (fd (pcb (kst f) c)) = 0" and scr: "cursor_from 0 (scr (kst f))"
  obtains b g where "read_lines env n (buff, f) = Some (b, g)" "has_lines (sd env) c i k n g"
    "screen_write (concat (replicate n hello)) (scr (kst f)) = Some (scr (kst g))"
proof -
  define I where "I m st \<longleftrightarrow> has_lines (sd env) c i k n (snd st) \<and> fd_pos (fd (pcb (kst (snd st)) c)) = word_of_nat (13 * m) \<and>
    screen_write (concat (replicate m hello)) (scr (kst f)) = Some (scr (kst (snd st))) \<and> cursor_from 0 (scr (kst (snd st)))"
    for m and st :: "buffer \<times> 'a fs_t"
  have "\<exists>st. read_lines env n (buff, f) = Some st \<and> I n st"
    unfolding read_lines_def
  proof (rule for_upto_opt_inv)
    show "I 0 (buff, f)" using h(1) pos scr by (simp add: I_def screen_write_def)
    fix m st assume m: "m < n" and I: "I m st"
    obtain b0 f0 where st: "st = (b0, f0)" by (cases st)
    obtain x where x: "screen_write hello (scr (kst f0)) = Some x" "cursor_from 0 x"
      using screen_write_from [of 0 "scr (kst f0)" hello] I by (auto simp: I_def st)
    obtain b g where bg: "fread_call env b0 f0 = Some (b, g)" "print_line env b g = Some (with_scr g x)"
      "has_lines (sd env) c i k n (with_scr g x)" "fd_pos (fd (pcb (kst g) c)) = word_of_nat (13 * Suc m)"
      by (rule read_one_line [OF dev _ m h(2,3) _ x(1), of c k b0]) (use I in \<open>simp_all add: I_def st\<close>)
    have "screen_write (concat (replicate (Suc m) hello)) (scr (kst f)) = Some x"
      unfolding concat_replicate_Suc screen_write_append using I x(1) by (simp add: I_def st)
    then show "\<exists>s'. (case st of (buff, f) \<Rightarrow> do { (b, f1) \<leftarrow> fread_call env buff f; f2 \<leftarrow> print_line env b f1; Some (b, f2) }) = Some s' \<and> I (Suc m) s'"
      using bg x by (simp add: st I_def del: of_nat_mult replicate_Suc)
  qed simp
  then show ?thesis using that unfolding I_def by (metis surjective_pairing)
qed

subsection \<open>The property\<close>

text \<open>
  C12: The test program shows the file it has written. It runs in a directory that has no file \<open>1.txt\<close>, with a free inode and
  16 free blocks: every call succeeds, the program gets to \<open>sys_exit\<close>, the screen is the one that printing the
  headline and ten times the line gives, and the new file has 130 bytes, which are the ten lines, in its first block on the card.
\<close>

theorem test_fs_shows_file:
  assumes dev: "sd_ok (sd env)" and sb: "super_block f = std_super" and c: "current_running (kst f) = Some c"
    and d: "dir_at (sd env) f (cwd f) b es" and room: "length es < DENTRY_NUM" and new: "cs ''1.txt'' \<notin> fst ` set es"
    and free: "used_bits INODE_BIT_MAP_SIZE (inode_bit_map f) \<noteq> {k. unat k < INODE_MAX_NUMBER}"
    and used: "word_of_nat (cwd f) \<in> used_bits INODE_BIT_MAP_SIZE (inode_bit_map f)"
    and blocks: "card (used_bits DATA_BLOCK_BIT_MAP_SIZE (block_bit_map f)) + 16 \<le> DATA_BLOCK_MAX_NUMBER"
  shows "\<exists>g i k. test_fs_body env buff f = Some g \<and> test_fs env buff f = invoke env sys_exit g \<and>
    screen_write (banner @ concat (replicate 10 hello)) (screen_move_cursor 1 1 (scr (kst f))) = Some (scr (kst g)) \<and>
    isize (nodes g i) = 130 \<and> direct (nodes g i) 0 = blk_offset k \<and> k < DATA_BLOCK_MAX_NUMBER \<and>
    (\<forall>j < 130. blk_bytes (sd env) (disk g) k j = hello ! (j mod 13))"
proof -
  let ?nm = "buf_of (cs ''1.txt'')"
  have nm: "cstr ?nm 0 (cs ''1.txt'')" "component (cs ''1.txt'')" "cs ''1.txt'' \<noteq> []" "length (cs ''1.txt'') < MAX_NAME_LEN"
    by (rule cstr_buf_of) (simp_all add: component_def)
  let ?s0 = "screen_move_cursor 1 1 (scr (kst f))"
  have mv: "invoke env (sys_move_cursor 1 1) f = Some (with_scr f ?s0)"
    by (rule invoke_move_cursor) (simp_all add: int_range_def)
  have "cursor_from 0 ?s0" by (simp add: cursor_from_def screen_move_cursor_def)
  then obtain x where x: "screen_write banner ?s0 = Some x" "cursor_from 0 x"
    using screen_write_from [of 0 ?s0 banner] by auto
  define f2 where "f2 = with_scr f x"
  have pr: "printf env banner [] (with_scr f ?s0) = Some f2"
    by (subst printf_text [of _ _ banner]) (use x(1) in \<open>simp_all add: f2_def banner_out banner_nz\<close>)
  have on: "only_scr f f2" unfolding f2_def by (rule only_scrI)
  note eq = only_scr_maps [OF on] only_scr_dir [OF on]
  obtain f3 i where f3: "do_fopen (sd env) (stack_junk env) (Some ?nm) 3 f2 = Some f3" "super_block f3 = std_super"
    "current_running (kst f3) = Some c" "fd_file (fd (pcb (kst f3) c)) = Some i" "fd_pos (fd (pcb (kst f3) c)) = 0"
    "i < INODE_MAX_NUMBER" "isize (nodes f3 i) = 0" "block_bit_map f3 = block_bit_map f2" "scr (kst f3) = scr (kst f2)"
    by (rule fopen_creates [of "sd env" f2 b es ?nm "cs ''1.txt''" c "stack_junk env" 3])
      (use dev sb c d room nm new free used eq in \<open>simp_all add: f2_def\<close>)
  have rm: "card (used_bits DATA_BLOCK_BIT_MAP_SIZE (block_bit_map f3)) + 16 \<le> DATA_BLOCK_MAX_NUMBER"
    using blocks f3(8) eq by simp
  have ten: "(9 :: nat) < 300" "Suc 9 = 10" by simp_all
  obtain f4 k where f4: "write_lines env 10 f3 = Some f4" "has_lines (sd env) c i k 10 f4" "scr (kst f4) = scr (kst f3)"
    using write_lines_spec [OF dev f3(2-7) rm ten(1)] unfolding ten(2) by blast
  define f5 where "f5 = upd_desc c (\<lambda>d. d\<lparr>fd_pos := 0\<rparr>) f4"
  have f5: "do_fseek 0 0 f4 = Some f5" "has_lines (sd env) c i k 10 f5" "fd_pos (fd (pcb (kst f5) c)) = 0" "scr (kst f5) = x"
    using f4 f3(9) by (simp_all add: do_fseek_def the_desc_def has_lines_def f5_def upd_desc_def f2_def)
  obtain b6 f6 where f6: "read_lines env 10 (buff, f5) = Some (b6, f6)" "has_lines (sd env) c i k 10 f6"
    "screen_write (concat (replicate 10 hello)) (scr (kst f5)) = Some (scr (kst f6))"
    by (rule read_lines_spec [OF dev f5(2) _ f3(6) f5(3), of buff]) (use x(2) f5(4) in simp_all)
  define g where "g = upd_desc c (\<lambda>d. d\<lparr>fd_pos := 0, file_access := 0\<rparr>) f6"
  have g: "do_fclose 0 f6 = Some g" "has_lines (sd env) c i k 10 g" "scr (kst g) = scr (kst f6)"
    using f6(2) by (simp_all add: do_fclose_def the_desc_def has_lines_def g_def upd_desc_def)
  have body: "test_fs_body env buff f = Some g"
    by (simp add: test_fs_body_def mv pr invoke_file_calls f3(1) f4(1) f5(1) f6(1) g(1) del: cs_Cons)
  then show ?thesis
    using g x(1) f6(3) f5(4) by (intro exI [of _ g] exI [of _ i] exI [of _ k])
      (simp add: test_fs_def screen_write_append has_lines_def)
qed

theorem test_fs_shows_file_witness:
  "\<exists>f g i k. dir_at ram_dev f 0 0 (dot_dirs 0 0) \<and> test_fs_body demo_env (\<lambda>_. 0) f = Some g \<and> isize (nodes g i) = 130 \<and>
     blk_bytes ram_dev (disk g) k 17 = 111"
proof -
  obtain f0 where f0: "super_block f0 = std_super" "cwd f0 = 0" "dir_at ram_dev f0 0 0 (dot_dirs 0 0)"
    "used_bits INODE_BIT_MAP_SIZE (inode_bit_map f0) = {0}" "used_bits DATA_BLOCK_BIT_MAP_SIZE (block_bit_map f0) = {0}"
    by (rule formatted_root) (rule that, assumption+)
  let ?f = "f0\<lparr>kst := demo_state\<rparr>"
  have d: "dir_at (sd demo_env) ?f (cwd ?f) 0 (dot_dirs 0 0)" using f0(2,3) by (simp add: dir_at_def demo_env_def)
  have n: "length (dot_dirs 0 0) < DENTRY_NUM" "cs ''1.txt'' \<notin> fst ` set (dot_dirs 0 0)" by simp_all
  have u: "used_bits INODE_BIT_MAP_SIZE (inode_bit_map ?f) \<noteq> {k. unat k < INODE_MAX_NUMBER}"
    "word_of_nat (cwd ?f) \<in> used_bits INODE_BIT_MAP_SIZE (inode_bit_map ?f)"
    using f0(2,4) some_unused by auto
  have s: "sd_ok (sd demo_env)" "super_block ?f = std_super" "current_running (kst ?f) = Some 0"
    "card (used_bits DATA_BLOCK_BIT_MAP_SIZE (block_bit_map ?f)) + 16 \<le> DATA_BLOCK_MAX_NUMBER"
    using f0(1,5) ram_ok by (simp_all add: demo_env_def demo_state_def)
  have h: "hello ! (17 mod 13) = 111" by (simp add: hello_def)
  obtain g i k where "test_fs_body demo_env (\<lambda>_. 0) ?f = Some g" "isize (nodes g i) = 130"
    "\<forall>j < 130. blk_bytes (sd demo_env) (disk g) k j = hello ! (j mod 13)"
    using test_fs_shows_file [OF s(1-3) d n u s(4), of "\<lambda>_. 0"] by blast
  moreover have "(17 :: nat) < 130" by simp
  ultimately have "blk_bytes ram_dev (disk g) k 17 = 111" using h by (simp add: demo_env_def)
  moreover have "dir_at ram_dev ?f 0 0 (dot_dirs 0 0)" using f0(3) by (simp add: dir_at_def)
  ultimately show ?thesis using \<open>test_fs_body demo_env (\<lambda>_. 0) ?f = Some g\<close> \<open>isize (nodes g i) = 130\<close> by blast
qed

end
