(* ===== verification/Mac.thy ===== *)
theory Mac
  imports Syscall
begin

text \<open>
  \<^verbatim>\<open>drivers/mac.c\<close> and \<^verbatim>\<open>drivers/mac.h\<close>: the registers and the descriptors of the network device. (The blocking half of the
  driver is in \<open>Irq\<close>.) Registers and descriptors are volatile: the device can answer a read with anything, and reads and
  writes can have effects. So the bus is an argument of the operations: a state of the machine and what a read and a
  write of a word do to it. \<open>hands_over\<close> and \<open>returns\<close> say what the loops of the driver rely on.
\<close>

subsection \<open>Data\<close>

record 'm bus =
  bus_read :: "u32 \<Rightarrow> 'm \<Rightarrow> u32 \<times> 'm"
  bus_write :: "u32 \<Rightarrow> u32 \<Rightarrow> 'm \<Rightarrow> 'm"

record mac_t =
  psize :: u32
  pnum :: u32
  mac_addr :: u32
  dma_addr :: u32
  saddr :: u32
  daddr :: u32
  saddr_phy :: u32
  daddr_phy :: u32
  td :: u32
  rd :: u32
  td_phy :: u32
  rd_phy :: u32

abbreviation "GMAC_BASE_ADDR \<equiv> (0xbfe10000 :: u32)"
abbreviation "DMA_BASE_ADDR \<equiv> (0xbfe11000 :: u32)"
abbreviation "PSIZE \<equiv> (256 :: u32)"
abbreviation "PNUM \<equiv> (64 :: u32)"
abbreviation "GmacAddr0Low \<equiv> (0x44 :: u32)"
abbreviation "GmacAddr0High \<equiv> (0x40 :: u32)"
abbreviation "DmaInterrupt \<equiv> (0x1c :: u32)"
abbreviation (input) "DmaIntDisable \<equiv> (0 :: u32)"
abbreviation "INT1_EN \<equiv> (0xbfd0105c :: u32)"
abbreviation "INT1_CLR \<equiv> (0xbfd01064 :: u32)"
abbreviation "INT1_POL \<equiv> (0xbfd01068 :: u32)"
abbreviation "INT1_EDGE \<equiv> (0xbfd0106c :: u32)"
abbreviation "OWN \<equiv> (0x80000000 :: u32)"

text \<open>The words of a descriptor, \<open>desc_t\<close>.\<close>

definition tdes0 :: "u32 \<Rightarrow> u32" where "tdes0 d = d"
definition tdes1 :: "u32 \<Rightarrow> u32" where "tdes1 d = d + 4"
definition tdes3 :: "u32 \<Rightarrow> u32" where "tdes3 d = d + 12"

subsection \<open>Operations\<close>

definition reg_read_32 :: "'m bus \<Rightarrow> u32 \<Rightarrow> 'm \<Rightarrow> u32 \<times> 'm" where
  "reg_read_32 bus addr m = bus_read bus addr m"

definition read_register :: "'m bus \<Rightarrow> u32 \<Rightarrow> u32 \<Rightarrow> 'm \<Rightarrow> u32 \<times> 'm" where
  "read_register bus base offset m = (let addr = base + offset in bus_read bus addr m)"

definition reg_write_32 :: "'m bus \<Rightarrow> u32 \<Rightarrow> u32 \<Rightarrow> 'm \<Rightarrow> 'm" where
  "reg_write_32 bus addr v m = bus_write bus addr v m"

definition gmac_get_mac_addr :: "'m bus \<Rightarrow> buffer \<Rightarrow> 'm \<Rightarrow> buffer \<times> 'm" where
  "gmac_get_mac_addr bus b m =
     (let (a, m1) = read_register bus GMAC_BASE_ADDR GmacAddr0Low m;
          b1 = b(0 := ucast (a AND 0xff), 1 := ucast (drop_bit 8 a AND 0xff), 2 := ucast (drop_bit 16 a AND 0xff),
                 3 := ucast (drop_bit 24 a AND 0xff));
          (a2, m2) = read_register bus GMAC_BASE_ADDR GmacAddr0High m1
      in (b1(4 := ucast (a2 AND 0xff), 5 := ucast (drop_bit 8 a2 AND 0xff)), m2))"

definition print_tx_dscrb :: "'d sysenv \<Rightarrow> mac_t \<Rightarrow> 'd fs_t \<Rightarrow> 'd fs_t option" where
  "print_tx_dscrb env mac f = do {
     f1 \<leftarrow> printf env (cs ''send buffer mac->saddr=0x%x '') [VInt (saddr mac)] f;
     f2 \<leftarrow> printf env (cs ''mac->saddr_phy=0x%x '') [VInt (saddr_phy mac)] f1;
     printf env (cs ''send discrb mac->td_phy=0x%x'' @ [10]) [VInt (td_phy mac)] f2 }"

definition print_rx_dscrb :: "'d sysenv \<Rightarrow> mac_t \<Rightarrow> 'd fs_t \<Rightarrow> 'd fs_t option" where
  "print_rx_dscrb env mac f = do {
     f1 \<leftarrow> printf env (cs ''recieve buffer add mac->daddr=0x%x '') [VInt (daddr mac)] f;
     f2 \<leftarrow> printf env (cs ''mac->daddr_phy=0x%x '') [VInt (daddr_phy mac)] f1;
     printf env (cs ''recieve discrb add mac->rd_phy=0x%x'' @ [10]) [VInt (rd_phy mac)] f2 }"

definition irq_enable :: "'m bus \<Rightarrow> int \<Rightarrow> 'm \<Rightarrow> 'm" where
  "irq_enable bus irqn m = bus_write bus INT1_EN LS1C_MAC_IRQ m"

text \<open>The bytes of a word from the last to the first; the first round reads the byte behind the word.\<close>

definition reverse :: "buffer \<Rightarrow> buffer option" where
  "reverse s = for_upto_opt 0 4 (\<lambda>i buf. if 4 - i < 4 then Some (buf(i := s (4 - i))) else None) (\<lambda>_. 0)"

definition set_sram_ctr :: "'m bus \<Rightarrow> 'm \<Rightarrow> 'm" where
  "set_sram_ctr bus m = bus_write bus 0xbfd00420 0x8000 m"

text \<open>The loop of \<open>s_reset\<close>; the countdown inside of it has no other effect.\<close>

partial_function (option) reset_loop :: "'m bus \<Rightarrow> mac_t \<Rightarrow> 'm \<Rightarrow> 'm option" where
  "reset_loop bus mac m =
     (let (v, m1) = reg_read_32 bus (dma_addr mac) m
      in if v AND 1 \<noteq> 0 then reset_loop bus mac (reg_write_32 bus (dma_addr mac) 1 m1) else Some m1)"

definition s_reset :: "'m bus \<Rightarrow> mac_t \<Rightarrow> 'm \<Rightarrow> 'm option" where
  "s_reset bus mac m = reset_loop bus mac (reg_write_32 bus (dma_addr mac) 1 m)"

definition disable_interrupt_all :: "'m bus \<Rightarrow> mac_t \<Rightarrow> 'm \<Rightarrow> 'm" where
  "disable_interrupt_all bus mac m = reg_write_32 bus (dma_addr mac + DmaInterrupt) DmaIntDisable m"

definition MacAddr :: "u8 list" where
  "MacAddr = [0x00, 0x55, 0x7b, 0xb5, 0x7d, 0xf7]"

definition set_mac_addr :: "'m bus \<Rightarrow> mac_t \<Rightarrow> 'm \<Rightarrow> 'm" where
  "set_mac_addr bus mac m =
     (let byte = (\<lambda>i. ucast (MacAddr ! i) :: u32);
          m1 = reg_write_32 bus (mac_addr mac + 0x40) (push_bit 8 (byte 5) OR byte 4) m
      in reg_write_32 bus (mac_addr mac + 0x44)
           (push_bit 24 (byte 3) OR push_bit 16 (byte 2) OR push_bit 8 (byte 1) OR byte 0) m1)"

text \<open>Both directions: pass a descriptor to the device.\<close>

definition pass_desc :: "'m bus \<Rightarrow> u32 \<Rightarrow> u32 \<Rightarrow> 'm \<Rightarrow> 'm" where
  "pass_desc bus demand cur m = reg_write_32 bus demand 1 (bus_write bus (tdes0 cur) OWN m)"

partial_function (option) recv_loop :: "'m bus \<Rightarrow> u32 \<Rightarrow> 'm \<Rightarrow> 'm option" where
  "recv_loop bus cur m =
     (let m1 = pass_desc bus (DMA_BASE_ADDR + 0x8) cur m;
          (link, m2) = bus_read bus (tdes3 cur) m1;
          cur1 = link OR 0xa0000000;
          (ctl, m3) = bus_read bus (tdes1 cur1) m2
      in if ctl AND push_bit 25 1 \<noteq> 0 then Some m3 else recv_loop bus cur1 m3)"

definition recv_setup :: "'m bus \<Rightarrow> u32 \<Rightarrow> 'm \<Rightarrow> 'm" where
  "recv_setup bus phy m =
     (let m1 = reg_write_32 bus (DMA_BASE_ADDR + 0xc) phy m;
          (v, m2) = reg_read_32 bus GMAC_BASE_ADDR m1;
          m3 = reg_write_32 bus GMAC_BASE_ADDR (v OR 0x4) m2;
          (w, m4) = reg_read_32 bus (GMAC_BASE_ADDR + 0x18) m3;
          m5 = reg_write_32 bus (DMA_BASE_ADDR + 0x18) (w OR 0x02200002) m4
      in reg_write_32 bus (DMA_BASE_ADDR + 0x1c) (0x10001 OR push_bit 6 1) m5)"

definition do_net_recv :: "'m bus \<Rightarrow> u32 \<Rightarrow> u32 \<Rightarrow> u32 \<Rightarrow> 'm \<Rightarrow> (u32 \<times> 'm) option" where
  "do_net_recv bus ring phy buf m = map_option (Pair 0) (recv_loop bus ring (recv_setup bus phy m))"

partial_function (option) wait_sent :: "'m bus \<Rightarrow> u32 \<Rightarrow> 'm \<Rightarrow> 'm option" where
  "wait_sent bus cur m =
     (let (v, m1) = bus_read bus (tdes0 cur) m
      in if v AND OWN \<noteq> 0 then wait_sent bus cur m1 else Some m1)"

partial_function (option) send_loop :: "'m bus \<Rightarrow> u32 \<Rightarrow> 'm \<Rightarrow> 'm option" where
  "send_loop bus cur m = do {
     m1 \<leftarrow> wait_sent bus cur (pass_desc bus (DMA_BASE_ADDR + 0x4) cur m);
     let (ctl, m2) = bus_read bus (tdes1 cur) m1;
     if ctl AND push_bit 25 1 \<noteq> 0 then Some m2
     else (let (link, m3) = bus_read bus (tdes3 cur) m2 in send_loop bus (link OR 0xa0000000) m3) }"

definition send_setup :: "'m bus \<Rightarrow> u32 \<Rightarrow> 'm \<Rightarrow> 'm" where
  "send_setup bus phy m =
     (let m1 = reg_write_32 bus (DMA_BASE_ADDR + 0x10) phy m;
          (v, m2) = reg_read_32 bus GMAC_BASE_ADDR m1;
          m3 = reg_write_32 bus GMAC_BASE_ADDR (v OR 0x8) m2;
          (w, m4) = reg_read_32 bus (DMA_BASE_ADDR + 0x18) m3;
          m5 = reg_write_32 bus (DMA_BASE_ADDR + 0x18) (w OR 0x02202000) m4
      in reg_write_32 bus (DMA_BASE_ADDR + 0x1c) (0x10001 OR push_bit 6 1) m5)"

definition do_net_send :: "'m bus \<Rightarrow> u32 \<Rightarrow> u32 \<Rightarrow> 'm \<Rightarrow> 'm option" where
  "do_net_send bus ring phy m = send_loop bus ring (send_setup bus phy m)"

definition do_init_mac :: "'m bus \<Rightarrow> mac_t \<Rightarrow> 'm \<Rightarrow> 'm option" where
  "do_init_mac bus test_mac0 m = do {
     let test_mac = test_mac0\<lparr>mac_addr := 0xbfe10000, dma_addr := 0xbfe11000, psize := PSIZE * 4, pnum := PNUM\<rparr>;
     m2 \<leftarrow> s_reset bus test_mac (set_sram_ctr bus m);
     let m4 = set_mac_addr bus test_mac (disable_interrupt_all bus test_mac m2);
     let m5 = bus_write bus INT1_CLR 0xfffffff m4;
     let m6 = bus_write bus INT1_POL 0xfffffff m5;
     Some (bus_write bus INT1_EDGE 0 m6) }"

declare reset_loop.simps [code] recv_loop.simps [code] wait_sent.simps [code] send_loop.simps [code]

subsection \<open>What the driver relies on\<close>

text \<open>Software has linked the descriptors \<open>ds\<close> to a list: \<open>words\<close> are the contents of their second and fourth words.\<close>

fun chained :: "(u32 \<Rightarrow> u32) \<Rightarrow> u32 list \<Rightarrow> bool" where
  "chained words [] \<longleftrightarrow> False"
| "chained words [d] \<longleftrightarrow> words (tdes1 d) AND push_bit 25 1 \<noteq> 0"
| "chained words (d # e # ds) \<longleftrightarrow> words (tdes1 d) AND push_bit 25 1 = 0 \<and> words (tdes3 d) OR 0xa0000000 = e \<and>
     chained words (e # ds)"

text \<open>The registers that are written before the first descriptor is passed.\<close>

definition setup_regs :: "u32 set" where
  "setup_regs = {GMAC_BASE_ADDR, DMA_BASE_ADDR + 0xc, DMA_BASE_ADDR + 0x10, DMA_BASE_ADDR + 0x18, DMA_BASE_ADDR + 0x1c}"

text \<open>
  The device, in the states \<open>ok\<close>, leaves the second and fourth words of descriptors alone, takes a descriptor when its owner bit
  is set and the demand register is written (\<open>given\<close> lists the descriptors taken), and nothing else passes one to it.
\<close>

definition hands_over :: "'m bus \<Rightarrow> u32 \<Rightarrow> ('m \<Rightarrow> bool) \<Rightarrow> (u32 \<Rightarrow> u32) \<Rightarrow> ('m \<Rightarrow> u32 list) \<Rightarrow> u32 list \<Rightarrow> bool" where
  "hands_over bus demand ok words given ds \<longleftrightarrow>
     (\<forall>m a. ok m \<longrightarrow> ok (snd (bus_read bus a m)) \<and> given (snd (bus_read bus a m)) = given m) \<and>
     (\<forall>m. ok m \<longrightarrow> (\<forall>d\<in>set ds. fst (bus_read bus (tdes1 d) m) = words (tdes1 d) \<and> fst (bus_read bus (tdes3 d) m) = words (tdes3 d))) \<and>
     (\<forall>m a v. ok m \<longrightarrow> a \<in> setup_regs \<longrightarrow>
        ok (bus_write bus a v m) \<and> given (bus_write bus a v m) = given m) \<and>
     (\<forall>m. ok m \<longrightarrow> (\<forall>d\<in>set ds. let m' = bus_write bus demand 1 (bus_write bus (tdes0 d) OWN m) in ok m' \<and> given m' = given m @ [d]))"

text \<open>A descriptor passed to the device comes back: after finitely many reads its owner bit is seen cleared.\<close>

definition returns :: "'m bus \<Rightarrow> u32 \<Rightarrow> ('m \<Rightarrow> bool) \<Rightarrow> u32 list \<Rightarrow> bool" where
  "returns bus demand ok ds \<longleftrightarrow>
     (\<forall>m. ok m \<longrightarrow> (\<forall>d\<in>set ds. let m' = bus_write bus demand 1 (bus_write bus (tdes0 d) OWN m) in
        \<exists>k. fst (bus_read bus (tdes0 d) (((\<lambda>m. snd (bus_read bus (tdes0 d) m)) ^^ k) m')) AND OWN = 0))"

lemma hands_overD:
  assumes "hands_over bus demand ok words given ds" "ok m"
  shows "ok (snd (bus_read bus a m))" "given (snd (bus_read bus a m)) = given m"
    "d \<in> set ds \<Longrightarrow> fst (bus_read bus (tdes1 d) m) = words (tdes1 d)"
    "d \<in> set ds \<Longrightarrow> fst (bus_read bus (tdes3 d) m) = words (tdes3 d)"
    "a \<in> setup_regs \<Longrightarrow> ok (bus_write bus a v m)"
    "a \<in> setup_regs \<Longrightarrow>
      given (bus_write bus a v m) = given m"
    "d \<in> set ds \<Longrightarrow> ok (pass_desc bus demand d m)" "d \<in> set ds \<Longrightarrow> given (pass_desc bus demand d m) = given m @ [d]"
  using assms by (simp_all add: hands_over_def pass_desc_def reg_write_32_def Let_def)

lemma setup_keeps:
  assumes "hands_over bus demand ok words given ds" "ok m"
  shows "ok (send_setup bus phy m)" "given (send_setup bus phy m) = given m"
    "ok (recv_setup bus phy m)" "given (recv_setup bus phy m) = given m"
  using assms
  by (simp_all add: send_setup_def recv_setup_def reg_write_32_def reg_read_32_def Let_def split_beta hands_overD setup_regs_def)

lemma wait_sent_returns:
  assumes h: "hands_over bus demand ok words given ds"
  shows "ok m \<Longrightarrow> fst (bus_read bus (tdes0 d) (((\<lambda>m. snd (bus_read bus (tdes0 d) m)) ^^ k) m)) AND OWN = 0 \<Longrightarrow>
    \<exists>m'. wait_sent bus d m = Some m' \<and> ok m' \<and> given m' = given m"
proof (induction k arbitrary: m)
  case 0
  then show ?case by (subst wait_sent.simps) (simp add: Let_def split_beta hands_overD [OF h])
next
  case (Suc k)
  let ?m = "snd (bus_read bus (tdes0 d) m)"
  have i: "ok ?m" "given ?m = given m" using hands_overD [OF h Suc.prems(1)] by simp_all
  have "wait_sent bus d m = (if fst (bus_read bus (tdes0 d) m) AND OWN \<noteq> 0 then wait_sent bus d ?m else Some ?m)"
    by (subst wait_sent.simps) (simp add: Let_def split_beta)
  then show ?case using Suc.IH [OF i(1)] Suc.prems(2) i by (simp add: funpow_Suc_right del: funpow.simps)
qed

lemma pass_and_wait:
  assumes h: "hands_over bus demand ok words given ds" and r: "returns bus demand ok ds" and "d \<in> set ds" "ok m"
  obtains m' where "wait_sent bus d (pass_desc bus demand d m) = Some m'" "ok m'" "given m' = given m @ [d]"
proof -
  obtain k where "fst (bus_read bus (tdes0 d) (((\<lambda>m. snd (bus_read bus (tdes0 d) m)) ^^ k) (pass_desc bus demand d m))) AND OWN = 0"
    using r assms(3,4) unfolding returns_def pass_desc_def reg_write_32_def Let_def by blast
  from wait_sent_returns [OF h _ this] show ?thesis using that hands_overD [OF h assms(4)] assms(3) by auto
qed

lemma send_loop_all:
  assumes h: "hands_over bus (DMA_BASE_ADDR + 0x4) ok words given ds" and r: "returns bus (DMA_BASE_ADDR + 0x4) ok ds"
  shows "chained words es \<Longrightarrow> set es \<subseteq> set ds \<Longrightarrow> ok m \<Longrightarrow>
    \<exists>m'. send_loop bus (hd es) m = Some m' \<and> ok m' \<and> given m' = given m @ es"
proof (induction es arbitrary: m rule: induct_list012)
  case (2 d)
  then obtain m1 where m1: "wait_sent bus d (pass_desc bus (DMA_BASE_ADDR + 0x4) d m) = Some m1" "ok m1" "given m1 = given m @ [d]"
    using pass_and_wait [OF h r, of d m] by auto
  then show ?case using 2 hands_overD [OF h m1(2)]
    by (subst send_loop.simps) (simp add: Let_def split_beta)
next
  case (3 d e es)
  then obtain m1 where m1: "wait_sent bus d (pass_desc bus (DMA_BASE_ADDR + 0x4) d m) = Some m1" "ok m1" "given m1 = given m @ [d]"
    using pass_and_wait [OF h r, of d m] by auto
  let ?m2 = "snd (bus_read bus (tdes1 d) m1)" let ?m3 = "snd (bus_read bus (tdes3 d) ?m2)"
  note rd1 = hands_overD [OF h m1(2)]
  note rd2 = hands_overD [OF h rd1(1), of "tdes3 d" "tdes1 d"]
  have "send_loop bus d m = send_loop bus e ?m3"
    using 3 m1(1) rd1(3) [of d] hands_overD(4) [OF h rd1(1), of d "tdes1 d"]
    by (subst send_loop.simps) (simp add: Let_def split_beta)
  then show ?case using 3(2) [of ?m3] 3(3,4) m1(3) rd1 rd2 by simp
qed simp

lemma recv_loop_all:
  assumes h: "hands_over bus (DMA_BASE_ADDR + 0x8) ok words given ds"
  shows "chained words (d # e # es) \<Longrightarrow> set (d # e # es) \<subseteq> set ds \<Longrightarrow> ok m \<Longrightarrow>
    \<exists>m'. recv_loop bus d m = Some m' \<and> ok m' \<and> given m' = given m @ butlast (d # e # es)"
proof (induction es arbitrary: d e m)
  case Nil
  let ?m1 = "pass_desc bus (DMA_BASE_ADDR + 0x8) d m" let ?m2 = "snd (bus_read bus (tdes3 d) ?m1)"
  have m1: "ok ?m1" "given ?m1 = given m @ [d]" using hands_overD [OF h Nil(3)] Nil(2) by simp_all
  note rd1 = hands_overD [OF h m1(1)]
  note rd2 = hands_overD [OF h rd1(1), of "tdes1 e" "tdes3 d"]
  show ?case
    using Nil rd1(4) [of d] hands_overD(3) [OF h rd1(1), of e "tdes3 d"] rd1 rd2 m1(2)
    by (subst recv_loop.simps) (simp add: Let_def split_beta)
next
  case (Cons e' es)
  let ?m1 = "pass_desc bus (DMA_BASE_ADDR + 0x8) d m" let ?m2 = "snd (bus_read bus (tdes3 d) ?m1)"
  let ?m3 = "snd (bus_read bus (tdes1 e) ?m2)"
  have m1: "ok ?m1" "given ?m1 = given m @ [d]" using hands_overD [OF h Cons(4)] Cons(3) by simp_all
  note rd1 = hands_overD [OF h m1(1)]
  note rd2 = hands_overD [OF h rd1(1), of "tdes1 e" "tdes3 d"]
  have "recv_loop bus d m = recv_loop bus e ?m3"
    using Cons(2,3) rd1(4) [of d] hands_overD(3) [OF h rd1(1), of e "tdes3 d"]
    by (subst recv_loop.simps) (simp add: Let_def split_beta)
  then show ?case using Cons(1) [of e e' ?m3] Cons(2,3) rd1 rd2 m1(2) by simp
qed

subsection \<open>Properties\<close>

text \<open>
  Sending packets. For descriptors linked to a list of which only the last one carries the end mark, and a device that takes
  descriptors on demand and gives them back, \<open>do_net_send\<close> returns after it has passed exactly these descriptors to the device,
  in their order.
\<close>

theorem net_send_passes_all:
  assumes "hands_over bus (DMA_BASE_ADDR + 0x4) ok words given ds" "returns bus (DMA_BASE_ADDR + 0x4) ok ds" "chained words ds" "ok m"
  shows "\<exists>m'. do_net_send bus (hd ds) phy m = Some m' \<and> ok m' \<and> given m' = given m @ ds"
  using send_loop_all [OF assms(1,2,3) subset_refl, of "send_setup bus phy m"] setup_keeps [OF assms(1,4), of phy]
  by (simp add: do_net_send_def)

text \<open>
  C38: Receiving leaves out a descriptor. \<open>do_net_recv\<close> goes on to the next descriptor before it looks for the end mark, so of a
  list of two or more descriptors it passes all but the last one to the device.
\<close>

theorem net_recv_omits_last:
  assumes "hands_over bus (DMA_BASE_ADDR + 0x8) ok words given ds" "chained words ds" "2 \<le> length ds" "ok m"
  shows "\<exists>m'. do_net_recv bus (hd ds) phy buf m = Some (0, m') \<and> ok m' \<and> given m' = given m @ butlast ds"
proof -
  obtain d e es where ds: "ds = d # e # es" using assms(3) by (cases ds; cases "tl ds") auto
  show ?thesis
    using recv_loop_all [OF assms(1), of d e es "recv_setup bus phy m"] setup_keeps [OF assms(1,4), of phy] assms(2)
    by (auto simp: do_net_recv_def ds)
qed

text \<open>A device that takes a descriptor and gives it back at once, and two linked descriptors.\<close>

record nic =
  nic_mem :: "u32 \<Rightarrow> u32"
  nic_last :: u32
  nic_given :: "u32 list"

definition nic_bus :: "nic bus" where
  "nic_bus = \<lparr>bus_read = (\<lambda>a m. (nic_mem m a, m)),
     bus_write = (\<lambda>a v m.
       if a = DMA_BASE_ADDR + 0x4 \<or> a = DMA_BASE_ADDR + 0x8
       then m\<lparr>nic_given := nic_given m @ [nic_last m], nic_mem := (nic_mem m)(nic_last m := 0)\<rparr>
       else m\<lparr>nic_mem := (nic_mem m)(a := v), nic_last := if v = OWN then a else nic_last m\<rparr>)\<rparr>"

definition two_descs :: "u32 list" where
  "two_descs = [0xa1000000, 0xa1000010]"

definition link_words :: "u32 \<Rightarrow> u32" where
  "link_words a = (if a = 0xa1000014 then push_bit 25 1 else if a = 0xa100000c then 0x01000010 else 0)"

definition links_in :: "nic \<Rightarrow> bool" where
  "links_in m \<longleftrightarrow> (\<forall>d\<in>set two_descs. nic_mem m (tdes1 d) = link_words (tdes1 d) \<and> nic_mem m (tdes3 d) = link_words (tdes3 d))"

lemma nic_ok:
  assumes "demand = DMA_BASE_ADDR + 0x4 \<or> demand = DMA_BASE_ADDR + 0x8"
  shows "hands_over nic_bus demand links_in link_words nic_given two_descs" "returns nic_bus demand links_in two_descs"
proof -
  show "hands_over nic_bus demand links_in link_words nic_given two_descs"
    using assms by (auto simp: hands_over_def nic_bus_def links_in_def two_descs_def setup_regs_def tdes0_def tdes1_def tdes3_def)
  show "returns nic_bus demand links_in two_descs"
    unfolding returns_def Let_def
  proof (intro allI impI ballI exI [of _ 0])
    fix m d assume "d \<in> set two_descs"
    then show "fst (bus_read nic_bus (tdes0 d) (((\<lambda>m. snd (bus_read nic_bus (tdes0 d) m)) ^^ 0)
        (bus_write nic_bus demand 1 (bus_write nic_bus (tdes0 d) OWN m)))) AND OWN = 0"
      using assms by (auto simp: nic_bus_def two_descs_def tdes0_def)
  qed
qed

lemma nic_links:
  "chained link_words two_descs" "links_in \<lparr>nic_mem = link_words, nic_last = 0, nic_given = []\<rparr>"
  by (simp_all add: two_descs_def link_words_def tdes1_def tdes3_def links_in_def)

theorem net_send_passes_all_witness:
  "\<exists>m'. do_net_send nic_bus 0xa1000000 0x01000000 \<lparr>nic_mem = link_words, nic_last = 0, nic_given = []\<rparr> = Some m' \<and>
     nic_given m' = [0xa1000000, 0xa1000010]"
  using net_send_passes_all [OF nic_ok(1,2) [OF disjI1 [OF refl]] nic_links, of "0x01000000"] by (auto simp: two_descs_def)

theorem net_recv_omits_last_witness:
  "\<exists>m'. do_net_recv nic_bus 0xa1000000 0x01000000 0 \<lparr>nic_mem = link_words, nic_last = 0, nic_given = []\<rparr> = Some (0, m') \<and>
     nic_given m' = [0xa1000000]"
  using net_recv_omits_last [OF nic_ok(1) [OF disjI2 [OF refl]] nic_links(1) _ nic_links(2), of "0x01000000" 0] by (auto simp: two_descs_def)

lemma reverse_undefined: "reverse s = None"
  by (simp add: reverse_def for_upto_opt_def upt_conv_Cons)

text \<open>The hardware address: what \<open>set_mac_addr\<close> writes, \<open>gmac_get_mac_addr\<close> reads back from registers that keep their contents.\<close>

lemma mac_addr_roundtrip:
  assumes "\<And>m a v b. fst (bus_read bus b (bus_write bus a v m)) = (if b = a then v else fst (bus_read bus b m))"
    "\<And>m a b. fst (bus_read bus b (snd (bus_read bus a m))) = fst (bus_read bus b m)"
    "mac_addr mac = GMAC_BASE_ADDR"
  shows "map (fst (gmac_get_mac_addr bus buf (set_mac_addr bus mac m))) [0..<6] = MacAddr"
proof -
  have e: "[0..<6] = [0, 1, 2, 3, 4, 5 :: nat]" by (simp add: upt_conv_Cons)
  show ?thesis unfolding e
    by (simp add: gmac_get_mac_addr_def set_mac_addr_def read_register_def reg_write_32_def MacAddr_def assms Let_def split_beta)
qed

end
