(* ===== verification/Test_Net.thy ===== *)
theory Test_Net
  imports Mac Shell
begin

text \<open>
  The network tasks of \<^verbatim>\<open>test/test_net/test_mac3.c\<close>: they link the descriptors, set the device up and pass the descriptors to
  the driver. The addresses of \<open>descriptor_pool\<close>, \<open>buffer\<close> and \<open>r_buffer\<close> are arguments, since the linker chooses them; the
  system calls on the network are calls of the functions of \<^verbatim>\<open>drivers/mac.c\<close> that the system call table has for them.
  The state of a task is the handler that \<open>mac_int_handler\<close> holds, the state of the kernel and the state of the machine.
\<close>

subsection \<open>Operations\<close>

type_synonym irq_handler = "kstate \<Rightarrow> kstate option"

abbreviation "NET_BUFFER_SIZE \<equiv> (1024 :: u32)"
abbreviation "DmaStatus \<equiv> (0x14 :: u32)"
abbreviation "DmaControl \<equiv> (0x18 :: u32)"

definition tdes2 :: "u32 \<Rightarrow> u32" where "tdes2 d = d + 8"

definition register_irq_handler :: "u32 \<Rightarrow> irq_handler \<Rightarrow> irq_handler option \<Rightarrow> irq_handler option" where
  "register_irq_handler num h mac_int_handler = (if num = LS1C_MAC_IRQ then Some h else mac_int_handler)"

text \<open>The characters of a word from the fourth to the first; the first one is read behind the word.\<close>

definition turned_word :: "u32 \<Rightarrow> u32 \<Rightarrow> u32" where
  "turned_word w next_w =
     push_bit 24 (drop_bit 8 w AND 0xff) OR push_bit 16 (drop_bit 16 w AND 0xff) OR push_bit 8 (drop_bit 24 w AND 0xff) OR (next_w AND 0xff)"

partial_function (option) print_words :: "'d sysenv \<Rightarrow> 'm bus \<Rightarrow> u32 \<Rightarrow> nat \<Rightarrow> 'd fs_t \<times> 'm \<Rightarrow> ('d fs_t \<times> 'm) option" where
  "print_words env bus p n st =
     (let (f, m) = st; (w, m1) = bus_read bus p m
      in if w = 0 then Some (f, m1)
         else (let (w1, m2) = bus_read bus p m1; (w2, m3) = bus_read bus (p + 4) m2
               in case printf env (cs ''%x '') [VInt (turned_word w1 w2)] f of
                    None \<Rightarrow> None
                  | Some f1 \<Rightarrow>
                      (case (if Suc n mod 8 = 0 then printf env [10] [] f1 else Some f1) of
                         None \<Rightarrow> None
                       | Some f2 \<Rightarrow> print_words env bus (p + 4) (Suc n) (f2, m3))))"

definition printf_recv_buffer :: "'d sysenv \<Rightarrow> 'm bus \<Rightarrow> u32 \<Rightarrow> 'd fs_t \<times> 'm \<Rightarrow> ('d fs_t \<times> 'm) option" where
  "printf_recv_buffer env bus recv_buffer = print_words env bus recv_buffer 0"

definition clear_interrupt :: "'m bus \<Rightarrow> 'm \<Rightarrow> 'm" where
  "clear_interrupt bus m =
     (let (v, m1) = reg_read_32 bus (0xbfe11000 + DmaStatus) m in reg_write_32 bus (0xbfe11000 + DmaStatus) v m1)"

text \<open>The physical address of an address in an unmapped segment, and the descriptor after \<open>i\<close> of \<open>n\<close>.\<close>

definition phys :: "u32 \<Rightarrow> u32" where "phys a = a AND 0x1fffffff"

definition next_desc :: "u32 \<Rightarrow> nat \<Rightarrow> nat \<Rightarrow> u32" where
  "next_desc pool n i = pool + 16 * word_of_nat (if i = n - 1 then 0 else i + 1)"

definition write_desc :: "'m bus \<Rightarrow> u32 \<Rightarrow> u32 \<Rightarrow> u32 \<Rightarrow> u32 \<Rightarrow> u32 \<Rightarrow> 'm \<Rightarrow> 'm" where
  "write_desc bus d w0 w1 w2 w3 m =
     bus_write bus (tdes3 d) w3 (bus_write bus (tdes2 d) w2 (bus_write bus (tdes1 d) w1 (bus_write bus (tdes0 d) w0 m)))"

definition send_ctl :: "nat \<Rightarrow> nat \<Rightarrow> u32" where
  "send_ctl n i = push_bit 31 (if i = n - 1 then 0 else 1) OR push_bit 30 1 OR push_bit 29 1 OR
     push_bit 25 (if i = n - 1 then 1 else 0) OR push_bit 24 1 OR PSIZE * 4"

definition mac_send_desc_init :: "'m bus \<Rightarrow> u32 \<Rightarrow> u32 \<Rightarrow> mac_t \<Rightarrow> 'm \<Rightarrow> mac_t \<times> 'm" where
  "mac_send_desc_init bus pool buf mac m =
     (let n = unat (pnum mac);
          m1 = for_upto 0 n (\<lambda>i. write_desc bus (pool + 16 * word_of_nat i) OWN (send_ctl n i) (phys buf) (phys (next_desc pool n i))) m
      in (mac\<lparr>saddr := buf, saddr_phy := phys buf, td := pool, td_phy := phys pool\<rparr>, m1))"

definition recv_ctl :: "nat \<Rightarrow> nat \<Rightarrow> u32" where
  "recv_ctl n i = push_bit 31 (if i = n - 1 then 0 else 1) OR push_bit 25 (if i = n - 1 then 1 else 0) OR push_bit 24 1 OR NET_BUFFER_SIZE"

definition mac_recv_desc_init :: "'m bus \<Rightarrow> u32 \<Rightarrow> u32 \<Rightarrow> mac_t \<Rightarrow> 'm \<Rightarrow> mac_t \<times> 'm" where
  "mac_recv_desc_init bus pool bufs mac m =
     (let n = unat (pnum mac);
          m1 = for_upto 0 n (\<lambda>i. write_desc bus (pool + 16 * word_of_nat i) OWN (recv_ctl n i)
            (phys (bufs + NET_BUFFER_SIZE * word_of_nat i)) (phys (next_desc pool n i))) m
      in (mac\<lparr>rd := pool, rd_phy := phys pool\<rparr>, m1))"

definition mii_dul_force :: "'m bus \<Rightarrow> mac_t \<Rightarrow> 'm \<Rightarrow> 'm" where
  "mii_dul_force bus mac m =
     (let m1 = reg_write_32 bus (dma_addr mac) 0x80 m;
          (v, m2) = reg_read_32 bus (mac_addr mac) m1;
          m3 = reg_write_32 bus (mac_addr mac) (v OR 0xc800 OR push_bit 8 1) m2;
          (w, m4) = reg_read_32 bus (mac_addr mac + 0x4) m3
      in reg_write_32 bus (mac_addr mac + 0x4) (w OR 0x80000001) m4)"

definition dma_control_init :: "'m bus \<Rightarrow> mac_t \<Rightarrow> u32 \<Rightarrow> 'm \<Rightarrow> 'm" where
  "dma_control_init bus mac init_value m = reg_write_32 bus (dma_addr mac + DmaControl) init_value m"

definition mac_irq_handle_send :: irq_handler where
  "mac_irq_handle_send s = Some s"

record ('d, 'm) net_t =
  mac_int_handler :: "irq_handler option"
  recv_flag :: "nat \<Rightarrow> u32"
  ch_flag :: u32
  kern :: "'d fs_t"
  mach :: 'm

text \<open>Output at a line of the screen.\<close>

definition show_at :: "'d sysenv \<Rightarrow> int \<Rightarrow> u8 list \<Rightarrow> va_arg list \<Rightarrow> ('d, 'm) net_t \<Rightarrow> ('d, 'm) net_t option" where
  "show_at env line fmt va st = do {
     f1 \<leftarrow> invoke env (sys_move_cursor 1 line) (kern st);
     f2 \<leftarrow> printf env fmt va f1;
     Some (st\<lparr>kern := f2\<rparr>) }"

definition test_mac :: "mac_t \<Rightarrow> mac_t" where
  "test_mac stale = stale\<lparr>mac_addr := 0xbfe10000, dma_addr := 0xbfe11000, psize := PSIZE * 4, pnum := PNUM\<rparr>"

text \<open>What both tasks do with the device after the descriptors are linked; the control word is
  \<open>DmaStoreAndForward | DmaTxSecondFrame | DmaRxThreshCtrl128\<close>.\<close>

definition set_up :: "'m bus \<Rightarrow> mac_t \<Rightarrow> 'm \<Rightarrow> 'm" where
  "set_up bus mac m =
     irq_enable bus (uint LS1C_MAC_IRQ) (mii_dul_force bus mac (clear_interrupt bus
       (dma_control_init bus mac (0x00200000 OR 0x4 OR 0x18) m)))"

definition mac_send_init :: "'m bus \<Rightarrow> u32 \<Rightarrow> u32 \<Rightarrow> mac_t \<Rightarrow> ('d, 'm) net_t \<Rightarrow> mac_t \<times> ('d, 'm) net_t" where
  "mac_send_init bus pool buf stale st =
     (let (mac, m1) = mac_send_desc_init bus pool buf (test_mac stale) (mach st)
      in (mac, st\<lparr>mach := set_up bus mac m1,
            mac_int_handler := register_irq_handler LS1C_MAC_IRQ mac_irq_handle_send (mac_int_handler st)\<rparr>))"

text \<open>A round of the loop of \<open>mac_send_task\<close>: the number of packets sent and the state.\<close>

definition send_round :: "'d sysenv \<Rightarrow> 'm bus \<Rightarrow> mac_t \<Rightarrow> u32 \<times> ('d, 'm) net_t \<Rightarrow> (u32 \<times> ('d, 'm) net_t) option" where
  "send_round env bus mac s = do {
     let (n, st) = s;
     m \<leftarrow> do_net_send bus (td mac) (td_phy mac) (mach st);
     let n1 = n + PNUM;
     st1 \<leftarrow> show_at env 2 (cs ''> [MAC SEND TASK] totally send package %d !        '' @ [10]) [VInt n1] (st\<lparr>mach := m\<rparr>);
     Some (n1, st1) }"

text \<open>The task up to \<open>sys_exit\<close>.\<close>

definition mac_send_body :: "'d sysenv \<Rightarrow> 'm bus \<Rightarrow> u32 \<Rightarrow> u32 \<Rightarrow> mac_t \<Rightarrow> ('d, 'm) net_t \<Rightarrow> (u32 \<times> ('d, 'm) net_t) option" where
  "mac_send_body env bus pool buf stale st = do {
     let (mac, st1) = mac_send_init bus pool buf stale st;
     st2 \<leftarrow> show_at env 2 (cs ''> [MAC SEND TASK] start send package.               '' @ [10]) [] st1;
     for_upto_opt 0 4 (\<lambda>_. send_round env bus mac) (0, st2) }"

definition mac_send_task :: "'d sysenv \<Rightarrow> 'm bus \<Rightarrow> u32 \<Rightarrow> u32 \<Rightarrow> mac_t \<Rightarrow> ('d, 'm) net_t \<Rightarrow> ('d, 'm) net_t option" where
  "mac_send_task env bus pool buf stale st = do {
     (_, st1) \<leftarrow> mac_send_body env bus pool buf stale st;
     f \<leftarrow> invoke env sys_exit (kern st1);
     Some (st1\<lparr>kern := f\<rparr>) }"

text \<open>\<open>mac_recv_task\<close> up to its call of \<open>sys_wait_recv_package\<close>; the Boolean says that it has to wait.\<close>

definition mac_recv_init :: "'d sysenv \<Rightarrow> 'm bus \<Rightarrow> u32 \<Rightarrow> u32 \<Rightarrow> mac_t \<Rightarrow> ('d, 'm) net_t \<Rightarrow> (bool \<times> mac_t \<times> ('d, 'm) net_t) option" where
  "mac_recv_init env bus pool bufs stale st = do {
     let (mac, m1) = mac_recv_desc_init bus pool bufs (test_mac stale) (mach st);
     let k = kst (kern st);
     let st1 = st\<lparr>mach := set_up bus mac m1,
       mac_int_handler := register_irq_handler LS1C_MAC_IRQ mac_irq_handle_recv (mac_int_handler st),
       kern := (kern st)\<lparr>kst := k\<lparr>queues := (queues k)(RecvQ := queue_init (queues k RecvQ))\<rparr>\<rparr>\<rparr>;
     st2 \<leftarrow> show_at env 1 (cs ''> [MAC RECV TASK] start recv:                    '' @ [10]) [] st1;
     (r, m3) \<leftarrow> do_net_recv bus (rd mac) (rd_phy mac) (daddr mac) (mach st2);
     let st3 = st2\<lparr>mach := m3, ch_flag := 0, recv_flag := for_upto 0 (unat PNUM) (\<lambda>i fl. fl(i := 0)) (recv_flag st2)\<rparr>;
     let (w, m4) = bus_read bus (rd mac + (PNUM - 1) * 16) m3;
     if w AND OWN = OWN
     then do {
       st4 \<leftarrow> show_at env 1 (cs ''> [MAC RECV TASK] waiting receive package.'' @ [10]) [] (st3\<lparr>mach := m4\<rparr>);
       Some (True, mac, st4) }
     else Some (False, mac, st3\<lparr>mach := m4\<rparr>) }"

definition mac_recv_wait :: "'d sysenv \<Rightarrow> ('d, 'm) net_t \<Rightarrow> (sys_result \<times> ('d, 'm) net_t) option" where
  "mac_recv_wait env st = do {
     (r, f) \<leftarrow> system_call_helper env (sys_wait_recv_package (unat PNUM - 1)) (kern st);
     Some (r, st\<lparr>kern := f\<rparr>) }"

text \<open>What follows the wait: the messages, the rounds of the loop up to \<open>sys_sleep\<close>, and the end.\<close>

definition mac_recv_head :: "'d sysenv \<Rightarrow> ('d, 'm) net_t \<Rightarrow> ('d, 'm) net_t option" where
  "mac_recv_head env st = do {
     f1 \<leftarrow> printf env (cs ''> [MAC RECV TASK] now received all package.'' @ [10]) [] (kern st);
     show_at env 4 (cs ''> [MAC RECV TASK] print them in order.'' @ [10]) [] (st\<lparr>kern := f1\<rparr>) }"

text \<open>A round: the next descriptor, or nothing after the last one.\<close>

definition mac_recv_round :: "'d sysenv \<Rightarrow> 'm bus \<Rightarrow> u32 \<Rightarrow> ('d, 'm) net_t \<Rightarrow> (u32 option \<times> ('d, 'm) net_t) option" where
  "mac_recv_round env bus cur st = do {
     let (w2, m1) = bus_read bus (tdes2 cur) (mach st);
     f1 \<leftarrow> invoke env (sys_move_cursor 1 5) (kern st);
     (f2, m2) \<leftarrow> printf_recv_buffer env bus (w2 OR 0xa0000000) (f1, m1);
     f3 \<leftarrow> printf env [10] [] f2;
     let (w1, m3) = bus_read bus (tdes1 cur) m2;
     if w1 AND push_bit 25 1 \<noteq> 0 then Some (None, st\<lparr>kern := f3, mach := m3\<rparr>)
     else do {
       let (w3, m4) = bus_read bus (tdes3 cur) m3;
       f4 \<leftarrow> invoke env (sys_sleep 200) f3;
       Some (Some (w3 OR 0xa0000000), st\<lparr>kern := f4, mach := m4\<rparr>) } }"

definition mac_recv_end :: "'d sysenv \<Rightarrow> ('d, 'm) net_t \<Rightarrow> ('d, 'm) net_t option" where
  "mac_recv_end env st = do {
     f1 \<leftarrow> printf env (cs ''> [MAC RECV TASK] receive end.'' @ [10]) [] (kern st);
     f2 \<leftarrow> invoke env sys_exit f1;
     Some (st\<lparr>kern := f2\<rparr>) }"

definition mac_init_task :: "'d sysenv \<Rightarrow> 'm bus \<Rightarrow> mac_t \<Rightarrow> ('d, 'm) net_t \<Rightarrow> ('d, 'm) net_t option" where
  "mac_init_task env bus stale st = do {
     st1 \<leftarrow> show_at env 1 (cs ''> [MAC INIT TASK] Waiting for MAC initialization .'' @ [10]) [] st;
     m \<leftarrow> do_init_mac bus stale (mach st1);
     st2 \<leftarrow> show_at env 1 (cs ''> [MAC INIT TASK] MAC initialization succeeded.           '' @ [10]) [] (st1\<lparr>mach := m\<rparr>);
     f \<leftarrow> invoke env sys_exit (kern st2);
     Some (st2\<lparr>kern := f\<rparr>) }"

subsection \<open>The device and its descriptors\<close>

text \<open>The second, third and fourth words of the \<open>n\<close> descriptors of the pool.\<close>

definition ctl_word :: "u32 \<Rightarrow> nat \<Rightarrow> u32 \<Rightarrow> bool" where
  "ctl_word pool n a \<longleftrightarrow> (\<exists>i < n. a \<in> {pool + 16 * word_of_nat i + 4, pool + 16 * word_of_nat i + 8, pool + 16 * word_of_nat i + 12})"

definition pool_descs :: "u32 \<Rightarrow> nat \<Rightarrow> u32 list" where
  "pool_descs pool n = map (\<lambda>i. pool + 16 * word_of_nat i) [0..<n]"

text \<open>
  The device of the documentation: control words are memory that only software writes, a descriptor is taken (\<open>given\<close>) when
  its owner bit is set and the demand register is written, by nothing else, and it comes back after finitely many reads.
\<close>

definition dma_device :: "'m bus \<Rightarrow> u32 \<Rightarrow> u32 \<Rightarrow> nat \<Rightarrow> ('m \<Rightarrow> u32 \<Rightarrow> u32) \<Rightarrow> ('m \<Rightarrow> u32 list) \<Rightarrow> bool" where
  "dma_device bus demand pool n cell given \<longleftrightarrow>
     (\<forall>m a b. ctl_word pool n b \<longrightarrow> fst (bus_read bus b m) = cell m b \<and> cell (snd (bus_read bus a m)) b = cell m b) \<and>
     (\<forall>m a v b. ctl_word pool n b \<longrightarrow> cell (bus_write bus a v m) b = (if b = a then v else cell m b)) \<and>
     (\<forall>m a. given (snd (bus_read bus a m)) = given m) \<and>
     (\<forall>m a v. a \<noteq> demand \<longrightarrow> given (bus_write bus a v m) = given m) \<and>
     (\<forall>m. \<forall>d \<in> set (pool_descs pool n). given (bus_write bus demand 1 (bus_write bus d OWN m)) = given m @ [d]) \<and>
     returns bus demand (\<lambda>m. True) (pool_descs pool n)"

text \<open>The pool lies in the unmapped, uncached segment below the registers of the devices.\<close>

definition pool_ok :: "u32 \<Rightarrow> nat \<Rightarrow> bool" where
  "pool_ok pool n \<longleftrightarrow> 0 < n \<and> 0xa0000000 \<le> unat pool \<and> unat pool + 16 * n \<le> 0xbf000000"

abbreviation desc_at :: "u32 \<Rightarrow> nat \<Rightarrow> u32" where
  "desc_at pool i \<equiv> pool + 16 * word_of_nat i"

lemma unat_desc:
  assumes "pool_ok pool n" "i < n" "j < 16"
  shows "unat (desc_at pool i + word_of_nat j) = unat pool + 16 * i + j"
proof -
  have e: "desc_at pool i + word_of_nat j = pool + word_of_nat (16 * i + j)" by simp
  have "unat pool + (16 * i + j) < 4294967296" using assms by (simp add: pool_ok_def)
  then show ?thesis unfolding e by (subst unat_plus_small) simp_all
qed

lemma unat_desc0: "pool_ok pool n \<Longrightarrow> i < n \<Longrightarrow> unat (desc_at pool i) = unat pool + 16 * i"
  using unat_desc [of pool n i 0] by simp

lemma unat_desc_words:
  assumes "pool_ok pool n" "i < n"
  shows "unat (desc_at pool i + 4) = unat pool + 16 * i + 4" "unat (desc_at pool i + 8) = unat pool + 16 * i + 8"
    "unat (desc_at pool i + 12) = unat pool + 16 * i + 12"
  using unat_desc [OF assms, of 4] unat_desc [OF assms, of 8] unat_desc [OF assms, of 12] by simp_all

lemma ctl_word_unat:
  assumes "pool_ok pool n"
  shows "ctl_word pool n a \<longleftrightarrow> (\<exists>i < n. unat a \<in> {unat pool + 16 * i + 4, unat pool + 16 * i + 8, unat pool + 16 * i + 12})"
  unfolding ctl_word_def using unat_desc_words [OF assms] by (auto simp: word_unat_eq_iff)

lemma ctl_of_desc: "i < n \<Longrightarrow> ctl_word pool n (desc_at pool i + 4)" "i < n \<Longrightarrow> ctl_word pool n (desc_at pool i + 12)"
  by (auto simp: ctl_word_def)

lemma desc_not_ctl: "pool_ok pool n \<Longrightarrow> i < n \<Longrightarrow> \<not> ctl_word pool n (desc_at pool i)"
  by (simp add: ctl_word_unat unat_desc0) presburger

lemma reg_not_ctl: "pool_ok pool n \<Longrightarrow> 0xbf000000 \<le> unat a \<Longrightarrow> \<not> ctl_word pool n a"
  by (auto simp: ctl_word_unat pool_ok_def)

lemma desc_not_reg:
  assumes "pool_ok pool n" "i < n" "0xbf000000 \<le> unat a"
  shows "desc_at pool i \<noteq> a" "desc_at pool i + 4 \<noteq> a" "desc_at pool i + 8 \<noteq> a" "desc_at pool i + 12 \<noteq> a"
  using assms unat_desc0 [OF assms(1,2)] unat_desc_words [OF assms(1,2)] by (auto simp: pool_ok_def)

lemma dma_deviceD:
  assumes "dma_device bus demand pool n cell given"
  shows "ctl_word pool n b \<Longrightarrow> fst (bus_read bus b m) = cell m b" "ctl_word pool n b \<Longrightarrow> cell (snd (bus_read bus a m)) b = cell m b"
    "ctl_word pool n b \<Longrightarrow> cell (bus_write bus a v m) b = (if b = a then v else cell m b)"
    "given (snd (bus_read bus a m)) = given m" "a \<noteq> demand \<Longrightarrow> given (bus_write bus a v m) = given m"
    "i < n \<Longrightarrow> given (bus_write bus demand 1 (bus_write bus (desc_at pool i) OWN m)) = given m @ [desc_at pool i]"
    "returns bus demand (\<lambda>m. True) (pool_descs pool n)"
  using assms by (auto simp: dma_device_def pool_descs_def)

text \<open>The descriptors are linked to a list that ends with the last one.\<close>

lemma segment_address:
  assumes "0xa0000000 \<le> unat a" "unat a < 0xc0000000"
  shows "phys a OR 0xa0000000 = a"
proof -
  have m: "(0x1fffffff :: u32) = mask 29" by (simp add: mask_eq_exp_minus_1)
  have "unat a div 536870912 = 5" using assms by simp
  then have "drop_bit 29 a = 5" by (simp only: word_unat_eq_iff unat_drop_bit_eq) (simp add: drop_bit_eq_div)
  then have h: "(0xa0000000 :: u32) = push_bit 29 (drop_bit 29 a)" by simp
  show ?thesis unfolding phys_def m h
  proof (rule bit_word_eqI)
    fix n assume "n < LENGTH(32)"
    then show "bit (a AND mask 29 OR push_bit 29 (drop_bit 29 a)) n = bit a n"
      unfolding bit_and_iff bit_or_iff bit_mask_iff bit_push_bit_iff bit_drop_bit_eq o_apply
      by (cases "n < 29") auto
  qed
qed

lemma chained_pool:
  assumes p: "pool_ok pool n"
    and w: "\<And>i. i < n \<Longrightarrow> wd (desc_at pool i + 4) AND push_bit 25 1 \<noteq> 0 \<longleftrightarrow> i = n - 1"
      "\<And>i. i < n \<Longrightarrow> wd (desc_at pool i + 12) = phys (next_desc pool n i)"
  shows "i < n \<Longrightarrow> chained wd (map (desc_at pool) [i..<n])"
proof (induction "n - Suc i" arbitrary: i)
  case 0
  then have "i = n - 1" "[i..<n] = [i]" by (auto simp: upt_conv_Cons)
  then show ?case using w(1) [of i] 0(2) by (simp add: tdes1_def)
next
  case (Suc k)
  then have i: "Suc i < n" "i \<noteq> n - 1" by simp_all
  have "[i..<n] = i # Suc i # [Suc (Suc i)..<n]" "[Suc i..<n] = Suc i # [Suc (Suc i)..<n]"
    using i by (simp_all add: upt_conv_Cons)
  moreover have "phys (desc_at pool (Suc i)) OR 0xa0000000 = desc_at pool (Suc i)"
    by (rule segment_address) (use unat_desc0 [OF p i(1)] p i(1) in \<open>simp_all add: pool_ok_def\<close>)
  moreover have "chained wd (map (desc_at pool) [Suc i..<n])" using Suc(1) [of "Suc i"] Suc(2) i(1) by simp
  ultimately show ?case using w [of i] i by (simp add: tdes1_def tdes3_def next_desc_def)
qed

lemma ctl_ends: "send_ctl n i AND push_bit 25 1 \<noteq> 0 \<longleftrightarrow> i = n - 1" "recv_ctl n i AND push_bit 25 1 \<noteq> 0 \<longleftrightarrow> i = n - 1"
  by (simp_all add: send_ctl_def recv_ctl_def)

lemma write_desc_cell:
  assumes dv: "dma_device bus demand pool n cell given" and p: "pool_ok pool n" and i: "i < n" and b: "ctl_word pool n b"
  shows "cell (write_desc bus (desc_at pool i) w0 w1 w2 w3 m) b =
    (if b = desc_at pool i + 12 then w3 else if b = desc_at pool i + 8 then w2 else if b = desc_at pool i + 4 then w1 else cell m b)"
proof -
  have "b \<noteq> desc_at pool i" using desc_not_ctl [OF p i] b by auto
  then show ?thesis by (simp add: write_desc_def tdes0_def tdes1_def tdes2_def tdes3_def dma_deviceD(3) [OF dv b])
qed

lemma desc_words_differ:
  assumes p: "pool_ok pool n" and "i < n" "j < n" "i \<noteq> j" and "a \<in> {4, 12}"
  shows "desc_at pool j + a \<notin> {desc_at pool i + 4, desc_at pool i + 8, desc_at pool i + 12}"
proof
  assume "desc_at pool j + a \<in> {desc_at pool i + 4, desc_at pool i + 8, desc_at pool i + 12}"
  then have "unat (desc_at pool j + a) \<in> {unat pool + 16 * i + 4, unat pool + 16 * i + 8, unat pool + 16 * i + 12}"
    unfolding unat_desc_words [OF p assms(2), symmetric] by (simp only: insert_iff empty_iff) (elim disjE; simp only: simp_thms)
  moreover have "unat (desc_at pool j + a) = unat pool + 16 * j + 4 \<or> unat (desc_at pool j + a) = unat pool + 16 * j + 12"
    using unat_desc_words [OF p assms(3)] assms(5) by (elim insertE emptyE) simp_all
  ultimately show False using assms(4) by (elim insertE emptyE disjE) linarith+
qed

text \<open>The loop that links the descriptors, for both directions.\<close>

lemma link_loop:
  fixes c w x :: "nat \<Rightarrow> u32"
  assumes dv: "dma_device bus demand pool n cell given" and p: "pool_ok pool n" and dm: "0xbf000000 \<le> unat demand"
  defines "run \<equiv> \<lambda>k m. for_upto 0 k (\<lambda>i. write_desc bus (desc_at pool i) OWN (c i) (w i) (x i)) m"
  shows "k \<le> n \<Longrightarrow> given (run k m) = given m \<and>
    (\<forall>j < k. cell (run k m) (desc_at pool j + 4) = c j \<and> cell (run k m) (desc_at pool j + 12) = x j)"
proof (induction k)
  case 0
  then show ?case by (simp add: run_def)
next
  case (Suc k)
  then have k: "k < n" "k \<le> n" by simp_all
  have r: "run (Suc k) m = write_desc bus (desc_at pool k) OWN (c k) (w k) (x k) (run k m)" by (simp add: run_def for_upto_Suc)
  have "given (run (Suc k) m) = given (run k m)"
    unfolding r write_desc_def tdes0_def tdes1_def tdes2_def tdes3_def
    by (simp add: dma_deviceD(5) [OF dv] desc_not_reg [OF p k(1) dm])
  moreover have "cell (run (Suc k) m) (desc_at pool k + 4) = c k \<and> cell (run (Suc k) m) (desc_at pool k + 12) = x k"
    unfolding r by (simp add: write_desc_cell [OF dv p k(1)] ctl_of_desc k(1))
  moreover have "cell (run (Suc k) m) (desc_at pool j + a) = cell (run k m) (desc_at pool j + a)" if "j < k" "a \<in> {4, 12}" for j a
  proof -
    have j: "j < n" "k \<noteq> j" using that k by simp_all
    have "ctl_word pool n (desc_at pool j + a)" using that(2) ctl_of_desc [OF j(1)] by auto
    then show ?thesis using desc_words_differ [OF p k(1) j that(2)] unfolding r by (simp add: write_desc_cell [OF dv p k(1)])
  qed
  ultimately show ?case using Suc.IH k by (auto simp: less_Suc_eq)
qed

text \<open>A descriptor list whose control words are in place, as the driver expects it.\<close>

definition linked :: "('m \<Rightarrow> u32 \<Rightarrow> u32) \<Rightarrow> u32 \<Rightarrow> nat \<Rightarrow> (u32 \<Rightarrow> u32) \<Rightarrow> 'm \<Rightarrow> bool" where
  "linked cell pool n wd m \<longleftrightarrow> (\<forall>j < n. cell m (desc_at pool j + 4) = wd (desc_at pool j + 4) \<and> cell m (desc_at pool j + 12) = wd (desc_at pool j + 12))"

lemma linked_read: "dma_device bus demand pool n cell given \<Longrightarrow> linked cell pool n wd m \<Longrightarrow> linked cell pool n wd (snd (bus_read bus a m))"
  by (simp add: linked_def dma_deviceD(2) ctl_of_desc)

lemma linked_write:
  assumes dv: "dma_device bus demand pool n cell given" and a: "\<not> ctl_word pool n a" and l: "linked cell pool n wd m"
  shows "linked cell pool n wd (bus_write bus a v m)"
proof -
  have "cell (bus_write bus a v m) b = cell m b" if "ctl_word pool n b" for b
    using dma_deviceD(3) [OF dv that, of a v m] a that by auto
  then show ?thesis using l by (simp add: linked_def ctl_of_desc)
qed

lemma device_hands_over:
  assumes dv: "dma_device bus demand pool n cell given" and p: "pool_ok pool n"
    and dm: "demand = DMA_BASE_ADDR + 0x4 \<or> demand = DMA_BASE_ADDR + 0x8"
  shows "hands_over bus demand (linked cell pool n wd) wd given (pool_descs pool n)"
    and "returns bus demand (linked cell pool n wd) (pool_descs pool n)"
proof -
  have reg: "a \<in> setup_regs \<Longrightarrow> \<not> ctl_word pool n a \<and> a \<noteq> demand" for a
    using dm by (auto simp: setup_regs_def intro!: reg_not_ctl [OF p])
  have dreg: "\<not> ctl_word pool n demand" using dm by (auto intro!: reg_not_ctl [OF p])
  show "returns bus demand (linked cell pool n wd) (pool_descs pool n)"
    using dma_deviceD(7) [OF dv] by (simp add: returns_def)
  show "hands_over bus demand (linked cell pool n wd) wd given (pool_descs pool n)"
    unfolding hands_over_def
  proof (intro conjI allI impI ballI)
    fix m a v d assume l: "linked cell pool n wd m"
    show "linked cell pool n wd (snd (bus_read bus a m))" by (rule linked_read [OF dv l])
    show "given (snd (bus_read bus a m)) = given m" by (rule dma_deviceD(4) [OF dv])
    show "linked cell pool n wd (bus_write bus a v m)" "given (bus_write bus a v m) = given m" if "a \<in> setup_regs"
      using reg [OF that] linked_write [OF dv _ l] dma_deviceD(5) [OF dv] by auto
    assume "d \<in> set (pool_descs pool n)"
    then obtain i where i: "i < n" "d = desc_at pool i" by (auto simp: pool_descs_def)
    show "fst (bus_read bus (tdes1 d) m) = wd (tdes1 d)" "fst (bus_read bus (tdes3 d) m) = wd (tdes3 d)"
      using l i by (simp_all add: tdes1_def tdes3_def dma_deviceD(1) [OF dv] ctl_of_desc linked_def)
    show "let m' = bus_write bus demand 1 (bus_write bus (tdes0 d) OWN m) in linked cell pool n wd m' \<and> given m' = given m @ [d]"
      using i linked_write [OF dv dreg linked_write [OF dv desc_not_ctl [OF p i(1)] l]] dma_deviceD(6) [OF dv i(1)]
      by (simp add: tdes0_def Let_def)
  qed
qed

lemma setup_links:
  assumes dv: "dma_device bus demand pool n cell given" and p: "pool_ok pool n"
    and dm: "demand = DMA_BASE_ADDR + 0x4 \<or> demand = DMA_BASE_ADDR + 0x8" and l: "linked cell pool n wd m"
    and mac: "dma_addr mac = DMA_BASE_ADDR" "mac_addr mac = GMAC_BASE_ADDR"
  shows "linked cell pool n wd (set_up bus mac m) \<and> given (set_up bus mac m) = given m"
proof -
  define keep where "keep m' \<longleftrightarrow> linked cell pool n wd m' \<and> given m' = given m" for m'
  have wr: "keep (bus_write bus a v m')" if "keep m'" "0xbf000000 \<le> unat a" "a \<noteq> demand" for a v m'
    using that linked_write [OF dv reg_not_ctl [OF p that(2)]] dma_deviceD(5) [OF dv that(3)] by (simp add: keep_def)
  have rd: "keep (snd (bus_read bus a m'))" if "keep m'" for a m'
    using that linked_read [OF dv] dma_deviceD(4) [OF dv] by (simp add: keep_def)
  have "keep m" using l by (simp add: keep_def)
  then have "keep (set_up bus mac m)"
    unfolding set_up_def irq_enable_def mii_dul_force_def clear_interrupt_def dma_control_init_def reg_write_32_def reg_read_32_def
      Let_def split_beta mac
    by (intro wr rd) (use dm in auto)
  then show ?thesis by (simp add: keep_def)
qed

subsection \<open>The sending task\<close>

lemma show_at_runs:
  assumes "args_ok fmt va" "1 \<le> line" "line < int SCREEN_HEIGHT"
  obtains f where "show_at env line fmt va st = Some (st\<lparr>kern := f\<rparr>)"
proof -
  let ?g = "(kern st)\<lparr>kst := (kst (kern st))\<lparr>scr := screen_move_cursor 1 line (scr (kst (kern st)))\<rparr>\<rparr>"
  have mv: "invoke env (sys_move_cursor 1 line) (kern st) = Some ?g"
    by (rule invoke_move_cursor) (use assms in \<open>simp_all add: int_range_def\<close>)
  have "cursor_from 0 (scr (kst ?g))" using assms by (simp add: cursor_from_def screen_move_cursor_def)
  moreover obtain out where "mini_vsnprintf 256 fmt va = Some out" using mini_vsnprintf_total [OF assms(1)] by blast
  ultimately obtain f where "printf env fmt va ?g = Some f" using printf_shows [of fmt va out 0 ?g env] by auto
  then show ?thesis using that mv by (simp add: show_at_def)
qed

lemma send_round_passes:
  assumes h: "hands_over bus (DMA_BASE_ADDR + 0x4) ok wd given ds" and r: "returns bus (DMA_BASE_ADDR + 0x4) ok ds"
    and c: "chained wd ds" and ok: "ok (mach st)" and td: "td mac = hd ds"
  obtains f m where "send_round env bus mac (k, st) = Some (k + PNUM, st\<lparr>mach := m, kern := f\<rparr>)" "ok m" "given m = given (mach st) @ ds"
proof -
  obtain m where m: "do_net_send bus (hd ds) (td_phy mac) (mach st) = Some m" "ok m" "given m = given (mach st) @ ds"
    using send_loop_all [OF h r c subset_refl, of "send_setup bus (td_phy mac) (mach st)"] setup_keeps [OF h ok, of "td_phy mac"]
    by (auto simp: do_net_send_def)
  have a: "args_ok (cs ''> [MAC SEND TASK] totally send package %d !        '' @ [10]) [VInt (k + PNUM)]" by simp
  obtain f where "show_at env 2 (cs ''> [MAC SEND TASK] totally send package %d !        '' @ [10]) [VInt (k + PNUM)] (st\<lparr>mach := m\<rparr>) =
      Some (st\<lparr>mach := m, kern := f\<rparr>)"
    by (rule show_at_runs [OF a, of 2 env "st\<lparr>mach := m\<rparr>"]) auto
  then have "send_round env bus mac (k, st) = Some (k + PNUM, st\<lparr>mach := m, kern := f\<rparr>)"
    using m(1) td by (simp add: send_round_def Let_def del: cs_Cons)
  then show ?thesis using that m by blast
qed


text \<open>A device that takes the descriptor whose owner bit was set last and gives it back at once.\<close>

definition ring_bus :: "u32 \<Rightarrow> u32 \<Rightarrow> nat \<Rightarrow> nic bus" where
  "ring_bus demand pool n = \<lparr>bus_read = (\<lambda>a m. (nic_mem m a, m)),
     bus_write = (\<lambda>a v m.
       if a = demand
       then m\<lparr>nic_given := nic_given m @ [nic_last m],
              nic_mem := (if ctl_word pool n (nic_last m) then nic_mem m else (nic_mem m)(nic_last m := 0))\<rparr>
       else m\<lparr>nic_mem := (nic_mem m)(a := v), nic_last := if v = OWN then a else nic_last m\<rparr>)\<rparr>"

lemma ring_ok:
  assumes p: "pool_ok pool n" and dm: "0xbf000000 \<le> unat demand"
  shows "dma_device (ring_bus demand pool n) demand pool n nic_mem nic_given"
proof -
  have r: "\<not> ctl_word pool n demand" by (rule reg_not_ctl [OF p dm])
  have d: "\<not> ctl_word pool n x" "x \<noteq> demand" if x: "x \<in> set (pool_descs pool n)" for x
  proof -
    obtain i where "i < n" "x = desc_at pool i" using x by (auto simp: pool_descs_def)
    then show "\<not> ctl_word pool n x" "x \<noteq> demand" using desc_not_ctl [OF p] desc_not_reg(1) [OF p _ dm] by blast+
  qed
  have "returns (ring_bus demand pool n) demand (\<lambda>m. True) (pool_descs pool n)"
    unfolding returns_def Let_def
  proof (intro allI impI ballI exI [of _ 0])
    fix m x assume "x \<in> set (pool_descs pool n)"
    then show "fst (bus_read (ring_bus demand pool n) (tdes0 x) (((\<lambda>m. snd (bus_read (ring_bus demand pool n) (tdes0 x) m)) ^^ 0)
        (bus_write (ring_bus demand pool n) demand 1 (bus_write (ring_bus demand pool n) (tdes0 x) OWN m)))) AND OWN = 0"
      using d by (simp add: ring_bus_def tdes0_def)
  qed
  then show ?thesis
    unfolding dma_device_def using r d by (auto simp: ring_bus_def)
qed

definition blank_mac :: mac_t where
  "blank_mac = \<lparr>psize = 0, pnum = 0, mac_addr = 0, dma_addr = 0, saddr = 0, daddr = 0, saddr_phy = 0, daddr_phy = 0, td = 0,
     rd = 0, td_phy = 0, rd_phy = 0\<rparr>"


end
