(* ===== verification/Spec2Isabelle.thy ===== *)
theory Spec2Isabelle
  imports Mailbox Tlb Boot Rbtree Createimage Test_Fs Test_Net
begin

text \<open>
  A verification development of \<open>mips_os\<close>, a small operating system kernel for a MIPS board, written in C.

  \<^bold>\<open>The program.\<close> The kernel (\<^verbatim>\<open>src/kernel\<close>, \<^verbatim>\<open>src/init\<close>) runs up to 16 processes. Their control
  blocks are linked into intrusive queues (\<^verbatim>\<open>kernel/sched/queue.c\<close>): five ready queues by priority, the
  queue of sleepers, and one queue per lock, semaphore, condition variable, barrier and process. The scheduler
  (\<^verbatim>\<open>kernel/sched/sched.c\<close>) serves the ready queues by quotas; the locking code (\<^verbatim>\<open>kernel/locking\<close>)
  blocks and wakes processes through it; spawn, exit and kill create and destroy them. Memory
  management (\<^verbatim>\<open>kernel/mm/memory.c\<close>) hands out page frames and keeps two-level page tables. The file
  system (\<^verbatim>\<open>kernel/fs/fs.c\<close>) keeps inodes, two bit maps and directories on an SD card and copies of
  them in memory. User code reaches all of this through system calls (\<^verbatim>\<open>kernel/syscall\<close>), the timer and the network
  device through interrupts (\<^verbatim>\<open>kernel/irq\<close>), the user through a shell (\<^verbatim>\<open>kernel/shell\<close>). Text goes through \<^verbatim>\<open>libs/printk.c\<close> to a screen buffer (\<^verbatim>\<open>drivers/screen.c\<close>) and from
  there, incrementally, to a serial port.

  \<^bold>\<open>Conventions.\<close> Machine integers are \<open>word\<close>s with wrap-around (\<open>u8\<close>, \<open>u32\<close>), a \<open>char\<close> array is a
  function from offsets to bytes (\<open>buffer\<close>). State is passed explicitly: the globals of the kernel are the
  record \<open>kstate\<close>, those of memory management and of the file system the records \<open>mem\<close> and \<open>fs_t\<close>, which
  contains a \<open>kstate\<close>. A pointer to a struct in a global array is its index. A function with an input for
  which the C code has no defined behaviour, or does not return, maps into \<open>option\<close>; \<open>None\<close> is "no
  defined outcome". Loops that may not end are \<open>partial_function\<close>s, so there is no fuel, and theorems state
  that the result is \<open>Some\<close>.

  \<^bold>\<open>Theories\<close>, in the order in which they build on each other:

  \<^item> \<open>Kernel_Prelude\<close>: types, bounded loops and their invariant rules, pointer chains, and the locale
    \<open>allocator\<close>, the interface of everything that hands out and takes back units (page frames, inodes, data
    blocks).
  \<^item> \<open>Kqueue\<close> (\<^verbatim>\<open>queue.c\<close>): the queues as linked structures that share their link fields;
    \<open>queue_rep\<close> relates them to lists, the locale \<open>fifo_queue\<close> is their contract, and clients use
    the interpretation \<open>kq\<close>.
  \<^item> \<open>Kstring\<close>, \<open>Kprintf\<close>, \<open>Screen\<close> (\<^verbatim>\<open>string.c\<close>, \<^verbatim>\<open>printk.c\<close>, \<^verbatim>\<open>screen.c\<close>): strings,
    formatting, and the screen with its incremental refresh.
  \<^item> \<open>Kstate\<close>, \<open>Sched\<close> (\<^verbatim>\<open>sched.h\<close>, \<^verbatim>\<open>sched.c\<close>, \<^verbatim>\<open>time.c\<close>): the state, the invariant \<open>sched_inv\<close>
    (queues well formed, every process in at most one place, no live process lost), and the scheduler as a
    refinement of a scheduler on lists.
  \<^item> \<open>Algo\<close>, \<open>Rbtree\<close> (\<^verbatim>\<open>algo.c\<close>): the sorting of locks; the red-black tree as nodes in a heap, with a
    functional repair on trees with a path as its specification.
  \<^item> \<open>Sync\<close> (\<^verbatim>\<open>lock.c\<close>, \<^verbatim>\<open>sem.c\<close>, \<^verbatim>\<open>cond.c\<close>, \<^verbatim>\<open>barrier.c\<close>): each call up to the point where it
    gives up the processor, and the interleavings of calls as a step relation, on which mutual exclusion and
    the limit of a semaphore are invariants by rule induction.
  \<^item> \<open>Mailbox\<close> (\<^verbatim>\<open>mailbox.c\<close>): mailboxes; sending and receiving are sequences of system calls, interleaved by a
    step relation over the one of \<open>Sync\<close>, whose invariants give those of the ring.
  \<^item> \<open>Proc\<close> (\<^verbatim>\<open>sched.c\<close>, \<^verbatim>\<open>main.c\<close>): creating, spawning, exiting, killing, waiting, boot.
  \<^item> \<open>Bytes\<close>, \<open>Mm\<close> (\<^verbatim>\<open>memory.c\<close>, parts of \<^verbatim>\<open>sched.c\<close>): little-endian words in byte memory; frame
    allocator, page tables in that memory, address translation, copies between address spaces.
  \<^item> \<open>Tlb\<close> (\<^verbatim>\<open>memory.c\<close>, \<^verbatim>\<open>sched.c\<close>, \<^verbatim>\<open>entry.S\<close>): the TLB and the registers of coprocessor 0, the functions that
    write entries, the static page tables, the exception handler that refills the TLB or asks for a new page.
  \<^item> \<open>Fs_Disk\<close>, \<open>Fs_Path\<close>, \<open>Fs_File\<close> (\<^verbatim>\<open>fs.c\<close>, \<^verbatim>\<open>fs.h\<close>): the medium and its metadata, names and
    directories, files. The SD card driver is not part of the sources; it is an argument of the
    operations, and \<open>sd_ok\<close> (a read returns the bytes written last) is a named hypothesis, which \<open>ram_ok\<close>
    shows to hold for a card in memory.

  \<^item> \<open>Irq\<close> (\<^verbatim>\<open>irq.c\<close>, parts of \<^verbatim>\<open>mac.c\<close>): interrupt dispatch, the timer tick, the wake-up by the network device.
  \<^item> \<open>Syscall\<close> (\<^verbatim>\<open>syscall.c\<close>, \<^verbatim>\<open>syscall.h\<close>, \<^verbatim>\<open>main.c\<close>, \<^verbatim>\<open>input.c\<close>): numbers, table, stubs and dispatch of the system
    calls, on the operations of all other components; what lies outside of the kernel is the record \<open>sysenv\<close>.
  \<^item> \<open>Shell\<close> (\<^verbatim>\<open>shell.c\<close>): the commands, the splitting of a line into words, the line editor.
  \<^item> \<open>Boot\<close> (\<^verbatim>\<open>main.c\<close>): the start of the kernel, which composes the initialisation of all components.
  \<^item> \<open>Mac\<close> (\<^verbatim>\<open>mac.c\<close>, \<^verbatim>\<open>mac.h\<close>): registers and descriptors of the network device over a bus, which is an argument;
    \<open>hands_over\<close> and \<open>returns\<close> are the hypotheses on the device, and \<open>nic_ok\<close> shows a device that satisfies them.
  \<^item> \<open>Test_Fs\<close>, \<open>Test_Net\<close> (\<^verbatim>\<open>test/test_fs/test_fs.c\<close>, \<^verbatim>\<open>test/test_net/test_mac3.c\<close>): the user programs, as sequences of
    system calls; \<open>dma_device\<close> is the hypothesis on the network device, which \<open>ring_ok\<close> shows to hold for a simple one.
  \<^item> \<open>Createimage\<close> (\<^verbatim>\<open>tools/createimage.c\<close>): the host tool that builds the boot image.

  \<^bold>\<open>What is proved.\<close> The scheduler refines its specification, keeps the invariant and serves queue 0
  (\<open>scheduler_refines\<close>, \<open>scheduler_keeps_processes\<close>, \<open>queue_zero_served\<close>); boot establishes the invariant, and
  blocking, waking, exit and kill keep it (\<open>boot_invariant\<close>, \<open>do_exit_cleans_up\<close>, \<open>do_kill_effect\<close>).
  Locks exclude each other and semaphores admit at most their count in every interleaving
  (\<open>mutual_exclusion\<close>, \<open>semaphore_limit\<close>), and on top of them mailboxes are first-in first-out buffers
  (\<open>mailbox_fifo\<close>). Frames are fresh and cleared, mappings are kept, data copied to a
  new page is read back (\<open>kalloc_kfree_correct\<close>, \<open>add_2_page_maps\<close>, \<open>copy_user_roundtrip\<close>), and a first access to
  a region brings its page into the TLB, if the address is one that the handler finds (\<open>demand_paging\<close>, \<open>refill_aliases\<close>). A new
  file system is well formed, its metadata survives a reboot, write-back of dirty blocks equals
  writing everything, path lookup refines lookup in a graph, the directory commands change exactly what
  they should, and bytes written to a file are read back (\<open>mkfs_formats\<close>, \<open>flush_survives_reboot\<close>,
  \<open>dirty_writeback_equiv\<close>, \<open>path_lookup_refines\<close>, \<open>touch_then_lookup\<close>, \<open>mkdir_then_lookup\<close>, \<open>rm_unlinks\<close>,
  \<open>file_write_read\<close>). System calls reach the function they are meant for, and interrupts and system calls keep the
  invariant of the kernel (\<open>syscalls_reach_handlers\<close>, \<open>syscalls_keep_invariant\<close>, \<open>interrupts_keep_invariant\<close>); a
  file is created by typing a line (\<open>typed_touch_creates_file\<close>) and is found again after a restart
  (\<open>file_survives_restart\<close>, at the end of this theory). The red-black tree stays one as long as no right child
  is rotated to the left (\<open>rb_insert_correct\<close>), the network driver passes all descriptors of a list on
  (\<open>net_send_passes_all\<close>), also those that the sending task links (\<open>send_task_sends_all\<close>), the test program prints the
  file that it has written (\<open>test_fs_shows_file\<close>), and the boot image has its parts at their places (\<open>image_layout\<close>). Output stays within its buffers, the refresh shows the whole screen, and numbers
  survive printing and reading. Further theorems state precisely where the code departs from
  what it means to do, for instance \<open>fwrite_boundary_diverges\<close> and \<open>semaphore_up_strands\<close>.

  \<^bold>\<open>Not modelled\<close>: assembly (saving and restoring of registers at exceptions and context switches, boot block, cache instructions), the functions of
  the firmware and of the SD card driver, which are not part of the sources and appear as arguments.
\<close>

section \<open>Properties that span the components\<close>

text \<open>
  C10: A file survives a restart. In the root directory of a file system whose metadata is on the card, \<open>do_touch\<close> creates a file;
  whatever the memory of the kernel contains later, as long as its queues are empty, a start with this card comes up with
  the shell ready, the invariant of the scheduler in force and the exception handlers in place, and \<open>name_parse\<close> finds the file
  with the inode it was given.
\<close>

theorem file_survives_restart:
  assumes dev: "sd_ok dev" and sb: "super_block f = std_super" and meta: "meta_on_disk dev f (disk f)"
    and wf: "\<forall>i. inode_wf (nodes f i)" and cwd: "cwd f = 0"
    and d: "dir_at dev f 0 b es" and room: "length es < DENTRY_NUM"
    and nm: "cstr nm 0 xs" "component xs" "xs \<noteq> []" "length xs < MAX_NAME_LEN" and new: "xs \<notin> fst ` set es"
    and free: "used_bits INODE_BIT_MAP_SIZE (inode_bit_map f) \<noteq> {k. unat k < INODE_MAX_NUMBER}"
    and used: "0 \<in> used_bits INODE_BIT_MAP_SIZE (inode_bit_map f)"
    and code: "outside_vectors (jmp_exception_handler_entry lb) 256" "outside_vectors (jmp_TLB_exception_handler_entry lb) 180"
  shows "\<exists>g k. do_touch dev stk (Some nm) f = Some g \<and>
    (\<forall>m f0. disk f0 = disk g \<longrightarrow> zeroed_kernel (kst f0) \<longrightarrow>
      (\<exists>m' h. start dev jnk lb (m, f0) = Some (m', h) \<and>
        name_parse dev stk (Some nm) h = Some (Some k, h) \<and> nodes h k = nodes g k \<and>
        current_running (kst h) = Some 0 \<and> sched_inv (kst h) ((\<lambda>_. [])(ReadyQ 0 := [1])) \<and>
        (\<forall>i<256. m' (0x80000180 + word_of_nat i) = m (jmp_exception_handler_entry lb + word_of_nat i))))"
proof -
  have s: "super_on_disk dev (disk f)" "table_synced dev f" using meta meta_synced [OF meta] by (simp_all add: meta_on_disk_def)
  obtain g k where g: "do_touch dev stk (Some nm) f = Some g" "dir_at dev g 0 b (es @ [(xs, file_type, k)])"
    "itype (nodes g (unat k)) = file_type" "meta_on_disk dev g (disk g)" "unat k < INODE_MAX_NUMBER" "\<forall>i. inode_wf (nodes g i)"
    by (rule do_touch_effect [of dev f b es nm xs stk]) (use assms s in simp_all)
  have "\<exists>m' h. start dev jnk lb (m, f0) = Some (m', h) \<and>
        name_parse dev stk (Some nm) h = Some (Some (unat k), h) \<and> nodes h (unat k) = nodes g (unat k) \<and>
        current_running (kst h) = Some 0 \<and> sched_inv (kst h) ((\<lambda>_. [])(ReadyQ 0 := [1])) \<and>
        (\<forall>i<256. m' (0x80000180 + word_of_nat i) = m (jmp_exception_handler_entry lb + word_of_nat i))"
    if f0: "disk f0 = disk g" "zeroed_kernel (kst f0)" for m f0
  proof -
    have m0: "meta_on_disk dev g (disk f0)" using g(4) f0(1) by simp
    obtain h where h: "start dev jnk lb (m, f0) =
        Some (init_exception (jmp_exception_handler_entry lb) (jmp_TLB_exception_handler_entry lb) m, h)"
      "current_running (kst h) = Some 0" "sched_inv (kst h) ((\<lambda>_. [])(ReadyQ 0 := [1]))" "disk h = disk f0"
      "\<forall>i < INODE_MAX_NUMBER. nodes h i = nodes g i" "cwd h = 0"
      by (rule start_effect [OF dev m0 _ f0(2)]) (use g(6) in blast)+
    have "dir_at dev h (cwd h) b (es @ [(xs, file_type, k)])" using g(2) h(4-6) f0(1) by (simp add: dir_at_def)
    then have "name_parse dev stk (Some nm) h = Some (Some (unat k), h)"
      using name_parse_single [of dev h b "es @ [(xs, file_type, k)]" nm xs "(xs, file_type, k)" stk]
        dev nm lookup_new [OF new] g(3,5) h(5) by simp
    then show ?thesis using h(1-3,5) g(5) init_exception_spec(1) [OF code] by blast
  qed
  then show ?thesis using g(1) by blast
qed

text \<open>Code that the linker puts behind the first page of the kernel.\<close>

definition demo_labels :: labels where
  "demo_labels = \<lparr>jmp_exception_handler_entry = 0x80001000, jmp_TLB_exception_handler_entry = 0x80001400,
     exception_handler_exit = 0x80001800, shell_entry = 0x80002000\<rparr>"

theorem file_survives_restart_witness:
  "\<exists>f g k m' h. do_mkfs ram_dev (\<lambda>_. 7) blank_fs = Some f \<and>
     do_touch ram_dev (\<lambda>_. 7) (Some (buf_of (cs ''notes''))) f = Some g \<and>
     start ram_dev (\<lambda>_. 7) demo_labels ((\<lambda>_. 5), blank_fs\<lparr>disk := disk g, kst := zeroed\<rparr>) = Some (m', h) \<and>
     name_parse ram_dev (\<lambda>_. 7) (Some (buf_of (cs ''notes''))) h = Some (Some k, h)"
proof -
  obtain f where f: "do_mkfs ram_dev (\<lambda>_. 7) blank_fs = Some f" "super_block f = std_super" "cwd f = 0"
    "dir_at ram_dev f 0 0 (dot_dirs 0 0)" "used_bits INODE_BIT_MAP_SIZE (inode_bit_map f) = {0}"
    "meta_on_disk ram_dev f (disk f)" "\<forall>i. inode_wf (nodes f i)"
    by (rule formatted_root) (rule that, assumption+)
  have nm: "cstr (buf_of (cs ''notes'')) 0 (cs ''notes'')" by (rule cstr_buf_of) simp
  have c: "component (cs ''notes'')" "cs ''notes'' \<noteq> []" "length (cs ''notes'') < MAX_NAME_LEN"
    "cs ''notes'' \<notin> fst ` set (dot_dirs 0 0)" "length (dot_dirs 0 0) < DENTRY_NUM"
    by (simp_all add: component_def)
  have u: "used_bits INODE_BIT_MAP_SIZE (inode_bit_map f) \<noteq> {k. unat k < INODE_MAX_NUMBER}"
    "0 \<in> used_bits INODE_BIT_MAP_SIZE (inode_bit_map f)" using f(5) some_unused by auto
  have o: "outside_vectors (jmp_exception_handler_entry demo_labels) 256" "outside_vectors (jmp_TLB_exception_handler_entry demo_labels) 180"
    by (auto simp: outside_vectors_def demo_labels_def unat_word_ariths unat_of_nat)
  have z: "zeroed_kernel zeroed" by (simp add: zeroed_kernel_def zeroed_def queues_wf_empty pick_ok_def demo_state_def)
  from file_survives_restart [OF ram_ok f(2,6,7,3,4) c(5) nm c(1-4) u o, of "\<lambda>_. 7" "\<lambda>_. 7"]
  obtain g k where g: "do_touch ram_dev (\<lambda>_. 7) (Some (buf_of (cs ''notes''))) f = Some g"
    "\<And>m f0. disk f0 = disk g \<Longrightarrow> zeroed_kernel (kst f0) \<Longrightarrow> \<exists>m' h. start ram_dev (\<lambda>_. 7) demo_labels (m, f0) = Some (m', h) \<and>
        name_parse ram_dev (\<lambda>_. 7) (Some (buf_of (cs ''notes''))) h = Some (Some k, h)" by blast
  from g(2) [of "blank_fs\<lparr>disk := disk g, kst := zeroed\<rparr>" "\<lambda>_. 5"] show ?thesis using f(1) g(1) z by auto
qed

end
